(* ===== verification/Prelude.thy ===== *)
theory Prelude
  imports Main
begin

text \<open>
  Shared vocabulary of the development.

  The C++ code reports a broken precondition with \<^verbatim>\<open>ASSERT\<close> (\<^verbatim>\<open>common/trace.hpp\<close>), which
  prints and aborts, and reads vectors and maps with \<^verbatim>\<open>.at()\<close>, which throws. Both are values of
  the type \<open>error\<close> here, and a fallible operation returns \<open>error + 'a\<close>. \<open>bindE\<close> sequences two
  fallible operations, \<open>guardE\<close> is an \<^verbatim>\<open>ASSERT\<close> in front of the rest of a body, \<open>mapE\<close> and
  \<open>foldE\<close> are loops whose bodies can fail.
\<close>

section \<open>Errors as values\<close>

datatype error =
    AssertFail    \<comment> \<open>a failed \<^verbatim>\<open>ASSERT\<close>, \<^verbatim>\<open>ASSERTS\<close> or \<^verbatim>\<open>ASSERTFAIL\<close>\<close>
  | OutOfRange    \<comment> \<open>\<^verbatim>\<open>std::out_of_range\<close> from \<^verbatim>\<open>vector::at\<close>, \<^verbatim>\<open>map::at\<close>\<close>
  | NullDeref     \<comment> \<open>dereference of a null pointer\<close>
  | Undefined     \<comment> \<open>a step the C++ standard leaves undefined, such as an inverted iterator range\<close>

type_synonym 'a result = "error + 'a"

definition bindE :: "'a result \<Rightarrow> ('a \<Rightarrow> 'b result) \<Rightarrow> 'b result" where
  "bindE m f = (case m of Inl e \<Rightarrow> Inl e | Inr x \<Rightarrow> f x)"

definition guardE :: "bool \<Rightarrow> 'a result \<Rightarrow> 'a result" where
  "guardE b r = (if b then r else Inl AssertFail)"

fun mapE :: "('a \<Rightarrow> 'b result) \<Rightarrow> 'a list \<Rightarrow> 'b list result" where
  "mapE f [] = Inr []"
| "mapE f (x # xs) = bindE (f x) (\<lambda>y. bindE (mapE f xs) (\<lambda>ys. Inr (y # ys)))"

fun foldE :: "('a \<Rightarrow> 's \<Rightarrow> 's result) \<Rightarrow> 'a list \<Rightarrow> 's \<Rightarrow> 's result" where
  "foldE f [] s = Inr s"
| "foldE f (x # xs) s = bindE (f x s) (foldE f xs)"

text \<open>\<^verbatim>\<open>v.at(i)\<close> and \<^verbatim>\<open>v.at(i) = x\<close> on a \<^verbatim>\<open>std::vector\<close>.\<close>

definition vec_at :: "'a list \<Rightarrow> nat \<Rightarrow> 'a result" where
  "vec_at xs i = (if i < length xs then Inr (xs ! i) else Inl OutOfRange)"

definition vec_set_at :: "'a list \<Rightarrow> nat \<Rightarrow> 'a \<Rightarrow> 'a list result" where
  "vec_set_at xs i v = (if i < length xs then Inr (xs[i := v]) else Inl OutOfRange)"

named_theorems result_simps \<open>evaluation rules of the error layer\<close>

lemma bindE_simps [simp, result_simps]:
  "bindE (Inl e) f = Inl e"
  "bindE (Inr x) f = f x"
  by (simp_all add: bindE_def)

lemma guardE_simps [simp, result_simps]:
  "guardE True r = r"
  "guardE False r = Inl AssertFail"
  by (simp_all add: guardE_def)

lemma bindE_eq_Inr [simp]: "bindE m f = Inr y \<longleftrightarrow> (\<exists>x. m = Inr x \<and> f x = Inr y)"
  by (cases m) simp_all

lemma bindE_eq_Inl: "bindE m f = Inl e \<longleftrightarrow> m = Inl e \<or> (\<exists>x. m = Inr x \<and> f x = Inl e)"
  by (cases m) auto

lemma guardE_eq_Inr [simp]: "guardE b r = Inr y \<longleftrightarrow> b \<and> r = Inr y"
  by (simp add: guardE_def)

lemma guardE_eq_Inl: "guardE b r = Inl e \<longleftrightarrow> (if b then r = Inl e else e = AssertFail)"
  by (auto simp: guardE_def)

lemma bindE_assoc: "bindE (bindE m f) g = bindE m (\<lambda>x. bindE (f x) g)"
  by (cases m) simp_all

lemma mapE_Inr: "(\<And>x. x \<in> set xs \<Longrightarrow> f x = Inr (g x)) \<Longrightarrow> mapE f xs = Inr (map g xs)"
  by (induction xs) auto

lemma mapE_eq_Inr_length: "mapE f xs = Inr ys \<Longrightarrow> length ys = length xs"
  by (induction xs arbitrary: ys) auto

lemma mapE_eq_Inr_nth: "mapE f xs = Inr ys \<Longrightarrow> i < length xs \<Longrightarrow> f (xs ! i) = Inr (ys ! i)"
  by (induction xs arbitrary: ys i) (auto simp: nth_Cons split: nat.splits)

lemma mapE_cong [fundef_cong]:
  "xs = ys \<Longrightarrow> (\<And>x. x \<in> set ys \<Longrightarrow> f x = g x) \<Longrightarrow> mapE f xs = mapE g ys"
  by (induction xs arbitrary: ys) auto

lemma bindE_cong [fundef_cong]:
  "m = m' \<Longrightarrow> (\<And>x. m' = Inr x \<Longrightarrow> f x = g x) \<Longrightarrow> bindE m f = bindE m' g"
  by (cases m') auto

lemma foldE_append: "foldE f (xs @ ys) s = bindE (foldE f xs s) (foldE f ys)"
  by (induction xs arbitrary: s) (auto simp: bindE_def split: sum.splits)

lemma foldE_pure: "(\<And>x s. x \<in> set xs \<Longrightarrow> f x s = Inr (g x s)) \<Longrightarrow> foldE f xs s = Inr (fold g xs s)"
  by (induction xs arbitrary: s) auto

text \<open>A fallible fold whose every step succeeds from a state satisfying an invariant.\<close>

lemma foldE_invariant:
  assumes "\<And>x s. x \<in> set xs \<Longrightarrow> I s \<Longrightarrow> \<exists>s'. f x s = Inr s' \<and> I s'" and "I s"
  shows "\<exists>s'. foldE f xs s = Inr s' \<and> I s'"
  using assms
proof (induction xs arbitrary: s)
  case (Cons x xs)
  then obtain s' where "f x s = Inr s'" "I s'" by (metis list.set_intros(1))
  with Cons show ?case by auto
qed simp

text \<open>A fallible fold whose invariant records what was done with the elements so far.\<close>

lemma foldE_accumulate:
  assumes "\<And>x D s. x \<in> set xs \<Longrightarrow> I D s \<Longrightarrow> \<exists>s'. f x s = Inr s' \<and> I (D \<union> K x) s'" and "I D s"
  shows "\<exists>s'. foldE f xs s = Inr s' \<and> I (D \<union> (\<Union>x \<in> set xs. K x)) s'"
  using assms
proof (induction xs arbitrary: D s)
  case (Cons x xs)
  obtain s' where s': "f x s = Inr s'" "I (D \<union> K x) s'" using Cons.prems(1)[of x D s] Cons.prems(2) by auto
  obtain s'' where "foldE f xs s' = Inr s''" "I (D \<union> K x \<union> (\<Union>x \<in> set xs. K x)) s''"
    using Cons.IH[OF _ s'(2)] Cons.prems(1) by auto
  with s'(1) show ?case by (auto simp: Un_assoc)
qed simp

lemma vec_at_Inr [simp]: "i < length xs \<Longrightarrow> vec_at xs i = Inr (xs ! i)"
  by (simp add: vec_at_def)

lemma vec_at_eq_Inr: "vec_at xs i = Inr v \<longleftrightarrow> i < length xs \<and> xs ! i = v"
  by (auto simp: vec_at_def)

lemma vec_set_at_Inr [simp]: "i < length xs \<Longrightarrow> vec_set_at xs i v = Inr (xs[i := v])"
  by (simp add: vec_set_at_def)

lemma vec_set_at_eq_Inr: "vec_set_at xs i v = Inr ys \<longleftrightarrow> i < length xs \<and> ys = xs[i := v]"
  by (auto simp: vec_set_at_def)

end
