(* ===== verification/Containers.thy ===== *)
theory Containers
  imports Prelude "HOL-Library.Word"
begin

text \<open>
  The container helpers of \<^verbatim>\<open>common/common.hpp\<close>. A \<^verbatim>\<open>std::set\<close> with key comparison
  \<open>lt\<close> is a list that is strictly sorted by \<open>lt\<close>, a \<^verbatim>\<open>std::map\<close> a list of
  key/value pairs that is strictly sorted by the keys. The comparison is a parameter and only a
  strict weak ordering, as the standard requires: \<^verbatim>\<open>Expression::Relation\<close> and the
  \<^verbatim>\<open>SimpleCompareRelation\<close> of the engine identify distinct elements.
  The standard algorithms (\<^verbatim>\<open>set_union\<close> and its kin) are modelled as the merges they are; the
  locale \<open>strict_weak_order\<close> proves what they compute for every such ordering, and is
  interpreted for ordinary \<open>(<)\<close> and for the pair ordering that the \<^verbatim>\<open>map\<close> overloads build.
\<close>

section \<open>The standard algorithms on sorted ranges\<close>

definition equivalent :: "('a \<Rightarrow> 'a \<Rightarrow> bool) \<Rightarrow> 'a \<Rightarrow> 'a \<Rightarrow> bool" where
  "equivalent lt x y \<longleftrightarrow> \<not> lt x y \<and> \<not> lt y x"

fun set_union :: "('a \<Rightarrow> 'a \<Rightarrow> bool) \<Rightarrow> 'a list \<Rightarrow> 'a list \<Rightarrow> 'a list" where
  "set_union lt [] ys = ys"
| "set_union lt xs [] = xs"
| "set_union lt (x # xs) (y # ys) =
     (if lt x y then x # set_union lt xs (y # ys)
      else if lt y x then y # set_union lt (x # xs) ys
      else x # set_union lt xs ys)"

fun set_intersection :: "('a \<Rightarrow> 'a \<Rightarrow> bool) \<Rightarrow> 'a list \<Rightarrow> 'a list \<Rightarrow> 'a list" where
  "set_intersection lt [] ys = []"
| "set_intersection lt xs [] = []"
| "set_intersection lt (x # xs) (y # ys) =
     (if lt x y then set_intersection lt xs (y # ys)
      else if lt y x then set_intersection lt (x # xs) ys
      else x # set_intersection lt xs ys)"

fun set_difference :: "('a \<Rightarrow> 'a \<Rightarrow> bool) \<Rightarrow> 'a list \<Rightarrow> 'a list \<Rightarrow> 'a list" where
  "set_difference lt [] ys = []"
| "set_difference lt xs [] = xs"
| "set_difference lt (x # xs) (y # ys) =
     (if lt x y then x # set_difference lt xs (y # ys)
      else if lt y x then set_difference lt (x # xs) ys
      else set_difference lt xs ys)"

fun set_symmetric_difference :: "('a \<Rightarrow> 'a \<Rightarrow> bool) \<Rightarrow> 'a list \<Rightarrow> 'a list \<Rightarrow> 'a list" where
  "set_symmetric_difference lt [] ys = ys"
| "set_symmetric_difference lt xs [] = xs"
| "set_symmetric_difference lt (x # xs) (y # ys) =
     (if lt x y then x # set_symmetric_difference lt xs (y # ys)
      else if lt y x then y # set_symmetric_difference lt (x # xs) ys
      else set_symmetric_difference lt xs ys)"

text \<open>\<^verbatim>\<open>std::includes(xs, ys)\<close>: is every element of the second range in the first?\<close>

fun std_includes :: "('a \<Rightarrow> 'a \<Rightarrow> bool) \<Rightarrow> 'a list \<Rightarrow> 'a list \<Rightarrow> bool" where
  "std_includes lt xs [] = True"
| "std_includes lt [] (y # ys) = False"
| "std_includes lt (x # xs) (y # ys) =
     (if lt y x then False
      else if lt x y then std_includes lt xs (y # ys)
      else std_includes lt xs ys)"

text \<open>\<^verbatim>\<open>set::insert\<close>: the container and whether the element went in.\<close>

fun container_insert :: "('a \<Rightarrow> 'a \<Rightarrow> bool) \<Rightarrow> 'a \<Rightarrow> 'a list \<Rightarrow> 'a list \<times> bool" where
  "container_insert lt x [] = ([x], True)"
| "container_insert lt x (y # ys) =
     (if lt x y then (x # y # ys, True)
      else if lt y x then (y # fst (container_insert lt x ys), snd (container_insert lt x ys))
      else (y # ys, False))"

text \<open>\<^verbatim>\<open>set::erase(key)\<close>: the container and how many elements went.\<close>

definition container_erase :: "('a \<Rightarrow> 'a \<Rightarrow> bool) \<Rightarrow> 'a \<Rightarrow> 'a list \<Rightarrow> 'a list \<times> nat" where
  "container_erase lt x ys =
     (filter (\<lambda>y. \<not> equivalent lt x y) ys, length (filter (equivalent lt x) ys))"

text \<open>\<^verbatim>\<open>std::inserter(result, result.begin())\<close> run over a range into an empty container.\<close>

definition insert_range :: "('a \<Rightarrow> 'a \<Rightarrow> bool) \<Rightarrow> 'a list \<Rightarrow> 'a list" where
  "insert_range lt xs = fold (\<lambda>x r. fst (container_insert lt x r)) xs []"

text \<open>\<^verbatim>\<open>m[k] = v\<close> and \<^verbatim>\<open>m.erase(k)\<close> on a map, a key-ordered list of pairs.\<close>

fun map_put :: "'k::linorder \<Rightarrow> 'v \<Rightarrow> ('k \<times> 'v) list \<Rightarrow> ('k \<times> 'v) list" where
  "map_put k v [] = [(k, v)]"
| "map_put k v (p # m) =
     (if k < fst p then (k, v) # p # m
      else if fst p < k then p # map_put k v m
      else (k, v) # m)"

definition map_erase :: "'k \<Rightarrow> ('k \<times> 'v) list \<Rightarrow> ('k \<times> 'v) list" where
  "map_erase k m = filter (\<lambda>p. fst p \<noteq> k) m"

section \<open>The helpers of common.hpp\<close>

definition InsertSolo :: "('a \<Rightarrow> 'a \<Rightarrow> bool) \<Rightarrow> 'a list \<Rightarrow> 'a \<Rightarrow> 'a list result" where
  "InsertSolo lt s p = (let pr = container_insert lt p s in guardE (snd pr) (Inr (fst pr)))"

definition EraseSolo :: "('a \<Rightarrow> 'a \<Rightarrow> bool) \<Rightarrow> 'a list \<Rightarrow> 'a \<Rightarrow> 'a list result" where
  "EraseSolo lt s p = (let pr = container_erase lt p s in guardE (snd pr = 1) (Inr (fst pr)))"

definition EraseSolo_map :: "('k \<times> 'v) list \<Rightarrow> 'k \<Rightarrow> ('k \<times> 'v) list result" where
  "EraseSolo_map m k = guardE (length (filter (\<lambda>p. fst p = k) m) = 1) (Inr (map_erase k m))"

definition UnionOf :: "('a \<Rightarrow> 'a \<Rightarrow> bool) \<Rightarrow> 'a list \<Rightarrow> 'a list \<Rightarrow> 'a list" where
  "UnionOf lt s1 s2 = insert_range lt (set_union lt s1 s2)"

definition IntersectionOf :: "('a \<Rightarrow> 'a \<Rightarrow> bool) \<Rightarrow> 'a list \<Rightarrow> 'a list \<Rightarrow> 'a list" where
  "IntersectionOf lt s1 s2 = insert_range lt (set_intersection lt s1 s2)"

definition DifferenceOf :: "('a \<Rightarrow> 'a \<Rightarrow> bool) \<Rightarrow> 'a list \<Rightarrow> 'a list \<Rightarrow> 'a list" where
  "DifferenceOf lt s1 s2 = insert_range lt (set_difference lt s1 s2)"

definition SymmetricDifferenceOf :: "('a \<Rightarrow> 'a \<Rightarrow> bool) \<Rightarrow> 'a list \<Rightarrow> 'a list \<Rightarrow> 'a list" where
  "SymmetricDifferenceOf lt s1 s2 = insert_range lt (set_symmetric_difference lt s1 s2)"

text \<open>Sizes are \<^verbatim>\<open>size_t\<close>: the sum and the difference below are taken modulo \<open>2 ^ 64\<close>.\<close>

abbreviation size_of :: "'a list \<Rightarrow> 64 word" where
  "size_of xs \<equiv> word_of_nat (length xs)"

definition UnionOfSolo :: "('a \<Rightarrow> 'a \<Rightarrow> bool) \<Rightarrow> 'a list \<Rightarrow> 'a list \<Rightarrow> 'a list result" where
  "UnionOfSolo lt s1 s2 =
     (let result = insert_range lt (set_union lt s1 s2)
      in guardE (size_of result = size_of s1 + size_of s2) (Inr result))"

definition DifferenceOfSolo :: "('a \<Rightarrow> 'a \<Rightarrow> bool) \<Rightarrow> 'a list \<Rightarrow> 'a list \<Rightarrow> 'a list result" where
  "DifferenceOfSolo lt s1 s2 =
     (let result = insert_range lt (set_difference lt s1 s2)
      in guardE (size_of result = size_of s1 - size_of s2) (Inr result))"

definition IsIncludes :: "('a \<Rightarrow> 'a \<Rightarrow> bool) \<Rightarrow> 'a list \<Rightarrow> 'a list \<Rightarrow> bool" where
  "IsIncludes lt c1 c2 = std_includes lt c1 c2"

definition IsEquivalent :: "('a \<Rightarrow> 'a \<Rightarrow> bool) \<Rightarrow> 'a list \<Rightarrow> 'a list \<Rightarrow> bool" where
  "IsEquivalent lt c1 c2 \<longleftrightarrow> std_includes lt c1 c2 \<and> std_includes lt c2 c1"

text \<open>
  The \<^verbatim>\<open>map\<close> overloads compare pairs by their keys only (\<^verbatim>\<open>kc2\<close>). The overload of
  \<^verbatim>\<open>IsIncludes\<close> for maps swaps its arguments.
\<close>

definition kc2 :: "('k \<Rightarrow> 'k \<Rightarrow> bool) \<Rightarrow> 'k \<times> 'v \<Rightarrow> 'k \<times> 'v \<Rightarrow> bool" where
  "kc2 lt p1 p2 \<longleftrightarrow> lt (fst p1) (fst p2)"

definition UnionOf_map :: "('k \<Rightarrow> 'k \<Rightarrow> bool) \<Rightarrow> ('k \<times> 'v) list \<Rightarrow> ('k \<times> 'v) list \<Rightarrow> ('k \<times> 'v) list" where
  "UnionOf_map lt m1 m2 = insert_range (kc2 lt) (set_union (kc2 lt) m1 m2)"

definition UnionOfSolo_map ::
    "('k \<Rightarrow> 'k \<Rightarrow> bool) \<Rightarrow> ('k \<times> 'v) list \<Rightarrow> ('k \<times> 'v) list \<Rightarrow> ('k \<times> 'v) list result" where
  "UnionOfSolo_map lt m1 m2 =
     (let result = insert_range (kc2 lt) (set_union (kc2 lt) m1 m2)
      in guardE (size_of result = size_of m1 + size_of m2) (Inr result))"

definition IntersectionOf_map :: "('k \<Rightarrow> 'k \<Rightarrow> bool) \<Rightarrow> ('k \<times> 'v) list \<Rightarrow> ('k \<times> 'v) list \<Rightarrow> ('k \<times> 'v) list" where
  "IntersectionOf_map lt m1 m2 = insert_range (kc2 lt) (set_intersection (kc2 lt) m1 m2)"

definition DifferenceOf_map :: "('k \<Rightarrow> 'k \<Rightarrow> bool) \<Rightarrow> ('k \<times> 'v) list \<Rightarrow> ('k \<times> 'v) list \<Rightarrow> ('k \<times> 'v) list" where
  "DifferenceOf_map lt m1 m2 = insert_range (kc2 lt) (set_difference (kc2 lt) m1 m2)"

definition DifferenceOfSolo_map ::
    "('k \<Rightarrow> 'k \<Rightarrow> bool) \<Rightarrow> ('k \<times> 'v) list \<Rightarrow> ('k \<times> 'v) list \<Rightarrow> ('k \<times> 'v) list result" where
  "DifferenceOfSolo_map lt m1 m2 =
     (let result = insert_range (kc2 lt) (set_difference (kc2 lt) m1 m2)
      in guardE (size_of result = size_of m1 - size_of m2) (Inr result))"

definition SymmetricDifferenceOf_map ::
    "('k \<Rightarrow> 'k \<Rightarrow> bool) \<Rightarrow> ('k \<times> 'v) list \<Rightarrow> ('k \<times> 'v) list \<Rightarrow> ('k \<times> 'v) list" where
  "SymmetricDifferenceOf_map lt m1 m2 =
     insert_range (kc2 lt) (set_symmetric_difference (kc2 lt) m1 m2)"

definition IsIncludes_map :: "('k \<Rightarrow> 'k \<Rightarrow> bool) \<Rightarrow> ('k \<times> 'v) list \<Rightarrow> ('k \<times> 'v) list \<Rightarrow> bool" where
  "IsIncludes_map lt m1 m2 = std_includes (kc2 lt) m2 m1"

definition KeysToSet :: "('k \<Rightarrow> 'k \<Rightarrow> bool) \<Rightarrow> ('k \<times> 'v) list \<Rightarrow> 'k list" where
  "KeysToSet lt m = insert_range lt (map fst m)"

definition ToSet :: "('a \<Rightarrow> 'a \<Rightarrow> bool) \<Rightarrow> 'a list \<Rightarrow> 'a list" where
  "ToSet lt c = insert_range lt c"

definition ToSetSolo :: "('a \<Rightarrow> 'a \<Rightarrow> bool) \<Rightarrow> 'a list \<Rightarrow> 'a list result" where
  "ToSetSolo lt c = foldE (\<lambda>x s. InsertSolo lt s x) c []"

definition SoloElementOf :: "'a list \<Rightarrow> 'a result" where
  "SoloElementOf c = guardE (length c = 1) (Inr (hd c))"

definition FrontOf :: "'a list \<Rightarrow> 'a result" where
  "FrontOf c = guardE (c \<noteq> []) (Inr (hd c))"

definition BackOf :: "'a list \<Rightarrow> 'a result" where
  "BackOf c = guardE (c \<noteq> []) (Inr (last c))"

definition ToPair :: "'a list \<Rightarrow> ('a \<times> 'a) result" where
  "ToPair c = guardE (length c = 2) (Inr (c ! 0, c ! 1))"

fun zip_loop :: "'a list \<Rightarrow> 'b list \<Rightarrow> ('a \<times> 'b) list" where
  "zip_loop [] ys = []"
| "zip_loop (x # xs) [] = []"
| "zip_loop (x # xs) (y # ys) = (x, y) # zip_loop xs ys"

definition Zip :: "'a list \<Rightarrow> 'b list \<Rightarrow> ('a \<times> 'b) list result" where
  "Zip x0 x1 = guardE (length x0 = length x1) (Inr (zip_loop x0 x1))"

definition ZipToMap :: "('k \<Rightarrow> 'k \<Rightarrow> bool) \<Rightarrow> 'k list \<Rightarrow> 'v list \<Rightarrow> ('k \<times> 'v) list result" where
  "ZipToMap lt keys values =
     guardE (length keys = length values)
       (foldE (\<lambda>kv m. InsertSolo (kc2 lt) m kv) (zip_loop keys values) [])"

definition ScatterInto :: "'a list \<Rightarrow> (nat \<times> 'a) list \<Rightarrow> 'a list result" where
  "ScatterInto dest_vec my_map = foldE (\<lambda>p v. vec_set_at v (fst p) (snd p)) my_map dest_vec"

text \<open>\<^verbatim>\<open>std::lexicographical_compare\<close> and the three-way comparison built from two of them.\<close>

fun lexicographical_compare :: "('a \<Rightarrow> 'a \<Rightarrow> bool) \<Rightarrow> 'a list \<Rightarrow> 'a list \<Rightarrow> bool" where
  "lexicographical_compare lt xs [] = False"
| "lexicographical_compare lt [] (y # ys) = True"
| "lexicographical_compare lt (x # xs) (y # ys) =
     (if lt x y then True else if lt y x then False
      else lexicographical_compare lt xs ys)"

definition LexicographicalCompare :: "('a \<Rightarrow> 'a \<Rightarrow> bool) \<Rightarrow> 'a list \<Rightarrow> 'a list \<Rightarrow> int" where
  "LexicographicalCompare lt c0 c1 =
     (let less_01 = lexicographical_compare lt c0 c1;
          less_10 = lexicographical_compare lt c1 c0
      in of_bool less_01 - of_bool less_10)"

definition STLCompare3Way :: "'a::linorder \<Rightarrow> 'a \<Rightarrow> int" where
  "STLCompare3Way l r = (if l = r then 0 else if l < r then -1 else 1)"

section \<open>The ordering contract\<close>

text \<open>Every merge above recurses on one or both ranges; one induction rule serves them all.\<close>

lemma merge_induct [case_names left_empty right_empty step]:
  assumes "\<And>ys. P [] ys" and "\<And>x xs. P (x # xs) []"
    and "\<And>x xs y ys. P xs (y # ys) \<Longrightarrow> P (x # xs) ys \<Longrightarrow> P xs ys \<Longrightarrow> P (x # xs) (y # ys)"
  shows "P xs ys"
  using assms by induction_schema (pat_completeness, lexicographic_order)

text \<open>
  What \<^verbatim>\<open>std::set\<close> and the algorithms ask of a comparison, and what they then compute. The
  results are stated up to equivalence of elements: \<open>covers xs y\<close> says that some element of
  \<open>xs\<close> is equivalent to \<open>y\<close>.
\<close>

definition covers :: "('a \<Rightarrow> 'a \<Rightarrow> bool) \<Rightarrow> 'a list \<Rightarrow> 'a \<Rightarrow> bool" where
  "covers lt xs y \<longleftrightarrow> (\<exists>x \<in> set xs. equivalent lt x y)"

locale strict_weak_order =
  fixes lt :: "'a \<Rightarrow> 'a \<Rightarrow> bool"
  assumes irrefl: "\<not> lt x x"
    and trans: "lt x y \<Longrightarrow> lt y z \<Longrightarrow> lt x z"
    and neg_trans: "\<not> lt x y \<Longrightarrow> \<not> lt y z \<Longrightarrow> \<not> lt x z"
begin

lemma asym: "lt x y \<Longrightarrow> \<not> lt y x"
  using irrefl trans by blast

lemma equivalent_refl: "equivalent lt x x"
  by (simp add: equivalent_def irrefl)

lemma equivalent_sym: "equivalent lt x y \<longleftrightarrow> equivalent lt y x"
  by (auto simp: equivalent_def)

lemma equivalent_trans: "equivalent lt x y \<Longrightarrow> equivalent lt y z \<Longrightarrow> equivalent lt x z"
  by (auto simp: equivalent_def dest: neg_trans)

lemma lt_equivalent_left: "equivalent lt x y \<Longrightarrow> lt x z \<longleftrightarrow> lt y z"
  by (auto simp: equivalent_def dest: neg_trans trans asym)

lemma lt_equivalent_right: "equivalent lt x y \<Longrightarrow> lt z x \<longleftrightarrow> lt z y"
  unfolding equivalent_def using neg_trans by blast

lemma sorted_not_covers: "lt y x \<Longrightarrow> sorted_wrt lt (x # xs) \<Longrightarrow> \<not> covers lt (x # xs) y"
  by (auto simp: covers_def equivalent_def dest: trans)

lemma covers_Nil [simp]: "\<not> covers lt [] y"
  by (simp add: covers_def)

lemma covers_Cons [simp]: "covers lt (x # xs) y \<longleftrightarrow> equivalent lt x y \<or> covers lt xs y"
  by (auto simp: covers_def)

lemma covers_self: "y \<in> set xs \<Longrightarrow> covers lt xs y"
  by (auto simp: covers_def intro: equivalent_refl)

lemma not_covers_tail: "sorted_wrt lt (x # xs) \<Longrightarrow> equivalent lt x y \<Longrightarrow> \<not> covers lt xs y"
  by (auto simp: covers_def equivalent_def dest: neg_trans)

lemma not_covers_greater: "sorted_wrt lt (x # xs) \<Longrightarrow> lt y x \<Longrightarrow> \<not> covers lt xs y"
  by (auto simp: covers_def equivalent_def dest: trans)

subsection \<open>The algorithms\<close>

text \<open>Comparing the heads of two sorted ranges settles what they cover of each other.\<close>

lemma lt_not_equivalent: "lt x y \<Longrightarrow> \<not> equivalent lt x y \<and> \<not> equivalent lt y x"
  by (simp add: equivalent_def)

lemma below_head_not_covered: "lt y x \<Longrightarrow> sorted_wrt lt (x # xs) \<Longrightarrow> \<not> covers lt (x # xs) y"
  by (auto simp: covers_def equivalent_def dest: trans)

lemma merge_heads [consumes 2, case_names left right both]:
  assumes "sorted_wrt lt (x # xs)" "sorted_wrt lt (y # ys)"
  obtains
    (left) "lt x y" "\<not> lt y x" "\<not> covers lt (y # ys) x" "\<And>z. z \<in> set (y # ys) \<Longrightarrow> lt x z"
  | (right) "lt y x" "\<not> lt x y" "\<not> covers lt (x # xs) y" "\<And>z. z \<in> set (x # xs) \<Longrightarrow> lt y z"
  | (both) "\<not> lt x y" "\<not> lt y x" "equivalent lt x y" "equivalent lt y x"
      "\<And>z. z \<in> set ys \<Longrightarrow> lt x z" "\<And>z. z \<in> set xs \<Longrightarrow> lt y z"
proof -
  consider "lt x y" | "lt y x" | "\<not> lt x y" "\<not> lt y x" by blast
  then show ?thesis
  proof cases
    case 1
    with assms below_head_not_covered[of x y ys] show ?thesis
      by (intro left) (auto dest: trans asym)
  next
    case 2
    with assms below_head_not_covered[of y x xs] show ?thesis
      by (intro right) (auto dest: trans asym)
  next
    case 3
    then have eq: "equivalent lt x y" by (simp add: equivalent_def)
    with 3 assms show ?thesis
      using lt_equivalent_left[OF eq] by (intro both) (auto simp: equivalent_def)
  qed
qed

lemma sorted_set_union:
  "sorted_wrt lt xs \<Longrightarrow> sorted_wrt lt ys \<Longrightarrow>
     sorted_wrt lt (set_union lt xs ys) \<and> set (set_union lt xs ys) \<subseteq> set xs \<union> set ys"
proof (induction xs ys rule: merge_induct)
  case (step x xs y ys)
  from step.prems show ?case
  proof (cases rule: merge_heads)
    case left
    with step have "sorted_wrt lt (set_union lt xs (y # ys))"
      and "set (set_union lt xs (y # ys)) \<subseteq> set xs \<union> set (y # ys)" by auto
    with left step.prems show ?thesis by auto
  next
    case right
    with step have "sorted_wrt lt (set_union lt (x # xs) ys)"
      and "set (set_union lt (x # xs) ys) \<subseteq> set (x # xs) \<union> set ys" by auto
    with right step.prems show ?thesis by auto
  next
    case both
    with step have "sorted_wrt lt (set_union lt xs ys)"
      and "set (set_union lt xs ys) \<subseteq> set xs \<union> set ys" by auto
    with both step.prems show ?thesis by auto
  qed
qed auto

lemma mem_set_union:
  "sorted_wrt lt xs \<Longrightarrow> sorted_wrt lt ys \<Longrightarrow>
     z \<in> set (set_union lt xs ys) \<longleftrightarrow> z \<in> set xs \<or> z \<in> set ys \<and> \<not> covers lt xs z"
proof (induction xs ys rule: merge_induct)
  case (step x xs y ys)
  from step.prems show ?case
    by (cases rule: merge_heads) (use step lt_not_equivalent in auto)
qed auto

lemma sorted_set_intersection:
  "sorted_wrt lt xs \<Longrightarrow> sorted_wrt lt ys \<Longrightarrow>
     sorted_wrt lt (set_intersection lt xs ys) \<and> set (set_intersection lt xs ys) \<subseteq> set xs"
  by (induction xs ys rule: merge_induct) auto

lemma mem_set_intersection:
  "sorted_wrt lt xs \<Longrightarrow> sorted_wrt lt ys \<Longrightarrow>
     z \<in> set (set_intersection lt xs ys) \<longleftrightarrow> z \<in> set xs \<and> covers lt ys z"
proof (induction xs ys rule: merge_induct)
  case (step x xs y ys)
  from step.prems show ?case
    by (cases rule: merge_heads) (use step lt_not_equivalent in auto)
qed auto

lemma sorted_set_difference:
  "sorted_wrt lt xs \<Longrightarrow> sorted_wrt lt ys \<Longrightarrow>
     sorted_wrt lt (set_difference lt xs ys) \<and> set (set_difference lt xs ys) \<subseteq> set xs"
  by (induction xs ys rule: merge_induct) auto

lemma mem_set_difference:
  "sorted_wrt lt xs \<Longrightarrow> sorted_wrt lt ys \<Longrightarrow>
     z \<in> set (set_difference lt xs ys) \<longleftrightarrow> z \<in> set xs \<and> \<not> covers lt ys z"
proof (induction xs ys rule: merge_induct)
  case (step x xs y ys)
  from step.prems show ?case
    by (cases rule: merge_heads) (use step lt_not_equivalent in auto)
qed auto

lemma sorted_set_symmetric_difference:
  "sorted_wrt lt xs \<Longrightarrow> sorted_wrt lt ys \<Longrightarrow>
     sorted_wrt lt (set_symmetric_difference lt xs ys)
   \<and> set (set_symmetric_difference lt xs ys) \<subseteq> set xs \<union> set ys"
proof (induction xs ys rule: merge_induct)
  case (step x xs y ys)
  from step.prems show ?case
  proof (cases rule: merge_heads)
    case left
    with step have "set (set_symmetric_difference lt xs (y # ys)) \<subseteq> set xs \<union> set (y # ys)" by auto
    with left step show ?thesis by auto
  next
    case right
    with step have "set (set_symmetric_difference lt (x # xs) ys) \<subseteq> set (x # xs) \<union> set ys" by auto
    with right step show ?thesis by auto
  next
    case both
    with step show ?thesis by auto
  qed
qed auto

lemma mem_set_symmetric_difference:
  "sorted_wrt lt xs \<Longrightarrow> sorted_wrt lt ys \<Longrightarrow>
     z \<in> set (set_symmetric_difference lt xs ys) \<longleftrightarrow>
       z \<in> set xs \<and> \<not> covers lt ys z \<or> z \<in> set ys \<and> \<not> covers lt xs z"
proof (induction xs ys rule: merge_induct)
  case (step x xs y ys)
  from step.prems show ?case
    by (cases rule: merge_heads) (use step lt_not_equivalent in auto)
qed auto

lemma includes_iff:
  "sorted_wrt lt xs \<Longrightarrow> sorted_wrt lt ys \<Longrightarrow>
     std_includes lt xs ys \<longleftrightarrow> (\<forall>y \<in> set ys. covers lt xs y)"
proof (induction xs ys rule: merge_induct)
  case (left_empty ys)
  then show ?case by (cases ys) auto
next
  case (step x xs y ys)
  from step.prems show ?case
    by (cases rule: merge_heads) (use step lt_not_equivalent in auto)
qed auto

lemma mem_container_insert:
  "set (fst (container_insert lt x ys)) \<subseteq> insert x (set ys)"
  by (induction ys) auto

lemma container_insert_props:
  "sorted_wrt lt ys \<Longrightarrow> sorted_wrt lt (fst (container_insert lt x ys))
     \<and> (snd (container_insert lt x ys) \<longleftrightarrow> \<not> covers lt ys x)
     \<and> set (fst (container_insert lt x ys)) = (if covers lt ys x then set ys else insert x (set ys))"
proof (induction ys)
  case (Cons y ys)
  show ?case
  proof (cases "lt x y")
    case True
    with Cons.prems below_head_not_covered[of x y ys] show ?thesis
      by (auto dest: trans)
  next
    case False
    with Cons mem_container_insert[of x ys] show ?thesis
      by (auto simp: equivalent_def insert_commute split: if_splits)
  qed
qed auto

lemma container_insert_last: "sorted_wrt lt (ys @ [x]) \<Longrightarrow> container_insert lt x ys = (ys @ [x], True)"
  by (induction ys) (auto dest: asym)

lemma insert_range_append:
  "sorted_wrt lt (r @ xs) \<Longrightarrow> fold (\<lambda>x r. fst (container_insert lt x r)) xs r = r @ xs"
proof (induction xs arbitrary: r)
  case (Cons x xs)
  then have "sorted_wrt lt (r @ [x])" and "sorted_wrt lt ((r @ [x]) @ xs)"
    by (auto simp: sorted_wrt_append)
  with Cons.IH[of "r @ [x]"] show ?case by (simp add: container_insert_last)
qed simp

lemma insert_range_sorted: "sorted_wrt lt xs \<Longrightarrow> insert_range lt xs = xs"
  using insert_range_append[of "[]" xs] by (simp add: insert_range_def)

lemma sorted_insert_range: "sorted_wrt lt (insert_range lt xs)"
proof -
  have "sorted_wrt lt r \<Longrightarrow> sorted_wrt lt (fold (\<lambda>x r. fst (container_insert lt x r)) xs r)" for r
    by (induction xs arbitrary: r) (auto simp: container_insert_props)
  then show ?thesis by (simp add: insert_range_def)
qed

text \<open>So every helper returns exactly what the algorithm writes.\<close>

lemma helpers_eq:
  assumes "sorted_wrt lt s1" "sorted_wrt lt s2"
  shows "UnionOf lt s1 s2 = set_union lt s1 s2"
    and "IntersectionOf lt s1 s2 = set_intersection lt s1 s2"
    and "DifferenceOf lt s1 s2 = set_difference lt s1 s2"
    and "SymmetricDifferenceOf lt s1 s2 = set_symmetric_difference lt s1 s2"
  using assms sorted_set_union sorted_set_intersection sorted_set_difference
    sorted_set_symmetric_difference
  by (simp_all add: UnionOf_def IntersectionOf_def DifferenceOf_def SymmetricDifferenceOf_def
      insert_range_sorted)

text \<open>A strictly sorted range meets each equivalence class at most once.\<close>

lemma sorted_filter_equivalent: "sorted_wrt lt ys \<Longrightarrow> length (filter (equivalent lt x) ys) = of_bool (covers lt ys x)"
proof (induction ys)
  case (Cons y ys)
  show ?case
  proof (cases "equivalent lt x y")
    case True
    then have "equivalent lt y x" using equivalent_sym by blast
    with Cons True not_covers_tail[of y ys x] show ?thesis by auto
  next
    case False
    then have "\<not> equivalent lt y x" using equivalent_sym by blast
    with Cons False show ?thesis by auto
  qed
qed (simp add: covers_def)

lemma EraseSolo_iff:
  "sorted_wrt lt s \<Longrightarrow> EraseSolo lt s p =
     (if covers lt s p then Inr (filter (\<lambda>y. \<not> equivalent lt p y) s) else Inl AssertFail)"
  by (simp add: EraseSolo_def container_erase_def Let_def sorted_filter_equivalent)

lemma InsertSolo_iff:
  "sorted_wrt lt s \<Longrightarrow> InsertSolo lt s p =
     (if covers lt s p then Inl AssertFail else Inr (fst (container_insert lt p s)))"
  by (simp add: InsertSolo_def Let_def container_insert_props)

lemma keyed: "strict_weak_order (kc2 lt :: 'a \<times> 'v \<Rightarrow> 'a \<times> 'v \<Rightarrow> bool)"
proof
  fix x y z :: "'a \<times> 'v"
  show "\<not> kc2 lt x x" by (simp add: kc2_def irrefl)
  show "kc2 lt x y \<Longrightarrow> kc2 lt y z \<Longrightarrow> kc2 lt x z" by (auto simp: kc2_def dest: trans)
  show "\<not> kc2 lt x y \<Longrightarrow> \<not> kc2 lt y z \<Longrightarrow> \<not> kc2 lt x z" by (auto simp: kc2_def dest: neg_trans)
qed

subsection \<open>Lexicographical comparison\<close>

lemma lexicographical_compare_asym:
  "lexicographical_compare lt xs ys \<Longrightarrow> \<not> lexicographical_compare lt ys xs"
  by (induction xs ys rule: merge_induct) (auto dest: asym split: if_splits)

lemma lexicographical_compare_total:
  "\<not> lexicographical_compare lt xs ys \<Longrightarrow> \<not> lexicographical_compare lt ys xs \<Longrightarrow>
     list_all2 (equivalent lt) xs ys"
proof (induction xs ys rule: merge_induct)
  case (left_empty ys)
  then show ?case by (cases ys) auto
qed (auto simp: equivalent_def split: if_splits)

lemma LexicographicalCompare_zero:
  "LexicographicalCompare lt xs ys = 0 \<longleftrightarrow> list_all2 (equivalent lt) xs ys"
proof
  show "LexicographicalCompare lt xs ys = 0 \<Longrightarrow> list_all2 (equivalent lt) xs ys"
    using lexicographical_compare_total[of xs ys] lexicographical_compare_asym[of xs ys]
    by (auto simp: LexicographicalCompare_def Let_def of_bool_eq_iff)
  show "list_all2 (equivalent lt) xs ys \<Longrightarrow> LexicographicalCompare lt xs ys = 0"
    by (induction rule: list_all2_induct) (auto simp: LexicographicalCompare_def equivalent_def)
qed

lemma lexicographic: "strict_weak_order (lexicographical_compare lt)"
proof
  fix x y z :: "'a list"
  show "\<not> lexicographical_compare lt x x" using lexicographical_compare_asym by blast
  show "lexicographical_compare lt x y \<Longrightarrow> lexicographical_compare lt y z \<Longrightarrow> lexicographical_compare lt x z"
  proof (induction x arbitrary: y z)
    case Nil
    then show ?case by (cases y; cases z) auto
  next
    case (Cons a xs)
    then show ?case
      by (cases y; cases z) (auto split: if_splits dest: trans neg_trans asym)
  qed
  show "\<not> lexicographical_compare lt x y \<Longrightarrow> \<not> lexicographical_compare lt y z \<Longrightarrow> \<not> lexicographical_compare lt x z"
  proof (induction x arbitrary: y z)
    case Nil
    then show ?case by (cases y; cases z) auto
  next
    case (Cons a xs)
    then show ?case
      by (cases y; cases z) (auto split: if_splits dest: trans neg_trans asym)
  qed
qed

end

section \<open>The orderings the code uses\<close>

interpretation lin: strict_weak_order "(<) :: 'a::linorder \<Rightarrow> 'a \<Rightarrow> bool"
  by unfold_locales auto

interpretation keyed: strict_weak_order "kc2 (<) :: 'k::linorder \<times> 'v \<Rightarrow> 'k \<times> 'v \<Rightarrow> bool"
  by (rule lin.keyed)

interpretation lex: strict_weak_order "lexicographical_compare (<) :: 'a::linorder list \<Rightarrow> 'a list \<Rightarrow> bool"
  by (rule lin.lexicographic)

abbreviation sorted_set :: "'a::linorder list \<Rightarrow> bool" where
  "sorted_set \<equiv> sorted_wrt (<)"

abbreviation sorted_map :: "('k::linorder \<times> 'v) list \<Rightarrow> bool" where
  "sorted_map \<equiv> sorted_wrt (kc2 (<))"

lemma equivalent_lin [simp]: "equivalent (<) x y \<longleftrightarrow> x = (y :: 'a::linorder)"
  by (auto simp: equivalent_def)

lemma equivalent_keyed [simp]: "equivalent (kc2 (<)) p q \<longleftrightarrow> fst p = (fst q :: 'k::linorder)"
  by (auto simp: equivalent_def kc2_def)

lemma covers_lin [simp]: "covers (<) xs y \<longleftrightarrow> y \<in> set (xs :: 'a::linorder list)"
  by (auto simp: covers_def)

lemma covers_keyed [simp]: "covers (kc2 (<)) ps q \<longleftrightarrow> fst q \<in> fst ` set (ps :: ('k::linorder \<times> 'v) list)"
  unfolding covers_def equivalent_keyed image_iff by (rule bex_cong) auto

lemma sorted_map_keys: "sorted_map m \<longleftrightarrow> sorted_set (map fst m)"
  by (simp add: sorted_wrt_map kc2_def[abs_def])

lemma sorted_set_distinct: "sorted_set xs \<Longrightarrow> distinct xs"
  by (simp add: strict_sorted_iff)

lemma sorted_map_distinct: "sorted_map m \<Longrightarrow> distinct (map fst m)"
  by (simp add: sorted_map_keys strict_sorted_iff)

lemma map_of_sorted_mem: "sorted_map m \<Longrightarrow> map_of m k = Some v \<longleftrightarrow> (k, v) \<in> set m"
  by (simp add: sorted_map_distinct)

lemma sorted_map_unique:
  assumes "sorted_map m" "sorted_map m'" "set m = set m'" shows "m = m'"
proof -
  have keys: "map fst m = map fst m'"
    using assms by (metis sorted_map_keys strict_sorted_equal set_map)
  then have len: "length m = length m'" by (metis length_map)
  have "m ! i = m' ! i" if "i < length m" for i
  proof (rule prod_eqI)
    show k: "fst (m ! i) = fst (m' ! i)" using keys that len by (metis nth_map)
    have "(fst (m ! i), snd (m ! i)) \<in> set m'" "(fst (m ! i), snd (m' ! i)) \<in> set m'"
      using that len assms(3) k by (metis nth_mem prod.collapse)+
    then show "snd (m ! i) = snd (m' ! i)"
      using sorted_map_distinct[OF assms(2)] by (metis eq_key_imp_eq_value)
  qed
  with len show ?thesis by (rule nth_equalityI)
qed

lemmas set_algos = lin.helpers_eq lin.mem_set_union lin.mem_set_intersection lin.mem_set_difference
  lin.mem_set_symmetric_difference lin.sorted_set_union lin.sorted_set_intersection
  lin.sorted_set_difference lin.sorted_set_symmetric_difference

text \<open>The four set operations, on sets ordered by \<open>(<)\<close>.\<close>

lemma sorted_map_put [simp]: "sorted_map m \<Longrightarrow> sorted_map (map_put k v m)"
  and map_of_map_put [simp]: "sorted_map m \<Longrightarrow> map_of (map_put k v m) = (map_of m)(k \<mapsto> v)"
proof -
  have fst_put: "fst ` set (map_put k v m) = insert k (fst ` set m)" for m :: "('a \<times> 'b) list"
    by (induction m) auto
  show "sorted_map m \<Longrightarrow> sorted_map (map_put k v m)"
  proof (induction m)
    case (Cons p m)
    have "kc2 (<) p q" if "q \<in> set (map_put k v m)" "fst p < k" for q
      using that fst_put[of m] Cons.prems by (force simp: kc2_def)
    with Cons show ?case by (auto simp: kc2_def)
  qed simp
  show "sorted_map m \<Longrightarrow> map_of (map_put k v m) = (map_of m)(k \<mapsto> v)"
    by (induction m) (auto simp: fun_eq_iff)
qed

lemma sorted_map_erase [simp]: "sorted_map m \<Longrightarrow> sorted_map (map_erase k m)"
  by (simp add: map_erase_def sorted_wrt_filter)

lemma map_of_map_erase [simp]: "map_of (map_erase k m) = (map_of m)(k := None)"
  by (induction m) (auto simp: map_erase_def fun_eq_iff)

lemma sorted_map_eqI: "sorted_map m \<Longrightarrow> sorted_map m' \<Longrightarrow> map_of m = map_of m' \<Longrightarrow> m = m'"
  by (rule sorted_map_unique) (auto simp: map_of_sorted_mem[symmetric])

lemma map_erase_put:
  "sorted_map m \<Longrightarrow> map_of m k = None \<Longrightarrow> map_erase k (map_put k v m) = m"
  by (rule sorted_map_eqI) auto

lemma map_put_put: "sorted_map m \<Longrightarrow> map_put k v (map_put k w m) = map_put k v m"
  by (rule sorted_map_eqI) auto

lemma EraseSolo_map_eq:
  "sorted_map m \<Longrightarrow> EraseSolo_map m k = guardE (map_of m k \<noteq> None) (Inr (map_erase k m))"
proof -
  assume "sorted_map m"
  then have "distinct (map fst m)" by (rule sorted_map_distinct)
  then have "length (filter (\<lambda>p. fst p = k) m) = of_bool (map_of m k \<noteq> None)"
    by (induction m) (auto simp: filter_empty_conv map_of_eq_None_iff image_iff)
  then show ?thesis by (simp add: EraseSolo_map_def)
qed

lemma UnionOf_lin [simp]:
  assumes "sorted_set s1" "sorted_set s2"
  shows "sorted_set (UnionOf (<) s1 s2)" and "set (UnionOf (<) s1 s2) = set s1 \<union> set s2"
  using assms by (auto simp: set_algos)

lemma IntersectionOf_lin [simp]:
  assumes "sorted_set s1" "sorted_set s2"
  shows "sorted_set (IntersectionOf (<) s1 s2)" and "set (IntersectionOf (<) s1 s2) = set s1 \<inter> set s2"
  using assms by (auto simp: set_algos)

lemma DifferenceOf_lin [simp]:
  assumes "sorted_set s1" "sorted_set s2"
  shows "sorted_set (DifferenceOf (<) s1 s2)" and "set (DifferenceOf (<) s1 s2) = set s1 - set s2"
  using assms by (auto simp: set_algos)

lemma SymmetricDifferenceOf_lin [simp]:
  assumes "sorted_set s1" "sorted_set s2"
  shows "sorted_set (SymmetricDifferenceOf (<) s1 s2)"
    and "set (SymmetricDifferenceOf (<) s1 s2) = (set s1 - set s2) \<union> (set s2 - set s1)"
  using assms by (auto simp: set_algos)

section \<open>Map overloads\<close>

lemma map_helpers_eq:
  assumes "sorted_map m1" "sorted_map m2"
  shows "UnionOf_map (<) m1 m2 = set_union (kc2 (<)) m1 m2"
    and "IntersectionOf_map (<) m1 m2 = set_intersection (kc2 (<)) m1 m2"
    and "DifferenceOf_map (<) m1 m2 = set_difference (kc2 (<)) m1 m2"
    and "SymmetricDifferenceOf_map (<) m1 m2 = set_symmetric_difference (kc2 (<)) m1 m2"
  using keyed.helpers_eq[OF assms]
  by (simp_all add: UnionOf_map_def IntersectionOf_map_def DifferenceOf_map_def
      SymmetricDifferenceOf_map_def UnionOf_def IntersectionOf_def DifferenceOf_def
      SymmetricDifferenceOf_def)

lemma map_of_by_mem:
  assumes "sorted_map m" and "\<And>k v. (k, v) \<in> set m \<longleftrightarrow> f k = Some v"
  shows "map_of m = f"
proof
  fix k
  show "map_of m k = f k"
    using assms(2) map_of_sorted_mem[OF assms(1), of k]
    by (cases "f k"; cases "map_of m k") auto
qed

lemma UnionOf_map_lookup:
  assumes "sorted_map m1" "sorted_map m2"
  shows "sorted_map (UnionOf_map (<) m1 m2)"
    and "map_of (UnionOf_map (<) m1 m2) = map_of m2 ++ map_of m1"
proof -
  show s: "sorted_map (UnionOf_map (<) m1 m2)"
    using keyed.sorted_set_union[OF assms] by (simp add: map_helpers_eq[OF assms])
  show "map_of (UnionOf_map (<) m1 m2) = map_of m2 ++ map_of m1"
  proof (rule map_of_by_mem[OF s])
    fix k v
    show "(k, v) \<in> set (UnionOf_map (<) m1 m2) \<longleftrightarrow> (map_of m2 ++ map_of m1) k = Some v"
      using assms
      by (auto simp: map_helpers_eq keyed.mem_set_union map_add_Some_iff map_of_sorted_mem
          map_of_eq_None_iff)
  qed
qed

lemma DifferenceOf_map_lookup:
  assumes "sorted_map m1" "sorted_map m2"
  shows "sorted_map (DifferenceOf_map (<) m1 m2)"
    and "map_of (DifferenceOf_map (<) m1 m2) = map_of m1 |` (- dom (map_of m2))"
proof -
  show s: "sorted_map (DifferenceOf_map (<) m1 m2)"
    using keyed.sorted_set_difference[OF assms] by (simp add: map_helpers_eq[OF assms])
  show "map_of (DifferenceOf_map (<) m1 m2) = map_of m1 |` (- dom (map_of m2))"
  proof (rule map_of_by_mem[OF s])
    fix k v
    show "(k, v) \<in> set (DifferenceOf_map (<) m1 m2) \<longleftrightarrow>
        (map_of m1 |` (- dom (map_of m2))) k = Some v"
      using assms
      by (auto simp: map_helpers_eq keyed.mem_set_difference restrict_map_def map_of_sorted_mem
          dom_map_of_conv_image_fst)
  qed
qed

lemma IntersectionOf_map_lookup:
  assumes "sorted_map m1" "sorted_map m2"
  shows "sorted_map (IntersectionOf_map (<) m1 m2)"
    and "map_of (IntersectionOf_map (<) m1 m2) = map_of m1 |` dom (map_of m2)"
proof -
  show s: "sorted_map (IntersectionOf_map (<) m1 m2)"
    using keyed.sorted_set_intersection[OF assms] by (simp add: map_helpers_eq[OF assms])
  show "map_of (IntersectionOf_map (<) m1 m2) = map_of m1 |` dom (map_of m2)"
  proof (rule map_of_by_mem[OF s])
    fix k v
    show "(k, v) \<in> set (IntersectionOf_map (<) m1 m2) \<longleftrightarrow>
        (map_of m1 |` dom (map_of m2)) k = Some v"
      using assms
      by (auto simp: map_helpers_eq keyed.mem_set_intersection restrict_map_def map_of_sorted_mem
          dom_map_of_conv_image_fst)
  qed
qed

lemma IsIncludes_map_keys:
  assumes "sorted_map m1" "sorted_map m2"
  shows "IsIncludes_map (<) m1 m2 \<longleftrightarrow> dom (map_of m1) \<subseteq> dom (map_of m2)"
  using keyed.includes_iff[OF assms(2,1)]
  by (auto simp: IsIncludes_map_def dom_map_of_conv_image_fst)

section \<open>The solo variants\<close>

lemma size_of_diff_eq:
  assumes "length xs < 2 ^ 63" "length ys < 2 ^ 63" "length rs \<le> length xs"
  shows "size_of rs = size_of xs - size_of ys \<longleftrightarrow> length rs + length ys = length xs"
proof -
  have "size_of rs = size_of xs - size_of ys \<longleftrightarrow> size_of rs + size_of ys = size_of xs"
    by (auto simp: algebra_simps)
  also have "\<dots> \<longleftrightarrow> (word_of_nat (length rs + length ys) :: 64 word) = word_of_nat (length xs)"
    by simp
  also have "\<dots> \<longleftrightarrow> length rs + length ys = length xs"
    using assms by (simp add: word_of_nat_eq_iff take_bit_nat_eq_self del: of_nat_add)
  finally show ?thesis .
qed

lemma size_of_sum_eq:
  assumes "length xs < 2 ^ 63" "length ys < 2 ^ 63" "length rs < 2 ^ 64"
  shows "size_of rs = size_of xs + size_of ys \<longleftrightarrow> length rs = length xs + length ys"
proof -
  have "size_of rs = size_of xs + size_of ys \<longleftrightarrow>
      (word_of_nat (length rs) :: 64 word) = word_of_nat (length xs + length ys)"
    by simp
  also have "\<dots> \<longleftrightarrow> length rs = length xs + length ys"
    using assms by (simp add: word_of_nat_eq_iff take_bit_nat_eq_self del: of_nat_add)
  finally show ?thesis .
qed

lemma length_sorted_map: "sorted_map m \<Longrightarrow> length m = card (dom (map_of m))"
  by (metis sorted_map_distinct distinct_card length_map set_map dom_map_of_conv_image_fst)

lemma length_sorted_set: "sorted_set xs \<Longrightarrow> length xs = card (set xs)"
  by (simp add: distinct_card sorted_set_distinct)

lemma DifferenceOfSolo_map_eq:
  assumes "sorted_map m1" "sorted_map m2" "length m1 < 2 ^ 63" "length m2 < 2 ^ 63"
  shows "DifferenceOfSolo_map (<) m1 m2 =
    (if dom (map_of m2) \<subseteq> dom (map_of m1) then Inr (DifferenceOf_map (<) m1 m2) else Inl AssertFail)"
proof -
  let ?r = "DifferenceOf_map (<) m1 m2"
  let ?D1 = "dom (map_of m1)" and ?D2 = "dom (map_of m2)"
  have "length ?r = card (?D1 - ?D2)"
    using DifferenceOf_map_lookup[OF assms(1,2)] length_sorted_map[of ?r] by (simp add: Diff_eq Int_commute)
  moreover have "card (?D1 - ?D2) + card (?D1 \<inter> ?D2) = card ?D1"
    by (simp add: card_Diff_subset_Int finite_dom_map_of card_mono)
  moreover have "card (?D1 \<inter> ?D2) = card ?D2 \<longleftrightarrow> ?D2 \<subseteq> ?D1"
    by (metis Int_lower2 card_subset_eq finite_dom_map_of inf.absorb_iff2)
  ultimately have "length ?r + length m2 = length m1 \<longleftrightarrow> ?D2 \<subseteq> ?D1" and "length ?r \<le> length m1"
    using length_sorted_map[OF assms(1)] length_sorted_map[OF assms(2)] by linarith+
  with size_of_diff_eq[OF assms(3,4), of ?r] show ?thesis
    by (simp add: DifferenceOfSolo_map_def DifferenceOf_map_def Let_def guardE_def)
qed

lemma UnionOfSolo_eq:
  assumes "sorted_set s1" "sorted_set s2" "length s1 < 2 ^ 63" "length s2 < 2 ^ 63"
  shows "UnionOfSolo (<) s1 s2 =
    (if set s1 \<inter> set s2 = {} then Inr (UnionOf (<) s1 s2) else Inl AssertFail)"
proof -
  let ?r = "UnionOf (<) s1 s2"
  have r: "length ?r = card (set s1 \<union> set s2)"
    using assms(1,2) by (simp add: length_sorted_set)
  have c: "card (set s1 \<union> set s2) + card (set s1 \<inter> set s2) = length s1 + length s2"
    using card_Un_Int[of "set s1" "set s2"] assms(1,2) by (simp add: length_sorted_set)
  then have "length ?r = length s1 + length s2 \<longleftrightarrow> set s1 \<inter> set s2 = {}"
    using r by (auto simp: card_eq_0_iff)
  moreover have "length ?r < 2 ^ 64" using r c assms(3,4) by simp
  ultimately show ?thesis
    using r c size_of_sum_eq[OF assms(3,4), of ?r]
    by (simp add: UnionOfSolo_def UnionOf_def Let_def guardE_def)
qed

section \<open>Zipping and scattering\<close>

lemma zip_loop_eq: "zip_loop xs ys = zip xs ys"
  by (induction xs ys rule: zip_loop.induct) auto

lemma InsertSolo_keyed_foldE:
  assumes "sorted_map m" "distinct (map fst kvs)" "fst ` set kvs \<inter> fst ` set m = {}"
  shows "\<exists>r. foldE (\<lambda>kv m. InsertSolo (kc2 (<)) m kv) kvs m = Inr r
           \<and> sorted_map r \<and> set r = set m \<union> set kvs"
  using assms
proof (induction kvs arbitrary: m)
  case (Cons kv kvs)
  let ?m = "fst (container_insert (kc2 (<)) kv m)"
  have "\<not> covers (kc2 (<)) m kv" using Cons.prems by auto
  then have m: "sorted_map ?m" "set ?m = insert kv (set m)" and "InsertSolo (kc2 (<)) m kv = Inr ?m"
    using keyed.container_insert_props[OF Cons.prems(1), of kv] Cons.prems(1)
    by (auto simp: keyed.InsertSolo_iff)
  moreover have "fst ` set kvs \<inter> fst ` set ?m = {}"
    using Cons.prems m by auto
  ultimately show ?case
    using Cons.IH[of ?m] Cons.prems by auto
qed auto

lemma ZipToMap_lookup:
  assumes "distinct keys" "length keys = length vals"
  shows "\<exists>m. ZipToMap (<) keys vals = Inr m \<and> sorted_map m \<and> set m = set (zip keys vals)
           \<and> map_of m = map_of (zip keys vals)"
proof -
  obtain m where m: "ZipToMap (<) keys vals = Inr m" "sorted_map m" "set m = set (zip keys vals)"
    using InsertSolo_keyed_foldE[of "[]" "zip keys vals"] assms
    by (auto simp: ZipToMap_def zip_loop_eq)
  moreover have "map_of m = map_of (zip keys vals)"
    using m sorted_map_distinct[of m] assms map_of_eqI[of m "zip keys vals"]
    by (metis map_fst_zip map_of_eq_Some_iff map_of_by_mem)
  ultimately show ?thesis by blast
qed

lemma ZipToMap_mismatch: "length keys \<noteq> length vals \<Longrightarrow> ZipToMap lt keys vals = Inl AssertFail"
  by (simp add: ZipToMap_def)

lemma ScatterInto_nth:
  assumes "\<forall>k \<in> fst ` set m. k < length v" "distinct (map fst m)"
  shows "\<exists>w. ScatterInto v m = Inr w \<and> length w = length v
    \<and> (\<forall>i < length v. w ! i = (case map_of m i of Some x \<Rightarrow> x | None \<Rightarrow> v ! i))"
  using assms unfolding ScatterInto_def
proof (induction m arbitrary: v)
  case (Cons p m)
  then show ?case
    using Cons.IH[of "v[fst p := snd p]"]
    by (auto simp: nth_list_update map_of_eq_None_iff split: option.splits)
qed auto

lemma ScatterInto_out_of_range:
  "k \<in> fst ` set m \<Longrightarrow> length v \<le> k \<Longrightarrow> ScatterInto v m = Inl OutOfRange"
  unfolding ScatterInto_def
  by (induction m arbitrary: v) (force simp: vec_set_at_def)+

section \<open>Properties\<close>

text \<open>On sets in their invariant (strictly sorted), \<^verbatim>\<open>UnionOf\<close>, \<^verbatim>\<open>IntersectionOf\<close>,
  \<^verbatim>\<open>DifferenceOf\<close> and \<^verbatim>\<open>SymmetricDifferenceOf\<close> return sets in the same invariant that hold
  exactly the union, intersection, difference and symmetric difference of their arguments.\<close>

theorem set_helpers_correct:
  fixes s1 s2 :: "'a::linorder list"
  assumes "sorted_set s1" "sorted_set s2"
  shows "sorted_set (UnionOf (<) s1 s2) \<and> set (UnionOf (<) s1 s2) = set s1 \<union> set s2
    \<and> sorted_set (IntersectionOf (<) s1 s2) \<and> set (IntersectionOf (<) s1 s2) = set s1 \<inter> set s2
    \<and> sorted_set (DifferenceOf (<) s1 s2) \<and> set (DifferenceOf (<) s1 s2) = set s1 - set s2
    \<and> sorted_set (SymmetricDifferenceOf (<) s1 s2)
    \<and> set (SymmetricDifferenceOf (<) s1 s2) = (set s1 - set s2) \<union> (set s2 - set s1)"
  using assms by simp

theorem set_helpers_correct_witness:
  "sorted_set [1, 3, 5 :: nat] \<and> sorted_set [2, 3 :: nat]
    \<and> set (UnionOf (<) [1, 3, 5 :: nat] [2, 3]) = {1, 2, 3, 5}
    \<and> set (DifferenceOf (<) [1, 3, 5 :: nat] [2, 3]) = {1, 5}"
proof -
  have h: "sorted_set [1, 3, 5 :: nat]" "sorted_set [2, 3 :: nat]" by simp_all
  from set_helpers_correct[OF h] h show ?thesis by auto
qed

text \<open>\<^verbatim>\<open>UnionOf\<close> on two maps keeps the value of the first map for a key that both have
  (\<^verbatim>\<open>set_union\<close> copies equivalent elements from its first range).\<close>

theorem UnionOf_map_first_overrules:
  fixes m1 m2 :: "('k::linorder \<times> 'v) list"
  assumes "sorted_map m1" "sorted_map m2"
  shows "sorted_map (UnionOf_map (<) m1 m2)
    \<and> map_of (UnionOf_map (<) m1 m2) k =
        (case map_of m1 k of Some v \<Rightarrow> Some v | None \<Rightarrow> map_of m2 k)"
  using UnionOf_map_lookup[OF assms] by (simp add: map_add_def)

theorem UnionOf_map_first_overrules_witness:
  "sorted_map [(1 :: nat, True)] \<and> sorted_map [(1 :: nat, False), (2, False)]
    \<and> map_of (UnionOf_map (<) [(1 :: nat, True)] [(1, False), (2, False)]) 1 = Some True"
proof -
  have h: "sorted_map [(1 :: nat, True)]" "sorted_map [(1 :: nat, False), (2, False)]"
    by (simp_all add: kc2_def)
  from UnionOf_map_first_overrules[OF h, of 1] h show ?thesis by simp
qed

text \<open>\<^verbatim>\<open>DifferenceOfSolo\<close> on maps (sizes below \<open>2 ^ 63\<close>, so that \<^verbatim>\<open>size_t\<close> subtraction
  cannot alias) fails its assertion exactly when some key of the second map is not a key of the
  first, and otherwise returns the first map without those keys.\<close>

theorem DifferenceOfSolo_map_correct:
  fixes m1 m2 :: "('k::linorder \<times> 'v) list"
  assumes "sorted_map m1" "sorted_map m2" "length m1 < 2 ^ 63" "length m2 < 2 ^ 63"
  shows "if dom (map_of m2) \<subseteq> dom (map_of m1)
    then \<exists>r. DifferenceOfSolo_map (<) m1 m2 = Inr r \<and> sorted_map r
           \<and> map_of r = map_of m1 |` (- dom (map_of m2))
    else DifferenceOfSolo_map (<) m1 m2 = Inl AssertFail"
  using DifferenceOfSolo_map_eq[OF assms] DifferenceOf_map_lookup[OF assms(1,2)] by simp

theorem DifferenceOfSolo_map_correct_witness:
  "sorted_map [(1 :: nat, True), (2, False)] \<and> sorted_map [(2 :: nat, True)]
    \<and> (\<exists>r. DifferenceOfSolo_map (<) [(1 :: nat, True), (2, False)] [(2, True)] = Inr r
        \<and> map_of r 1 = Some True \<and> map_of r 2 = None)"
proof -
  have h: "sorted_map [(1 :: nat, True), (2, False)]" "sorted_map [(2 :: nat, True)]"
    "length [(1 :: nat, True), (2, False)] < 2 ^ 63" "length [(2 :: nat, True)] < 2 ^ 63"
    by (simp_all add: kc2_def)
  from DifferenceOfSolo_map_correct[OF h] h(1,2) show ?thesis by (auto split: if_splits)
qed

text \<open>\<^verbatim>\<open>IsIncludes\<close> on maps asks whether the keys of the first map are keys of the second; the
  values play no part.\<close>

theorem IsIncludes_map_compares_keys:
  fixes m1 m2 :: "('k::linorder \<times> 'v) list"
  assumes "sorted_map m1" "sorted_map m2"
  shows "IsIncludes_map (<) m1 m2 \<longleftrightarrow> dom (map_of m1) \<subseteq> dom (map_of m2)"
  by (rule IsIncludes_map_keys[OF assms])

theorem IsIncludes_map_compares_keys_witness:
  "sorted_map [(1 :: nat, True)] \<and> sorted_map [(1 :: nat, False), (2, False)]
    \<and> IsIncludes_map (<) [(1 :: nat, True)] [(1, False), (2, False)]
    \<and> \<not> IsIncludes_map (<) [(1 :: nat, False), (2, False)] [(1, True)]"
proof -
  have h: "sorted_map [(1 :: nat, True)]" "sorted_map [(1 :: nat, False), (2, False)]"
    by (simp_all add: kc2_def)
  from IsIncludes_map_compares_keys[OF h] IsIncludes_map_compares_keys[OF h(2,1)] h
  show ?thesis by auto
qed

text \<open>\<^verbatim>\<open>LexicographicalCompare\<close> is positive when the first sequence is the smaller one, negative
  when it is the greater one, and zero exactly when the sequences agree element by element.\<close>

theorem LexicographicalCompare_sign:
  fixes c0 c1 :: "'a::linorder list"
  shows "(LexicographicalCompare (<) c0 c1 > 0 \<longleftrightarrow> lexicographical_compare (<) c0 c1)
    \<and> (LexicographicalCompare (<) c0 c1 < 0 \<longleftrightarrow> lexicographical_compare (<) c1 c0)
    \<and> (LexicographicalCompare (<) c0 c1 = 0 \<longleftrightarrow> c0 = c1)"
proof -
  have "equivalent (<) = ((=) :: 'a \<Rightarrow> 'a \<Rightarrow> bool)"
    by (simp add: fun_eq_iff)
  then have "list_all2 (equivalent (<)) c0 c1 \<longleftrightarrow> c0 = c1"
    by (simp add: list.rel_eq)
  then show ?thesis
    using lin.LexicographicalCompare_zero[of c0 c1] lin.lexicographical_compare_asym[of c0 c1]
      lin.lexicographical_compare_asym[of c1 c0]
    by (auto simp: LexicographicalCompare_def Let_def of_bool_def)
qed

end
