(* ===== verification/LambdaLoops.thy ===== *)
theory LambdaLoops
  imports Prelude
begin

text \<open>
  The loop combinators of \<^verbatim>\<open>common/lambda_loops.hpp\<close> and \<^verbatim>\<open>.cpp\<close>. A loop body is a lambda that
  updates captured variables, may throw \<^verbatim>\<open>BreakException\<close> through \<^verbatim>\<open>LLBreak()\<close> and may fail: it
  is a function from the element(s) and the captured state to a \<open>flow\<close>. Each combinator catches
  the break at its outside (\<open>catch_break\<close>) and lets failures through.
  Every combinator is proved equal to \<open>run_loop\<close> over an explicit list of what it visits, in order.
\<close>

section \<open>Bodies and their control flow\<close>

datatype 's flow =
    Next 's          \<comment> \<open>the body returned\<close>
  | Break 's         \<comment> \<open>the body called \<^verbatim>\<open>LLBreak()\<close>\<close>
  | Fail error

fun LLBreak :: "'s \<Rightarrow> 's flow" where
  "LLBreak s = Break s"

fun bind_flow :: "'s flow \<Rightarrow> ('s \<Rightarrow> 's flow) \<Rightarrow> 's flow" where
  "bind_flow (Next s) f = f s"
| "bind_flow (Break s) f = Break s"
| "bind_flow (Fail e) f = Fail e"

fun catch_break :: "'s flow \<Rightarrow> 's result" where
  "catch_break (Next s) = Inr s"
| "catch_break (Break s) = Inr s"
| "catch_break (Fail e) = Inl e"

definition lift_flow :: "'s result \<Rightarrow> 's flow" where
  "lift_flow r = (case r of Inl e \<Rightarrow> Fail e | Inr s \<Rightarrow> Next s)"

fun run_loop :: "('a \<Rightarrow> 's \<Rightarrow> 's flow) \<Rightarrow> 'a list \<Rightarrow> 's \<Rightarrow> 's flow" where
  "run_loop body [] s = Next s"
| "run_loop body (x # xs) s = bind_flow (body x s) (run_loop body xs)"

section \<open>The combinators\<close>

fun adjacent_loop :: "('a \<Rightarrow> 'a \<Rightarrow> 's \<Rightarrow> 's flow) \<Rightarrow> 'a option \<Rightarrow> 'a list \<Rightarrow> 's \<Rightarrow> 's flow" where
  "adjacent_loop func prev_x [] s = Next s"
| "adjacent_loop func prev_x (x # xs) s =
     bind_flow (case prev_x of Some p \<Rightarrow> func p x s | None \<Rightarrow> Next s)
       (adjacent_loop func (Some x) xs)"

definition ForOverlappingAdjacentPairs ::
    "'a list \<Rightarrow> ('a \<Rightarrow> 'a \<Rightarrow> 's \<Rightarrow> 's flow) \<Rightarrow> 's \<Rightarrow> 's result" where
  "ForOverlappingAdjacentPairs container func s = catch_break (adjacent_loop func None container s)"

text \<open>Iterators are positions: the two loops over \<^verbatim>\<open>oit\<close> and \<^verbatim>\<open>iit\<close> compare them, not the
  elements they point to.\<close>

definition ForAllUnorderedPairs ::
    "'a list \<Rightarrow> ('a \<Rightarrow> 'a \<Rightarrow> 's \<Rightarrow> 's flow) \<Rightarrow> 's \<Rightarrow> 's result" where
  "ForAllUnorderedPairs container func s =
     catch_break
       (run_loop (\<lambda>oit. run_loop
          (\<lambda>iit s. if oit \<noteq> iit then func (container ! iit) (container ! oit) s else Next s)
          [oit..<length container]) [0..<length container] s)"

definition ForAllDistinctPairs ::
    "'a list \<Rightarrow> ('a \<Rightarrow> 'a \<Rightarrow> 's \<Rightarrow> 's flow) \<Rightarrow> 's \<Rightarrow> 's result" where
  "ForAllDistinctPairs container func s =
     catch_break
       (run_loop (\<lambda>oit. run_loop
          (\<lambda>iit s. if oit \<noteq> iit then func (container ! iit) (container ! oit) s else Next s)
          [0..<length container]) [0..<length container] s)"

text \<open>The carry chain of \<^verbatim>\<open>IncrementIndices\<close>: the new indices and whether they wrapped.\<close>

fun IncrementIndices :: "nat list \<Rightarrow> nat \<Rightarrow> nat list \<times> bool" where
  "IncrementIndices [] index_range = ([], True)"
| "IncrementIndices (i # indices) index_range =
     (if Suc i = index_range
      then (let r = IncrementIndices indices index_range in (0 # fst r, snd r))
      else (Suc i # indices, False))"

text \<open>The value of an index vector as a number in base \<open>n\<close>, first axis least significant.\<close>

fun index_value :: "nat \<Rightarrow> nat list \<Rightarrow> nat" where
  "index_value n [] = 0"
| "index_value n (i # is) = i + n * index_value n is"

lemma IncrementIndices_length [simp]: "length (fst (IncrementIndices is n)) = length is"
  by (induction "is") (auto simp: Let_def)

lemma index_value_bound: "\<forall>i \<in> set is. i < n \<Longrightarrow> index_value n is < n ^ length is"
proof (induction "is")
  case (Cons i "is")
  then have "index_value n is + 1 \<le> n ^ length is" by auto
  then have "n * (index_value n is + 1) \<le> n * n ^ length is" by (rule mult_le_mono2)
  with Cons.prems show ?case by auto
qed simp

lemma IncrementIndices_carry:
  assumes "\<forall>i \<in> set is. i < n"
  shows "if snd (IncrementIndices is n)
      then Suc (index_value n is) = n ^ length is
      else index_value n (fst (IncrementIndices is n)) = Suc (index_value n is)
         \<and> (\<forall>i \<in> set (fst (IncrementIndices is n)). i < n)"
  using assms
proof (induction "is")
  case (Cons i "is")
  then have IH: "if snd (IncrementIndices is n)
      then Suc (index_value n is) = n ^ length is
      else index_value n (fst (IncrementIndices is n)) = Suc (index_value n is)
         \<and> (\<forall>i \<in> set (fst (IncrementIndices is n)). i < n)" and i: "i < n" by auto
  show ?case
  proof (cases "Suc i = n")
    case True
    have carry: "Suc (index_value n (i # is)) = n * Suc (index_value n is)" using True by simp
    show ?thesis
    proof (cases "snd (IncrementIndices is n)")
      case w: True
      with IH have "Suc (index_value n is) = n ^ length is" by simp
      with carry True w show ?thesis by (simp add: Let_def del: index_value.simps)
    next
      case w: False
      with IH True i show ?thesis by (auto simp: Let_def)
    qed
  next
    case False
    with Cons.prems i show ?thesis by auto
  qed
qed simp

lemma vec_at_mapE_range: "mapE (vec_at xs) is = Inr ys \<Longrightarrow> \<forall>i \<in> set is. i < length xs"
  by (induction "is" arbitrary: ys) (auto simp: vec_at_eq_Inr)

lemma vec_at_mapE [simp]: "\<forall>i \<in> set is. i < length xs \<Longrightarrow> mapE (vec_at xs) is = Inr (map ((!) xs) is)"
  by (simp add: mapE_Inr)

lemma bind_flow_cong [fundef_cong]:
  "m = m' \<Longrightarrow> (\<And>s. m' = Next s \<Longrightarrow> f s = g s) \<Longrightarrow> bind_flow m f = bind_flow m' g"
  by (cases m') auto

text \<open>The \<^verbatim>\<open>do ... while\<close> of \<^verbatim>\<open>ForPower\<close>. Each round raises the index value, which stays below
  \<open>n ^ degree\<close>: the loop ends.\<close>

function for_power_loop ::
    "'a list \<Rightarrow> ('a list \<Rightarrow> 's \<Rightarrow> 's flow) \<Rightarrow> nat list \<Rightarrow> 's \<Rightarrow> 's flow" where
  "for_power_loop index_range body int_indices s =
     (case mapE (vec_at index_range) int_indices of
        Inl e \<Rightarrow> Fail e
      | Inr typed_indices \<Rightarrow>
          bind_flow (body typed_indices s)
            (\<lambda>s'. if snd (IncrementIndices int_indices (length index_range)) then Next s'
                 else for_power_loop index_range body
                        (fst (IncrementIndices int_indices (length index_range))) s'))"
  by pat_completeness auto
termination
proof (relation "measure (\<lambda>(r, _, is, _). length r ^ length is - index_value (length r) is)")
  fix r :: "'a list" and body :: "'a list \<Rightarrow> 's \<Rightarrow> 's flow" and "is" s t s'
  assume m: "mapE (vec_at r) is = Inr t" and w: "\<not> snd (IncrementIndices is (length r))"
  let ?n = "length r" and ?is' = "fst (IncrementIndices is (length r))"
  have "index_value ?n ?is' = Suc (index_value ?n is)" and "index_value ?n is < ?n ^ length is"
    using IncrementIndices_carry[OF vec_at_mapE_range[OF m]] index_value_bound[OF vec_at_mapE_range[OF m]] w
    by auto
  then show "((r, body, ?is', s'), (r, body, is, s))
      \<in> measure (\<lambda>(r, _, is, _). length r ^ length is - index_value (length r) is)"
    by simp
qed auto

declare for_power_loop.simps [simp del]

definition ForPower :: "nat \<Rightarrow> 'a list \<Rightarrow> ('a list \<Rightarrow> 's \<Rightarrow> 's flow) \<Rightarrow> 's \<Rightarrow> 's result" where
  "ForPower degree index_range body s =
     catch_break (for_power_loop index_range body (replicate degree 0) s)"

definition index_range_bool :: "bool list" where
  "index_range_bool = [False, True]"

section \<open>What the loops visit\<close>

text \<open>All vectors over \<open>xs\<close> of one length, first axis fastest.\<close>

fun tuples :: "nat \<Rightarrow> 'a list \<Rightarrow> 'a list list" where
  "tuples 0 xs = [[]]"
| "tuples (Suc d) xs = concat (map (\<lambda>t. map (\<lambda>x. x # t) xs) (tuples d xs))"

lemma length_tuples [simp]: "length (tuples d xs) = length xs ^ d"
  by (induction d) (simp_all add: length_concat comp_def sum_list_triv)

lemma set_tuples: "set (tuples d xs) = {t. length t = d \<and> set t \<subseteq> set xs}"
proof (induction d)
  case (Suc d)
  then show ?case
    by (auto simp: length_Suc_conv image_iff)
qed auto

lemma concat_map_nth:
  assumes "\<And>y. y \<in> set ys \<Longrightarrow> length (f y) = n" "i < n" "j < length ys"
  shows "concat (map f ys) ! (i + n * j) = f (ys ! j) ! i"
  using assms
proof (induction ys arbitrary: j)
  case (Cons y ys)
  then show ?case
    by (cases j) (auto simp: nth_append)
qed simp

lemma tuples_nth:
  "\<forall>i \<in> set is. i < length xs \<Longrightarrow>
     tuples (length is) xs ! index_value (length xs) is = map ((!) xs) is"
proof (induction "is")
  case (Cons i "is")
  then show ?case
    using index_value_bound[of "is" "length xs"]
    by (simp add: concat_map_nth[where n = "length xs"])
qed simp

lemma distinct_tuples: "distinct xs \<Longrightarrow> distinct (tuples d xs)"
proof (rule card_distinct)
  assume "distinct xs"
  have "card (set (tuples d xs)) = card (set xs) ^ d"
    using card_lists_length_eq[of "set xs" d] by (simp add: set_tuples conj_commute)
  with \<open>distinct xs\<close> show "card (set (tuples d xs)) = length (tuples d xs)"
    by (simp add: distinct_card)
qed

lemma for_power_loop_eq:
  "\<forall>i \<in> set is. i < length xs \<Longrightarrow>
     for_power_loop xs body is s =
       run_loop body (drop (index_value (length xs) is) (tuples (length is) xs)) s"
proof (induction xs body "is" s rule: for_power_loop.induct)
  case (1 xs body "is" s)
  let ?n = "length xs" and ?k = "index_value (length xs) is" and ?ts = "tuples (length is) xs"
  let ?inc = "IncrementIndices is ?n"
  have k: "?k < length ?ts" using index_value_bound[OF "1.prems"] by simp
  then have "run_loop body (drop ?k ?ts) s
      = bind_flow (body (map ((!) xs) is) s) (run_loop body (drop (Suc ?k) ?ts))"
    by (simp add: Cons_nth_drop_Suc[symmetric] tuples_nth[OF "1.prems"])
  moreover have "for_power_loop xs body is s = bind_flow (body (map ((!) xs) is) s)
      (\<lambda>s'. if snd ?inc then Next s' else for_power_loop xs body (fst ?inc) s')"
    using "1.prems" by (subst for_power_loop.simps) simp
  moreover have "(if snd ?inc then Next s' else for_power_loop xs body (fst ?inc) s')
      = run_loop body (drop (Suc ?k) ?ts) s'" if "body (map ((!) xs) is) s = Next s'" for s'
    using that "1.IH"[of "map ((!) xs) is" s'] IncrementIndices_carry[OF "1.prems"] "1.prems" by auto
  ultimately show ?case by (simp cong: bind_flow_cong)
qed

lemma ForPower_eq:
  "xs \<noteq> [] \<or> d = 0 \<Longrightarrow> ForPower d xs body s = catch_break (run_loop body (tuples d xs) s)"
proof -
  have "index_value n (replicate d 0) = 0" for n by (induction d) auto
  then show "xs \<noteq> [] \<or> d = 0 \<Longrightarrow> ?thesis"
    by (auto simp: ForPower_def for_power_loop_eq)
qed

text \<open>A body that cannot break: the loop is a fallible fold.\<close>

lemma lift_flow_simps [simp]: "lift_flow (Inl e) = Fail e" "lift_flow (Inr s) = Next s"
  by (simp_all add: lift_flow_def)

lemma catch_break_bind_lift: "catch_break (bind_flow (lift_flow r) f) = bindE r (\<lambda>s. catch_break (f s))"
  by (cases r) auto

lemma run_loop_lift: "catch_break (run_loop (\<lambda>x s. lift_flow (f x s)) xs s) = foldE f xs s"
  by (induction xs arbitrary: s) (auto simp: catch_break_bind_lift intro: bindE_cong)

lemma ForPower_foldE:
  "xs \<noteq> [] \<Longrightarrow> ForPower d xs (\<lambda>t s. lift_flow (f t s)) s = foldE f (tuples d xs) s"
  by (simp add: ForPower_eq run_loop_lift)

lemma adjacent_loop_Some: "adjacent_loop f (Some p) xs s = run_loop (\<lambda>(a, b). f a b) (zip (p # xs) xs) s"
  by (induction xs arbitrary: p s) (auto intro: bind_flow_cong)

lemma ForOverlappingAdjacentPairs_eq:
  "ForOverlappingAdjacentPairs xs f s = catch_break (run_loop (\<lambda>(a, b). f a b) (zip xs (tl xs)) s)"
  by (cases xs) (simp_all add: ForOverlappingAdjacentPairs_def adjacent_loop_Some)

lemma bind_flow_assoc: "bind_flow (bind_flow m f) g = bind_flow m (\<lambda>s. bind_flow (f s) g)"
  by (cases m) auto

lemma bind_flow_Next [simp]: "bind_flow m Next = m"
  by (cases m) auto

lemma run_loop_append: "run_loop body (xs @ ys) s = bind_flow (run_loop body xs s) (run_loop body ys)"
  by (induction xs arbitrary: s) (auto simp: bind_flow_assoc intro: bind_flow_cong)

lemma run_loop_filter:
  "run_loop (\<lambda>x s. if P x then body x s else Next s) xs = run_loop body (filter P xs)"
proof
  fix s show "run_loop (\<lambda>x s. if P x then body x s else Next s) xs s = run_loop body (filter P xs) s"
    by (induction xs arbitrary: s) (auto intro: bind_flow_cong)
qed

lemma run_loop_map: "run_loop (\<lambda>x. body (g x)) xs = run_loop body (map g xs)"
proof
  fix s show "run_loop (\<lambda>x. body (g x)) xs s = run_loop body (map g xs) s"
    by (induction xs arbitrary: s) (auto intro: bind_flow_cong)
qed

lemma run_loop_concat: "run_loop (\<lambda>x. run_loop body (g x)) xs s = run_loop body (concat (map g xs)) s"
  by (induction xs arbitrary: s) (auto simp: run_loop_append intro: bind_flow_cong)

text \<open>The pairs the two nested loops hand to the body, in order.\<close>

definition unordered_pairs :: "'a list \<Rightarrow> ('a \<times> 'a) list" where
  "unordered_pairs xs =
     concat (map (\<lambda>i. map (\<lambda>j. (xs ! j, xs ! i)) [Suc i..<length xs]) [0..<length xs])"

definition distinct_pairs :: "'a list \<Rightarrow> ('a \<times> 'a) list" where
  "distinct_pairs xs =
     concat (map (\<lambda>i. map (\<lambda>j. (xs ! j, xs ! i)) (filter (\<lambda>j. i \<noteq> j) [0..<length xs])) [0..<length xs])"

lemma run_loop_pairs:
  "run_loop (\<lambda>i. run_loop (\<lambda>j s. if i \<noteq> j then f (xs ! j) (xs ! i) s else Next s) (js i)) is s
     = run_loop (\<lambda>(a, b). f a b)
         (concat (map (\<lambda>i. map (\<lambda>j. (xs ! j, xs ! i)) (filter (\<lambda>j. i \<noteq> j) (js i))) is)) s"
proof -
  have "run_loop (\<lambda>j s. if i \<noteq> j then f (xs ! j) (xs ! i) s else Next s) (js i)
      = run_loop (\<lambda>(a, b). f a b) (map (\<lambda>j. (xs ! j, xs ! i)) (filter (\<lambda>j. i \<noteq> j) (js i)))" for i
    using run_loop_filter[of "\<lambda>j. i \<noteq> j" "\<lambda>j. f (xs ! j) (xs ! i)"]
      run_loop_map[of "\<lambda>(a, b). f a b" "\<lambda>j. (xs ! j, xs ! i)"]
    by simp
  then show ?thesis by (simp add: run_loop_concat)
qed

lemma filter_upt_neq: "i < n \<Longrightarrow> filter (\<lambda>j. i \<noteq> j) [i..<n] = [Suc i..<n]"
  by (simp add: upt_conv_Cons filter_id_conv)

lemma ForAllUnorderedPairs_eq:
  "ForAllUnorderedPairs xs f s = catch_break (run_loop (\<lambda>(a, b). f a b) (unordered_pairs xs) s)"
proof -
  have "map (\<lambda>i. map (\<lambda>j. (xs ! j, xs ! i)) (filter (\<lambda>j. i \<noteq> j) [i..<length xs])) [0..<length xs]
      = map (\<lambda>i. map (\<lambda>j. (xs ! j, xs ! i)) [Suc i..<length xs]) [0..<length xs]"
    by (rule map_cong[OF refl]) (simp only: set_upt atLeastLessThan_iff filter_upt_neq)
  then show ?thesis
    unfolding ForAllUnorderedPairs_def unordered_pairs_def
      run_loop_pairs[of f xs "\<lambda>i. [i..<length xs]"] by (simp only:)
qed

lemma ForAllDistinctPairs_eq:
  "ForAllDistinctPairs xs f s = catch_break (run_loop (\<lambda>(a, b). f a b) (distinct_pairs xs) s)"
  unfolding ForAllDistinctPairs_def distinct_pairs_def
    run_loop_pairs[of f xs "\<lambda>_. [0..<length xs]"] ..

section \<open>Properties\<close>

text \<open>\<^verbatim>\<open>ForPower\<close> over a non-empty range always terminates and runs its body on exactly the
  vectors of the given length over the range, each once when the range has no repeats, with the
  first axis varying fastest; a break ends the loop and a failure is passed on.\<close>

theorem ForPower_visits_every_tuple:
  assumes "xs \<noteq> []" "distinct xs"
  shows "ForPower d xs body s = catch_break (run_loop body (tuples d xs) s)
    \<and> set (tuples d xs) = {t. length t = d \<and> set t \<subseteq> set xs}
    \<and> distinct (tuples d xs) \<and> length (tuples d xs) = length xs ^ d"
  using assms by (simp add: ForPower_eq set_tuples distinct_tuples)

theorem ForPower_visits_every_tuple_witness:
  "ForPower 2 [False, True] (\<lambda>t s. Next (s @ [t])) []
     = Inr [[False, False], [True, False], [False, True], [True, True]]"
proof -
  have h: "[False, True] \<noteq> []" "distinct [False, True]" by simp_all
  from ForPower_visits_every_tuple[OF h, of 2 "\<lambda>t s. Next (s @ [t])" "[]"]
  show ?thesis by (simp add: numeral_2_eq_2)
qed

text \<open>With an empty range and at least one axis the first read of the range is out of range:
  the loop fails before its body runs.\<close>

theorem ForPower_empty_range:
  "ForPower d [] body s = (if d = 0 then catch_break (body [] s) else Inl OutOfRange)"
  by (cases d) (simp_all add: ForPower_def for_power_loop.simps vec_at_def)

text \<open>\<^verbatim>\<open>ForAllDistinctPairs\<close> and \<^verbatim>\<open>ForAllUnorderedPairs\<close> pass the inner element first: on
  \<open>[1, 2, 3]\<close> the distinct pairs come as (2,1), (3,1), (1,2), (3,2), (1,3), (2,3).\<close>

theorem pair_loops_order:
  "ForAllDistinctPairs xs f s = catch_break (run_loop (\<lambda>(a, b). f a b) (distinct_pairs xs) s)
    \<and> ForAllUnorderedPairs xs f s = catch_break (run_loop (\<lambda>(a, b). f a b) (unordered_pairs xs) s)
    \<and> ForOverlappingAdjacentPairs xs f s = catch_break (run_loop (\<lambda>(a, b). f a b) (zip xs (tl xs)) s)
    \<and> distinct_pairs [1, 2, 3 :: nat] = [(2, 1), (3, 1), (1, 2), (3, 2), (1, 3), (2, 3)]
    \<and> unordered_pairs [1, 2, 3 :: nat] = [(2, 1), (3, 1), (3, 2)]"
proof -
  have "distinct_pairs [1, 2, 3 :: nat] = [(2, 1), (3, 1), (1, 2), (3, 2), (1, 3), (2, 3)]"
    and "unordered_pairs [1, 2, 3 :: nat] = [(2, 1), (3, 1), (3, 2)]"
    by code_simp+
  then show ?thesis
    by (simp add: ForAllDistinctPairs_eq ForAllUnorderedPairs_eq ForOverlappingAdjacentPairs_eq)
qed

end
