(* ===== verification/TruthTable.thy ===== *)
theory TruthTable
  imports Containers LambdaLoops "HOL-Library.Product_Lexorder"
begin

text \<open>
  \<^verbatim>\<open>SYM::TruthTable\<close> (\<^verbatim>\<open>vn/sym/truth_table.hpp\<close>, \<^verbatim>\<open>.cpp\<close>): a table of three-valued cells
  indexed by a vector of booleans, one per axis. The cells lie in one vector of \<open>2 ^ degree\<close>
  entries; \<^verbatim>\<open>GetCellIndex\<close> packs an index vector into a position bit by bit.

  \<open>cell t bs\<close> is the abstract reading of a table as a function on index vectors; the lemmas say
  what every operation does to it. A slice (\<^verbatim>\<open>SliceSpec\<close>) is a map from axes to the value they
  are fixed at. Positions are natural numbers here: \<^verbatim>\<open>SizeType\<close> has 64 bits, so the degree must
  stay below 64, which the size of the cell vector forces anyway.
\<close>

unbundle bit_operations_syntax

section \<open>Cells and tables\<close>

datatype CellType = DONT_CARE | FALSE | TRUE

fun cell_code :: "CellType \<Rightarrow> int" where
  "cell_code DONT_CARE = -1"
| "cell_code FALSE = 0"
| "cell_code TRUE = 1"

instantiation CellType :: linorder
begin

definition less_eq_CellType :: "CellType \<Rightarrow> CellType \<Rightarrow> bool" where
  "less_eq_CellType a b \<longleftrightarrow> cell_code a \<le> cell_code b"

definition less_CellType :: "CellType \<Rightarrow> CellType \<Rightarrow> bool" where
  "less_CellType a b \<longleftrightarrow> cell_code a < cell_code b"

instance
proof
  fix x y z :: CellType
  show "x \<le> y \<Longrightarrow> y \<le> x \<Longrightarrow> x = y"
    by (cases x; cases y) (simp_all add: less_eq_CellType_def)
qed (auto simp: less_eq_CellType_def less_CellType_def)

end

lemmas CellType_ord = less_eq_CellType_def less_CellType_def

record truth_table =
  degree :: nat
  cells :: "CellType list"

type_synonym SliceSpec = "(nat \<times> bool) list"

definition new_truth_table :: "nat \<Rightarrow> CellType \<Rightarrow> truth_table" where
  "new_truth_table d initval = \<lparr>degree = d, cells = replicate (2 ^ d) initval\<rparr>"

definition GetCellIndex :: "truth_table \<Rightarrow> bool list \<Rightarrow> nat result" where
  "GetCellIndex t full_indices =
     guardE (length full_indices = degree t)
       (Inr (fold (\<lambda>j cindex. cindex OR push_bit j (if full_indices ! j then 1 else 0))
              [0..<length full_indices] 0))"

definition Set :: "truth_table \<Rightarrow> bool list \<Rightarrow> CellType \<Rightarrow> truth_table result" where
  "Set t full_indices new_value =
     bindE (GetCellIndex t full_indices)
       (\<lambda>i. bindE (vec_set_at (cells t) i new_value) (\<lambda>cs. Inr (t\<lparr>cells := cs\<rparr>)))"

definition Get :: "truth_table \<Rightarrow> bool list \<Rightarrow> CellType result" where
  "Get t full_indices = bindE (GetCellIndex t full_indices) (vec_at (cells t))"

section \<open>Slices\<close>

definition free_axes :: "nat \<Rightarrow> SliceSpec \<Rightarrow> nat list" where
  "free_axes d sl = filter (\<lambda>i. i \<notin> fst ` set sl) [0..<d]"

text \<open>The opening lines that \<^verbatim>\<open>SetSlice\<close>, \<^verbatim>\<open>GetSlice\<close> and \<^verbatim>\<open>CountInSlice\<close> share: the
  assertions, the free axes, and the index vector with the fixed axes filled in.\<close>

definition slice_start :: "nat \<Rightarrow> SliceSpec \<Rightarrow> (nat list \<times> bool list) result" where
  "slice_start d sl =
     guardE (length sl \<le> d)
       (guardE (length (free_axes d sl) + length sl = d)
         (bindE (ScatterInto (replicate d False) sl)
           (\<lambda>full_indices. Inr (free_axes d sl, full_indices))))"

definition scatter_axes :: "nat list \<Rightarrow> bool list \<Rightarrow> bool list \<Rightarrow> bool list result" where
  "scatter_axes axes indices full_indices =
     bindE (ZipToMap (<) axes indices) (\<lambda>m. ScatterInto full_indices m)"

definition SetSlice :: "truth_table \<Rightarrow> SliceSpec \<Rightarrow> CellType \<Rightarrow> truth_table result" where
  "SetSlice t sl new_value =
     bindE (slice_start (degree t) sl) (\<lambda>(axes, full).
       bindE (ForPower (length axes) index_range_bool
               (\<lambda>free_indices (full, t). lift_flow
                  (bindE (scatter_axes axes free_indices full) (\<lambda>full'.
                   bindE (Set t full' new_value) (\<lambda>t'. Inr (full', t')))))
               (full, t))
         (\<lambda>(full, t'). Inr t'))"

definition SetSliceTable :: "truth_table \<Rightarrow> SliceSpec \<Rightarrow> truth_table \<Rightarrow> truth_table result" where
  "SetSliceTable t sl new_values =
     guardE (length sl + degree new_values = degree t)
       (bindE (slice_start (degree t) sl) (\<lambda>(axes, full).
         bindE (ForPower (length axes) index_range_bool
                 (\<lambda>free_indices (full, t). lift_flow
                    (bindE (scatter_axes axes free_indices full) (\<lambda>full'.
                     bindE (Get new_values free_indices) (\<lambda>v.
                     bindE (Set t full' v) (\<lambda>t'. Inr (full', t'))))))
                 (full, t))
           (\<lambda>(full, t'). Inr t')))"

definition GetSlice :: "truth_table \<Rightarrow> SliceSpec \<Rightarrow> truth_table result" where
  "GetSlice t sl =
     bindE (slice_start (degree t) sl) (\<lambda>(axes, full).
       bindE (ForPower (length axes) index_range_bool
               (\<lambda>dest_indices (full, dest). lift_flow
                  (bindE (scatter_axes axes dest_indices full) (\<lambda>full'.
                   bindE (Get t full') (\<lambda>v.
                   bindE (Set dest dest_indices v) (\<lambda>dest'. Inr (full', dest'))))))
               (full, new_truth_table (length axes) FALSE))
         (\<lambda>(full, dest). Inr dest))"

definition CountInSlice :: "truth_table \<Rightarrow> SliceSpec \<Rightarrow> CellType \<Rightarrow> int result" where
  "CountInSlice t sl target_value =
     bindE (slice_start (degree t) sl) (\<lambda>(axes, full).
       bindE (ForPower (length axes) index_range_bool
               (\<lambda>free_indices (full, count). lift_flow
                  (bindE (scatter_axes axes free_indices full) (\<lambda>full'.
                   bindE (Get t full') (\<lambda>v.
                   Inr (full', if v = target_value then count + 1 else count)))))
               (full, 0))
         (\<lambda>(full, count). Inr count))"

section \<open>Extending, folding, listing\<close>

text \<open>\<^verbatim>\<open>vector::resize\<close> value-initialises new cells, which for this enum is the value 0.\<close>

definition vec_resize :: "CellType list \<Rightarrow> nat \<Rightarrow> CellType list" where
  "vec_resize xs n = take n xs @ replicate (n - length xs) FALSE"

definition copy_block :: "nat \<Rightarrow> CellType list \<Rightarrow> CellType list" where
  "copy_block n xs = take n xs @ take n xs @ drop (n + n) xs"

definition Extend :: "truth_table \<Rightarrow> nat \<Rightarrow> truth_table" where
  "Extend t new_degree =
     \<lparr>degree = new_degree,
      cells = fold (\<lambda>axis. copy_block (2 ^ axis)) [degree t..<new_degree]
                (vec_resize (cells t) (2 ^ new_degree))\<rparr>"

text \<open>\<^verbatim>\<open>*max_element\<close> over the sorted set of cell values.\<close>

definition max_element :: "CellType list \<Rightarrow> CellType result" where
  "max_element xs = (case xs of [] \<Rightarrow> Inl NullDeref
                     | y # ys \<Rightarrow> Inr (fold (\<lambda>x m. if m < x then x else m) ys y))"

definition fold_dest_axes :: "nat \<Rightarrow> nat list \<Rightarrow> nat list" where
  "fold_dest_axes d fold_axes = filter (\<lambda>i. i \<notin> set fold_axes) [0..<d]"

definition GetFolded :: "truth_table \<Rightarrow> nat list \<Rightarrow> truth_table result" where
  "GetFolded t fold_axes =
     guardE (length fold_axes \<le> degree t)
      (let dest_axes = fold_dest_axes (degree t) fold_axes in
       guardE (length dest_axes + length fold_axes = degree t)
        (ForPower (length dest_axes) index_range_bool
          (\<lambda>dest_indices dest. lift_flow
            (bindE (scatter_axes dest_axes dest_indices (replicate (degree t) False)) (\<lambda>full.
             bindE (ForPower (length fold_axes) index_range_bool
                     (\<lambda>fold_indices (full, cells_to_fold). lift_flow
                       (bindE (scatter_axes fold_axes fold_indices full) (\<lambda>full'.
                        bindE (Get t full') (\<lambda>v.
                        Inr (full', fst (container_insert (<) v cells_to_fold))))))
                     (full, [])) (\<lambda>(full, cells_to_fold).
             bindE (max_element cells_to_fold) (\<lambda>folded_cell.
             Set dest dest_indices folded_cell)))))
          (new_truth_table (length dest_axes) FALSE)))"

text \<open>\<^verbatim>\<open>set<vector<bool>>\<close> is ordered lexicographically.\<close>

definition GetIndicesOfValue :: "truth_table \<Rightarrow> CellType \<Rightarrow> bool list list result" where
  "GetIndicesOfValue t v =
     ForPower (degree t) index_range_bool
       (\<lambda>indices s. lift_flow
         (bindE (Get t indices) (\<lambda>c.
          Inr (if c = v then fst (container_insert (lexicographical_compare (<)) indices s) else s))))
       []"

definition tt_equal :: "truth_table \<Rightarrow> truth_table \<Rightarrow> bool" where
  "tt_equal t u \<longleftrightarrow> cells t = cells u"

definition tt_less :: "truth_table \<Rightarrow> truth_table \<Rightarrow> bool" where
  "tt_less t u \<longleftrightarrow> lexicographical_compare (<) (cells t) (cells u)"

section \<open>Karnaugh slices\<close>

datatype KarnaughClass = K_FREE | K_FALSE | K_TRUE

definition index_range_kc :: "KarnaughClass list" where
  "index_range_kc = [K_FREE, K_TRUE, K_FALSE]"

definition candidate_slice :: "KarnaughClass list \<Rightarrow> SliceSpec" where
  "candidate_slice k_classes =
     concat (map (\<lambda>i. case k_classes ! i of
         K_FREE \<Rightarrow> [] | K_FALSE \<Rightarrow> [(i, False)] | K_TRUE \<Rightarrow> [(i, True)]) [0..<length k_classes])"

definition candidate_counts :: "KarnaughClass list \<Rightarrow> KarnaughClass \<Rightarrow> int" where
  "candidate_counts k_classes c = int (count_list k_classes c)"

record karnaugh_state =
  best_slice :: "SliceSpec option"
  best_counts :: "KarnaughClass \<Rightarrow> int"
  best_new_count :: int

definition karnaugh_better :: "KarnaughClass \<Rightarrow> karnaugh_state \<Rightarrow> (KarnaughClass \<Rightarrow> int) \<Rightarrow> int \<Rightarrow> bool" where
  "karnaugh_better preferred st counts n \<longleftrightarrow>
     n > best_new_count st
   \<or> n = best_new_count st \<and> counts K_FREE > best_counts st K_FREE
   \<or> n = best_new_count st \<and> counts K_FREE = best_counts st K_FREE
       \<and> counts preferred > best_counts st preferred"

definition karnaugh_step ::
    "truth_table \<Rightarrow> CellType \<Rightarrow> bool \<Rightarrow> truth_table \<Rightarrow> KarnaughClass list \<Rightarrow> karnaugh_state
     \<Rightarrow> karnaugh_state result" where
  "karnaugh_step t target_value preferred_index so_far k_classes st =
     (let avoid_value = (if target_value = TRUE then FALSE else TRUE);
          preferred_class = (if preferred_index then K_TRUE else K_FALSE);
          sl = candidate_slice k_classes;
          counts = candidate_counts k_classes
      in bindE (CountInSlice so_far sl target_value) (\<lambda>candidate_new_count.
         bindE (CountInSlice t sl avoid_value) (\<lambda>avoid_count.
           Inr (if avoid_count = 0 \<and> candidate_new_count > 0
                   \<and> karnaugh_better preferred_class st counts candidate_new_count
                then \<lparr>best_slice = Some sl, best_counts = counts,
                      best_new_count = candidate_new_count\<rparr>
                else st))))"

definition TryFindBestKarnaughSlice ::
    "truth_table \<Rightarrow> CellType \<Rightarrow> bool \<Rightarrow> truth_table \<Rightarrow> SliceSpec option result" where
  "TryFindBestKarnaughSlice t target_value preferred_index so_far =
     bindE (ForPower (degree t) index_range_kc
             (\<lambda>k_classes st. lift_flow (karnaugh_step t target_value preferred_index so_far k_classes st))
             \<lparr>best_slice = None, best_counts = (\<lambda>_. -1), best_new_count = -1\<rparr>)
       (\<lambda>st. Inr (best_slice st))"

section \<open>Reading a table as a function\<close>

definition cell_index :: "bool list \<Rightarrow> nat" where
  "cell_index bs = horner_sum of_bool 2 bs"

definition cell :: "truth_table \<Rightarrow> bool list \<Rightarrow> CellType" where
  "cell t bs = cells t ! cell_index bs"

definition tt_ok :: "truth_table \<Rightarrow> bool" where
  "tt_ok t \<longleftrightarrow> length (cells t) = 2 ^ degree t"

lemma packed_bits:
  "bit (fold (\<lambda>j c. c OR push_bit j (if bs ! j then 1 else 0)) [0..<k] (0 :: nat)) n \<longleftrightarrow> n < k \<and> bs ! n"
  by (induction k) (auto simp: bit_or_iff bit_push_bit_iff less_Suc_eq bit_1_iff bit_Suc_0_iff)

lemma GetCellIndex_eq:
  "GetCellIndex t bs = guardE (length bs = degree t) (Inr (cell_index bs))"
proof -
  have "fold (\<lambda>j c. c OR push_bit j (if bs ! j then 1 else 0)) [0..<length bs] (0 :: nat) = cell_index bs"
    by (rule bit_eqI) (simp add: packed_bits cell_index_def bit_horner_sum_bit_iff)
  then show ?thesis by (simp add: GetCellIndex_def)
qed

lemma cell_index_less: "length bs = d \<Longrightarrow> cell_index bs < 2 ^ d"
  unfolding cell_index_def using horner_sum_of_bool_2_less[of bs, where 'a = nat] by simp

lemma cell_index_inject: "length bs = length cs \<Longrightarrow> cell_index bs = cell_index cs \<longleftrightarrow> bs = cs"
proof
  assume l: "length bs = length cs" and e: "cell_index bs = cell_index cs"
  have "bs ! n = cs ! n" if "n < length bs" for n
  proof -
    have "bit (cell_index bs) n \<longleftrightarrow> bit (cell_index cs) n" using e by simp
    with \<open>n < length bs\<close> l show ?thesis by (simp add: cell_index_def bit_horner_sum_bit_iff)
  qed
  with l show "bs = cs" by (intro nth_equalityI) auto
qed simp

lemma new_truth_table_ok [simp]:
  "tt_ok (new_truth_table d v)" "degree (new_truth_table d v) = d"
  by (simp_all add: tt_ok_def new_truth_table_def)

lemma cell_new_truth_table: "length bs = d \<Longrightarrow> cell (new_truth_table d v) bs = v"
  by (simp add: cell_def new_truth_table_def cell_index_less)

lemma Get_eq: "tt_ok t \<Longrightarrow> Get t bs = (if length bs = degree t then Inr (cell t bs) else Inl AssertFail)"
  by (simp add: Get_def GetCellIndex_eq cell_def tt_ok_def cell_index_less)

definition tt_update :: "truth_table \<Rightarrow> bool list \<Rightarrow> CellType \<Rightarrow> truth_table" where
  "tt_update t bs v = t\<lparr>cells := (cells t)[cell_index bs := v]\<rparr>"

lemma Set_eq: "tt_ok t \<Longrightarrow> Set t bs v = (if length bs = degree t then Inr (tt_update t bs v) else Inl AssertFail)"
  by (simp add: Set_def GetCellIndex_eq tt_update_def tt_ok_def cell_index_less)

lemma tt_update_simps [simp]:
  "degree (tt_update t bs v) = degree t"
  "tt_ok (tt_update t bs v) = tt_ok t"
  by (simp_all add: tt_update_def tt_ok_def)

lemma cell_tt_update:
  "tt_ok t \<Longrightarrow> length bs = degree t \<Longrightarrow> length cs = degree t \<Longrightarrow>
     cell (tt_update t bs v) cs = (if cs = bs then v else cell t cs)"
  by (auto simp: cell_def tt_update_def tt_ok_def nth_list_update cell_index_less cell_index_inject)

lemma nth_of_index:
  assumes "i < 2 ^ d" obtains bs where "length bs = d" "cell_index bs = i"
proof -
  have "cell_index (map (bit i) [0..<d]) = i"
    using assms horner_sum_bit_eq_take_bit[of i d] by (simp add: cell_index_def take_bit_nat_eq_self)
  then show ?thesis by (intro that[of "map (bit i) [0..<d]"]) auto
qed

text \<open>A well-formed table is determined by its reading.\<close>

lemma tt_eqI:
  assumes "tt_ok t" "tt_ok u" "degree t = degree u"
    "\<And>bs. length bs = degree t \<Longrightarrow> cell t bs = cell u bs"
  shows "t = u"
proof -
  have "cells t ! i = cells u ! i" if "i < length (cells t)" for i
  proof -
    obtain bs where "length bs = degree t" "cell_index bs = i"
      using \<open>i < length (cells t)\<close> assms(1) by (auto simp: tt_ok_def intro: nth_of_index)
    with assms(4)[of bs] show ?thesis by (simp add: cell_def)
  qed
  then have "cells t = cells u"
    using assms(1-3) by (intro nth_equalityI) (auto simp: tt_ok_def)
  with assms(3) show ?thesis by simp
qed

section \<open>Filling an index vector from a slice and its free axes\<close>

definition slice_ok :: "nat \<Rightarrow> SliceSpec \<Rightarrow> bool" where
  "slice_ok d sl \<longleftrightarrow> sorted_map sl \<and> (\<forall>k \<in> fst ` set sl. k < d)"

definition matches :: "SliceSpec \<Rightarrow> bool list \<Rightarrow> bool" where
  "matches sl bs \<longleftrightarrow> (\<forall>(i, b) \<in> set sl. bs ! i = b)"

definition fill :: "nat \<Rightarrow> SliceSpec \<Rightarrow> bool list \<Rightarrow> bool list" where
  "fill d sl fi = map (\<lambda>i. case map_of sl i of Some b \<Rightarrow> b
                          | None \<Rightarrow> the (map_of (zip (free_axes d sl) fi) i)) [0..<d]"

lemma set_free_axes: "set (free_axes d sl) = {i. i < d \<and> i \<notin> fst ` set sl}"
  by (auto simp: free_axes_def)

lemma distinct_free_axes [simp]: "distinct (free_axes d sl)"
  by (simp add: free_axes_def)

lemma sorted_free_axes: "sorted_set (free_axes d sl)"
  by (simp add: free_axes_def sorted_wrt_filter)

lemma length_free_axes:
  assumes "slice_ok d sl" shows "length (free_axes d sl) + length sl = d"
proof -
  have "length (free_axes d sl) = card {i. i < d \<and> i \<notin> fst ` set sl}"
    using distinct_card[OF distinct_free_axes] by (metis set_free_axes)
  also have "{i. i < d \<and> i \<notin> fst ` set sl} = {..<d} - fst ` set sl" by auto
  also have "card \<dots> = d - card (fst ` set sl)"
    using assms by (subst card_Diff_subset) (auto simp: slice_ok_def)
  also have "card (fst ` set sl) = length sl"
    using assms sorted_map_distinct[of sl] by (metis distinct_card length_map set_map slice_ok_def)
  finally have "length (free_axes d sl) = d - length sl" .
  moreover have "length sl \<le> d"
    using assms card_mono[of "{..<d}" "fst ` set sl"] \<open>card (fst ` set sl) = length sl\<close>
    by (auto simp: slice_ok_def)
  ultimately show ?thesis by simp
qed

lemma length_fill [simp]: "length (fill d sl fi) = d"
  by (simp add: fill_def)

lemma matches_fill: "slice_ok d sl \<Longrightarrow> matches sl (fill d sl fi)"
  by (auto simp: matches_def fill_def slice_ok_def map_of_sorted_mem[symmetric])

lemma fill_free:
  assumes "length fi = length (free_axes d sl)" "k < length fi"
  shows "fill d sl fi ! (free_axes d sl ! k) = fi ! k"
proof -
  let ?i = "free_axes d sl ! k"
  have "?i \<in> set (free_axes d sl)" using assms by simp
  then have "?i < d" "map_of sl ?i = None" by (auto simp: set_free_axes map_of_eq_None_iff)
  moreover have "map_of (zip (free_axes d sl) fi) ?i = Some (fi ! k)"
    using assms by (intro map_of_zip_nth) auto
  ultimately show ?thesis by (simp add: fill_def)
qed

lemma fill_of_matching:
  assumes "slice_ok d sl" "length bs = d" "matches sl bs"
  shows "fill d sl (map ((!) bs) (free_axes d sl)) = bs"
proof (rule nth_equalityI)
  fix i assume "i < length (fill d sl (map ((!) bs) (free_axes d sl)))"
  then have i: "i < d" by simp
  show "fill d sl (map ((!) bs) (free_axes d sl)) ! i = bs ! i"
  proof (cases "map_of sl i")
    case None
    then have "i \<in> set (free_axes d sl)" using i by (simp add: set_free_axes map_of_eq_None_iff)
    with None i show ?thesis by (simp add: fill_def map_of_zip_map)
  next
    case (Some b)
    then have "(i, b) \<in> set sl" by (rule map_of_SomeD)
    with assms(3) Some i show ?thesis by (auto simp: fill_def matches_def)
  qed
qed (simp add: assms)

lemma fill_image:
  assumes "slice_ok d sl"
  shows "fill d sl ` {fi. length fi = length (free_axes d sl)} = {bs. length bs = d \<and> matches sl bs}"
proof
  show "fill d sl ` {fi. length fi = length (free_axes d sl)} \<subseteq> {bs. length bs = d \<and> matches sl bs}"
    using matches_fill[OF assms] by auto
  show "{bs. length bs = d \<and> matches sl bs} \<subseteq> fill d sl ` {fi. length fi = length (free_axes d sl)}"
  proof
    fix bs assume "bs \<in> {bs. length bs = d \<and> matches sl bs}"
    then have "bs = fill d sl (map ((!) bs) (free_axes d sl))"
      using fill_of_matching[OF assms, of bs] by simp
    then show "bs \<in> fill d sl ` {fi. length fi = length (free_axes d sl)}"
      by (rule image_eqI) simp
  qed
qed

lemma map_fill_free: "length fi = length (free_axes d sl) \<Longrightarrow> map ((!) (fill d sl fi)) (free_axes d sl) = fi"
  by (intro nth_equalityI) (auto simp: fill_free)

lemma inj_fill: "inj_on (fill d sl) {fi. length fi = length (free_axes d sl)}"
  by (rule inj_on_inverseI[where g = "\<lambda>bs. map ((!) bs) (free_axes d sl)"]) (simp add: map_fill_free)

section \<open>The loop shared by the slice operations\<close>

lemma slice_start_ok:
  assumes "slice_ok d sl"
  obtains full where "slice_start d sl = Inr (free_axes d sl, full)" "length full = d" "matches sl full"
proof -
  have "\<forall>k \<in> fst ` set sl. k < length (replicate d False)" "distinct (map fst sl)"
    using assms sorted_map_distinct by (auto simp: slice_ok_def)
  from ScatterInto_nth[OF this] obtain full where
    f: "ScatterInto (replicate d False) sl = Inr full" "length full = d"
      "\<forall>i < d. full ! i = (case map_of sl i of Some x \<Rightarrow> x | None \<Rightarrow> replicate d False ! i)"
    by auto
  have "matches sl full"
    using f(3) assms by (auto simp: matches_def slice_ok_def map_of_sorted_mem[symmetric])
  with f show ?thesis
    using length_free_axes[OF assms] by (intro that[of full]) (auto simp: slice_start_def)
qed

lemma slice_start_bad:
  assumes "sorted_map sl" "\<not> slice_ok d sl"
  shows "slice_start d sl = Inl AssertFail"
proof -
  let ?in = "filter (\<lambda>p. fst p < d) sl"
  have "sorted_map ?in" using assms(1) by (simp add: sorted_wrt_filter)
  then have ok: "slice_ok d ?in" by (auto simp: slice_ok_def)
  moreover have "free_axes d ?in = free_axes d sl"
    unfolding free_axes_def by (rule filter_cong) (auto simp: image_iff)
  ultimately have "length (free_axes d sl) + length ?in = d"
    using length_free_axes by metis
  moreover have "length ?in < length sl"
    using assms by (auto simp: slice_ok_def intro!: length_filter_less)
  ultimately show ?thesis by (simp add: slice_start_def guardE_def)
qed

lemma scatter_axes_fill:
  assumes ok: "slice_ok d sl" and l: "length full = d" and m: "matches sl full"
    and fi: "length fi = length (free_axes d sl)"
  shows "scatter_axes (free_axes d sl) fi full = Inr (fill d sl fi)"
proof -
  let ?ax = "free_axes d sl"
  obtain zm where zm: "ZipToMap (<) ?ax fi = Inr zm" "sorted_map zm" "set zm = set (zip ?ax fi)"
      "map_of zm = map_of (zip ?ax fi)"
    using ZipToMap_lookup[of ?ax fi] fi by auto
  have "\<forall>k \<in> fst ` set zm. k < length full"
    using zm(3) l by (auto dest!: set_zip_leftD simp: set_free_axes)
  from ScatterInto_nth[OF this sorted_map_distinct[OF zm(2)]] obtain w where
    w: "ScatterInto full zm = Inr w" "length w = d"
      "\<forall>i < d. w ! i = (case map_of zm i of Some x \<Rightarrow> x | None \<Rightarrow> full ! i)"
    using l by auto
  have "w = fill d sl fi"
  proof (rule nth_equalityI)
    fix i assume "i < length w"
    then have i: "i < d" using w by simp
    show "w ! i = fill d sl fi ! i"
    proof (cases "map_of sl i")
      case None
      then have "i \<in> set ?ax" using i by (simp add: set_free_axes map_of_eq_None_iff)
      then have "map_of (zip ?ax fi) i \<noteq> None" using fi by (simp add: map_of_zip_is_None)
      with None i w zm show ?thesis by (auto simp: fill_def)
    next
      case (Some b)
      then have b: "(i, b) \<in> set sl" by (rule map_of_SomeD)
      then have "i \<notin> set ?ax" by (force simp: set_free_axes)
      then have "map_of (zip ?ax fi) i = None" using fi by (simp add: map_of_zip_is_None)
      with Some i w zm m b show ?thesis by (auto simp: fill_def matches_def)
    qed
  qed (simp add: w)
  with zm w show ?thesis by (simp add: scatter_axes_def)
qed

lemma ForPower_pair:
  "ForPower n index_range_bool (\<lambda>x (a, b). lift_flow (g x a b)) s
     = foldE (\<lambda>x (a, b). g x a b) (tuples n index_range_bool) s"
proof -
  have "(\<lambda>x (a, b). lift_flow (g x a b)) = (\<lambda>x p. lift_flow (case p of (a, b) \<Rightarrow> g x a b))"
    by (auto simp: fun_eq_iff)
  then show ?thesis by (simp add: ForPower_foldE index_range_bool_def)
qed

lemma slice_foldE:
  assumes "slice_ok d sl" "length full = d" "matches sl full"
    "\<forall>fi \<in> set ts. length fi = length (free_axes d sl)"
  shows "bindE (foldE (\<lambda>fi (full, s). bindE (scatter_axes (free_axes d sl) fi full)
                 (\<lambda>full'. bindE (f fi full' s) (\<lambda>s'. Inr (full', s')))) ts (full, s)) (\<lambda>(full, s). Inr s)
       = foldE (\<lambda>fi. f fi (fill d sl fi)) ts s"
  using assms
proof (induction ts arbitrary: full s)
  case (Cons fi ts)
  then have sc: "scatter_axes (free_axes d sl) fi full = Inr (fill d sl fi)"
    by (simp add: scatter_axes_fill)
  show ?case
  proof (cases "f fi (fill d sl fi) s")
    case (Inl e)
    with sc show ?thesis by simp
  next
    case (Inr s')
    with sc Cons.prems show ?thesis by (simp add: Cons.IH matches_fill)
  qed
qed simp

abbreviation all_indices :: "nat \<Rightarrow> bool list list" where
  "all_indices n \<equiv> tuples n index_range_bool"

lemma set_all_indices: "set (all_indices n) = {bs. length bs = n}"
  by (auto simp: set_tuples index_range_bool_def)

lemma slice_ForPower:
  assumes "slice_ok d sl"
  shows "bindE (slice_start d sl) (\<lambda>(axes, full).
      bindE (ForPower (length axes) index_range_bool (\<lambda>fi (full, s). lift_flow
         (bindE (scatter_axes axes fi full) (\<lambda>full'. bindE (f fi full' s) (\<lambda>s'. Inr (full', s')))))
         (full, s0 (length axes))) (\<lambda>(full, s). Inr s))
    = foldE (\<lambda>fi. f fi (fill d sl fi)) (all_indices (length (free_axes d sl)))
        (s0 (length (free_axes d sl)))"
proof -
  obtain full where "slice_start d sl = Inr (free_axes d sl, full)" "length full = d" "matches sl full"
    using slice_start_ok[OF assms] .
  then show ?thesis
    using slice_foldE[OF assms, of full "all_indices (length (free_axes d sl))" f]
    by (simp add: ForPower_pair set_all_indices)
qed

lemma SetSlice_fold:
  "slice_ok (degree t) sl \<Longrightarrow> SetSlice t sl v =
     foldE (\<lambda>fi t'. Set t' (fill (degree t) sl fi) v) (all_indices (length (free_axes (degree t) sl))) t"
  using slice_ForPower[of "degree t" sl "\<lambda>fi full t'. Set t' full v" "\<lambda>_. t"]
  by (simp add: SetSlice_def)

lemma SetSliceTable_fold:
  "slice_ok (degree t) sl \<Longrightarrow> length sl + degree u = degree t \<Longrightarrow> SetSliceTable t sl u =
     foldE (\<lambda>fi t'. bindE (Get u fi) (\<lambda>v. Set t' (fill (degree t) sl fi) v))
       (all_indices (length (free_axes (degree t) sl))) t"
  using slice_ForPower[of "degree t" sl "\<lambda>fi full t'. bindE (Get u fi) (\<lambda>v. Set t' full v)" "\<lambda>_. t"]
  by (simp add: SetSliceTable_def bindE_assoc)

lemma GetSlice_fold:
  "slice_ok (degree t) sl \<Longrightarrow> GetSlice t sl =
     foldE (\<lambda>fi u. bindE (Get t (fill (degree t) sl fi)) (\<lambda>v. Set u fi v))
       (all_indices (length (free_axes (degree t) sl)))
       (new_truth_table (length (free_axes (degree t) sl)) FALSE)"
  using slice_ForPower[of "degree t" sl "\<lambda>fi full u. bindE (Get t full) (\<lambda>v. Set u fi v)"
      "\<lambda>n. new_truth_table n FALSE"]
  by (simp add: GetSlice_def bindE_assoc)

lemma CountInSlice_fold:
  "slice_ok (degree t) sl \<Longrightarrow> CountInSlice t sl v =
     foldE (\<lambda>fi c. bindE (Get t (fill (degree t) sl fi)) (\<lambda>w. Inr (if w = v then c + 1 else c)))
       (all_indices (length (free_axes (degree t) sl))) 0"
  using slice_ForPower[of "degree t" sl "\<lambda>fi full c. bindE (Get t full) (\<lambda>w. Inr (if w = v then c + 1 else c))"
      "\<lambda>_. 0 :: int"]
  by (simp add: CountInSlice_def bindE_assoc)

section \<open>What the slice operations do\<close>

lemma foldE_Set:
  assumes "tt_ok t" "\<forall>x \<in> set xs. length (g x) = degree t"
    "\<And>x y. x \<in> set xs \<Longrightarrow> y \<in> set xs \<Longrightarrow> g x = g y \<Longrightarrow> h x = h y"
  shows "\<exists>t'. foldE (\<lambda>x t'. Set t' (g x) (h x)) xs t = Inr t' \<and> tt_ok t' \<and> degree t' = degree t
    \<and> (\<forall>x \<in> set xs. cell t' (g x) = h x)
    \<and> (\<forall>bs. length bs = degree t \<longrightarrow> bs \<notin> g ` set xs \<longrightarrow> cell t' bs = cell t bs)"
  using assms
proof (induction xs rule: rev_induct)
  case (snoc x xs)
  then obtain t' where t': "foldE (\<lambda>x t'. Set t' (g x) (h x)) xs t = Inr t'" "tt_ok t'" "degree t' = degree t"
      "\<forall>x \<in> set xs. cell t' (g x) = h x"
      "\<forall>bs. length bs = degree t \<longrightarrow> bs \<notin> g ` set xs \<longrightarrow> cell t' bs = cell t bs"
    by auto
  let ?u = "tt_update t' (g x) (h x)"
  have "Set t' (g x) (h x) = Inr ?u" using t' snoc.prems(2) by (simp add: Set_eq)
  moreover have "cell ?u (g y) = h y" if "y \<in> set (xs @ [x])" for y
    using \<open>y \<in> set (xs @ [x])\<close> t' snoc.prems(2) snoc.prems(3)[of y x] by (auto simp: cell_tt_update)
  moreover have "cell ?u bs = cell t bs" if "length bs = degree t" "bs \<notin> g ` set (xs @ [x])" for bs
    using that t' snoc.prems(2) by (auto simp: cell_tt_update)
  ultimately show ?case using t' by (auto simp: foldE_append)
qed simp

lemma foldE_cong:
  "(\<And>x s. x \<in> set xs \<Longrightarrow> f x s = g x s) \<Longrightarrow> foldE f xs s = foldE g xs s"
  by (induction xs arbitrary: s) (auto intro: bindE_cong)

lemma matches_iff_fill:
  "slice_ok d sl \<Longrightarrow> length bs = d \<Longrightarrow>
     bs \<in> fill d sl ` set (all_indices (length (free_axes d sl))) \<longleftrightarrow> matches sl bs"
  using fill_image[of d sl] by (auto simp: set_all_indices)

lemma SetSlice_spec:
  assumes "tt_ok t" "slice_ok (degree t) sl"
  obtains t' where "SetSlice t sl v = Inr t'" "tt_ok t'" "degree t' = degree t"
    "\<And>bs. length bs = degree t \<Longrightarrow> cell t' bs = (if matches sl bs then v else cell t bs)"
proof -
  let ?d = "degree t"
  obtain t' where t': "foldE (\<lambda>fi t'. Set t' (fill ?d sl fi) v) (all_indices (length (free_axes ?d sl))) t = Inr t'"
      "tt_ok t'" "degree t' = ?d"
      "\<forall>fi \<in> set (all_indices (length (free_axes ?d sl))). cell t' (fill ?d sl fi) = v"
      "\<forall>bs. length bs = ?d \<longrightarrow> bs \<notin> fill ?d sl ` set (all_indices (length (free_axes ?d sl)))
          \<longrightarrow> cell t' bs = cell t bs"
    using foldE_Set[of t _ "fill ?d sl" "\<lambda>_. v"] assms(1) by fastforce
  have "cell t' bs = (if matches sl bs then v else cell t bs)" if "length bs = ?d" for bs
    using matches_iff_fill[OF assms(2) that] t'(4,5) that by auto
  with t' show ?thesis
    using that SetSlice_fold[OF assms(2)] by simp
qed

lemma GetSlice_spec:
  assumes "tt_ok t" "slice_ok (degree t) sl"
  obtains u where "GetSlice t sl = Inr u" "tt_ok u" "degree u = length (free_axes (degree t) sl)"
    "\<And>fi. length fi = degree u \<Longrightarrow> cell u fi = cell t (fill (degree t) sl fi)"
proof -
  let ?d = "degree t" and ?n = "length (free_axes (degree t) sl)"
  have "GetSlice t sl = foldE (\<lambda>fi u. Set u fi (cell t (fill ?d sl fi))) (all_indices ?n) (new_truth_table ?n FALSE)"
    unfolding GetSlice_fold[OF assms(2)]
    by (rule foldE_cong) (simp add: Get_eq[OF assms(1)])
  moreover obtain u where "foldE (\<lambda>fi u. Set u fi (cell t (fill ?d sl fi))) (all_indices ?n) (new_truth_table ?n FALSE) = Inr u"
      "tt_ok u" "degree u = ?n" "\<forall>fi \<in> set (all_indices ?n). cell u fi = cell t (fill ?d sl fi)"
    using foldE_Set[of "new_truth_table ?n FALSE" "all_indices ?n" id "\<lambda>fi. cell t (fill ?d sl fi)"]
    by (auto simp: set_all_indices)
  ultimately show ?thesis using that by (auto simp: set_all_indices)
qed

lemma SetSliceTable_spec:
  assumes "tt_ok t" "slice_ok (degree t) sl" "tt_ok u" "length sl + degree u = degree t"
  obtains t' where "SetSliceTable t sl u = Inr t'" "tt_ok t'" "degree t' = degree t"
    "\<And>fi. length fi = degree u \<Longrightarrow> cell t' (fill (degree t) sl fi) = cell u fi"
    "\<And>bs. length bs = degree t \<Longrightarrow> \<not> matches sl bs \<Longrightarrow> cell t' bs = cell t bs"
proof -
  let ?d = "degree t" and ?n = "length (free_axes (degree t) sl)"
  have n: "?n = degree u" using length_free_axes[OF assms(2)] assms(4) by simp
  have len: "\<forall>x \<in> set (all_indices ?n). length (fill ?d sl x) = degree t" by simp
  have inj: "cell u x = cell u y"
    if "x \<in> set (all_indices ?n)" "y \<in> set (all_indices ?n)" "fill ?d sl x = fill ?d sl y" for x y
    using inj_onD[OF inj_fill[of ?d sl] that(3)] that(1,2) by (simp add: set_all_indices)
  have "SetSliceTable t sl u = foldE (\<lambda>fi t'. Set t' (fill ?d sl fi) (cell u fi)) (all_indices ?n) t"
    unfolding SetSliceTable_fold[OF assms(2,4)]
    by (rule foldE_cong) (simp add: Get_eq[OF assms(3)] set_all_indices n)
  moreover obtain t' where "foldE (\<lambda>fi t'. Set t' (fill ?d sl fi) (cell u fi)) (all_indices ?n) t = Inr t'"
      "tt_ok t'" "degree t' = ?d" "\<forall>fi \<in> set (all_indices ?n). cell t' (fill ?d sl fi) = cell u fi"
      "\<forall>bs. length bs = ?d \<longrightarrow> bs \<notin> fill ?d sl ` set (all_indices ?n) \<longrightarrow> cell t' bs = cell t bs"
    using foldE_Set[where h = "cell u", OF assms(1) len inj] by blast
  ultimately show ?thesis
    using that matches_iff_fill[OF assms(2)] by (auto simp: set_all_indices n)
qed

lemma foldE_count:
  "foldE (\<lambda>x c. Inr (if P x then c + 1 else c)) xs n = Inr (n + int (length (filter P xs)))"
  by (induction xs arbitrary: n) auto

lemma CountInSlice_spec:
  assumes "tt_ok t" "slice_ok (degree t) sl"
  shows "CountInSlice t sl v = Inr (int (card {bs. length bs = degree t \<and> matches sl bs \<and> cell t bs = v}))"
proof -
  let ?d = "degree t" and ?n = "length (free_axes (degree t) sl)"
  let ?P = "\<lambda>fi. cell t (fill ?d sl fi) = v"
  have "CountInSlice t sl v = foldE (\<lambda>fi c. Inr (if ?P fi then c + 1 else c)) (all_indices ?n) 0"
    unfolding CountInSlice_fold[OF assms(2)]
    by (rule foldE_cong) (simp add: Get_eq[OF assms(1)])
  also have "\<dots> = Inr (int (length (filter ?P (all_indices ?n))))" by (simp add: foldE_count)
  also have "length (filter ?P (all_indices ?n)) = card {fi. length fi = ?n \<and> ?P fi}"
    using distinct_card[of "filter ?P (all_indices ?n)"]
    by (simp add: distinct_tuples index_range_bool_def set_all_indices[unfolded index_range_bool_def] conj_commute)
  also have "\<dots> = card (fill ?d sl ` {fi. length fi = ?n \<and> ?P fi})"
    by (rule card_image[symmetric]) (rule inj_on_subset[OF inj_fill], auto)
  also have "fill ?d sl ` {fi. length fi = ?n \<and> ?P fi}
      = {bs \<in> fill ?d sl ` {fi. length fi = ?n}. cell t bs = v}" by auto
  also have "\<dots> = {bs. length bs = ?d \<and> matches sl bs \<and> cell t bs = v}"
    by (auto simp: fill_image[OF assms(2)])
  finally show ?thesis .
qed

section \<open>Extending\<close>

lemma copy_block_nth:
  assumes "n + n \<le> length xs" "k < n + n"
  shows "copy_block n xs ! k = xs ! (if k < n then k else k - n)"
  using assms by (auto simp: copy_block_def nth_append min_def)

lemma length_copy_block: "n + n \<le> length xs \<Longrightarrow> length (copy_block n xs) = length xs"
  by (simp add: copy_block_def)

lemma Extend_cells:
  assumes "length cs = 2 ^ d'" "d \<le> a" "a \<le> d'" "\<forall>k < 2 ^ d. cs ! k = old ! k"
  shows "length (fold (\<lambda>axis. copy_block (2 ^ axis)) [d..<a] cs) = 2 ^ d'
    \<and> (\<forall>k < 2 ^ a. fold (\<lambda>axis. copy_block (2 ^ axis)) [d..<a] cs ! k = old ! (k mod 2 ^ d))"
  using assms(2,3)
proof (induction a rule: dec_induct)
  case base
  with assms show ?case by simp
next
  case (step a)
  let ?xs = "fold (\<lambda>axis. copy_block (2 ^ axis)) [d..<a] cs"
  have len: "length ?xs = 2 ^ d'" and nth: "\<forall>k < 2 ^ a. ?xs ! k = old ! (k mod 2 ^ d)"
    using step by auto
  have "(2 ^ a + 2 ^ a :: nat) \<le> 2 ^ d'"
    using step.prems power_increasing[of "Suc a" d' "2 :: nat"] by simp
  then have le: "2 ^ a + 2 ^ a \<le> length ?xs" using len by simp
  have "copy_block (2 ^ a) ?xs ! k = old ! (k mod 2 ^ d)" if k: "k < 2 ^ Suc a" for k
  proof (cases "k < 2 ^ a")
    case True
    with le nth k show ?thesis by (simp add: copy_block_nth)
  next
    case False
    have "(2 :: nat) ^ d dvd 2 ^ a" using step.hyps by (simp add: le_imp_power_dvd)
    then have "(k - 2 ^ a) mod 2 ^ d = k mod 2 ^ d"
      using False by (metis dvd_imp_mod_0 le_add_diff_inverse2 mod_add_right_eq add.right_neutral not_less)
    with False le nth k show ?thesis by (auto simp: copy_block_nth)
  qed
  with le len step.hyps show ?case by (simp add: length_copy_block)
qed

lemma Extend_spec:
  assumes "tt_ok t" "degree t \<le> d'"
  shows "tt_ok (Extend t d')" and "degree (Extend t d') = d'"
    and "length bs = d' \<Longrightarrow> cell (Extend t d') bs = cell t (take (degree t) bs)"
proof -
  let ?cs = "vec_resize (cells t) (2 ^ d')"
  have le: "length (cells t) \<le> 2 ^ d'" using assms by (simp add: tt_ok_def)
  then have "length ?cs = 2 ^ d'" "\<forall>k < 2 ^ degree t. ?cs ! k = cells t ! k"
    using assms(1) by (simp_all add: vec_resize_def tt_ok_def nth_append)
  note ext = Extend_cells[OF this(1) assms(2) order.refl this(2)]
  show "tt_ok (Extend t d')" using ext by (simp add: tt_ok_def Extend_def)
  show "degree (Extend t d') = d'" by (simp add: Extend_def)
  assume l: "length bs = d'"
  have "cell_index bs mod 2 ^ degree t = cell_index (take (degree t) bs)"
    by (simp add: cell_index_def take_bit_horner_sum_bit_eq flip: take_bit_eq_mod)
  with ext l show "cell (Extend t d') bs = cell t (take (degree t) bs)"
    by (simp add: cell_def Extend_def cell_index_less)
qed

section \<open>Folding\<close>

lemma max_element_eq: "xs \<noteq> [] \<Longrightarrow> max_element xs = Inr (Max (set xs))"
proof -
  have "fold (\<lambda>x m. if m < x then x else m) ys (y :: CellType) = Max (set (y # ys))" for y ys
  proof (induction ys arbitrary: y)
    case (Cons z ys)
    have "(if y < z then z else y) = max y z" by (auto simp: max_def)
    with Cons.IH[of "max y z"] show ?case
      by (cases ys) (simp_all add: max.assoc)
  qed simp
  then show "xs \<noteq> [] \<Longrightarrow> ?thesis" by (cases xs) (simp_all add: max_element_def)
qed

lemma scatter_axes_matches:
  assumes "distinct axes" "\<forall>k \<in> set axes. k < length full" "length idx = length axes"
  obtains w where "scatter_axes axes idx full = Inr w" "length w = length full" "matches (zip axes idx) w"
proof -
  obtain m where m: "ZipToMap (<) axes idx = Inr m" "sorted_map m" "set m = set (zip axes idx)"
    using ZipToMap_lookup[OF assms(1), of idx] assms(3) by auto
  have "\<forall>k \<in> fst ` set m. k < length full" using m(3) assms(2) by (auto dest: set_zip_leftD)
  from ScatterInto_nth[OF this sorted_map_distinct[OF m(2)]] obtain w where
    w: "ScatterInto full m = Inr w" "length w = length full"
      "\<forall>i < length full. w ! i = (case map_of m i of Some x \<Rightarrow> x | None \<Rightarrow> full ! i)" by auto
  have "matches (zip axes idx) w"
    unfolding matches_def
  proof clarify
    fix i b assume "(i, b) \<in> set (zip axes idx)"
    then have "map_of m i = Some b" "i < length full"
      using m assms(2) by (auto simp: map_of_sorted_mem dest: set_zip_leftD)
    with w show "w ! i = b" by simp
  qed
  with m w show ?thesis by (intro that[of w]) (simp_all add: scatter_axes_def)
qed

definition fold_slice :: "nat \<Rightarrow> nat list \<Rightarrow> bool list \<Rightarrow> SliceSpec" where
  "fold_slice d axes di = zip (fold_dest_axes d axes) di"

lemma sorted_fold_dest_axes: "sorted_set (fold_dest_axes d axes)"
  by (simp add: fold_dest_axes_def sorted_wrt_filter)

lemma fold_slice_ok:
  assumes "sorted_set axes" "\<forall>a \<in> set axes. a < d" "length di = length (fold_dest_axes d axes)"
  shows "slice_ok d (fold_slice d axes di)" and "free_axes d (fold_slice d axes di) = axes"
proof -
  have keys: "map fst (fold_slice d axes di) = fold_dest_axes d axes"
    using assms(3) by (simp add: fold_slice_def)
  then have "fst ` set (fold_slice d axes di) = set (fold_dest_axes d axes)" by (metis set_map)
  then have fst_set: "fst ` set (fold_slice d axes di) = {i. i < d \<and> i \<notin> set axes}"
    by (auto simp: fold_dest_axes_def)
  show "slice_ok d (fold_slice d axes di)"
    using keys fst_set sorted_fold_dest_axes[of d axes] by (simp add: slice_ok_def sorted_map_keys)
  have "set (free_axes d (fold_slice d axes di)) = set axes"
    using assms(2) by (auto simp: set_free_axes fst_set)
  then show "free_axes d (fold_slice d axes di) = axes"
    using assms(1) sorted_free_axes[of d] by (metis strict_sorted_equal)
qed

lemma length_fold_dest_axes:
  assumes "sorted_set axes" "\<forall>a \<in> set axes. a < d"
  shows "length (fold_dest_axes d axes) + length axes = d"
  using length_free_axes[OF fold_slice_ok(1)[OF assms]] fold_slice_ok(2)[OF assms]
  by (metis Ex_list_of_length add.commute fold_slice_def length_zip min.idem)

text \<open>The value \<^verbatim>\<open>GetFolded\<close> computes for one destination cell.\<close>

definition folded_cell :: "truth_table \<Rightarrow> nat list \<Rightarrow> bool list \<Rightarrow> CellType" where
  "folded_cell t axes di = Max {cell t bs | bs. length bs = degree t \<and> matches (fold_slice (degree t) axes di) bs}"

lemma foldE_container_insert:
  "foldE (\<lambda>x c. Inr (fst (container_insert (<) (f x) c))) xs s
     = Inr (fold (\<lambda>x c. fst (container_insert (<) (f x) c)) xs s)"
  by (rule foldE_pure) simp

lemma fold_container_insert_set:
  "sorted_set s \<Longrightarrow> set (fold (\<lambda>x c. fst (container_insert (<) (f x) c)) xs s) = set s \<union> f ` set xs"
  by (induction xs arbitrary: s) (auto simp: lin.container_insert_props)

lemma fold_inner:
  assumes "tt_ok t" "sorted_set axes" "\<forall>a \<in> set axes. a < degree t"
    "length di = length (fold_dest_axes (degree t) axes)"
    "length full = degree t" "matches (fold_slice (degree t) axes di) full"
  shows "bindE (ForPower (length axes) index_range_bool
            (\<lambda>fold_indices (full, cells_to_fold). lift_flow
               (bindE (scatter_axes axes fold_indices full) (\<lambda>full'. bindE (Get t full') (\<lambda>v.
                  Inr (full', fst (container_insert (<) v cells_to_fold)))))) (full, []))
          (\<lambda>(full, cells_to_fold). bindE (max_element cells_to_fold) k)
       = k (folded_cell t axes di)"
proof -
  let ?d = "degree t" and ?sl = "fold_slice (degree t) axes di"
  note ok = fold_slice_ok[OF assms(2-4)]
  let ?c = "fold (\<lambda>x c. fst (container_insert (<) (cell t (fill ?d ?sl x)) c)) (all_indices (length axes)) []"
  have "bindE (foldE (\<lambda>fi (full, c). bindE (scatter_axes axes fi full)
           (\<lambda>full'. bindE (bindE (Get t full') (\<lambda>v. Inr (fst (container_insert (<) v c))))
              (\<lambda>s'. Inr (full', s')))) (all_indices (length axes)) (full, [])) (\<lambda>(full, s). Inr s)
      = foldE (\<lambda>fi c. bindE (Get t (fill ?d ?sl fi)) (\<lambda>v. Inr (fst (container_insert (<) v c))))
          (all_indices (length axes)) []"
    using slice_foldE[OF ok(1) assms(5,6), of "all_indices (length axes)"
        "\<lambda>fi full c. bindE (Get t full) (\<lambda>v. Inr (fst (container_insert (<) v c)))" "[]"]
    by (simp add: ok(2) set_all_indices)
  also have "\<dots> = Inr ?c"
    using assms(1) by (simp add: Get_eq foldE_container_insert)
  finally obtain f where "foldE (\<lambda>fi (full, c). bindE (scatter_axes axes fi full)
      (\<lambda>full'. bindE (Get t full') (\<lambda>v. Inr (full', fst (container_insert (<) v c)))))
      (all_indices (length axes)) (full, []) = Inr (f, ?c)"
    by (auto simp: bindE_assoc)
  then have "ForPower (length axes) index_range_bool
            (\<lambda>fold_indices (full, cells_to_fold). lift_flow
               (bindE (scatter_axes axes fold_indices full) (\<lambda>full'. bindE (Get t full') (\<lambda>v.
                  Inr (full', fst (container_insert (<) v cells_to_fold)))))) (full, []) = Inr (f, ?c)"
    by (simp only: ForPower_pair)
  moreover have img: "set ?c = (cell t \<circ> fill ?d ?sl) ` {fi. length fi = length axes}"
    by (simp add: fold_container_insert_set set_all_indices comp_def)
  moreover have "set ?c = {cell t bs | bs. length bs = ?d \<and> matches ?sl bs}"
    unfolding img image_comp[symmetric] using fill_image[OF ok(1)] by (auto simp: ok(2))
  moreover have "?c \<noteq> []"
    using img Ex_list_of_length[of "length axes"] by (metis (mono_tags, lifting) empty_iff image_eqI list.set(1) mem_Collect_eq)
  ultimately show ?thesis
    by (simp add: max_element_eq folded_cell_def)
qed

lemma GetFolded_spec:
  assumes "tt_ok t" "sorted_set axes" "\<forall>a \<in> set axes. a < degree t"
  obtains u where "GetFolded t axes = Inr u" "tt_ok u" "degree u = length (fold_dest_axes (degree t) axes)"
    "\<And>di. length di = degree u \<Longrightarrow> cell u di = folded_cell t axes di"
proof -
  let ?d = "degree t" and ?dest = "fold_dest_axes (degree t) axes"
  let ?n = "length ?dest" and ?inner = "\<lambda>(full :: bool list). ForPower (length axes) index_range_bool
                     (\<lambda>fold_indices (full, cells_to_fold). lift_flow
                       (bindE (scatter_axes axes fold_indices full) (\<lambda>full'.
                        bindE (Get t full') (\<lambda>v.
                        Inr (full', fst (container_insert (<) v cells_to_fold)))))) (full, [])"
  have dist: "distinct ?dest" "\<forall>k \<in> set ?dest. k < ?d" by (auto simp: fold_dest_axes_def)
  have step: "bindE (scatter_axes ?dest di (replicate ?d False)) (\<lambda>full.
      bindE (?inner full) (\<lambda>(full, c). bindE (max_element c) k)) = k (folded_cell t axes di)"
    if "length di = ?n" for di and k :: "CellType \<Rightarrow> truth_table result"
  proof -
    have "\<forall>k \<in> set ?dest. k < length (replicate ?d False)" using dist(2) by simp
    from scatter_axes_matches[OF dist(1) this that] obtain w where
      "scatter_axes ?dest di (replicate ?d False) = Inr w" "length w = length (replicate ?d False)"
      "matches (zip ?dest di) w" .
    with fold_inner[OF assms that, of w k] show ?thesis by (simp add: fold_slice_def)
  qed
  have "length axes \<le> ?d" "?n + length axes = ?d" using length_fold_dest_axes[OF assms(2,3)] by auto
  then have "GetFolded t axes = foldE (\<lambda>di dest. bindE (scatter_axes ?dest di (replicate ?d False)) (\<lambda>full.
      bindE (?inner full) (\<lambda>(full, c). bindE (max_element c) (\<lambda>v. Set dest di v))))
      (all_indices ?n) (new_truth_table ?n FALSE)"
    by (simp add: GetFolded_def ForPower_foldE index_range_bool_def Let_def)
  also have "\<dots> = foldE (\<lambda>di dest. Set dest di (folded_cell t axes di)) (all_indices ?n) (new_truth_table ?n FALSE)"
    by (rule foldE_cong) (simp add: step set_all_indices)
  finally show ?thesis
    using that foldE_Set[of "new_truth_table ?n FALSE" "all_indices ?n" id "folded_cell t axes"]
    by (auto simp: set_all_indices)
qed

lemma matches_zip_upt:
  assumes "length di = n" shows "matches (zip [0..<n] di) bs \<longleftrightarrow> (\<forall>i < n. bs ! i = di ! i)"
proof -
  have "zip [0..<n] di = map (\<lambda>i. (i, di ! i)) [0..<n]"
    using assms by (intro nth_equalityI) auto
  then show ?thesis by (auto simp: matches_def)
qed

text \<open>Folding away the axes that \<^verbatim>\<open>Extend\<close> added gives the table back.\<close>

lemma fold_of_Extend:
  assumes "tt_ok t" "degree t \<le> d'"
  shows "GetFolded (Extend t d') [degree t..<d'] = Inr t"
proof -
  note ext = Extend_spec[OF assms]
  let ?d = "degree t"
  have axes: "fold_dest_axes d' [?d..<d'] = [0..<?d]"
  proof -
    have "[0..<d'] = [0..<?d] @ [?d..<d']" using upt_add_eq_append[of 0 ?d "d' - ?d"] assms(2) by simp
    then have "fold_dest_axes d' [?d..<d'] = filter (\<lambda>i. i \<notin> set [?d..<d']) ([0..<?d] @ [?d..<d'])"
      unfolding fold_dest_axes_def by simp
    also have "\<dots> = [0..<?d]" by (simp add: filter_id_conv)
    finally show ?thesis .
  qed
  obtain u where u: "GetFolded (Extend t d') [?d..<d'] = Inr u" "tt_ok u" "degree u = ?d"
      "\<And>di. length di = degree u \<Longrightarrow> cell u di = folded_cell (Extend t d') [?d..<d'] di"
    using GetFolded_spec[OF ext(1), of "[?d..<d']"] by (auto simp: ext(2) axes)
  have "cell u di = cell t di" if l: "length di = ?d" for di
  proof -
    have m: "matches (zip [0..<?d] di) bs \<longleftrightarrow> take ?d bs = di" if "length bs = d'" for bs
      using that l assms(2) by (simp add: matches_zip_upt list_eq_iff_nth_eq)
    obtain bs0 where "length bs0 = d'" "take ?d bs0 = di"
      using l assms(2) by (intro that[of "di @ replicate (d' - ?d) False"]) simp_all
    then have "{cell (Extend t d') bs | bs. length bs = d' \<and> take ?d bs = di} = {cell t di}"
      using ext(3) by (auto intro!: exI[of _ bs0])
    moreover have "{cell (Extend t d') bs | bs. length bs = d' \<and> matches (zip [0..<?d] di) bs}
        = {cell (Extend t d') bs | bs. length bs = d' \<and> take ?d bs = di}" using m by blast
    ultimately show ?thesis
      using u(3) u(4)[of di] l by (simp add: folded_cell_def fold_slice_def ext(2) axes)
  qed
  with u assms(1) have "u = t" by (intro tt_eqI) auto
  with u show ?thesis by simp
qed

section \<open>Karnaugh slices: the best eligible slice is found\<close>

definition avoid_of :: "CellType \<Rightarrow> CellType" where
  "avoid_of target = (if target = TRUE then FALSE else TRUE)"

text \<open>A slice may be used when it has no cell to avoid and some cell not yet dealt with.\<close>

definition new_cells :: "truth_table \<Rightarrow> CellType \<Rightarrow> SliceSpec \<Rightarrow> bool list set" where
  "new_cells so_far target sl = {bs. length bs = degree so_far \<and> matches sl bs \<and> cell so_far bs = target}"

definition eligible :: "truth_table \<Rightarrow> CellType \<Rightarrow> truth_table \<Rightarrow> SliceSpec \<Rightarrow> bool" where
  "eligible t target so_far sl \<longleftrightarrow>
     (\<forall>bs. length bs = degree t \<longrightarrow> matches sl bs \<longrightarrow> cell t bs \<noteq> avoid_of target)
     \<and> new_cells so_far target sl \<noteq> {}"

text \<open>Slices are ranked by new cells, then free axes, then axes at the preferred value.\<close>

definition slice_rank :: "CellType \<Rightarrow> bool \<Rightarrow> truth_table \<Rightarrow> SliceSpec \<Rightarrow> nat \<times> nat \<times> nat" where
  "slice_rank target preferred so_far sl =
     (card (new_cells so_far target sl), degree so_far - length sl,
      length (filter (\<lambda>p. snd p = preferred) sl))"

definition class_of :: "SliceSpec \<Rightarrow> nat \<Rightarrow> KarnaughClass" where
  "class_of sl i = (case map_of sl i of None \<Rightarrow> K_FREE | Some b \<Rightarrow> if b then K_TRUE else K_FALSE)"

fun class_entries :: "nat \<Rightarrow> KarnaughClass \<Rightarrow> SliceSpec" where
  "class_entries i K_FREE = []"
| "class_entries i K_FALSE = [(i, False)]"
| "class_entries i K_TRUE = [(i, True)]"

lemma candidate_slice_eq:
  "candidate_slice kc = concat (map (\<lambda>i. class_entries i (kc ! i)) [0..<length kc])"
proof -
  have "(\<lambda>i. case kc ! i of K_FREE \<Rightarrow> [] | K_FALSE \<Rightarrow> [(i, False)] | K_TRUE \<Rightarrow> [(i, True)])
      = (\<lambda>i. class_entries i (kc ! i))"
    by (auto simp: fun_eq_iff split: KarnaughClass.splits)
  then show ?thesis by (simp add: candidate_slice_def)
qed

lemma candidate_slice_snoc:
  "candidate_slice (kc @ [c]) = candidate_slice kc @ class_entries (length kc) c"
proof -
  have "map (\<lambda>i. class_entries i ((kc @ [c]) ! i)) [0..<length kc]
      = map (\<lambda>i. class_entries i (kc ! i)) [0..<length kc]"
    by (simp add: nth_append)
  then have "concat (map (\<lambda>i. class_entries i ((kc @ [c]) ! i)) [0..<length kc]) = candidate_slice kc"
    by (simp only: candidate_slice_eq)
  then show ?thesis by (simp add: candidate_slice_eq)
qed

lemma candidate_slice_Nil [simp]: "candidate_slice [] = []"
  by (simp add: candidate_slice_def)

lemma candidate_slice_ok: "slice_ok (length kc) (candidate_slice kc)"
proof (induction kc rule: rev_induct)
  case (snoc c kc)
  then show ?case
    by (cases c) (auto simp: candidate_slice_snoc slice_ok_def sorted_wrt_append kc2_def)
qed (simp add: slice_ok_def)

lemma candidate_slice_length: "length (candidate_slice kc) + count_list kc K_FREE = length kc"
proof (induction kc rule: rev_induct)
  case (snoc c kc)
  then show ?case by (cases c) (simp_all add: candidate_slice_snoc)
qed simp

lemma candidate_slice_count:
  "length (filter (\<lambda>p. snd p = b) (candidate_slice kc)) = count_list kc (if b then K_TRUE else K_FALSE)"
proof (induction kc rule: rev_induct)
  case (snoc c kc)
  then show ?case by (cases c) (simp_all add: candidate_slice_snoc)
qed simp

lemma candidate_slice_class_of:
  assumes "slice_ok d sl" shows "candidate_slice (map (class_of sl) [0..<d]) = sl"
proof -
  have mem: "set (candidate_slice (map (class_of sl) [0..<d])) = set sl"
  proof -
    have "(i, b) \<in> set (class_entries j (class_of sl j)) \<longleftrightarrow> i = j \<and> map_of sl j = Some b" for i j b
      by (auto simp: class_of_def split: option.splits if_splits)
    then have "(i, b) \<in> set (candidate_slice (map (class_of sl) [0..<d])) \<longleftrightarrow> i < d \<and> map_of sl i = Some b" for i b
      by (auto simp: candidate_slice_eq)
    with assms show ?thesis
      by (auto simp: slice_ok_def map_of_sorted_mem)
  qed
  have "sorted_map (candidate_slice (map (class_of sl) [0..<d]))"
    using candidate_slice_ok[of "map (class_of sl) [0..<d]"] by (simp add: slice_ok_def)
  with assms mem show ?thesis
    unfolding slice_ok_def by (metis sorted_map_unique)
qed

text \<open>What the search keeps: the best of the candidates seen so far.\<close>

definition best_so_far ::
    "truth_table \<Rightarrow> CellType \<Rightarrow> bool \<Rightarrow> truth_table \<Rightarrow> KarnaughClass list set \<Rightarrow> karnaugh_state \<Rightarrow> bool" where
  "best_so_far t target preferred so_far seen st \<longleftrightarrow>
     (case best_slice st of
        None \<Rightarrow> best_new_count st = -1 \<and> (\<forall>kc \<in> seen. \<not> eligible t target so_far (candidate_slice kc))
      | Some sl \<Rightarrow> \<exists>kc \<in> seen. sl = candidate_slice kc \<and> eligible t target so_far sl
          \<and> best_counts st = candidate_counts kc
          \<and> best_new_count st = int (card (new_cells so_far target sl))
          \<and> (\<forall>kc' \<in> seen. eligible t target so_far (candidate_slice kc') \<longrightarrow>
                slice_rank target preferred so_far (candidate_slice kc') \<le> slice_rank target preferred so_far sl))"

lemma finite_new_cells [simp]: "finite (new_cells so_far target sl)"
  by (rule finite_subset[OF _ finite_lists_length_eq[of "UNIV :: bool set" "degree so_far"]])
    (auto simp: new_cells_def)

lemma slice_rank_candidate:
  assumes "length kc = degree so_far"
  shows "slice_rank target preferred so_far (candidate_slice kc) =
    (card (new_cells so_far target (candidate_slice kc)), count_list kc K_FREE,
     count_list kc (if preferred then K_TRUE else K_FALSE))"
  using candidate_slice_length[of kc] assms by (simp add: slice_rank_def candidate_slice_count)

lemma karnaugh_step_eq:
  assumes "tt_ok t" "tt_ok so_far" "degree so_far = degree t" "length kc = degree t"
  shows "karnaugh_step t target preferred so_far kc st =
    Inr (if eligible t target so_far (candidate_slice kc)
            \<and> karnaugh_better (if preferred then K_TRUE else K_FALSE) st (candidate_counts kc)
                (int (card (new_cells so_far target (candidate_slice kc))))
         then \<lparr>best_slice = Some (candidate_slice kc), best_counts = candidate_counts kc,
               best_new_count = int (card (new_cells so_far target (candidate_slice kc)))\<rparr>
         else st)"
proof -
  have ok: "slice_ok (degree t) (candidate_slice kc)" using candidate_slice_ok[of kc] assms(4) by simp
  have "CountInSlice t (candidate_slice kc) (avoid_of target)
      = Inr (int (card (new_cells t (avoid_of target) (candidate_slice kc))))"
    using CountInSlice_spec[OF assms(1) ok] by (simp add: new_cells_def)
  moreover have "CountInSlice so_far (candidate_slice kc) target
      = Inr (int (card (new_cells so_far target (candidate_slice kc))))"
    using CountInSlice_spec[OF assms(2)] ok assms(3) by (simp add: new_cells_def)
  moreover have "eligible t target so_far (candidate_slice kc) \<longleftrightarrow>
      new_cells t (avoid_of target) (candidate_slice kc) = {} \<and> new_cells so_far target (candidate_slice kc) \<noteq> {}"
    by (auto simp: eligible_def new_cells_def[of t])
  ultimately show ?thesis
    by (simp add: karnaugh_step_def avoid_of_def[symmetric] card_gt_0_iff Let_def)
qed

lemma best_so_far_step:
  assumes "tt_ok t" "tt_ok so_far" "degree so_far = degree t" "length kc = degree t"
    "\<forall>kc \<in> seen. length kc = degree t" "best_so_far t target preferred so_far seen st"
  shows "\<exists>st'. karnaugh_step t target preferred so_far kc st = Inr st'
    \<and> best_so_far t target preferred so_far (insert kc seen) st'"
proof (cases "best_slice st")
  case None
  with assms show ?thesis
    by (auto simp: karnaugh_step_eq best_so_far_def karnaugh_better_def eligible_def card_gt_0_iff)
next
  case (Some sl)
  then obtain kb where kb: "kb \<in> seen" "sl = candidate_slice kb" "eligible t target so_far sl"
      "best_counts st = candidate_counts kb" "best_new_count st = int (card (new_cells so_far target sl))"
    and best: "\<forall>kc' \<in> seen. eligible t target so_far (candidate_slice kc') \<longrightarrow>
      slice_rank target preferred so_far (candidate_slice kc') \<le> slice_rank target preferred so_far sl"
    using assms(6) by (auto simp: best_so_far_def)
  have better: "karnaugh_better (if preferred then K_TRUE else K_FALSE) st (candidate_counts kc)
        (int (card (new_cells so_far target (candidate_slice kc))))
      \<longleftrightarrow> slice_rank target preferred so_far sl < slice_rank target preferred so_far (candidate_slice kc)"
    using kb(1,4,5) assms(3-5)
    by (auto simp: karnaugh_better_def kb(2) slice_rank_candidate candidate_counts_def)
  show ?thesis
  proof (cases "eligible t target so_far (candidate_slice kc)
      \<and> slice_rank target preferred so_far sl < slice_rank target preferred so_far (candidate_slice kc)")
    case True
    with best have "\<forall>kc' \<in> seen. eligible t target so_far (candidate_slice kc') \<longrightarrow>
        slice_rank target preferred so_far (candidate_slice kc')
          \<le> slice_rank target preferred so_far (candidate_slice kc)"
      by (meson dual_order.trans less_imp_le)
    with True better assms(1-4) show ?thesis by (simp add: karnaugh_step_eq best_so_far_def)
  next
    case False
    then have "karnaugh_step t target preferred so_far kc st = Inr st"
      using better assms(1-4) by (auto simp: karnaugh_step_eq)
    moreover have "eligible t target so_far (candidate_slice kc) \<longrightarrow>
        slice_rank target preferred so_far (candidate_slice kc) \<le> slice_rank target preferred so_far sl"
      using False by (meson not_less)
    ultimately show ?thesis
      using Some kb best by (auto simp: best_so_far_def)
  qed
qed

lemma best_so_far_foldE:
  assumes "tt_ok t" "tt_ok so_far" "degree so_far = degree t" "\<forall>kc \<in> set kcs \<union> seen. length kc = degree t"
    "best_so_far t target preferred so_far seen st"
  shows "\<exists>st'. foldE (karnaugh_step t target preferred so_far) kcs st = Inr st'
    \<and> best_so_far t target preferred so_far (seen \<union> set kcs) st'"
  using assms(4,5)
proof (induction kcs arbitrary: st seen)
  case (Cons kc kcs)
  then obtain st' where "karnaugh_step t target preferred so_far kc st = Inr st'"
      "best_so_far t target preferred so_far (insert kc seen) st'"
    using best_so_far_step[OF assms(1-3), of kc seen target preferred st] by auto
  with Cons.IH[of "insert kc seen" st'] Cons.prems show ?case by simp
qed simp

lemma set_kc_tuples: "set (tuples d index_range_kc) = {kc. length kc = d}"
proof -
  have "set index_range_kc = UNIV" by (auto simp: index_range_kc_def intro: KarnaughClass.exhaust)
  then show ?thesis by (simp add: set_tuples)
qed

text \<open>The search over \<open>3 ^ degree\<close> candidates always ends; its answer is an eligible slice of the
  highest rank, or nothing when no slice is eligible.\<close>

lemma TryFindBestKarnaughSlice_spec:
  assumes "tt_ok t" "tt_ok so_far" "degree so_far = degree t"
  obtains r where "TryFindBestKarnaughSlice t target preferred so_far = Inr r"
    "\<And>sl'. r = None \<Longrightarrow> slice_ok (degree t) sl' \<Longrightarrow> \<not> eligible t target so_far sl'"
    "\<And>sl. r = Some sl \<Longrightarrow> slice_ok (degree t) sl \<and> eligible t target so_far sl"
    "\<And>sl sl'. r = Some sl \<Longrightarrow> slice_ok (degree t) sl' \<Longrightarrow> eligible t target so_far sl' \<Longrightarrow>
       slice_rank target preferred so_far sl' \<le> slice_rank target preferred so_far sl"
proof -
  let ?st0 = "\<lparr>best_slice = None, best_counts = (\<lambda>_. -1), best_new_count = -1\<rparr>"
  obtain st where st: "foldE (karnaugh_step t target preferred so_far) (tuples (degree t) index_range_kc) ?st0 = Inr st"
      "best_so_far t target preferred so_far {kc. length kc = degree t} st"
    using best_so_far_foldE[OF assms, of "tuples (degree t) index_range_kc" "{}" target preferred ?st0]
    by (auto simp: set_kc_tuples best_so_far_def)
  have ok: "slice_ok (degree t) (candidate_slice kc)" if "length kc = degree t" for kc
    using candidate_slice_ok[of kc] that by simp
  have cand: "\<exists>kc. length kc = degree t \<and> sl' = candidate_slice kc" if "slice_ok (degree t) sl'" for sl'
    using candidate_slice_class_of[OF that] by (metis length_map length_upt diff_zero)
  show ?thesis
  proof (rule that[of "best_slice st"])
    show "TryFindBestKarnaughSlice t target preferred so_far = Inr (best_slice st)"
      using st(1) by (simp add: TryFindBestKarnaughSlice_def ForPower_foldE index_range_kc_def)
  qed (use st(2) cand ok in \<open>auto simp: best_so_far_def\<close>)
qed

section \<open>Listing the cells with a value\<close>

lemma lex_equivalent_iff:
  "equivalent (lexicographical_compare (<)) x y \<longleftrightarrow> x = (y :: 'a::linorder list)"
proof
  assume "equivalent (lexicographical_compare (<)) x y"
  then have "list_all2 (equivalent (<)) x y"
    using lin.lexicographical_compare_total[of x y] by (simp add: equivalent_def)
  then have "list_all2 (=) x y" by (rule list_all2_mono) (auto simp: equivalent_def)
  then show "x = y" by (simp add: list_all2_eq)
qed (simp add: equivalent_def lex.irrefl)

lemma lex_covers_iff: "covers (lexicographical_compare (<)) s (x :: 'a::linorder list) \<longleftrightarrow> x \<in> set s"
  by (simp add: covers_def lex_equivalent_iff)

lemma GetIndicesOfValue_spec:
  assumes "tt_ok t"
  obtains s where "GetIndicesOfValue t v = Inr s" "sorted_wrt (lexicographical_compare (<)) s"
    "set s = {bs. length bs = degree t \<and> cell t bs = v}"
proof -
  let ?step = "\<lambda>bs s. if cell t bs = v then fst (container_insert (lexicographical_compare (<)) bs s) else s"
  have "GetIndicesOfValue t v = Inr (fold ?step (all_indices (degree t)) [])"
  proof -
    have "GetIndicesOfValue t v = foldE (\<lambda>bs s. bindE (Get t bs) (\<lambda>c. Inr (if c = v
        then fst (container_insert (lexicographical_compare (<)) bs s) else s))) (all_indices (degree t)) []"
      by (simp add: GetIndicesOfValue_def ForPower_foldE index_range_bool_def)
    also have "\<dots> = Inr (fold ?step (all_indices (degree t)) [])"
      by (rule foldE_pure) (simp add: Get_eq[OF assms] set_all_indices)
    finally show ?thesis .
  qed
  moreover have "sorted_wrt (lexicographical_compare (<)) (fold ?step xs s)
      \<and> set (fold ?step xs s) = set s \<union> {bs \<in> set xs. cell t bs = v}"
    if "sorted_wrt (lexicographical_compare (<)) s" for xs s
    using that by (induction xs arbitrary: s) (auto simp: lex.container_insert_props lex_covers_iff)
  ultimately show ?thesis
    using that[of "fold ?step (all_indices (degree t)) []"] by (simp add: set_all_indices)
qed

section \<open>Properties\<close>

text \<open>\<^verbatim>\<open>SetSlice\<close> with a table writes exactly the cells of the slice: reading the slice back with
  \<^verbatim>\<open>GetSlice\<close> returns the table that was written, and every cell outside the slice is unchanged.\<close>

theorem slice_roundtrip:
  assumes "tt_ok t" "tt_ok u" "slice_ok (degree t) sl" "length sl + degree u = degree t"
  shows "\<exists>t'. SetSliceTable t sl u = Inr t' \<and> tt_ok t' \<and> degree t' = degree t \<and> GetSlice t' sl = Inr u
    \<and> (\<forall>bs. length bs = degree t \<longrightarrow> \<not> matches sl bs \<longrightarrow> Get t' bs = Get t bs)"
proof -
  obtain t' where t': "SetSliceTable t sl u = Inr t'" "tt_ok t'" "degree t' = degree t"
    "\<And>fi. length fi = degree u \<Longrightarrow> cell t' (fill (degree t) sl fi) = cell u fi"
    "\<And>bs. length bs = degree t \<Longrightarrow> \<not> matches sl bs \<Longrightarrow> cell t' bs = cell t bs"
    using SetSliceTable_spec[OF assms(1,3,2,4)] by blast
  have ok': "slice_ok (degree t') sl" using assms(3) t'(3) by simp
  from GetSlice_spec[OF t'(2) ok'] obtain w where w: "GetSlice t' sl = Inr w" "tt_ok w"
    "degree w = length (free_axes (degree t) sl)"
    "\<And>fi. length fi = degree w \<Longrightarrow> cell w fi = cell t' (fill (degree t) sl fi)"
    unfolding t'(3) by blast
  have "degree w = degree u" using w(3) length_free_axes[OF assms(3)] assms(4) by simp
  then have "w = u" using w t'(4) assms(2) by (intro tt_eqI) auto
  with t' w assms(1) show ?thesis by (auto simp: Get_eq)
qed

theorem slice_roundtrip_witness:
  "\<exists>t'. SetSliceTable (new_truth_table 2 FALSE) [(1, True)] (new_truth_table 1 TRUE) = Inr t'
    \<and> GetSlice t' [(1, True)] = Inr (new_truth_table 1 TRUE)
    \<and> Get t' [True, False] = Get (new_truth_table 2 FALSE) [True, False]"
  using slice_roundtrip[of "new_truth_table 2 FALSE" "new_truth_table 1 TRUE" "[(1, True)]"]
  by (auto simp: slice_ok_def matches_def)

text \<open>\<^verbatim>\<open>SetSlice\<close> with a value fills the cells of the slice and no others, and
  \<^verbatim>\<open>CountInSlice\<close> is the number of index vectors in the slice whose cell has the value sought.\<close>

theorem slice_fill_and_count:
  assumes "tt_ok t" "slice_ok (degree t) sl"
  shows "(\<exists>t'. SetSlice t sl v = Inr t' \<and> degree t' = degree t
      \<and> (\<forall>bs. length bs = degree t \<longrightarrow> Get t' bs = (if matches sl bs then Inr v else Get t bs)))
    \<and> CountInSlice t sl w = Inr (int (card {bs. length bs = degree t \<and> matches sl bs \<and> Get t bs = Inr w}))"
proof -
  obtain t' where "SetSlice t sl v = Inr t'" "tt_ok t'" "degree t' = degree t"
    "\<And>bs. length bs = degree t \<Longrightarrow> cell t' bs = (if matches sl bs then v else cell t bs)"
    using SetSlice_spec[OF assms] by blast
  moreover have "{bs. length bs = degree t \<and> matches sl bs \<and> Get t bs = Inr w}
      = {bs. length bs = degree t \<and> matches sl bs \<and> cell t bs = w}"
    by (auto simp: Get_eq[OF assms(1)])
  ultimately show ?thesis
    using CountInSlice_spec[OF assms, of w] by (auto simp: Get_eq assms(1))
qed

theorem slice_fill_and_count_witness:
  "(\<exists>t'. SetSlice (new_truth_table 2 FALSE) [(0, True)] TRUE = Inr t'
      \<and> Get t' [True, False] = Inr TRUE \<and> Get t' [False, True] = Get (new_truth_table 2 FALSE) [False, True])
    \<and> CountInSlice (new_truth_table 2 FALSE) [(0, True)] FALSE
      = Inr (int (card {bs. length bs = 2 \<and> matches [(0, True)] bs \<and> Get (new_truth_table 2 FALSE) bs = Inr FALSE}))"
  using slice_fill_and_count[of "new_truth_table 2 FALSE" "[(0, True)]" TRUE FALSE]
  by (auto simp: slice_ok_def matches_def)

text \<open>A slice that names an axis the table does not have is refused: every slice operation
  stops at an assertion and no cell is read or written.\<close>

theorem slice_axis_checked:
  assumes "sorted_map sl" "k \<in> fst ` set sl" "k \<ge> degree t"
  shows "SetSlice t sl v = Inl AssertFail \<and> SetSliceTable t sl u = Inl AssertFail
    \<and> GetSlice t sl = Inl AssertFail \<and> CountInSlice t sl v = Inl AssertFail"
proof -
  have "\<not> slice_ok (degree t) sl" using assms(2,3) unfolding slice_ok_def by (meson not_less)
  then have "slice_start (degree t) sl = Inl AssertFail" using assms(1) by (intro slice_start_bad)
  then show ?thesis
    by (simp add: SetSlice_def GetSlice_def CountInSlice_def SetSliceTable_def guardE_def)
qed

theorem slice_axis_checked_witness:
  "SetSlice (new_truth_table 2 TRUE) [(0, True), (2, False)] TRUE = Inl AssertFail
    \<and> SetSliceTable (new_truth_table 2 TRUE) [(0, True), (2, False)] (new_truth_table 0 TRUE) = Inl AssertFail
    \<and> GetSlice (new_truth_table 2 TRUE) [(0, True), (2, False)] = Inl AssertFail
    \<and> CountInSlice (new_truth_table 2 TRUE) [(0, True), (2, False)] TRUE = Inl AssertFail"
  by (rule slice_axis_checked[of _ 2]) (simp_all add: kc2_def)

text \<open>C38: \<^verbatim>\<open>Extend\<close> adds axes the table does not depend on, and folding them away again with
  \<^verbatim>\<open>GetFolded\<close> returns the original table.\<close>

theorem Extend_fold_roundtrip:
  assumes "tt_ok t" "degree t \<le> d'"
  shows "GetFolded (Extend t d') [degree t..<d'] = Inr t
    \<and> (\<forall>bs. length bs = d' \<longrightarrow> Get (Extend t d') bs = Get t (take (degree t) bs))"
  using fold_of_Extend[OF assms] Extend_spec[OF assms] assms by (simp add: Get_eq)

theorem Extend_fold_roundtrip_witness:
  "GetFolded (Extend (new_truth_table 1 TRUE) 3) [1, 2] = Inr (new_truth_table 1 TRUE)
    \<and> Get (Extend (new_truth_table 1 TRUE) 3) [False, True, True] = Get (new_truth_table 1 TRUE) [False]"
  using Extend_fold_roundtrip[of "new_truth_table 1 TRUE" 3] by (auto simp: upt_rec numeral_2_eq_2)

text \<open>\<^verbatim>\<open>GetFolded\<close> drops the given axes; each cell of the result is the largest of the cells it
  stands for, in the order \<open>DONT_CARE < FALSE < TRUE\<close>.\<close>

theorem GetFolded_takes_max:
  assumes "tt_ok t" "sorted_set axes" "\<forall>a \<in> set axes. a < degree t"
  shows "\<exists>u. GetFolded t axes = Inr u \<and> tt_ok u \<and> degree u = degree t - length axes
    \<and> (\<forall>di. length di = degree u \<longrightarrow> Get u di = Inr (Max {c. \<exists>bs. length bs = degree t
          \<and> map ((!) bs) (fold_dest_axes (degree t) axes) = di \<and> Get t bs = Inr c}))"
proof -
  let ?dest = "fold_dest_axes (degree t) axes"
  obtain u where u: "GetFolded t axes = Inr u" "tt_ok u" "degree u = length ?dest"
    "\<And>di. length di = degree u \<Longrightarrow> cell u di = folded_cell t axes di"
    using GetFolded_spec[OF assms] by blast
  have "matches (zip ?dest di) bs \<longleftrightarrow> map ((!) bs) ?dest = di" if "length di = length ?dest" for di bs
    using that by (auto simp: matches_def set_zip list_eq_iff_nth_eq)
  then have "folded_cell t axes di = Max {c. \<exists>bs. length bs = degree t \<and> map ((!) bs) ?dest = di \<and> Get t bs = Inr c}"
    if "length di = length ?dest" for di
    using that assms(1) unfolding folded_cell_def fold_slice_def
    by (intro arg_cong[where f = Max]) (auto simp: Get_eq)
  with u length_fold_dest_axes[OF assms(2,3)] show ?thesis by (auto simp: Get_eq)
qed

theorem GetFolded_takes_max_witness:
  "\<exists>u. GetFolded (new_truth_table 2 TRUE) [0] = Inr u \<and> degree u = 1
    \<and> Get u [True] = Inr (Max {c. \<exists>bs. length bs = 2
          \<and> map ((!) bs) (fold_dest_axes 2 [0]) = [True] \<and> Get (new_truth_table 2 TRUE) bs = Inr c})"
  using GetFolded_takes_max[of "new_truth_table 2 TRUE" "[0]"] by auto

text \<open>C26: \<^verbatim>\<open>TryFindBestKarnaughSlice\<close> always answers. A slice it returns has no cell to avoid in the
  table, covers a target cell of \<^verbatim>\<open>so_far\<close>, and ranks at least as high as every other such slice
  (most new target cells, then most free axes, then most axes at the preferred value); it
  returns nothing only when there is no such slice.\<close>

theorem TryFindBestKarnaughSlice_optimal:
  assumes "tt_ok t" "tt_ok so_far" "degree so_far = degree t"
  shows "\<exists>r. TryFindBestKarnaughSlice t target preferred so_far = Inr r
    \<and> (case r of
         None \<Rightarrow> \<forall>sl. slice_ok (degree t) sl \<longrightarrow> \<not> eligible t target so_far sl
       | Some best \<Rightarrow> slice_ok (degree t) best \<and> eligible t target so_far best
           \<and> (\<forall>sl. slice_ok (degree t) sl \<longrightarrow> eligible t target so_far sl \<longrightarrow>
                slice_rank target preferred so_far sl \<le> slice_rank target preferred so_far best))"
  by (rule TryFindBestKarnaughSlice_spec[OF assms, of target preferred]) (auto split: option.split)

theorem TryFindBestKarnaughSlice_optimal_witness:
  "\<exists>best. TryFindBestKarnaughSlice (new_truth_table 2 TRUE) TRUE True (new_truth_table 2 TRUE) = Inr (Some best)
    \<and> eligible (new_truth_table 2 TRUE) TRUE (new_truth_table 2 TRUE) best
    \<and> slice_rank TRUE True (new_truth_table 2 TRUE) [] \<le> slice_rank TRUE True (new_truth_table 2 TRUE) best"
proof -
  have "new_cells (new_truth_table 2 TRUE) TRUE [] \<noteq> {}"
    using Ex_list_of_length[of 2] by (auto simp: new_cells_def matches_def cell_new_truth_table)
  then have "slice_ok 2 []" "eligible (new_truth_table 2 TRUE) TRUE (new_truth_table 2 TRUE) []"
    by (auto simp: slice_ok_def eligible_def cell_new_truth_table avoid_of_def)
  then show ?thesis
    using TryFindBestKarnaughSlice_optimal[of "new_truth_table 2 TRUE" "new_truth_table 2 TRUE" TRUE True]
    by (auto split: option.splits)
qed

end
