(* ===== verification/Result.thy ===== *)
theory Result
  imports Containers
begin

text \<open>
  Results of symbolic evaluation (\<^verbatim>\<open>vn/sym/result.hpp\<close>, \<^verbatim>\<open>.cpp\<close>).

  An \<^verbatim>\<open>XValue\<close> (\<^verbatim>\<open>vn/sym/value.hpp\<close>, \<^verbatim>\<open>VN::XLink\<close>) is a pointer into the subject tree,
  compared by address: a natural number here, 0 being the null link. A \<^verbatim>\<open>set<XValue>\<close> is a
  strictly increasing list. A \<^verbatim>\<open>SubsetResult\<close> is a finite set or, with its flag, the complement
  of one; \<open>denotes\<close> is the set it stands for, and the operations are shown to compute union,
  intersection and complement of these. The range results read an ordering of the domain, an
  ordered sequence with the comparator of its \<^verbatim>\<open>std::set\<close>, and expand to the links whose keys
  lie between two bounds.
\<close>

section \<open>Results\<close>

type_synonym XValue = nat

abbreviation (input) null_link :: XValue where
  "null_link \<equiv> 0"

record SubsetResult =
  xlinks :: "XValue list"
  complement_flag :: bool

abbreviation subset_result :: "XValue list \<Rightarrow> SubsetResult" where
  "subset_result xs \<equiv> \<lparr>xlinks = xs, complement_flag = False\<rparr>"

datatype SymbolicResult =
    UniqueResult XValue
  | EmptyResult
  | SubsetRes SubsetResult

definition new_UniqueResult :: "XValue \<Rightarrow> SymbolicResult result" where
  "new_UniqueResult xlink = guardE (xlink \<noteq> null_link) (Inr (UniqueResult xlink))"

fun IsDefinedAndUnique :: "SymbolicResult \<Rightarrow> bool" where
  "IsDefinedAndUnique (UniqueResult xlink) = True"
| "IsDefinedAndUnique EmptyResult = False"
| "IsDefinedAndUnique (SubsetRes r) = (\<not> complement_flag r \<and> length (xlinks r) = 1)"

fun GetOnlyXLink :: "SymbolicResult \<Rightarrow> XValue result" where
  "GetOnlyXLink (UniqueResult xlink) = guardE (xlink \<noteq> null_link) (Inr xlink)"
| "GetOnlyXLink EmptyResult = Inl AssertFail"
| "GetOnlyXLink (SubsetRes r) = guardE (\<not> complement_flag r) (SoloElementOf (xlinks r))"

text \<open>\<^verbatim>\<open>TryExtensionalise\<close> answers false and leaves its output alone, or true with the set.\<close>

fun TryExtensionalise :: "SymbolicResult \<Rightarrow> XValue list option" where
  "TryExtensionalise (UniqueResult xlink) = Some [xlink]"
| "TryExtensionalise EmptyResult = Some []"
| "TryExtensionalise (SubsetRes r) = (if complement_flag r then None else Some (xlinks r))"

text \<open>\<^verbatim>\<open>operator==\<close> casts the other result to the type of this one and asserts that it succeeds.\<close>

fun result_equal :: "SymbolicResult \<Rightarrow> SymbolicResult \<Rightarrow> bool result" where
  "result_equal (UniqueResult x) (UniqueResult y) = Inr (x = y)"
| "result_equal EmptyResult EmptyResult = Inr True"
| "result_equal (SubsetRes r) (SubsetRes q) =
     Inr (xlinks r = xlinks q \<and> complement_flag r = complement_flag q)"
| "result_equal _ _ = Inl AssertFail"

definition SubsetResult_from :: "SymbolicResult \<Rightarrow> SubsetResult result" where
  "SubsetResult_from other =
     (case other of
        SubsetRes ssr \<Rightarrow> Inr ssr
      | _ \<Rightarrow> (case TryExtensionalise other of
                None \<Rightarrow> Inl AssertFail
              | Some links \<Rightarrow> Inr (subset_result links)))"

section \<open>Set operations on subset results\<close>

definition GetComplement :: "SubsetResult \<Rightarrow> SubsetResult" where
  "GetComplement r = \<lparr>xlinks = xlinks r, complement_flag = \<not> complement_flag r\<rparr>"

definition DeMorgan :: "(SubsetResult list \<Rightarrow> SubsetResult result) \<Rightarrow> SubsetResult list \<Rightarrow> SubsetResult result" where
  "DeMorgan lambda ops = bindE (lambda (map GetComplement ops)) (\<lambda>cres. Inr (GetComplement cres))"

definition UnionCore :: "SubsetResult list \<Rightarrow> SubsetResult result" where
  "UnionCore ops =
     bindE (foldE (\<lambda>op result_xlinks.
              guardE (\<not> complement_flag op) (Inr (UnionOf (<) result_xlinks (xlinks op)))) ops [])
       (\<lambda>result_xlinks. Inr (subset_result result_xlinks))"

text \<open>\<^verbatim>\<open>non_comp_op\<close> points at the last operand that is not a complement; the second loop skips the
  operand at that place.\<close>

definition non_comp_op :: "SubsetResult list \<Rightarrow> nat option" where
  "non_comp_op ops = fold (\<lambda>i p. if \<not> complement_flag (ops ! i) then Some i else p) [0..<length ops] None"

definition intersect_step :: "SubsetResult list \<Rightarrow> nat \<Rightarrow> nat \<Rightarrow> XValue list \<Rightarrow> XValue list" where
  "intersect_step ops n i result_xlinks =
     (if i = n then result_xlinks
      else if complement_flag (ops ! i) then DifferenceOf (<) result_xlinks (xlinks (ops ! i))
      else IntersectionOf (<) result_xlinks (xlinks (ops ! i)))"

definition IntersectionCore :: "SubsetResult list \<Rightarrow> SubsetResult result" where
  "IntersectionCore ops =
     (case non_comp_op ops of
        None \<Rightarrow> Inl AssertFail
      | Some n \<Rightarrow> Inr (subset_result (fold (intersect_step ops n) [0..<length ops] (xlinks (ops ! n)))))"

definition n_comp :: "SubsetResult list \<Rightarrow> nat" where
  "n_comp ops = fold (\<lambda>op n. n + (if complement_flag op then 1 else 0)) ops 0"

definition GetUnion :: "SubsetResult list \<Rightarrow> SubsetResult result" where
  "GetUnion ops = (if n_comp ops > 0 then DeMorgan IntersectionCore ops else UnionCore ops)"

definition GetIntersection :: "SubsetResult list \<Rightarrow> SubsetResult result" where
  "GetIntersection ops = (if n_comp ops = length ops then DeMorgan UnionCore ops else IntersectionCore ops)"

section \<open>Ranges of an ordering\<close>

text \<open>Iterators into an ordered container are positions; \<^verbatim>\<open>end()\<close> is the length.\<close>

definition set_find :: "('k \<Rightarrow> 'k \<Rightarrow> bool) \<Rightarrow> 'k list \<Rightarrow> 'k \<Rightarrow> nat" where
  "set_find lt elems k = length (takeWhile (\<lambda>x. \<not> equivalent lt x k) elems)"

definition lower_bound :: "('k \<Rightarrow> 'k \<Rightarrow> bool) \<Rightarrow> 'k list \<Rightarrow> 'k \<Rightarrow> nat" where
  "lower_bound lt elems k = length (takeWhile (\<lambda>x. lt x k) elems)"

definition upper_bound :: "('k \<Rightarrow> 'k \<Rightarrow> bool) \<Rightarrow> 'k list \<Rightarrow> 'k \<Rightarrow> nat" where
  "upper_bound lt elems k = length (takeWhile (\<lambda>x. \<not> lt k x) elems)"

definition iterator_range :: "'k list \<Rightarrow> nat \<Rightarrow> nat \<Rightarrow> 'k list result" where
  "iterator_range elems it_lower it_upper =
     (if it_lower \<le> it_upper then Inr (drop it_lower (take it_upper elems)) else Inl Undefined)"

text \<open>\<^verbatim>\<open>++it\<close>, undefined at the end.\<close>

definition iterator_next :: "'k list \<Rightarrow> nat \<Rightarrow> nat result" where
  "iterator_next elems it = (if it < length elems then Inr (it + 1) else Inl Undefined)"

definition DepthFirst_TryExtensionalise ::
    "(XValue \<Rightarrow> XValue \<Rightarrow> bool) \<Rightarrow> XValue list \<Rightarrow> XValue \<Rightarrow> bool \<Rightarrow> XValue \<Rightarrow> bool \<Rightarrow> XValue list result" where
  "DepthFirst_TryExtensionalise df_lt elems lower lower_incl upper upper_incl =
     bindE (if lower \<noteq> null_link
            then (let it = set_find df_lt elems lower
                  in guardE (it \<noteq> length elems)
                       (if lower_incl then Inr it else iterator_next elems it))
            else Inr 0) (\<lambda>it_lower.
     bindE (if upper \<noteq> null_link
            then (let it = set_find df_lt elems upper
                  in guardE (it_lower \<noteq> length elems)
                       (if upper_incl then iterator_next elems it else Inr it))
            else Inr (length elems)) (\<lambda>it_upper.
     bindE (iterator_range elems it_lower it_upper) (\<lambda>xs. Inr (insert_range (<) xs))))"

definition insert_incoming :: "('n \<Rightarrow> XValue list) \<Rightarrow> 'n list \<Rightarrow> XValue list \<Rightarrow> XValue list" where
  "insert_incoming incoming_xlinks nodes links =
     fold (\<lambda>n links. fold (\<lambda>l links. fst (container_insert (<) l links)) (incoming_xlinks n) links) nodes links"

definition SimpleCompare_TryExtensionalise ::
    "('n \<Rightarrow> 'n \<Rightarrow> bool) \<Rightarrow> 'n list \<Rightarrow> ('n \<Rightarrow> XValue list)
     \<Rightarrow> 'n option \<Rightarrow> bool \<Rightarrow> 'n option \<Rightarrow> bool \<Rightarrow> XValue list result" where
  "SimpleCompare_TryExtensionalise sc_lt elems incoming_xlinks lower lower_incl upper upper_incl =
     (let it_lower = (case lower of
            Some k \<Rightarrow> (if lower_incl then lower_bound sc_lt elems k else upper_bound sc_lt elems k)
          | None \<Rightarrow> 0);
          it_upper = (case upper of
            Some k \<Rightarrow> (if upper_incl then upper_bound sc_lt elems k else lower_bound sc_lt elems k)
          | None \<Rightarrow> length elems)
      in bindE (iterator_range elems it_lower it_upper)
           (\<lambda>nodes. Inr (insert_incoming incoming_xlinks nodes [])))"

definition category_step ::
    "('n \<Rightarrow> 'n \<Rightarrow> bool) \<Rightarrow> 'n list \<Rightarrow> ('n \<Rightarrow> XValue list) \<Rightarrow> bool \<Rightarrow> bool
     \<Rightarrow> 'n option \<times> 'n option \<Rightarrow> XValue list \<Rightarrow> XValue list result" where
  "category_step cat_lt elems incoming_xlinks lower_incl upper_incl bounds links =
     (case bounds of
        (Some lo, Some hi) \<Rightarrow>
          bindE (iterator_range elems
                   (if lower_incl then lower_bound cat_lt elems lo else upper_bound cat_lt elems lo)
                   (if upper_incl then upper_bound cat_lt elems hi else lower_bound cat_lt elems hi))
            (\<lambda>nodes. Inr (insert_incoming incoming_xlinks nodes links))
      | _ \<Rightarrow> Inl AssertFail)"

definition Category_TryExtensionalise ::
    "('n \<Rightarrow> 'n \<Rightarrow> bool) \<Rightarrow> 'n list \<Rightarrow> ('n \<Rightarrow> XValue list)
     \<Rightarrow> ('n option \<times> 'n option) list \<Rightarrow> bool \<Rightarrow> bool \<Rightarrow> XValue list result" where
  "Category_TryExtensionalise cat_lt elems incoming_xlinks bounds_list lower_incl upper_incl =
     foldE (category_step cat_lt elems incoming_xlinks lower_incl upper_incl) bounds_list []"

section \<open>What a subset result denotes\<close>

definition denotes :: "SubsetResult \<Rightarrow> XValue set" where
  "denotes r = (if complement_flag r then - set (xlinks r) else set (xlinks r))"

definition subset_ok :: "SubsetResult \<Rightarrow> bool" where
  "subset_ok r \<longleftrightarrow> sorted_set (xlinks r)"

lemma denotes_GetComplement [simp]: "denotes (GetComplement r) = - denotes r"
  by (simp add: denotes_def GetComplement_def)

lemma subset_ok_GetComplement [simp]: "subset_ok (GetComplement r) = subset_ok r"
  by (simp add: subset_ok_def GetComplement_def)

lemma complement_flag_GetComplement [simp]: "complement_flag (GetComplement r) = (\<not> complement_flag r)"
  by (simp add: GetComplement_def)

lemma n_comp_eq: "n_comp ops = length (filter complement_flag ops)"
proof -
  have "fold (\<lambda>op n. n + (if complement_flag op then 1 else 0)) ops n = n + length (filter complement_flag ops)" for n
    by (induction ops arbitrary: n) auto
  then show ?thesis by (simp add: n_comp_def)
qed

lemma UnionCore_spec:
  assumes "\<forall>r \<in> set ops. subset_ok r \<and> \<not> complement_flag r"
  obtains r where "UnionCore ops = Inr r" "subset_ok r" "\<not> complement_flag r"
    "denotes r = (\<Union>q \<in> set ops. denotes q)"
proof -
  have "\<exists>ys. foldE (\<lambda>op r. guardE (\<not> complement_flag op) (Inr (UnionOf (<) r (xlinks op)))) ops xs = Inr ys
      \<and> sorted_set ys \<and> set ys = set xs \<union> (\<Union>q \<in> set ops. set (xlinks q))" if "sorted_set xs" for xs
    using assms that
  proof (induction ops arbitrary: xs)
    case (Cons op ops)
    then have "sorted_set (UnionOf (<) xs (xlinks op))"
      and "set (UnionOf (<) xs (xlinks op)) = set xs \<union> set (xlinks op)"
      by (auto simp: subset_ok_def)
    with Cons.IH[of "UnionOf (<) xs (xlinks op)"] Cons.prems show ?case by (simp add: Un_assoc)
  qed simp
  from this[of "[]"] show ?thesis
    using that assms by (auto simp: UnionCore_def subset_ok_def denotes_def)
qed

lemma non_comp_op_spec:
  "case non_comp_op ops of
     None \<Rightarrow> \<forall>r \<in> set ops. complement_flag r
   | Some n \<Rightarrow> n < length ops \<and> \<not> complement_flag (ops ! n)"
proof -
  have "case fold (\<lambda>i p. if \<not> complement_flag (ops ! i) then Some i else p) [0..<k] None of
      None \<Rightarrow> \<forall>i < k. complement_flag (ops ! i)
    | Some n \<Rightarrow> n < k \<and> \<not> complement_flag (ops ! n)" if "k \<le> length ops" for k
    using that by (induction k) (auto simp: less_Suc_eq split: option.splits if_splits)
  from this[of "length ops"] show ?thesis
    by (auto simp: non_comp_op_def in_set_conv_nth split: option.splits)
qed

lemma intersect_fold:
  assumes "\<forall>r \<in> set ops. subset_ok r" "sorted_set xs" "k \<le> length ops"
  shows "sorted_set (fold (intersect_step ops n) [0..<k] xs)
    \<and> set (fold (intersect_step ops n) [0..<k] xs) = set xs \<inter> (\<Inter>i \<in> {i. i < k \<and> i \<noteq> n}. denotes (ops ! i))"
  using assms(3)
proof (induction k)
  case (Suc k)
  let ?ys = "fold (intersect_step ops n) [0..<k] xs"
  have ih: "sorted_set ?ys" "set ?ys = set xs \<inter> (\<Inter>i \<in> {i. i < k \<and> i \<noteq> n}. denotes (ops ! i))"
    using Suc by auto
  have ok: "sorted_set (xlinks (ops ! k))" using assms(1) Suc.prems by (simp add: subset_ok_def)
  show ?case
  proof (cases "k = n")
    case True
    then have "{i. i < Suc k \<and> i \<noteq> n} = {i. i < k \<and> i \<noteq> n}" by auto
    moreover have "intersect_step ops n k ys = ys" for ys using True by (simp add: intersect_step_def)
    ultimately show ?thesis using ih by simp
  next
    case False
    then have "{i. i < Suc k \<and> i \<noteq> n} = insert k {i. i < k \<and> i \<noteq> n}" by auto
    moreover have "sorted_set (intersect_step ops n k ys)
        \<and> set (intersect_step ops n k ys) = set ys \<inter> denotes (ops ! k)" if "sorted_set ys" for ys
      using False that ok by (simp add: intersect_step_def denotes_def Diff_eq)
    ultimately show ?thesis using ih by (simp add: Int_ac)
  qed
qed (simp add: assms)

lemma IntersectionCore_spec:
  assumes "\<forall>r \<in> set ops. subset_ok r" "r0 \<in> set ops" "\<not> complement_flag r0"
  obtains r where "IntersectionCore ops = Inr r" "subset_ok r" "\<not> complement_flag r"
    "denotes r = (\<Inter>q \<in> set ops. denotes q)"
proof -
  obtain n where n: "non_comp_op ops = Some n" "n < length ops" "\<not> complement_flag (ops ! n)"
    using non_comp_op_spec[of ops] assms(2,3) by (auto split: option.splits)
  let ?ys = "fold (intersect_step ops n) [0..<length ops] (xlinks (ops ! n))"
  have "sorted_set (xlinks (ops ! n))" using n assms(1) by (simp add: subset_ok_def)
  note f = intersect_fold[OF assms(1) this order.refl, of n]
  have "(\<Inter>q \<in> set ops. denotes q) = (\<Inter>i \<in> {i. i < length ops}. denotes (ops ! i))"
    by (simp add: set_conv_nth) blast
  also have "{i. i < length ops} = insert n {i. i < length ops \<and> i \<noteq> n}" using n by auto
  finally have "(\<Inter>q \<in> set ops. denotes q) = set ?ys" using f n(3) by (simp add: denotes_def)
  with f n(1) show ?thesis
    by (intro that[of "subset_result ?ys"]) (simp_all add: IntersectionCore_def subset_ok_def denotes_def)
qed

lemma GetUnion_spec:
  assumes "\<forall>r \<in> set ops. subset_ok r"
  obtains r where "GetUnion ops = Inr r" "subset_ok r" "denotes r = (\<Union>q \<in> set ops. denotes q)"
    "complement_flag r \<longleftrightarrow> (\<exists>q \<in> set ops. complement_flag q)"
proof (cases "\<exists>q \<in> set ops. complement_flag q")
  case True
  then obtain q where q: "q \<in> set ops" "complement_flag q" by blast
  then have "n_comp ops > 0" by (auto simp: n_comp_eq filter_empty_conv)
  have "\<forall>r \<in> set (map GetComplement ops). subset_ok r" "GetComplement q \<in> set (map GetComplement ops)"
      "\<not> complement_flag (GetComplement q)"
    using assms q by auto
  from IntersectionCore_spec[OF this] obtain r where
    "IntersectionCore (map GetComplement ops) = Inr r" "subset_ok r" "\<not> complement_flag r"
    "denotes r = (\<Inter>q \<in> set (map GetComplement ops). denotes q)" .
  with True \<open>n_comp ops > 0\<close> show ?thesis
    by (intro that[of "GetComplement r"]) (auto simp: GetUnion_def DeMorgan_def)
next
  case False
  then have "n_comp ops = 0" by (auto simp: n_comp_eq)
  have "\<forall>r \<in> set ops. subset_ok r \<and> \<not> complement_flag r" using False assms by auto
  from UnionCore_spec[OF this] obtain r where "UnionCore ops = Inr r" "subset_ok r" "\<not> complement_flag r"
    "denotes r = (\<Union>q \<in> set ops. denotes q)" .
  with False \<open>n_comp ops = 0\<close> show ?thesis by (intro that[of r]) (simp_all add: GetUnion_def)
qed

lemma GetIntersection_spec:
  assumes "\<forall>r \<in> set ops. subset_ok r"
  obtains r where "GetIntersection ops = Inr r" "subset_ok r" "denotes r = (\<Inter>q \<in> set ops. denotes q)"
    "complement_flag r \<longleftrightarrow> (\<forall>q \<in> set ops. complement_flag q)"
proof (cases "\<forall>q \<in> set ops. complement_flag q")
  case True
  then have "n_comp ops = length ops" by (simp add: n_comp_eq)
  have "\<forall>r \<in> set (map GetComplement ops). subset_ok r \<and> \<not> complement_flag r"
    using assms True by auto
  from UnionCore_spec[OF this] obtain r where
    "UnionCore (map GetComplement ops) = Inr r" "subset_ok r" "\<not> complement_flag r"
    "denotes r = (\<Union>q \<in> set (map GetComplement ops). denotes q)" .
  with True \<open>n_comp ops = length ops\<close> show ?thesis
    by (intro that[of "GetComplement r"]) (auto simp: GetIntersection_def DeMorgan_def)
next
  case False
  then have "n_comp ops \<noteq> length ops" using length_filter_less[of _ ops complement_flag] by (auto simp: n_comp_eq)
  obtain q where "q \<in> set ops" "\<not> complement_flag q" using False by blast
  from IntersectionCore_spec[OF assms this] obtain r where
    "IntersectionCore ops = Inr r" "subset_ok r" "\<not> complement_flag r" "denotes r = (\<Inter>q \<in> set ops. denotes q)" .
  with False \<open>n_comp ops \<noteq> length ops\<close> show ?thesis by (intro that[of r]) (simp_all add: GetIntersection_def)
qed

section \<open>Ranges as filters\<close>

lemma takeWhile_closed: "sorted_wrt (\<lambda>x y. P y \<longrightarrow> P x) xs \<Longrightarrow> takeWhile P xs = filter P xs"
  by (induction xs) (auto intro!: filter_False[symmetric])

lemma dropWhile_closed: "sorted_wrt (\<lambda>x y. P y \<longrightarrow> P x) xs \<Longrightarrow> dropWhile P xs = filter (\<lambda>x. \<not> P x) xs"
  by (induction xs) (auto intro!: filter_True[symmetric])

lemma takeWhile_all: "takeWhile (\<lambda>_. True) xs = xs"
  by (induction xs) simp_all

lemma iterator_range_filter:
  assumes "sorted_wrt (\<lambda>x y. P y \<longrightarrow> P x) xs" "sorted_wrt (\<lambda>x y. Q y \<longrightarrow> Q x) xs"
    "\<And>x. x \<in> set xs \<Longrightarrow> P x \<Longrightarrow> Q x"
  shows "iterator_range xs (length (takeWhile P xs)) (length (takeWhile Q xs))
    = Inr (filter (\<lambda>x. \<not> P x \<and> Q x) xs)"
proof -
  have PQ: "filter P (filter Q xs) = filter P xs" using assms(3) by (induction xs) auto
  have sorted: "sorted_wrt (\<lambda>x y. P y \<longrightarrow> P x) (filter Q xs)" using assms(1) by (rule sorted_wrt_filter)
  have tq: "take (length (takeWhile Q xs)) xs = filter Q xs"
    using takeWhile_closed[OF assms(2)] by (metis takeWhile_eq_take)
  have "length (takeWhile P (filter Q xs)) = length (takeWhile P xs)"
    using takeWhile_closed[OF sorted] takeWhile_closed[OF assms(1)] PQ by simp
  then have "drop (length (takeWhile P xs)) (filter Q xs) = filter (\<lambda>x. \<not> P x) (filter Q xs)"
    using dropWhile_closed[OF sorted] by (simp add: dropWhile_eq_drop)
  moreover have "length (takeWhile P xs) \<le> length (takeWhile Q xs)"
    using takeWhile_closed[OF assms(1)] takeWhile_closed[OF assms(2)] PQ by (metis length_filter_le)
  ultimately show ?thesis by (simp add: iterator_range_def tq conj_commute)
qed

lemma insert_incoming_set:
  assumes "sorted_set links"
  shows "sorted_set (insert_incoming inc nodes links)
    \<and> set (insert_incoming inc nodes links) = set links \<union> (\<Union>n \<in> set nodes. set (inc n))"
proof -
  have inner: "sorted_set (fold (\<lambda>l links. fst (container_insert (<) l links)) ls links)
      \<and> set (fold (\<lambda>l links. fst (container_insert (<) l links)) ls links) = set links \<union> set ls"
    if "sorted_set links" for ls links :: "XValue list"
    using that by (induction ls arbitrary: links) (auto simp: lin.container_insert_props)
  show ?thesis
    using assms unfolding insert_incoming_def
    by (induction nodes arbitrary: links) (auto simp: inner)
qed

text \<open>The elements an ordering search skips below a lower bound, and keeps up to an upper bound.\<close>

definition below_lower :: "('k \<Rightarrow> 'k \<Rightarrow> bool) \<Rightarrow> 'k option \<Rightarrow> bool \<Rightarrow> 'k \<Rightarrow> bool" where
  "below_lower lt lower incl x =
     (case lower of None \<Rightarrow> False | Some k \<Rightarrow> if incl then lt x k else \<not> lt k x)"

definition within_upper :: "('k \<Rightarrow> 'k \<Rightarrow> bool) \<Rightarrow> 'k option \<Rightarrow> bool \<Rightarrow> 'k \<Rightarrow> bool" where
  "within_upper lt upper incl x =
     (case upper of None \<Rightarrow> True | Some k \<Rightarrow> if incl then \<not> lt k x else lt x k)"

definition in_range :: "('k \<Rightarrow> 'k \<Rightarrow> bool) \<Rightarrow> 'k option \<Rightarrow> bool \<Rightarrow> 'k option \<Rightarrow> bool \<Rightarrow> 'k \<Rightarrow> bool" where
  "in_range lt lower lower_incl upper upper_incl x \<longleftrightarrow>
     \<not> below_lower lt lower lower_incl x \<and> within_upper lt upper upper_incl x"

definition bounds_ordered :: "('k \<Rightarrow> 'k \<Rightarrow> bool) \<Rightarrow> 'k option \<Rightarrow> bool \<Rightarrow> 'k option \<Rightarrow> bool \<Rightarrow> bool" where
  "bounds_ordered lt lower lower_incl upper upper_incl \<longleftrightarrow>
     (case (lower, upper) of
        (Some lo, Some hi) \<Rightarrow> lt lo hi \<or> (\<not> lt hi lo \<and> (lower_incl \<or> upper_incl))
      | _ \<Rightarrow> True)"

context strict_weak_order
begin

lemma lt_not_lt_trans: "lt x y \<Longrightarrow> \<not> lt z y \<Longrightarrow> lt x z"
  using neg_trans by blast

lemma range_filter:
  assumes "sorted_wrt lt elems" "bounds_ordered lt lower li upper ui"
  shows "iterator_range elems
      (case lower of Some k \<Rightarrow> (if li then lower_bound lt elems k else upper_bound lt elems k) | None \<Rightarrow> 0)
      (case upper of Some k \<Rightarrow> (if ui then upper_bound lt elems k else lower_bound lt elems k)
         | None \<Rightarrow> length elems)
    = Inr (filter (in_range lt lower li upper ui) elems)"
proof -
  let ?P = "below_lower lt lower li" and ?Q = "within_upper lt upper ui"
  have lo: "(case lower of Some k \<Rightarrow> (if li then lower_bound lt elems k else upper_bound lt elems k) | None \<Rightarrow> 0)
      = length (takeWhile ?P elems)"
    by (cases lower) (simp_all add: below_lower_def[abs_def] lower_bound_def upper_bound_def takeWhile_eq_Nil_iff)
  have hi: "(case upper of Some k \<Rightarrow> (if ui then upper_bound lt elems k else lower_bound lt elems k)
         | None \<Rightarrow> length elems) = length (takeWhile ?Q elems)"
    by (cases upper) (simp_all add: within_upper_def[abs_def] lower_bound_def upper_bound_def takeWhile_all)
  have "sorted_wrt (\<lambda>x y. ?P y \<longrightarrow> ?P x) elems"
    by (rule sorted_wrt_mono_rel[OF _ assms(1)])
      (auto simp: below_lower_def split: option.splits dest: trans)
  moreover have "sorted_wrt (\<lambda>x y. ?Q y \<longrightarrow> ?Q x) elems"
    by (rule sorted_wrt_mono_rel[OF _ assms(1)])
      (auto simp: within_upper_def split: option.splits dest: trans)
  moreover have "?Q x" if "?P x" for x
  proof (cases "\<exists>l u. lower = Some l \<and> upper = Some u")
    case True
    then obtain l u where "lower = Some l" "upper = Some u" by blast
    with that assms(2) show ?thesis
      by (auto simp: below_lower_def within_upper_def bounds_ordered_def split: if_splits
          dest: trans neg_trans asym intro: lt_not_lt_trans)
  qed (use that in \<open>auto simp: below_lower_def within_upper_def split: option.splits\<close>)
  moreover have "in_range lt lower li upper ui = (\<lambda>x. \<not> ?P x \<and> ?Q x)"
    by (simp add: fun_eq_iff in_range_def)
  ultimately show ?thesis unfolding lo hi by (simp add: iterator_range_filter)
qed

lemma set_find_bounds:
  assumes "sorted_wrt lt elems" "k \<in> set elems"
  shows "set_find lt elems k = lower_bound lt elems k"
    and "set_find lt elems k + 1 = upper_bound lt elems k"
    and "set_find lt elems k < length elems"
proof -
  obtain xs ys where split: "elems = xs @ k # ys" by (meson assms(2) split_list)
  have xs: "lt x k" "\<not> lt k x" if "x \<in> set xs" for x
    using assms(1) that by (auto simp: split sorted_wrt_append dest: asym)
  have ys: "lt k y" if "y \<in> set ys" for y using assms(1) that by (auto simp: split sorted_wrt_append)
  show f: "set_find lt elems k = lower_bound lt elems k"
    using xs by (auto simp: split set_find_def lower_bound_def equivalent_def irrefl takeWhile_append)
  have "takeWhile (\<lambda>x. \<not> lt k x) ys = []" using ys by (cases ys) auto
  then show "set_find lt elems k + 1 = upper_bound lt elems k"
    unfolding f using xs by (auto simp: split lower_bound_def upper_bound_def irrefl takeWhile_append)
  show "set_find lt elems k < length elems"
    unfolding f using xs by (auto simp: split lower_bound_def irrefl takeWhile_append)
qed

lemma SimpleCompare_spec:
  assumes "sorted_wrt lt elems" "bounds_ordered lt lower li upper ui"
  obtains s where "SimpleCompare_TryExtensionalise lt elems inc lower li upper ui = Inr s"
    "sorted_set s" "set s = (\<Union>n \<in> {n \<in> set elems. in_range lt lower li upper ui n}. set (inc n))"
  using insert_incoming_set[of "[]" inc "filter (in_range lt lower li upper ui) elems"] that
  by (simp add: SimpleCompare_TryExtensionalise_def range_filter[OF assms])

lemma Category_fold:
  assumes "sorted_wrt lt elems" "\<forall>(lo, hi) \<in> set bs. lo \<noteq> None \<and> hi \<noteq> None \<and> bounds_ordered lt lo li hi ui"
    "sorted_set links"
  shows "\<exists>s. foldE (category_step lt elems inc li ui) bs links = Inr s \<and> sorted_set s
    \<and> set s = set links \<union> (\<Union>n \<in> {n \<in> set elems. \<exists>(lo, hi) \<in> set bs. in_range lt lo li hi ui n}. set (inc n))"
  using assms(2,3)
proof (induction bs arbitrary: links)
  case (Cons b bs)
  then obtain lo hi where b: "b = (Some lo, Some hi)" "bounds_ordered lt (Some lo) li (Some hi) ui" by auto
  let ?l = "insert_incoming inc (filter (in_range lt (Some lo) li (Some hi) ui) elems) links"
  have step: "category_step lt elems inc li ui b links = Inr ?l"
    using range_filter[OF assms(1) b(2)] by (simp add: category_step_def b(1))
  have "sorted_set ?l" "set ?l = set links \<union> (\<Union>n \<in> {n \<in> set elems. in_range lt (Some lo) li (Some hi) ui n}. set (inc n))"
    using insert_incoming_set[OF Cons.prems(2)] by auto
  moreover have "{n \<in> set elems. \<exists>(lo, hi) \<in> set (b # bs). in_range lt lo li hi ui n}
      = {n \<in> set elems. in_range lt (Some lo) li (Some hi) ui n}
        \<union> {n \<in> set elems. \<exists>(lo, hi) \<in> set bs. in_range lt lo li hi ui n}"
    by (auto simp: b(1))
  ultimately show ?case
    using Cons.IH[of ?l] Cons.prems(1) step by (simp add: UN_Un Un_assoc)
qed simp


end

definition opt_link :: "XValue \<Rightarrow> XValue option" where
  "opt_link k = (if k = null_link then None else Some k)"

lemma DepthFirst_spec:
  assumes swo: "strict_weak_order lt" and sorted: "sorted_wrt lt elems"
    and mem: "lower \<noteq> null_link \<Longrightarrow> lower \<in> set elems" "upper \<noteq> null_link \<Longrightarrow> upper \<in> set elems"
    and bounds: "lower \<noteq> null_link \<Longrightarrow> upper \<noteq> null_link \<Longrightarrow> lt lower upper \<or> \<not> lt upper lower \<and> li"
  obtains s where "DepthFirst_TryExtensionalise lt elems lower li upper ui = Inr s" "sorted_set s"
    "set s = {x \<in> set elems. in_range lt (opt_link lower) li (opt_link upper) ui x}"
proof -
  let ?lo = "case opt_link lower of Some k \<Rightarrow> (if li then lower_bound lt elems k else upper_bound lt elems k) | None \<Rightarrow> 0"
  let ?hi = "case opt_link upper of Some k \<Rightarrow> (if ui then upper_bound lt elems k else lower_bound lt elems k)
         | None \<Rightarrow> length elems"
  let ?xs = "filter (in_range lt (opt_link lower) li (opt_link upper) ui) elems"
  note find = strict_weak_order.set_find_bounds[OF swo sorted]
  have bo: "bounds_ordered lt (opt_link lower) li (opt_link upper) ui"
    using bounds by (auto simp: bounds_ordered_def opt_link_def)
  have lo: "(if lower \<noteq> null_link then (let it = set_find lt elems lower
      in guardE (it \<noteq> length elems) (if li then Inr it else iterator_next elems it)) else Inr 0) = Inr ?lo"
    using find[OF mem(1)] by (auto simp: opt_link_def iterator_next_def Let_def)
  have "?lo < length elems" if u: "upper \<noteq> null_link"
  proof (cases "lower = null_link \<or> li")
    case True
    with find[OF mem(1)] mem(2)[OF u] show ?thesis by (auto simp: opt_link_def)
  next
    case False
    then have "lt lower upper" "upper \<in> set elems" using bounds u mem(2) by auto
    then have "takeWhile (\<lambda>x. \<not> lt lower x) elems \<noteq> elems" by (metis set_takeWhileD)
    then show ?thesis
      using False length_takeWhile_le[of "\<lambda>x. \<not> lt lower x" elems] takeWhile_eq_take[of "\<lambda>x. \<not> lt lower x" elems]
      by (auto simp: opt_link_def upper_bound_def intro: le_neq_implies_less)
  qed
  then have hi: "(if upper \<noteq> null_link then (let it = set_find lt elems upper
      in guardE (?lo \<noteq> length elems) (if ui then iterator_next elems it else Inr it)) else Inr (length elems)) = Inr ?hi"
    using find[OF mem(2)] by (auto simp: opt_link_def iterator_next_def Let_def)
  have "DepthFirst_TryExtensionalise lt elems lower li upper ui = Inr (insert_range (<) ?xs)"
    unfolding DepthFirst_TryExtensionalise_def lo bindE_simps hi strict_weak_order.range_filter[OF swo sorted bo] ..
  moreover have "set (insert_range (<) xs) = set xs" for xs :: "XValue list"
  proof -
    have "set (fold (\<lambda>x r. fst (container_insert (<) x r)) xs ys) = set ys \<union> set xs" if "sorted_set ys" for ys
      using that by (induction xs arbitrary: ys) (auto simp: lin.container_insert_props)
    then show ?thesis by (simp add: insert_range_def)
  qed
  ultimately show ?thesis
    by (intro that[of "insert_range (<) ?xs"]) (simp_all add: lin.sorted_insert_range)
qed

section \<open>Properties\<close>

text \<open>C28: \<^verbatim>\<open>GetUnion\<close>, \<^verbatim>\<open>GetIntersection\<close> and \<^verbatim>\<open>GetComplement\<close> never fail and compute union,
  intersection and complement of the sets their operands denote, whichever operands are
  complements and also when there are no operands (the empty set and the universe); the result
  keeps the invariant and is a complement only when a finite set cannot be given.\<close>

theorem SubsetResult_algebra:
  assumes "\<forall>r \<in> set ops. subset_ok r"
  shows "(\<exists>r. GetUnion ops = Inr r \<and> subset_ok r \<and> denotes r = (\<Union>q \<in> set ops. denotes q)
        \<and> (complement_flag r \<longleftrightarrow> (\<exists>q \<in> set ops. complement_flag q)))
    \<and> (\<exists>r. GetIntersection ops = Inr r \<and> subset_ok r \<and> denotes r = (\<Inter>q \<in> set ops. denotes q)
        \<and> (complement_flag r \<longleftrightarrow> list_all complement_flag ops))
    \<and> map denotes (map GetComplement ops) = map (uminus \<circ> denotes) ops"
proof -
  obtain r where "GetUnion ops = Inr r" "subset_ok r" "denotes r = (\<Union>q \<in> set ops. denotes q)"
    "complement_flag r \<longleftrightarrow> (\<exists>q \<in> set ops. complement_flag q)"
    using GetUnion_spec[OF assms] .
  moreover obtain s where "GetIntersection ops = Inr s" "subset_ok s" "denotes s = (\<Inter>q \<in> set ops. denotes q)"
    "complement_flag s \<longleftrightarrow> (\<forall>q \<in> set ops. complement_flag q)"
    using GetIntersection_spec[OF assms] .
  ultimately show ?thesis by (auto simp: list_all_iff)
qed

theorem SubsetResult_algebra_witness:
  "\<exists>r. GetIntersection [\<lparr>xlinks = [3, 5], complement_flag = True\<rparr>, subset_result [2, 3]] = Inr r
     \<and> denotes r = denotes \<lparr>xlinks = [3, 5], complement_flag = True\<rparr> \<inter> denotes (subset_result [2, 3])"
  using SubsetResult_algebra[of "[\<lparr>xlinks = [3, 5], complement_flag = True\<rparr>, subset_result [2, 3]]"]
  by (auto simp: subset_ok_def)

text \<open>A \<^verbatim>\<open>SubsetResult\<close> extensionalises exactly when it is not a complement, and then to the set
  it denotes; conversion of any result that extensionalises to a \<^verbatim>\<open>SubsetResult\<close> keeps the set;
  \<^verbatim>\<open>GetOnlyXLink\<close> succeeds on a subset result exactly when it is defined and unique.\<close>

theorem extensionalise_consistent:
  "(TryExtensionalise (SubsetRes r) = None \<longleftrightarrow> complement_flag r)
   \<and> (TryExtensionalise q = Some links \<longleftrightarrow>
        (\<exists>s. SubsetResult_from q = Inr s \<and> \<not> complement_flag s \<and> denotes s = set links \<and> xlinks s = links))
   \<and> ((\<exists>x. GetOnlyXLink (SubsetRes r) = Inr x) \<longleftrightarrow> IsDefinedAndUnique (SubsetRes r))"
  by (cases q) (auto simp: SubsetResult_from_def denotes_def SoloElementOf_def guardE_def length_Suc_conv)

text \<open>Expanding a range of the simple-compare ordering yields the incoming links of exactly the
  nodes of the ordering that lie between the bounds, each bound inclusive or exclusive or absent.\<close>

theorem SimpleCompare_range_exact:
  assumes "strict_weak_order sc_lt" "sorted_wrt sc_lt elems" "bounds_ordered sc_lt lower li upper ui"
  shows "\<exists>s. SimpleCompare_TryExtensionalise sc_lt elems inc lower li upper ui = Inr s \<and> sorted_set s
    \<and> set s = (\<Union>n \<in> {n \<in> set elems. in_range sc_lt lower li upper ui n}. set (inc n))"
  by (rule strict_weak_order.SimpleCompare_spec[OF assms, of inc]) blast

theorem SimpleCompare_range_exact_witness:
  "\<exists>s. SimpleCompare_TryExtensionalise (<) [1 :: nat, 4, 6] (\<lambda>n. [n + 10]) (Some 2) True (Some 6) False = Inr s
    \<and> sorted_set s
    \<and> set s = (\<Union>n \<in> {n \<in> set [1 :: nat, 4, 6]. in_range (<) (Some 2) True (Some 6) False n}. set [n + 10])"
  by (rule SimpleCompare_range_exact) (simp_all add: lin.strict_weak_order_axioms bounds_ordered_def)

text \<open>Expanding a list of category ranges yields the incoming links of exactly the nodes that lie
  in one of the ranges.\<close>

theorem Category_range_exact:
  assumes "strict_weak_order cat_lt" "sorted_wrt cat_lt elems"
    "\<forall>(lo, hi) \<in> set bounds_list. lo \<noteq> None \<and> hi \<noteq> None \<and> bounds_ordered cat_lt lo li hi ui"
  shows "\<exists>s. Category_TryExtensionalise cat_lt elems inc bounds_list li ui = Inr s \<and> sorted_set s
    \<and> set s = (\<Union>n \<in> {n \<in> set elems. \<exists>(lo, hi) \<in> set bounds_list. in_range cat_lt lo li hi ui n}. set (inc n))"
  using strict_weak_order.Category_fold[OF assms, of "[]" inc] by (simp add: Category_TryExtensionalise_def)

theorem Category_range_exact_witness:
  "\<exists>s. Category_TryExtensionalise (<) [1 :: nat, 4, 6, 9] (\<lambda>n. [n + 10])
        [(Some 1, Some 4), (Some 6, Some 7)] True False = Inr s \<and> sorted_set s
    \<and> set s = (\<Union>n \<in> {n \<in> set [1 :: nat, 4, 6, 9]. \<exists>(lo, hi) \<in> set [(Some 1, Some 4), (Some 6, Some 7)].
                  in_range (<) lo True hi False n}. set [n + 10])"
  by (rule Category_range_exact) (simp_all add: lin.strict_weak_order_axioms bounds_ordered_def)

text \<open>Provided that each bound given is a member of the ordering, and the lower one is before the upper one or
  the same and included, expanding a range of the depth-first ordering yields exactly its members between the
  bounds, as an address-ordered set.\<close>

theorem DepthFirst_range_exact:
  assumes "strict_weak_order df_lt" "sorted_wrt df_lt elems"
    "lower \<noteq> null_link \<longrightarrow> lower \<in> set elems" "upper \<noteq> null_link \<longrightarrow> upper \<in> set elems"
    "lower \<noteq> null_link \<longrightarrow> upper \<noteq> null_link \<longrightarrow> df_lt lower upper \<or> \<not> df_lt upper lower \<and> li"
  shows "\<exists>s. DepthFirst_TryExtensionalise df_lt elems lower li upper ui = Inr s \<and> sorted_set s
    \<and> set s = {x \<in> set elems. in_range df_lt (opt_link lower) li (opt_link upper) ui x}"
  by (rule DepthFirst_spec[OF assms(1,2), of lower upper li ui]) (use assms(3-5) in blast)+

theorem DepthFirst_range_exact_witness:
  "\<exists>s. DepthFirst_TryExtensionalise (<) [2, 5, 7] 2 False 7 True = Inr s \<and> sorted_set s
    \<and> set s = {x \<in> set [2, 5, 7]. in_range (<) (opt_link 2) False (opt_link 7) True x}"
  by (rule DepthFirst_range_exact) (simp_all add: lin.strict_weak_order_axioms)

text \<open>An upper bound that is not in the ordering goes unnoticed: the assertion after the search for
  it tests the lower position again.\<close>

lemma DepthFirst_upper_unchecked:
  assumes "upper \<noteq> null_link" "\<forall>x \<in> set elems. \<not> equivalent df_lt x upper" "elems \<noteq> []"
  shows "DepthFirst_TryExtensionalise df_lt elems null_link li upper False
    = DepthFirst_TryExtensionalise df_lt elems null_link li null_link False"
proof -
  have "set_find df_lt elems upper = length elems"
    using assms(2) by (simp add: set_find_def takeWhile_eq_all_conv[THEN iffD2])
  with assms show ?thesis by (simp add: DepthFirst_TryExtensionalise_def Let_def)
qed

end
