(* ===== verification/Csp.thy ===== *)
theory Csp
  imports Result
begin

text \<open>
  The constraint problem as the solvers see it: the constraint interface
  (\<^verbatim>\<open>vn/csp/constraint.hpp\<close>), the selector of candidate values (\<^verbatim>\<open>vn/csp/value_selector.cpp\<close>)
  and the plan that \<^verbatim>\<open>ReferenceSolver\<close> makes from its constraints
  (\<^verbatim>\<open>ReferenceSolver::Plan::DeduceVariables\<close>).

  Variables are pattern links and constraints are shared pointers; both are used as keys of
  ordered containers only and are natural numbers here. The virtual methods of \<^verbatim>\<open>Constraint\<close> are
  functions of the record \<open>csp_env\<close>, with the domain of the tree database.
\<close>

section \<open>Interface\<close>

type_synonym Value = XValue
type_synonym VariableId = nat
type_synonym ConstraintId = nat
type_synonym Assignments = "(VariableId \<times> Value) list"
type_synonym ConstraintSet = "ConstraintId list"

record csp_env =
  GetVariables :: "ConstraintId \<Rightarrow> VariableId list"
  GetVariablesRequiringDB :: "ConstraintId \<Rightarrow> VariableId list"
  IsSatisfied :: "ConstraintId \<Rightarrow> Assignments \<Rightarrow> bool"
  GetSuggestedValues :: "ConstraintId \<Rightarrow> Assignments \<Rightarrow> VariableId \<Rightarrow> SubsetResult option"
  unordered_domain :: "Value list"

section \<open>Value selectors\<close>

text \<open>A selector is the queue of the values its generator still has to give.\<close>

type_synonym ValueSelector = "Value list"

definition SetupDefaultGenerator :: "csp_env \<Rightarrow> ValueSelector" where
  "SetupDefaultGenerator env = unordered_domain env"

definition SetupSuggestionGenerator :: "Value list \<Rightarrow> ValueSelector" where
  "SetupSuggestionGenerator suggested = suggested"

definition query_suggestion ::
    "csp_env \<Rightarrow> Assignments \<Rightarrow> VariableId \<Rightarrow> ConstraintId \<Rightarrow> SubsetResult result" where
  "query_suggestion env assigns var c =
     (case GetSuggestedValues env c assigns var of None \<Rightarrow> Inl AssertFail | Some r \<Rightarrow> Inr r)"

definition new_ValueSelector ::
    "csp_env \<Rightarrow> ConstraintSet \<Rightarrow> Assignments \<Rightarrow> VariableId \<Rightarrow> ValueSelector result" where
  "new_ValueSelector env constraints_to_query assigns var =
     bindE (mapE (query_suggestion env assigns var) constraints_to_query) (\<lambda>rl.
     bindE (GetIntersection rl) (\<lambda>r.
       Inr (case TryExtensionalise (SubsetRes r) of
              Some s \<Rightarrow> SetupSuggestionGenerator s
            | None \<Rightarrow> SetupDefaultGenerator env)))"

fun GetNextValue :: "ValueSelector \<Rightarrow> Value \<times> ValueSelector" where
  "GetNextValue [] = (null_link, [])"
| "GetNextValue (v # vs) = (v, vs)"

section \<open>The plan\<close>

record plan =
  constraints :: "ConstraintId list"
  free_variables :: "VariableId list"
  domain_forced_variables :: "VariableId list"
  arbitrary_forced_variables :: "VariableId list"
  free_variables_to_indices :: "VariableId \<rightharpoonup> nat"
  constraint_set :: ConstraintSet
  fully_forced_constraint_set :: ConstraintSet
  free_var_indices_for_constraint :: "ConstraintId \<rightharpoonup> nat list"
  affected_constraints :: "ConstraintSet list"
  completed_constraints :: "ConstraintSet list"

abbreviation (input) set_insert :: "'a::linorder \<Rightarrow> 'a list \<Rightarrow> 'a list" where
  "set_insert x s \<equiv> fst (container_insert (<) x s)"

definition index_free_variables ::
    "VariableId list \<Rightarrow> (VariableId list \<times> (VariableId \<rightharpoonup> nat)) result" where
  "index_free_variables fv =
     foldE (\<lambda>i (s, to_indices). bindE (InsertSolo (<) s (fv ! i)) (\<lambda>s'. Inr (s', to_indices(fv ! i \<mapsto> i))))
       [0..<length fv] ([], Map.empty)"

text \<open>The loop over the variables of one constraint: its free variables and their indices.\<close>

definition free_variables_of ::
    "csp_env \<Rightarrow> VariableId list \<Rightarrow> VariableId list \<Rightarrow> (VariableId \<rightharpoonup> nat) \<Rightarrow> ConstraintId
     \<Rightarrow> (VariableId list \<times> nat list) result" where
  "free_variables_of env free_set arbitrary to_indices c =
     foldE (\<lambda>v (c_free_vars, c_free_var_indices).
         bindE (if v \<in> set free_set
                then (case to_indices v of
                        None \<Rightarrow> Inl OutOfRange
                      | Some i \<Rightarrow> Inr (set_insert v c_free_vars, set_insert i c_free_var_indices))
                else Inr (c_free_vars, c_free_var_indices)) (\<lambda>r.
         if v \<in> set arbitrary then guardE (v \<notin> set (GetVariablesRequiringDB env c)) (Inr r) else Inr r))
       (GetVariables env c) ([], [])"

text \<open>Which variable completes a constraint: the loop leaves at the first index by which all the
  constraint's free variables have been seen.\<close>

fun complete_constraint ::
    "ConstraintId \<Rightarrow> nat list \<Rightarrow> nat list \<Rightarrow> nat list \<Rightarrow> ConstraintSet list \<Rightarrow> ConstraintSet list" where
  "complete_constraint c c_free_var_indices [] cumulative completed = completed"
| "complete_constraint c c_free_var_indices (i # is) cumulative completed =
     (let cumulative' = set_insert i cumulative
      in if list_all (\<lambda>j. j \<in> set cumulative') c_free_var_indices
         then completed[i := set_insert c (completed ! i)]
         else complete_constraint c c_free_var_indices is cumulative' completed)"

definition affect_constraint ::
    "ConstraintId \<Rightarrow> nat list \<Rightarrow> ConstraintSet list \<times> nat list \<Rightarrow> ConstraintSet list \<times> nat list" where
  "affect_constraint c c_free_var_indices =
     fold (\<lambda>i (affected, used). (affected[i := set_insert c (affected ! i)], set_insert i used)) c_free_var_indices"

definition deduce_step ::
    "csp_env \<Rightarrow> VariableId list \<Rightarrow> ConstraintId \<Rightarrow> plan \<times> nat list \<Rightarrow> (plan \<times> nat list) result" where
  "deduce_step env free_set c = (\<lambda>(p, used).
     bindE (free_variables_of env free_set (arbitrary_forced_variables p) (free_variables_to_indices p) c)
       (\<lambda>(c_free_vars, c_free_var_indices).
         let (affected, used') = affect_constraint c c_free_var_indices (affected_constraints p, used);
             p' = p\<lparr>constraint_set := set_insert c (constraint_set p),
                    affected_constraints := affected,
                    free_var_indices_for_constraint := (free_var_indices_for_constraint p)(c \<mapsto> c_free_var_indices)\<rparr>
         in Inr (if c_free_vars = []
                 then p'\<lparr>fully_forced_constraint_set := set_insert c (fully_forced_constraint_set p)\<rparr>
                 else p'\<lparr>completed_constraints :=
                          complete_constraint c c_free_var_indices [0..<length (free_variables p)] []
                            (completed_constraints p)\<rparr>, used')))"

definition DeduceVariables ::
    "csp_env \<Rightarrow> ConstraintId list \<Rightarrow> VariableId list \<Rightarrow> VariableId list \<Rightarrow> VariableId list \<Rightarrow> plan result" where
  "DeduceVariables env cs fv domain_forced arbitrary_forced =
     bindE (index_free_variables fv) (\<lambda>(free_set, to_indices).
     bindE (UnionOfSolo (<) domain_forced arbitrary_forced) (\<lambda>forced_variables.
     guardE (IntersectionOf (<) free_set forced_variables = [])
      (bindE (foldE (deduce_step env free_set) cs
               (\<lparr>constraints = cs, free_variables = fv, domain_forced_variables = domain_forced,
                 arbitrary_forced_variables = arbitrary_forced, free_variables_to_indices = to_indices,
                 constraint_set = [], fully_forced_constraint_set = [],
                 free_var_indices_for_constraint = Map.empty,
                 affected_constraints = replicate (length fv) [],
                 completed_constraints = replicate (length fv) []\<rparr>, [])) (\<lambda>(p, used).
        guardE (list_all (\<lambda>i. i \<in> set used) [0..<length fv]) (Inr p)))))"

section \<open>What the plan says\<close>

definition free_indices :: "csp_env \<Rightarrow> VariableId list \<Rightarrow> ConstraintId \<Rightarrow> nat set" where
  "free_indices env fv c = {i. i < length fv \<and> fv ! i \<in> set (GetVariables env c)}"

text \<open>A strictly increasing list that holds a given set.\<close>

definition represents :: "'a::linorder list \<Rightarrow> 'a set \<Rightarrow> bool" where
  "represents xs A \<longleftrightarrow> sorted_set xs \<and> set xs = A"

lemma represents_Nil [simp]: "represents [] A \<longleftrightarrow> A = {}"
  by (auto simp: represents_def)

lemma represents_insert [simp, intro]: "represents xs A \<Longrightarrow> represents (set_insert x xs) (insert x A)"
  using lin.container_insert_props[of xs x] by (auto simp: represents_def)

lemma represents_unique: "represents xs A \<Longrightarrow> represents ys A \<Longrightarrow> xs = ys"
  by (auto simp: represents_def intro: strict_sorted_equal)

lemma represents_set: "represents xs A \<Longrightarrow> set xs = A"
  by (simp add: represents_def)

text \<open>A plan made for constraints \<open>cs\<close>: every constraint is in the sets it should be in.\<close>

definition plan_for :: "csp_env \<Rightarrow> ConstraintId set \<Rightarrow> plan \<Rightarrow> bool" where
  "plan_for env C p \<longleftrightarrow>
     (let fv = free_variables p; n = length fv in
      represents (constraint_set p) C
      \<and> represents (fully_forced_constraint_set p) {c \<in> C. free_indices env fv c = {}}
      \<and> length (affected_constraints p) = n \<and> length (completed_constraints p) = n
      \<and> (\<forall>i < n. represents (affected_constraints p ! i) {c \<in> C. i \<in> free_indices env fv c})
      \<and> (\<forall>i < n. represents (completed_constraints p ! i)
             {c \<in> C. i \<in> free_indices env fv c \<and> free_indices env fv c \<subseteq> {..i}})
      \<and> (\<forall>c \<in> C. \<exists>is. free_var_indices_for_constraint p c = Some is \<and> represents is (free_indices env fv c)))"

lemma finite_free_indices [simp]: "finite (free_indices env fv c)"
  by (simp add: free_indices_def)

lemma InsertSolo_represents:
  "represents s A \<Longrightarrow> InsertSolo (<) s x = guardE (x \<notin> A) (Inr (set_insert x s))"
  using lin.container_insert_props[of s x] by (auto simp: represents_def InsertSolo_def Let_def)

lemma index_free_variables_spec:
  "case index_free_variables fv of
     Inl e \<Rightarrow> e = AssertFail \<and> \<not> distinct fv
   | Inr (s, to) \<Rightarrow> distinct fv \<and> represents s (set fv) \<and> (\<forall>i < length fv. to (fv ! i) = Some i)"
proof -
  define f where "f = (\<lambda>i (s, to_indices). bindE (InsertSolo (<) s (fv ! i))
    (\<lambda>s'. Inr (s', to_indices(fv ! i \<mapsto> (i :: nat)))))"
  have f: "f i (s, to) = guardE (fv ! i \<notin> A) (Inr (set_insert (fv ! i) s, to(fv ! i \<mapsto> i)))"
    if "represents s A" for i s to A
    using InsertSolo_represents[OF that] by (auto simp: f_def guardE_def)
  have "case foldE f [0..<k] ([], Map.empty) of
      Inl e \<Rightarrow> e = AssertFail \<and> \<not> distinct (take k fv)
    | Inr (s, to) \<Rightarrow> distinct (take k fv) \<and> represents s (set (take k fv)) \<and> (\<forall>i < k. to (fv ! i) = Some i)"
    if "k \<le> length fv" for k
    using that
  proof (induction k)
    case (Suc k)
    then have t: "take (Suc k) fv = take k fv @ [fv ! k]" by (simp add: take_Suc_conv_app_nth)
    have mem: "fv ! i \<in> set (take k fv)" if "i < k" for i
      using that Suc.prems by (auto simp: in_set_conv_nth)
    show ?case
    proof (cases "foldE f [0..<k] ([], Map.empty)")
      case (Inl e)
      with Suc show ?thesis by (simp add: foldE_append t)
    next
      case (Inr st)
      obtain s to where st: "st = (s, to)" by fastforce
      with Inr Suc have ih: "distinct (take k fv)" "represents s (set (take k fv))" "\<forall>i < k. to (fv ! i) = Some i"
        by auto
      show ?thesis
      proof (cases "fv ! k \<in> set (take k fv)")
        case True
        with Inr st ih show ?thesis by (simp add: foldE_append t f)
      next
        case False
        then have "\<forall>i < Suc k. (to(fv ! k \<mapsto> k)) (fv ! i) = Some i"
          using ih(3) mem False by (metis fun_upd_apply less_Suc_eq)
        with False Inr st ih show ?thesis by (simp add: foldE_append t f del: fun_upd_apply)
      qed
    qed
  qed simp
  from this[OF order.refl] show ?thesis
    unfolding index_free_variables_def f_def[symmetric] take_all[OF order.refl] .
qed

definition db_rule :: "csp_env \<Rightarrow> VariableId list \<Rightarrow> ConstraintId \<Rightarrow> bool" where
  "db_rule env arbitrary c \<longleftrightarrow>
     set (GetVariables env c) \<inter> set arbitrary \<inter> set (GetVariablesRequiringDB env c) = {}"

lemma free_variables_of_spec:
  assumes "represents free_set (set fv)" "\<forall>i < length fv. to (fv ! i) = Some i"
  shows "case free_variables_of env free_set arb to c of
      Inl e \<Rightarrow> e = AssertFail \<and> \<not> db_rule env arb c
    | Inr (vs, is) \<Rightarrow> db_rule env arb c \<and> represents is (free_indices env fv c)
        \<and> (vs = [] \<longleftrightarrow> free_indices env fv c = {})"
proof -
  define f where "f = (\<lambda>v (vs, is). bindE (if v \<in> set free_set
                then (case to v of None \<Rightarrow> Inl OutOfRange
                      | Some i \<Rightarrow> Inr (set_insert v vs, set_insert i is))
                else Inr (vs, is)) (\<lambda>r.
         if v \<in> set arb then guardE (v \<notin> set (GetVariablesRequiringDB env c)) (Inr r) else Inr r))"
  have f: "f v (vs, is) = guardE (v \<notin> set arb \<inter> set (GetVariablesRequiringDB env c))
      (Inr (if v \<in> set fv then (set_insert v vs, set_insert (the (to v)) is) else (vs, is)))" for v vs "is"
    using assms by (auto simp: f_def guardE_def represents_def in_set_conv_nth split: option.splits)
  have the_to: "the (to v) < length fv \<and> fv ! the (to v) = v" if "v \<in> set fv" for v
    using assms(2) that by (auto simp: in_set_conv_nth)
  have ins: "insert (the (to v)) {i. i < length fv \<and> fv ! i \<in> V} = {i. i < length fv \<and> fv ! i \<in> insert v V}"
    if "v \<in> set fv" for v V
    using the_to[OF that] assms(2) by auto
  have "case foldE f vars (vs, is) of
      Inl e \<Rightarrow> e = AssertFail \<and> set vars \<inter> set arb \<inter> set (GetVariablesRequiringDB env c) \<noteq> {}
    | Inr (vs', is') \<Rightarrow> set vars \<inter> set arb \<inter> set (GetVariablesRequiringDB env c) = {}
        \<and> represents is' {i. i < length fv \<and> fv ! i \<in> V \<union> set vars}
        \<and> (vs' = [] \<longleftrightarrow> {i. i < length fv \<and> fv ! i \<in> V \<union> set vars} = {})"
    if "represents is {i. i < length fv \<and> fv ! i \<in> V}" "vs = [] \<longleftrightarrow> {i. i < length fv \<and> fv ! i \<in> V} = {}"
    for vars vs "is" V
    using that
  proof (induction vars arbitrary: vs "is" V)
    case (Cons v vars)
    show ?case
    proof (cases "v \<in> set arb \<inter> set (GetVariablesRequiringDB env c)")
      case True
      then show ?thesis by (auto simp: f)
    next
      case False
      let ?vs = "if v \<in> set fv then set_insert v vs else vs"
      let ?is = "if v \<in> set fv then set_insert (the (to v)) is else is"
      have new: "{i. i < length fv \<and> fv ! i \<in> insert v V} = (if v \<in> set fv then insert (the (to v)) {i. i < length fv \<and> fv ! i \<in> V} else {i. i < length fv \<and> fv ! i \<in> V})"
        using ins[of v V] by (auto simp: in_set_conv_nth)
      have "set_insert v vs \<noteq> []" by (cases vs) auto
      then have "represents ?is {i. i < length fv \<and> fv ! i \<in> insert v V}"
        and "?vs = [] \<longleftrightarrow> {i. i < length fv \<and> fv ! i \<in> insert v V} = {}"
        using Cons.prems unfolding new by auto
      note ih = Cons.IH[OF this]
      have "set (v # vars) \<inter> set arb \<inter> set (GetVariablesRequiringDB env c)
          = set vars \<inter> set arb \<inter> set (GetVariablesRequiringDB env c)" using False by auto
      moreover have "V \<union> set (v # vars) = insert v V \<union> set vars" by simp
      moreover have "foldE f (v # vars) (vs, is) = foldE f vars (?vs, ?is)" using False by (simp add: f)
      ultimately show ?thesis using ih by (simp only:)
    qed
  qed simp
  from this[of "[]" "{}" "[]" "GetVariables env c"] show ?thesis
    unfolding free_variables_of_def f_def[symmetric] by (simp add: free_indices_def db_rule_def split: sum.splits prod.splits)
qed

lemma affect_constraint_spec:
  assumes "distinct is" "\<forall>i \<in> set is. i < length aff" "represents used U"
  shows "case affect_constraint c is (aff, used) of (aff', used') \<Rightarrow>
    length aff' = length aff \<and> represents used' (U \<union> set is)
    \<and> (\<forall>i < length aff. aff' ! i = (if i \<in> set is then set_insert c (aff ! i) else aff ! i))"
  using assms
proof (induction "is" arbitrary: aff used U)
  case (Cons i "is")
  let ?aff = "aff[i := set_insert c (aff ! i)]" and ?used = "set_insert i used"
  have "case affect_constraint c is (?aff, ?used) of (aff', used') \<Rightarrow>
    length aff' = length ?aff \<and> represents used' (insert i U \<union> set is)
    \<and> (\<forall>j < length ?aff. aff' ! j = (if j \<in> set is then set_insert c (?aff ! j) else ?aff ! j))"
    using Cons by (intro Cons.IH) auto
  with Cons.prems show ?case
    by (auto simp: affect_constraint_def nth_list_update split: prod.splits)
qed (simp add: affect_constraint_def)

lemma complete_constraint_spec:
  assumes "is \<noteq> []" "\<forall>i \<in> set is. i < n" "represents cum {..<k}" "k \<le> Max (set is)"
  shows "complete_constraint c is [k..<n] cum completed
    = completed[Max (set is) := set_insert c (completed ! Max (set is))]"
  using assms(3,4)
proof (induction "Max (set is) - k" arbitrary: k cum)
  case (0)
  let ?cum = "set_insert k cum"
  have k: "k = Max (set is)" using 0 by linarith
  moreover have "Max (set is) \<in> set is" using assms(1) by simp
  ultimately have "k < n" using assms(2) by auto
  have "represents ?cum (insert k {..<k})" using 0 by blast
  then have "set ?cum = {..k}" unfolding represents_def using lessThan_Suc_atMost lessThan_Suc by metis
  moreover have "\<forall>j \<in> set is. j \<le> k" using k by (metis List.finite_set Max_ge)
  ultimately have "list_all (\<lambda>j. j \<in> set ?cum) is" by (simp add: list_all_iff)
  with \<open>k < n\<close> have "complete_constraint c is [k..<n] cum completed = completed[k := set_insert c (completed ! k)]"
    by (simp add: upt_conv_Cons Let_def)
  then show ?case unfolding k .
next
  case (Suc d)
  let ?cum = "set_insert k cum"
  have k: "k < Max (set is)" "Max (set is) \<in> set is" using Suc assms(1) by auto
  then have "k < n" using assms(2) by auto
  have "represents ?cum (insert k {..<k})" using Suc by blast
  then have cum: "represents ?cum {..<Suc k}" by (simp add: lessThan_Suc)
  then have "Max (set is) \<notin> set ?cum" using k(1) unfolding represents_def by (metis lessThan_iff not_less_eq)
  then have "\<not> list_all (\<lambda>j. j \<in> set ?cum) is" using k(2) unfolding list_all_iff by blast
  moreover have "complete_constraint c is [Suc k..<n] ?cum completed
      = completed[Max (set is) := set_insert c (completed ! Max (set is))]"
    using Suc.hyps(1)[of "Suc k" ?cum] Suc.hyps(2) k cum by simp
  ultimately show ?case using \<open>k < n\<close> by (simp add: upt_conv_Cons Let_def)
qed

lemma length_complete_constraint [simp]: "length (complete_constraint c is js cum completed) = length completed"
  by (induction c "is" js cum completed rule: complete_constraint.induct) (auto simp: Let_def)

lemma complete_constraint_nth:
  assumes "set is = I" "I \<subseteq> {..<n}" "length completed = n" "i < n"
  shows "(if is = [] then completed else complete_constraint c is [0..<n] [] completed) ! i
    = (if i \<in> I \<and> I \<subseteq> {..i} then set_insert c (completed ! i) else completed ! i)"
proof (cases "is = []")
  case False
  have "complete_constraint c is [0..<n] [] completed
      = completed[Max I := set_insert c (completed ! Max I)]"
    using False assms(1,2) complete_constraint_spec[OF False, of n "[]" 0 c completed] by auto
  moreover have m: "Max I \<in> I" "finite I" using False assms(1) by auto
  moreover have "i \<in> I \<and> I \<subseteq> {..i} \<longleftrightarrow> i = Max I"
    using m by (auto intro: antisym)
  ultimately show ?thesis using False assms by (auto simp: nth_list_update)
qed (use assms in auto)

text \<open>The parts of a plan that \<^verbatim>\<open>DeduceVariables\<close> does not change while it goes through the
  constraints.\<close>

definition same_inputs :: "plan \<Rightarrow> plan \<Rightarrow> bool" where
  "same_inputs p q \<longleftrightarrow> constraints p = constraints q \<and> free_variables p = free_variables q
     \<and> domain_forced_variables p = domain_forced_variables q
     \<and> arbitrary_forced_variables p = arbitrary_forced_variables q
     \<and> free_variables_to_indices p = free_variables_to_indices q"

definition used_indices :: "csp_env \<Rightarrow> VariableId list \<Rightarrow> ConstraintId set \<Rightarrow> nat set" where
  "used_indices env fv C = (\<Union>c \<in> C. free_indices env fv c)"

lemma represents_insert_if:
  "represents xs {x \<in> C. P x} \<Longrightarrow> represents (if P c then set_insert c xs else xs) {x \<in> insert c C. P x}"
proof -
  assume "represents xs {x \<in> C. P x}"
  moreover have "{x \<in> insert c C. P x} = (if P c then insert c {x \<in> C. P x} else {x \<in> C. P x})" by auto
  ultimately show ?thesis by simp
qed

lemma deduce_step_spec:
  assumes fs: "represents free_set (set (free_variables p))"
    and to: "\<forall>i < length (free_variables p). free_variables_to_indices p (free_variables p ! i) = Some i"
    and plan: "plan_for env C p" and used: "represents used (used_indices env (free_variables p) C)"
  shows "case deduce_step env free_set c (p, used) of
      Inl e \<Rightarrow> e = AssertFail \<and> \<not> db_rule env (arbitrary_forced_variables p) c
    | Inr (p', used') \<Rightarrow> db_rule env (arbitrary_forced_variables p) c \<and> same_inputs p' p
        \<and> plan_for env (insert c C) p' \<and> represents used' (used_indices env (free_variables p) (insert c C))"
proof (cases "free_variables_of env free_set (arbitrary_forced_variables p) (free_variables_to_indices p) c")
  case (Inl e)
  with free_variables_of_spec[OF fs to, of env "arbitrary_forced_variables p" c]
  show ?thesis by (simp add: deduce_step_def)
next
  case (Inr r)
  let ?fv = "free_variables p"
  obtain vs "is" where r: "r = (vs, is)" by fastforce
  obtain aff used' where aff: "affect_constraint c is (affected_constraints p, used) = (aff, used')" by fastforce
  have i: "db_rule env (arbitrary_forced_variables p) c" "represents is (free_indices env ?fv c)"
      "vs = [] \<longleftrightarrow> free_indices env ?fv c = {}"
    using free_variables_of_spec[OF fs to, of env "arbitrary_forced_variables p" c] Inr r by auto
  then have "is": "distinct is" "set is = free_indices env ?fv c" "vs = [] \<longleftrightarrow> is = []"
    by (auto simp: represents_def sorted_set_distinct)
  have lens: "length (affected_constraints p) = length ?fv" "length (completed_constraints p) = length ?fv"
    using plan by (auto simp: plan_for_def Let_def)
  have a: "length aff = length ?fv" "represents used' (used_indices env ?fv (insert c C))"
      "\<forall>i < length ?fv. aff ! i = (if i \<in> free_indices env ?fv c then set_insert c (affected_constraints p ! i) else affected_constraints p ! i)"
    using affect_constraint_spec[of "is" "affected_constraints p" used "used_indices env ?fv C" c] "is" used aff lens
    by (auto simp: free_indices_def used_indices_def Un_commute)
  define compl where "compl = (if is = [] then completed_constraints p
      else complete_constraint c is [0..<length ?fv] [] (completed_constraints p))"
  define ff where "ff = (if free_indices env ?fv c = {} then set_insert c (fully_forced_constraint_set p)
      else fully_forced_constraint_set p)"
  let ?p = "p\<lparr>constraint_set := set_insert c (constraint_set p), affected_constraints := aff,
      free_var_indices_for_constraint := (free_var_indices_for_constraint p)(c \<mapsto> is),
      fully_forced_constraint_set := ff, completed_constraints := compl\<rparr>"
  have "length compl = length ?fv" by (simp add: compl_def lens)
  have sub: "free_indices env ?fv c \<subseteq> {..<length ?fv}" by (auto simp: free_indices_def)
  note compl_nth = complete_constraint_nth[OF "is"(2) sub lens(2)]
  have pl: "represents (constraint_set p) C"
      "represents (fully_forced_constraint_set p) {c \<in> C. free_indices env ?fv c = {}}"
      "\<And>i. i < length ?fv \<Longrightarrow> represents (affected_constraints p ! i) {c \<in> C. i \<in> free_indices env ?fv c}"
      "\<And>i. i < length ?fv \<Longrightarrow> represents (completed_constraints p ! i)
             {c \<in> C. i \<in> free_indices env ?fv c \<and> free_indices env ?fv c \<subseteq> {..i}}"
      "\<And>c. c \<in> C \<Longrightarrow> \<exists>is. free_var_indices_for_constraint p c = Some is \<and> represents is (free_indices env ?fv c)"
    using plan by (simp_all add: plan_for_def Let_def)
  have "represents ff {x \<in> insert c C. free_indices env ?fv x = {}}"
    unfolding ff_def using represents_insert_if[OF pl(2)] .
  moreover have "represents (aff ! i) {x \<in> insert c C. i \<in> free_indices env ?fv x}" if "i < length ?fv" for i
    using represents_insert_if[OF pl(3)[OF that], of c] a(3) that by simp
  moreover have "represents (compl ! i)
      {x \<in> insert c C. i \<in> free_indices env ?fv x \<and> free_indices env ?fv x \<subseteq> {..i}}" if "i < length ?fv" for i
    unfolding compl_def compl_nth[OF that] using represents_insert_if[OF pl(4)[OF that]] .
  moreover have "\<exists>is'. ((free_var_indices_for_constraint p)(c \<mapsto> is)) x = Some is' \<and> represents is' (free_indices env ?fv x)"
    if "x \<in> insert c C" for x
    using i(2) pl(5)[of x] that by auto
  ultimately have "plan_for env (insert c C) ?p"
    using pl(1) a(1) i(2) \<open>length compl = length ?fv\<close> by (simp add: plan_for_def Let_def)
  moreover have "deduce_step env free_set c (p, used) = Inr (?p, used')"
  proof -
    have "free_indices env ?fv c = {} \<longleftrightarrow> is = []" using "is"(2) by auto
    with Inr r aff "is"(3) show ?thesis
      by (cases p) (auto simp: deduce_step_def Let_def compl_def ff_def)
  qed
  ultimately show ?thesis using i(1) a(2) by (simp add: same_inputs_def)
qed

text \<open>A problem the plan accepts: the variables supplied are distinct and disjoint, each free one is
  used by a constraint, and no constraint needs database rows for an arbitrary forced variable.\<close>

definition valid_problem ::
    "csp_env \<Rightarrow> ConstraintId list \<Rightarrow> VariableId list \<Rightarrow> VariableId list \<Rightarrow> VariableId list \<Rightarrow> bool" where
  "valid_problem env cs fv domain_forced arbitrary_forced \<longleftrightarrow>
     distinct fv \<and> set domain_forced \<inter> set arbitrary_forced = {}
     \<and> set fv \<inter> (set domain_forced \<union> set arbitrary_forced) = {}
     \<and> (\<forall>c \<in> set cs. db_rule env arbitrary_forced c)
     \<and> used_indices env fv (set cs) = {..<length fv}"

lemma deduce_loop_spec:
  assumes "represents free_set (set (free_variables p))"
    "\<forall>i < length (free_variables p). free_variables_to_indices p (free_variables p ! i) = Some i"
    "plan_for env C p" "represents used (used_indices env (free_variables p) C)"
  shows "case foldE (deduce_step env free_set) cs (p, used) of
      Inl e \<Rightarrow> e = AssertFail \<and> \<not> (\<forall>c \<in> set cs. db_rule env (arbitrary_forced_variables p) c)
    | Inr (p', used') \<Rightarrow> (\<forall>c \<in> set cs. db_rule env (arbitrary_forced_variables p) c) \<and> same_inputs p' p
        \<and> plan_for env (C \<union> set cs) p' \<and> represents used' (used_indices env (free_variables p) (C \<union> set cs))"
  using assms
proof (induction cs arbitrary: p used C)
  case (Cons c cs)
  note step = deduce_step_spec[OF Cons.prems, of c]
  show ?case
  proof (cases "deduce_step env free_set c (p, used)")
    case (Inl e)
    with step show ?thesis by simp
  next
    case (Inr r)
    then obtain p' used' where r: "deduce_step env free_set c (p, used) = Inr (p', used')" by (cases r) auto
    with step have s: "db_rule env (arbitrary_forced_variables p) c" "same_inputs p' p"
        "plan_for env (insert c C) p'" "represents used' (used_indices env (free_variables p) (insert c C))" by auto
    then have e: "free_variables p' = free_variables p" "free_variables_to_indices p' = free_variables_to_indices p"
        "arbitrary_forced_variables p' = arbitrary_forced_variables p" by (auto simp: same_inputs_def)
    have "case foldE (deduce_step env free_set) cs (p', used') of
        Inl e \<Rightarrow> e = AssertFail \<and> \<not> (\<forall>c \<in> set cs. db_rule env (arbitrary_forced_variables p) c)
      | Inr (p'', used'') \<Rightarrow> (\<forall>c \<in> set cs. db_rule env (arbitrary_forced_variables p) c) \<and> same_inputs p'' p'
          \<and> plan_for env (insert c C \<union> set cs) p'' \<and> represents used'' (used_indices env (free_variables p) (insert c C \<union> set cs))"
      using Cons.IH[of p' "insert c C" used'] Cons.prems s unfolding e by simp
    with r s(1,2) show ?thesis by (auto simp: same_inputs_def split: sum.splits prod.splits)
  qed
qed (simp add: same_inputs_def)

lemma DeduceVariables_spec:
  assumes "sorted_set df" "sorted_set af" "length df < 2 ^ 63" "length af < 2 ^ 63"
  shows "case DeduceVariables env cs fv df af of
      Inl e \<Rightarrow> e = AssertFail \<and> \<not> valid_problem env cs fv df af
    | Inr p \<Rightarrow> valid_problem env cs fv df af \<and> plan_for env (set cs) p \<and> constraints p = cs
        \<and> free_variables p = fv \<and> domain_forced_variables p = df \<and> arbitrary_forced_variables p = af"
proof (cases "index_free_variables fv")
  case (Inl e)
  with index_free_variables_spec[of fv] show ?thesis by (simp add: DeduceVariables_def valid_problem_def)
next
  case (Inr r)
  then obtain s to where r: "index_free_variables fv = Inr (s, to)" by (cases r) auto
  then have i: "distinct fv" "represents s (set fv)" "\<forall>i < length fv. to (fv ! i) = Some i"
    using index_free_variables_spec[of fv] by auto
  define p0 where "p0 = \<lparr>constraints = cs, free_variables = fv, domain_forced_variables = df,
                 arbitrary_forced_variables = af, free_variables_to_indices = to,
                 constraint_set = [], fully_forced_constraint_set = [],
                 free_var_indices_for_constraint = Map.empty,
                 affected_constraints = replicate (length fv) [],
                 completed_constraints = replicate (length fv) []\<rparr>"
  have p0: "plan_for env {} p0" by (simp add: plan_for_def Let_def p0_def)
  have p0_fields: "free_variables p0 = fv" "arbitrary_forced_variables p0 = af" "free_variables_to_indices p0 = to"
    by (simp_all add: p0_def)
  have disj: "IntersectionOf (<) s (UnionOf (<) df af) = [] \<longleftrightarrow> set fv \<inter> (set df \<union> set af) = {}"
    using i(2) assms(1,2) by (metis IntersectionOf_lin(2) UnionOf_lin(1,2) represents_def set_empty)
  show ?thesis
  proof (cases "set df \<inter> set af = {} \<and> set fv \<inter> (set df \<union> set af) = {}")
    case False
    with r disj show ?thesis
      by (auto simp: DeduceVariables_def UnionOfSolo_eq[OF assms] valid_problem_def guardE_def)
  next
    case True
    then have d: "DeduceVariables env cs fv df af = bindE (foldE (deduce_step env s) cs (p0, []))
        (\<lambda>(p, used). guardE (list_all (\<lambda>i. i \<in> set used) [0..<length fv]) (Inr p))"
      using r disj by (simp add: DeduceVariables_def UnionOfSolo_eq[OF assms] p0_def)
    have sub: "used_indices env fv C \<subseteq> {..<length fv}" for C by (auto simp: used_indices_def free_indices_def)
    have full: "list_all (\<lambda>i. i \<in> set used) [0..<length fv] \<longleftrightarrow> used_indices env fv (set cs) = {..<length fv}"
      if "represents used (used_indices env fv (set cs))" for used
      using that sub[of "set cs"] by (auto simp: represents_def list_all_iff)
    have "case foldE (deduce_step env s) cs (p0, []) of
      Inl e \<Rightarrow> e = AssertFail \<and> \<not> (\<forall>c \<in> set cs. db_rule env af c)
    | Inr (p', used') \<Rightarrow> (\<forall>c \<in> set cs. db_rule env af c) \<and> same_inputs p' p0
        \<and> plan_for env (set cs) p' \<and> represents used' (used_indices env fv (set cs))"
      using deduce_loop_spec[of s p0 env "{}" "[]" cs, unfolded p0_fields Un_empty_left, OF i(2,3) p0]
      by (simp add: used_indices_def)
    with True i(1) full show ?thesis
      unfolding d by (auto simp: valid_problem_def same_inputs_def guardE_def p0_def split: sum.splits prod.splits)
  qed
qed

end
