(* ===== verification/ReferenceSolver.thy ===== *)
theory ReferenceSolver
  imports Csp
begin

text \<open>
  The backtracking solver (\<^verbatim>\<open>vn/csp/reference_solver.cpp\<close>). \<^verbatim>\<open>Solve\<close> is a loop over explicit
  state: the index of the current variable, the assignments, one value selector per variable
  that has been reached. The calls of the two report functions are recorded, in order, in the
  field \<open>reports\<close>; the rejection function is optional and \<open>rejections\<close> says whether there is one.

  The virtual methods \<^verbatim>\<open>AssignSuccessful\<close> and \<^verbatim>\<open>AssignUnsuccessful\<close> are arguments of the loop. The
  loop need not end for arbitrary methods, so it is a partial function whose value \<open>None\<close> means
  that it does not return; that it does return is proved.

  \<open>search\<close> is the recursive reading of backtracking search: the reports made while one variable
  goes through a queue of values. The main lemma says that the loop produces exactly these.
\<close>

section \<open>State\<close>

datatype report = Solution Assignments | Rejection Assignments

record solver =
  forced_assignments :: Assignments
  current_var_index :: nat
  assignments :: Assignments
  value_selectors :: "nat \<rightharpoonup> ValueSelector"
  success_count :: "nat \<rightharpoonup> nat"
  conflicted_count :: nat
  reports :: "report list"

definition new_solver :: solver where
  "new_solver = \<lparr>forced_assignments = [], current_var_index = 0, assignments = [],
     value_selectors = Map.empty, success_count = Map.empty, conflicted_count = 0, reports = []\<rparr>"

definition Start :: "plan \<Rightarrow> Assignments \<Rightarrow> solver \<Rightarrow> solver result" where
  "Start p forces st =
     guardE (list_all (\<lambda>v. v \<in> fst ` set forces) (domain_forced_variables p))
      (guardE (list_all (\<lambda>v. v \<in> fst ` set forces) (arbitrary_forced_variables p))
       (guardE (size_of forces = size_of (domain_forced_variables p) + size_of (arbitrary_forced_variables p))
         (Inr (st\<lparr>forced_assignments := forces, assignments := forces\<rparr>))))"

definition Stop :: "solver \<Rightarrow> solver" where
  "Stop st = st\<lparr>forced_assignments := [], assignments := [], value_selectors := Map.empty,
                success_count := Map.empty\<rparr>"

section \<open>Trying values\<close>

definition ConsistencyCheck :: "csp_env \<Rightarrow> Assignments \<Rightarrow> ConstraintSet \<Rightarrow> bool \<times> ConstraintSet" where
  "ConsistencyCheck env assigns to_test =
     fold (\<lambda>c (matched, unsatisfied).
         if \<not> IsSatisfied env c assigns then (False, set_insert c unsatisfied) else (matched, unsatisfied))
       to_test (True, [])"

text \<open>The loop of \<^verbatim>\<open>TryFindNextConsistentValue\<close>: \<^verbatim>\<open>GetNextValue\<close> takes a value off the queue, the null
  value at its end, and the loop leaves on null or on the first consistent value.\<close>

fun try_values ::
    "csp_env \<Rightarrow> plan \<Rightarrow> ConstraintSet \<Rightarrow> nat \<Rightarrow> ValueSelector \<Rightarrow> ConstraintSet \<Rightarrow> solver
     \<Rightarrow> ((Value \<times> ConstraintSet) \<times> solver) result" where
  "try_values env p to_test i [] all_unsatisfied st =
     Inr ((null_link, all_unsatisfied), st\<lparr>value_selectors := (value_selectors st)(i \<mapsto> [])\<rparr>)"
| "try_values env p to_test i (v # q) all_unsatisfied st =
     (let st1 = st\<lparr>value_selectors := (value_selectors st)(i \<mapsto> q)\<rparr> in
      if v = null_link then Inr ((null_link, all_unsatisfied), st1)
      else bindE (vec_at (free_variables p) i) (\<lambda>x.
        let assigns = map_put x v (assignments st1);
            (consistent, unsatisfied) = ConsistencyCheck env assigns to_test
        in guardE (consistent \<or> unsatisfied \<noteq> [])
            (let all' = UnionOf (<) all_unsatisfied unsatisfied
             in if consistent then Inr ((v, all'), st1\<lparr>assignments := assigns\<rparr>)
                else bindE (EraseSolo_map assigns x) (\<lambda>assigns'.
                       try_values env p to_test i q all' (st1\<lparr>assignments := assigns'\<rparr>)))))"

definition TryFindNextConsistentValue ::
    "csp_env \<Rightarrow> plan \<Rightarrow> nat \<Rightarrow> solver \<Rightarrow> ((Value \<times> ConstraintSet) \<times> solver) result" where
  "TryFindNextConsistentValue env p my_var_index st =
     bindE (vec_at (completed_constraints p) my_var_index) (\<lambda>constraints_to_test.
       case value_selectors st my_var_index of
         None \<Rightarrow> Inl OutOfRange
       | Some sel \<Rightarrow> try_values env p constraints_to_test my_var_index sel [] st)"

section \<open>Advancing and retreating\<close>

definition make_selector :: "csp_env \<Rightarrow> plan \<Rightarrow> solver \<Rightarrow> solver result" where
  "make_selector env p st =
     (let i = current_var_index st in
      bindE (vec_at (affected_constraints p) i) (\<lambda>cs.
      bindE (vec_at (free_variables p) i) (\<lambda>x.
      bindE (new_ValueSelector env cs (assignments st) x) (\<lambda>sel.
        Inr (st\<lparr>value_selectors := (value_selectors st)(i \<mapsto> sel),
                success_count := (success_count st)(i \<mapsto> 0)\<rparr>)))))"

definition AssignSuccessful :: "csp_env \<Rightarrow> plan \<Rightarrow> solver \<Rightarrow> solver result" where
  "AssignSuccessful env p st =
     (let i = current_var_index st in
      case success_count st i of
        None \<Rightarrow> Inl OutOfRange
      | Some n \<Rightarrow>
          (let st1 = st\<lparr>success_count := (success_count st)(i \<mapsto> n + 1), current_var_index := i + 1\<rparr>
           in if i + 1 < length (free_variables p) then make_selector env p st1
              else bindE (DifferenceOfSolo_map (<) (assignments st1) (forced_assignments st1))
                     (\<lambda>free_assignments.
                       Inr (st1\<lparr>reports := reports st1 @ [Solution free_assignments],
                                current_var_index := i\<rparr>))))"

definition AssignUnsuccessful :: "plan \<Rightarrow> solver \<Rightarrow> (bool \<times> solver) result" where
  "AssignUnsuccessful p st =
     (let i = current_var_index st in
      guardE (value_selectors st i \<noteq> None)
       (bindE (vec_at (free_variables p) i) (\<lambda>x.
         let st1 = st\<lparr>value_selectors := (value_selectors st)(i := None),
                      assignments := map_erase x (assignments st)\<rparr>
         in if i = 0 then Inr (True, st1) else Inr (False, st1\<lparr>current_var_index := i - 1\<rparr>))))"

definition GetAffectedVariableIndices :: "plan \<Rightarrow> ConstraintSet \<Rightarrow> nat list result" where
  "GetAffectedVariableIndices p cs =
     foldE (\<lambda>c all_var_indices. case free_var_indices_for_constraint p c of
         None \<Rightarrow> Inl OutOfRange
       | Some is \<Rightarrow> Inr (UnionOf (<) all_var_indices is)) cs []"

section \<open>The loop\<close>

definition report_rejection :: "bool \<Rightarrow> solver \<Rightarrow> solver" where
  "report_rejection rejections st =
     (if rejections then st\<lparr>reports := reports st @ [Rejection (assignments st)]\<rparr> else st)"

definition solve_iteration ::
    "csp_env \<Rightarrow> plan \<Rightarrow> bool \<Rightarrow> (solver \<Rightarrow> solver result) \<Rightarrow> (solver \<Rightarrow> (bool \<times> solver) result)
     \<Rightarrow> solver \<Rightarrow> (bool \<times> solver) result" where
  "solve_iteration env p rejections on_success on_failure st =
     bindE (TryFindNextConsistentValue env p (current_var_index st) st) (\<lambda>((value, unsatisfied), st1).
       if value = null_link
       then bindE (on_failure st1) (\<lambda>(cease, st2). Inr (cease, report_rejection rejections st2))
       else bindE (on_success st1) (\<lambda>st2. Inr (False, st2)))"

partial_function (option) solve_loop ::
    "(solver \<Rightarrow> (bool \<times> solver) result) \<Rightarrow> solver \<Rightarrow> solver result option" where
  "solve_loop iteration st =
     (case iteration st of
        Inl e \<Rightarrow> Some (Inl e)
      | Inr (cease, st') \<Rightarrow> if cease then Some (Inr st') else solve_loop iteration st')"

definition Solve ::
    "csp_env \<Rightarrow> plan \<Rightarrow> bool \<Rightarrow> (solver \<Rightarrow> solver result) \<Rightarrow> (solver \<Rightarrow> (bool \<times> solver) result)
     \<Rightarrow> solver \<Rightarrow> solver result option" where
  "Solve env p rejections on_success on_failure st =
     (case make_selector env p (st\<lparr>current_var_index := 0\<rparr>) of
        Inl e \<Rightarrow> Some (Inl e)
      | Inr st1 \<Rightarrow> solve_loop (solve_iteration env p rejections on_success on_failure) st1)"

definition Run ::
    "csp_env \<Rightarrow> plan \<Rightarrow> bool \<Rightarrow> (solver \<Rightarrow> solver result option) \<Rightarrow> solver \<Rightarrow> solver result option" where
  "Run env p rejections solve st =
     (if \<not> fst (ConsistencyCheck env (assignments st) (fully_forced_constraint_set p))
      then Some (Inr (if rejections then st\<lparr>reports := reports st @ [Rejection []]\<rparr> else st))
      else if free_variables p = [] then Some (Inr (st\<lparr>reports := reports st @ [Solution []]\<rparr>))
      else solve st)"

definition ReferenceSolver_Run :: "csp_env \<Rightarrow> plan \<Rightarrow> bool \<Rightarrow> solver \<Rightarrow> solver result option" where
  "ReferenceSolver_Run env p rejections =
     Run env p rejections (Solve env p rejections (AssignSuccessful env p) (AssignUnsuccessful p))"

section \<open>Backtracking search as a recursive function\<close>

definition candidates :: "csp_env \<Rightarrow> plan \<Rightarrow> nat \<Rightarrow> Assignments \<Rightarrow> Value list" where
  "candidates env p k a =
     (case new_ValueSelector env (affected_constraints p ! k) a (free_variables p ! k) of
        Inr q \<Rightarrow> q | Inl e \<Rightarrow> [])"

definition consistent_at :: "csp_env \<Rightarrow> plan \<Rightarrow> nat \<Rightarrow> Assignments \<Rightarrow> bool" where
  "consistent_at env p k a \<longleftrightarrow> (\<forall>c \<in> set (completed_constraints p ! k). IsSatisfied env c a)"

definition free_part :: "Assignments \<Rightarrow> Assignments \<Rightarrow> Assignments" where
  "free_part forced a = DifferenceOf_map (<) a forced"

function search :: "csp_env \<Rightarrow> plan \<Rightarrow> Assignments \<Rightarrow> nat \<Rightarrow> Assignments \<Rightarrow> Value list \<Rightarrow> report list" where
  "search env p forced k a [] = [Rejection a]"
| "search env p forced k a (v # q) =
     (if v = null_link then [Rejection a]
      else let a' = map_put (free_variables p ! k) v a in
        (if consistent_at env p k a'
         then (if Suc k < length (free_variables p)
               then search env p forced (Suc k) a' (candidates env p (Suc k) a')
               else [Solution (free_part forced a')])
         else [])
        @ search env p forced k a q)"
  by pat_completeness auto

termination search
  by (relation "measures [\<lambda>(env, p, forced, k, a, q). length (free_variables p) - k, \<lambda>(env, p, forced, k, a, q). length q]")
    auto

section \<open>The loop does what the recursion does\<close>

lemma ConsistencyCheck_fst: "fst (ConsistencyCheck env a cs) \<longleftrightarrow> (\<forall>c \<in> set cs. IsSatisfied env c a)"
  and ConsistencyCheck_snd: "\<not> fst (ConsistencyCheck env a cs) \<Longrightarrow> snd (ConsistencyCheck env a cs) \<noteq> []"
proof -
  have ne: "set_insert c u \<noteq> []" for c and u :: "nat list" by (cases u) auto
  have "(fst (fold (\<lambda>c (m, u). if \<not> IsSatisfied env c a then (False, set_insert c u) else (m, u)) cs (m, u))
        \<longleftrightarrow> m \<and> (\<forall>c \<in> set cs. IsSatisfied env c a))
      \<and> (snd (fold (\<lambda>c (m, u). if \<not> IsSatisfied env c a then (False, set_insert c u) else (m, u)) cs (m, u)) = []
        \<longleftrightarrow> u = [] \<and> (\<forall>c \<in> set cs. IsSatisfied env c a))" for m u
    by (induction cs arbitrary: m u) (auto simp: ne)
  from this[of True "[]"] show "fst (ConsistencyCheck env a cs) \<longleftrightarrow> (\<forall>c \<in> set cs. IsSatisfied env c a)"
    and "\<not> fst (ConsistencyCheck env a cs) \<Longrightarrow> snd (ConsistencyCheck env a cs) \<noteq> []"
    by (auto simp: ConsistencyCheck_def)
qed

text \<open>What the solver relies on: suggestions are there and well formed, and the plan and the forces
  fit together.\<close>

definition suggestions_ok :: "csp_env \<Rightarrow> bool" where
  "suggestions_ok env \<longleftrightarrow> (\<forall>c a x. \<exists>r. GetSuggestedValues env c a x = Some r \<and> subset_ok r)"

definition ready :: "csp_env \<Rightarrow> plan \<Rightarrow> Assignments \<Rightarrow> bool" where
  "ready env p forced \<longleftrightarrow>
     suggestions_ok env \<and> distinct (free_variables p)
     \<and> length (affected_constraints p) = length (free_variables p)
     \<and> length (completed_constraints p) = length (free_variables p)
     \<and> sorted_map forced \<and> fst ` set forced \<inter> set (free_variables p) = {}
     \<and> length forced + length (free_variables p) < 2 ^ 63"

lemma new_ValueSelector_spec:
  assumes "suggestions_ok env"
  obtains q rs where "new_ValueSelector env cs a x = Inr q"
    "map (\<lambda>c. GetSuggestedValues env c a x) cs = map Some rs"
    "(\<forall>r \<in> set rs. complement_flag r) \<longrightarrow> q = unordered_domain env"
    "\<not> (\<forall>r \<in> set rs. complement_flag r) \<longrightarrow> sorted_set q \<and> set q = (\<Inter>r \<in> set rs. denotes r)"
proof -
  have "\<forall>c. \<exists>r. GetSuggestedValues env c a x = Some r \<and> subset_ok r"
    using assms by (simp add: suggestions_ok_def)
  from choice[OF this] obtain g where g: "\<And>c. GetSuggestedValues env c a x = Some (g c)" "\<And>c. subset_ok (g c)"
    by blast
  have m: "mapE (query_suggestion env a x) cs = Inr (map g cs)"
    using g by (intro mapE_Inr) (simp add: query_suggestion_def)
  have "\<forall>r \<in> set (map g cs). subset_ok r" using g by auto
  from GetIntersection_spec[OF this] obtain r where r: "GetIntersection (map g cs) = Inr r" "subset_ok r"
    "denotes r = (\<Inter>q \<in> set (map g cs). denotes q)" "complement_flag r \<longleftrightarrow> (\<forall>q \<in> set (map g cs). complement_flag q)" .
  let ?q = "if complement_flag r then unordered_domain env else xlinks r"
  have "new_ValueSelector env cs a x = Inr ?q"
    using m r(1) by (simp add: new_ValueSelector_def SetupSuggestionGenerator_def SetupDefaultGenerator_def)
  moreover have "map (\<lambda>c. GetSuggestedValues env c a x) cs = map Some (map g cs)"
    unfolding map_map comp_def using g(1) by (intro map_cong) auto
  moreover have "sorted_set ?q \<and> set ?q = (\<Inter>r \<in> set (map g cs). denotes r)"
    if "\<not> (\<forall>r \<in> set (map g cs). complement_flag r)"
  proof -
    have "\<not> complement_flag r" using that r(4) by blast
    moreover from this have "denotes r = set (xlinks r)" by (simp add: denotes_def)
    ultimately show ?thesis using r(2,3) by (simp add: subset_ok_def)
  qed
  ultimately show ?thesis
    using r(4) by (intro that[of ?q "map g cs"]) auto
qed

lemma new_ValueSelector_candidates:
  "suggestions_ok env \<Longrightarrow> new_ValueSelector env (affected_constraints p ! k) a (free_variables p ! k)
     = Inr (candidates env p k a)"
  by (rule new_ValueSelector_spec[of env "affected_constraints p ! k" a "free_variables p ! k"])
    (auto simp: candidates_def)

text \<open>The state of the solver while variable \<open>k\<close> is current, \<open>a\<close> assigns the variables before it and
  \<open>q\<close> is what its selector has left.\<close>

definition at_level :: "plan \<Rightarrow> Assignments \<Rightarrow> nat \<Rightarrow> Assignments \<Rightarrow> Value list \<Rightarrow> solver \<Rightarrow> bool" where
  "at_level p forced k a q st \<longleftrightarrow>
     current_var_index st = k \<and> k < length (free_variables p) \<and> forced_assignments st = forced
     \<and> value_selectors st k = Some q \<and> success_count st k \<noteq> None
     \<and> sorted_map a \<and> sorted_map (assignments st)
     \<and> dom (map_of a) = dom (map_of forced) \<union> set (take k (free_variables p))
     \<and> map_of a (free_variables p ! k) = None
     \<and> map_erase (free_variables p ! k) (assignments st) = a"

lemma at_level_put:
  assumes "at_level p forced k a q st"
  shows "map_put (free_variables p ! k) v (assignments st) = map_put (free_variables p ! k) v a"
proof (rule sorted_map_eqI)
  have "(map_of a)(x := None, x \<mapsto> v) = (map_of a)(x \<mapsto> v)" for x by simp
  moreover have "map_of a = (map_of (assignments st))(free_variables p ! k := None)"
    using assms by (auto simp: at_level_def map_of_map_erase[symmetric])
  ultimately show "map_of (map_put (free_variables p ! k) v (assignments st))
      = map_of (map_put (free_variables p ! k) v a)"
    using assms by (simp add: at_level_def)
qed (use assms in \<open>simp_all add: at_level_def\<close>)

lemma try_values_unsat:
  "bindE (try_values env p to_test i q u st) (\<lambda>((v, _), s). f v s)
     = bindE (try_values env p to_test i q u' st) (\<lambda>((v, _), s). f v s)"
proof (induction q arbitrary: u u' st)
  case (Cons v q)
  show ?case
  proof (cases "v = null_link \<or> \<not> i < length (free_variables p)")
    case True
    then show ?thesis by (auto simp: Let_def vec_at_def)
  next
    case False
    let ?x = "free_variables p ! i"
    obtain m u2 where cc: "ConsistencyCheck env (map_put ?x v (assignments st)) to_test = (m, u2)" by fastforce
    show ?thesis
    proof (cases "m \<or> u2 = []")
      case True
      with False cc show ?thesis by (auto simp: Let_def guardE_def)
    next
      case m: False
      show ?thesis
      proof (cases "EraseSolo_map (map_put ?x v (assignments st)) ?x")
        case (Inl e)
        with False cc m show ?thesis by (simp add: Let_def)
      next
        case (Inr b)
        with False cc m Cons.IH show ?thesis by (simp add: Let_def)
      qed
    qed
  qed
qed simp

lemma TryFind_end:
  assumes "ready env p forced" "at_level p forced k a q st" "q = [] \<or> hd q = null_link"
  shows "TryFindNextConsistentValue env p k st
    = Inr ((null_link, []), st\<lparr>value_selectors := (value_selectors st)(k \<mapsto> tl q)\<rparr>)"
  using assms by (cases q) (auto simp: TryFindNextConsistentValue_def at_level_def ready_def Let_def)

lemma TryFind_skip:
  assumes "ready env p forced" "at_level p forced k a (v # q) st" "v \<noteq> null_link"
    "\<not> consistent_at env p k (map_put (free_variables p ! k) v a)"
  shows "bindE (TryFindNextConsistentValue env p k st) (\<lambda>((v, _), s). f v s)
    = bindE (TryFindNextConsistentValue env p k
        (st\<lparr>value_selectors := (value_selectors st)(k \<mapsto> q), assignments := a\<rparr>)) (\<lambda>((v, _), s). f v s)"
proof -
  let ?x = "free_variables p ! k" and ?to = "completed_constraints p ! k"
  let ?cc = "ConsistencyCheck env (map_put ?x v a) ?to"
  have cc: "\<not> fst ?cc" "snd ?cc \<noteq> []"
    using assms(4) ConsistencyCheck_snd[of env "map_put ?x v a" ?to]
    by (auto simp: consistent_at_def ConsistencyCheck_fst)
  have "EraseSolo_map (map_put ?x v a) ?x = Inr a"
    using assms(2) by (simp add: at_level_def EraseSolo_map_eq map_erase_put)
  then have "try_values env p ?to k (v # q) [] st = try_values env p ?to k q (UnionOf (<) [] (snd ?cc))
      (st\<lparr>value_selectors := (value_selectors st)(k \<mapsto> q), assignments := a\<rparr>)"
    using assms cc at_level_put[OF assms(2)]
    by (auto simp: Let_def at_level_def split: prod.split)
  then show ?thesis
    using assms(1,2) try_values_unsat
    by (simp add: TryFindNextConsistentValue_def at_level_def ready_def)
qed

lemma TryFind_hit:
  assumes "ready env p forced" "at_level p forced k a (v # q) st" "v \<noteq> null_link"
    "consistent_at env p k (map_put (free_variables p ! k) v a)"
  obtains u where "TryFindNextConsistentValue env p k st = Inr ((v, u),
    st\<lparr>value_selectors := (value_selectors st)(k \<mapsto> q), assignments := map_put (free_variables p ! k) v a\<rparr>)"
proof -
  let ?x = "free_variables p ! k" and ?to = "completed_constraints p ! k"
  have "fst (ConsistencyCheck env (map_put ?x v a) ?to)"
    using assms(4) by (auto simp: consistent_at_def ConsistencyCheck_fst)
  then obtain u where u: "ConsistencyCheck env (map_put ?x v a) ?to = (True, u)"
    by (cases "ConsistencyCheck env (map_put ?x v a) ?to") simp
  have st: "k < length (free_variables p)" "k < length (completed_constraints p)" "value_selectors st k = Some (v # q)"
    using assms(1,2) by (simp_all add: at_level_def ready_def)
  have "TryFindNextConsistentValue env p k st = Inr ((v, UnionOf (<) [] u),
      st\<lparr>value_selectors := (value_selectors st)(k \<mapsto> q), assignments := map_put ?x v a\<rparr>)"
    using st assms(3) u by (simp add: TryFindNextConsistentValue_def Let_def at_level_put[OF assms(2)])
  then show ?thesis by (rule that)
qed

lemma at_level_hit:
  assumes "ready env p forced" "at_level p forced k a (v # q) st"
  shows "at_level p forced k a q (st\<lparr>value_selectors := (value_selectors st)(k \<mapsto> q),
      assignments := map_put (free_variables p ! k) v a\<rparr>)"
  using assms by (simp add: at_level_def map_erase_put)

lemma at_level_skip:
  assumes "at_level p forced k a (v # q) st"
  shows "at_level p forced k a q (st\<lparr>value_selectors := (value_selectors st)(k \<mapsto> q), assignments := a\<rparr>)"
proof -
  have "map_erase (free_variables p ! k) a = a"
    using assms by (intro sorted_map_eqI) (auto simp: at_level_def fun_upd_idem)
  with assms show ?thesis by (simp add: at_level_def)
qed

lemma at_level_dom_put:
  assumes "at_level p forced k a q st"
  shows "dom (map_of (map_put (free_variables p ! k) v a))
    = dom (map_of forced) \<union> set (take (Suc k) (free_variables p))"
proof -
  have "sorted_map a" "dom (map_of a) = dom (map_of forced) \<union> set (take k (free_variables p))"
    using assms by (simp_all add: at_level_def)
  moreover have "set (take (Suc k) (free_variables p)) = insert (free_variables p ! k) (set (take k (free_variables p)))"
    using assms by (simp add: at_level_def take_Suc_conv_app_nth)
  ultimately show ?thesis by auto
qed

text \<open>What \<^verbatim>\<open>AssignSuccessful\<close> leaves alone at the levels up to \<open>k\<close>.\<close>

definition kept_below :: "nat \<Rightarrow> solver \<Rightarrow> solver \<Rightarrow> bool" where
  "kept_below k st st' \<longleftrightarrow>
     (\<forall>j \<le> k. value_selectors st' j = value_selectors st j) \<and> (\<forall>j < k. success_count st' j = success_count st j)
     \<and> success_count st' k \<noteq> None \<and> success_count st' k \<noteq> Some 0
     \<and> conflicted_count st' = conflicted_count st \<and> assignments st' = assignments st
     \<and> forced_assignments st' = forced_assignments st"

lemma AssignSuccessful_advance:
  assumes ready: "ready env p forced" and lev: "at_level p forced k a q st"
    and asg: "assignments st = map_put (free_variables p ! k) v a" and more: "Suc k < length (free_variables p)"
  shows "\<exists>st'. AssignSuccessful env p st = Inr st'
    \<and> at_level p forced (Suc k) (assignments st) (candidates env p (Suc k) (assignments st)) st'
    \<and> kept_below k st st' \<and> success_count st' (Suc k) = Some 0 \<and> reports st' = reports st"
proof -
  let ?fv = "free_variables p" and ?a = "map_put (free_variables p ! k) v a"
  obtain n where n: "success_count st k = Some n" using lev by (auto simp: at_level_def)
  let ?st' = "st\<lparr>success_count := (success_count st)(k \<mapsto> n + 1, Suc k \<mapsto> 0), current_var_index := k + 1,
      value_selectors := (value_selectors st)(Suc k \<mapsto> candidates env p (Suc k) ?a)\<rparr>"
  have sa: "sorted_map a" using lev by (simp add: at_level_def)
  note dom = at_level_dom_put[OF lev, of v]
  moreover have "map_of ?a (?fv ! Suc k) = None"
  proof -
    have "?fv ! Suc k \<notin> set (take (Suc k) ?fv)"
      using ready more by (auto simp: ready_def in_set_conv_nth nth_eq_iff_index_eq)
    moreover have "?fv ! Suc k \<notin> dom (map_of forced)"
      using ready more by (auto simp: ready_def dom_map_of_conv_image_fst dest: nth_mem)
    ultimately show ?thesis
      using dom by blast
  qed
  moreover from this have "map_erase (?fv ! Suc k) ?a = ?a"
    using sa by (intro sorted_map_eqI) (auto simp: fun_upd_idem)
  ultimately have "at_level p forced (Suc k) ?a (candidates env p (Suc k) ?a) ?st'"
    using lev more sa asg by (simp add: at_level_def)
  moreover have "AssignSuccessful env p st = Inr ?st'"
  proof -
    have sel: "new_ValueSelector env (affected_constraints p ! Suc k) ?a (?fv ! Suc k) = Inr (candidates env p (Suc k) ?a)"
      using ready by (intro new_ValueSelector_candidates) (simp add: ready_def)
    have "current_var_index st = k" "Suc k < length (affected_constraints p)"
      using lev ready more by (simp_all add: at_level_def ready_def)
    with n more asg sel show ?thesis
      by (simp add: AssignSuccessful_def make_selector_def Let_def)
  qed
  ultimately show ?thesis
    using n asg by (intro exI[of _ ?st']) (simp add: kept_below_def)
qed

lemma DifferenceOfSolo_forced:
  assumes "ready env p forced" "at_level p forced k a q st" "Suc k = length (free_variables p)"
  shows "DifferenceOfSolo_map (<) (map_put (free_variables p ! k) v a) forced
    = Inr (free_part forced (map_put (free_variables p ! k) v a))"
proof -
  let ?a = "map_put (free_variables p ! k) v a"
  have s: "sorted_map ?a" "sorted_map forced" using assms(1,2) by (simp_all add: ready_def at_level_def)
  note dom = at_level_dom_put[OF assms(2), of v]
  then have "length ?a = card (dom (map_of forced) \<union> set (free_variables p))"
    using length_sorted_map[OF s(1)] assms(3) by simp
  also have "\<dots> \<le> length forced + length (free_variables p)"
    using card_Un_le[of "dom (map_of forced)" "set (free_variables p)"] length_sorted_map[OF s(2)]
      card_length[of "free_variables p"] by linarith
  finally have len: "length ?a < 2 ^ 63" "length forced < 2 ^ 63" using assms(1) by (simp_all add: ready_def)
  show ?thesis
    using DifferenceOfSolo_map_eq[OF s len] dom by (simp add: free_part_def)
qed

lemma AssignSuccessful_report:
  assumes "ready env p forced" "at_level p forced k a q st"
    "assignments st = map_put (free_variables p ! k) v a" "Suc k = length (free_variables p)"
  shows "\<exists>st'. AssignSuccessful env p st = Inr st' \<and> at_level p forced k a q st' \<and> kept_below k st st'
    \<and> reports st' = reports st @ [Solution (free_part forced (assignments st))]"
proof -
  obtain n where n: "success_count st k = Some n" using assms(2) by (auto simp: at_level_def)
  let ?st' = "st\<lparr>success_count := (success_count st)(k \<mapsto> n + 1),
      reports := reports st @ [Solution (free_part forced (assignments st))], current_var_index := k\<rparr>"
  have "AssignSuccessful env p st = Inr ?st'"
    using assms n DifferenceOfSolo_forced[OF assms(1,2,4), of v]
    by (simp add: AssignSuccessful_def at_level_def Let_def)
  moreover have "at_level p forced k a q ?st'" using assms(2) by (simp add: at_level_def)
  ultimately show ?thesis by (intro exI[of _ ?st']) (simp add: kept_below_def)
qed

lemma AssignUnsuccessful_eq:
  assumes "at_level p forced k a q st"
  shows "AssignUnsuccessful p st = Inr (k = 0, st\<lparr>value_selectors := (value_selectors st)(k := None),
     assignments := a, current_var_index := k - 1\<rparr>)"
  using assms by (cases "k = 0") (auto simp: AssignUnsuccessful_def at_level_def Let_def)

text \<open>The reports that a solver with or without a rejection function makes.\<close>

fun is_solution :: "report \<Rightarrow> bool" where
  "is_solution (Solution s) = True"
| "is_solution (Rejection a) = False"

definition visible :: "bool \<Rightarrow> report list \<Rightarrow> report list" where
  "visible rejections rs = (if rejections then rs else filter is_solution rs)"

lemma visible_simps [simp]:
  "visible rej [] = []"
  "visible rej (rs @ rs') = visible rej rs @ visible rej rs'"
  "visible rej (Solution s # rs) = Solution s # visible rej rs"
  "visible rej (Rejection a # rs) = (if rej then [Rejection a] else []) @ visible rej rs"
  by (simp_all add: visible_def)

text \<open>The state after variable \<open>k\<close> has run out of values.\<close>

definition left_level :: "plan \<Rightarrow> nat \<Rightarrow> Assignments \<Rightarrow> solver \<Rightarrow> solver \<Rightarrow> bool" where
  "left_level p k a st st' \<longleftrightarrow>
     forced_assignments st' = forced_assignments st \<and> assignments st' = a \<and> current_var_index st' = k - 1
     \<and> (\<forall>j < k. value_selectors st' j = value_selectors st j \<and> success_count st' j = success_count st j)"

abbreviation reference_iteration :: "csp_env \<Rightarrow> plan \<Rightarrow> bool \<Rightarrow> solver \<Rightarrow> (bool \<times> solver) result" where
  "reference_iteration env p rej \<equiv> solve_iteration env p rej (AssignSuccessful env p) (AssignUnsuccessful p)"

lemma solve_loop_step:
  "iteration st = Inr (cease, st') \<Longrightarrow>
     solve_loop iteration st = (if cease then Some (Inr st') else solve_loop iteration st')"
  by (subst solve_loop.simps) simp

lemma solve_loop_cong: "iteration st = iteration st' \<Longrightarrow> solve_loop iteration st = solve_loop iteration st'"
  by (subst (1 2) solve_loop.simps) simp

lemma solve_iteration_skip:
  assumes "ready env p forced" "at_level p forced k a (v # q) st" "v \<noteq> null_link"
    "\<not> consistent_at env p k (map_put (free_variables p ! k) v a)"
  shows "solve_iteration env p rej ons onf st = solve_iteration env p rej ons onf
    (st\<lparr>value_selectors := (value_selectors st)(k \<mapsto> q), assignments := a\<rparr>)"
  using TryFind_skip[OF assms, of "\<lambda>value st1. if value = null_link
       then bindE (onf st1) (\<lambda>(cease, st2). Inr (cease, report_rejection rej st2))
       else bindE (ons st1) (\<lambda>st2. Inr (False, st2))"] assms(2)
  by (simp add: solve_iteration_def at_level_def)

lemma reference_end:
  assumes "ready env p forced" "at_level p forced k a q st" "q = [] \<or> hd q = null_link"
  obtains st' where "reference_iteration env p rej st = Inr (k = 0, st')" "left_level p k a st st'"
    "reports st' = reports st @ visible rej [Rejection a]"
proof -
  let ?st = "st\<lparr>value_selectors := (value_selectors st)(k \<mapsto> tl q)\<rparr>"
  have "at_level p forced k a (tl q) ?st" using assms(2) by (simp add: at_level_def)
  note e = AssignUnsuccessful_eq[OF this] TryFind_end[OF assms]
  have "current_var_index st = k" using assms(2) by (simp add: at_level_def)
  then show ?thesis
    using e by (intro that[of "report_rejection rej (?st\<lparr>value_selectors := (value_selectors ?st)(k := None),
        assignments := a, current_var_index := k - 1\<rparr>)"])
      (simp_all add: solve_iteration_def left_level_def report_rejection_def)
qed

lemma solve_loop_search:
  assumes "ready env p forced" "at_level p forced k a q st"
  shows "\<exists>st'. left_level p k a st st' \<and> reports st' = reports st @ visible rej (search env p forced k a q)
    \<and> solve_loop (reference_iteration env p rej) st
      = (if k = 0 then Some (Inr st') else solve_loop (reference_iteration env p rej) st')"
  using assms
proof (induction env p forced k a q arbitrary: st rule: search.induct)
  case (1 env p forced k a)
  obtain st' where "reference_iteration env p rej st = Inr (k = 0, st')" "left_level p k a st st'"
    "reports st' = reports st @ visible rej [Rejection a]" by (rule reference_end[OF 1]) simp
  then show ?case using solve_loop_step[of "reference_iteration env p rej"] by auto
next
  case (2 env p forced k a v q)
  let ?it = "reference_iteration env p rej" and ?x = "free_variables p ! k"
  let ?a = "map_put ?x v a"
  let ?st1 = "st\<lparr>value_selectors := (value_selectors st)(k \<mapsto> q), assignments := ?a\<rparr>"
  consider "v = null_link" | "v \<noteq> null_link" "\<not> consistent_at env p k ?a"
    | "v \<noteq> null_link" "consistent_at env p k ?a" "Suc k < length (free_variables p)"
    | "v \<noteq> null_link" "consistent_at env p k ?a" "\<not> Suc k < length (free_variables p)" by blast
  then show ?case
  proof cases
    case 1
    obtain st' where "?it st = Inr (k = 0, st')" "left_level p k a st st'"
      "reports st' = reports st @ visible rej [Rejection a]" by (rule reference_end[OF 2(3,4)]) (simp add: 1)
    with 1 show ?thesis using solve_loop_step[of ?it] by auto
  next
    case b: 2
    let ?st = "st\<lparr>value_selectors := (value_selectors st)(k \<mapsto> q), assignments := a\<rparr>"
    have "solve_loop ?it st = solve_loop ?it ?st"
      by (rule solve_loop_cong[OF solve_iteration_skip[OF 2(3,4) b]])
    moreover obtain st' where "left_level p k a ?st st'" "reports st' = reports ?st @ visible rej (search env p forced k a q)"
      "solve_loop ?it ?st = (if k = 0 then Some (Inr st') else solve_loop ?it st')"
      using 2(2)[OF b(1) refl 2(3) at_level_skip[OF 2(4)]] by blast
    ultimately show ?thesis using b by (intro exI[of _ st']) (simp add: left_level_def Let_def)
  next
    case c: 3
    obtain u where tf: "TryFindNextConsistentValue env p k st = Inr ((v, u), ?st1)"
      using TryFind_hit[OF 2(3,4) c(1,2)] by auto
    note lev = at_level_hit[OF 2(3,4)]
    have asg: "assignments ?st1 = ?a" by simp
    from AssignSuccessful_advance[OF 2(3) lev asg c(3)] obtain st2 where st2: "AssignSuccessful env p ?st1 = Inr st2"
        "at_level p forced (Suc k) ?a (candidates env p (Suc k) ?a) st2" "kept_below k ?st1 st2" "reports st2 = reports st"
      unfolding asg by auto
    have "?it st = Inr (False, st2)"
      using tf st2(1) c(1) 2(4) by (simp add: solve_iteration_def at_level_def)
    from solve_loop_step[of ?it, OF this] have l1: "solve_loop ?it st = solve_loop ?it st2" by simp
    from 2(1)[OF c(1) refl c(2,3) 2(3) st2(2)] obtain st3 where st3: "left_level p (Suc k) ?a st2 st3"
      "reports st3 = reports st2 @ visible rej (search env p forced (Suc k) ?a (candidates env p (Suc k) ?a))"
      "solve_loop ?it st2 = solve_loop ?it st3" by auto
    have "at_level p forced k a q st3"
      using lev st3(1) st2 by (simp add: at_level_def left_level_def kept_below_def)
    from 2(2)[OF c(1) refl 2(3) this] obtain st' where "left_level p k a st3 st'"
      "reports st' = reports st3 @ visible rej (search env p forced k a q)"
      "solve_loop ?it st3 = (if k = 0 then Some (Inr st') else solve_loop ?it st')" by blast
    with l1 st3 st2 c show ?thesis by (intro exI[of _ st']) (simp add: left_level_def kept_below_def Let_def)
  next
    case d: 4
    obtain u where tf: "TryFindNextConsistentValue env p k st = Inr ((v, u), ?st1)"
      using TryFind_hit[OF 2(3,4) d(1,2)] by auto
    note lev = at_level_hit[OF 2(3,4)]
    have last: "Suc k = length (free_variables p)" using d(3) lev by (simp add: at_level_def)
    have asg: "assignments ?st1 = ?a" by simp
    from AssignSuccessful_report[OF 2(3) lev asg last] obtain st2 where st2: "AssignSuccessful env p ?st1 = Inr st2"
        "at_level p forced k a q st2" "kept_below k ?st1 st2" "reports st2 = reports st @ [Solution (free_part forced ?a)]"
      unfolding asg by auto
    have "?it st = Inr (False, st2)"
      using tf st2(1) d(1) 2(4) by (simp add: solve_iteration_def at_level_def)
    from solve_loop_step[of ?it, OF this] have l1: "solve_loop ?it st = solve_loop ?it st2" by simp
    from 2(2)[OF d(1) refl 2(3) st2(2)] obtain st' where "left_level p k a st2 st'"
      "reports st' = reports st2 @ visible rej (search env p forced k a q)"
      "solve_loop ?it st2 = (if k = 0 then Some (Inr st') else solve_loop ?it st')" by blast
    with l1 st2 d show ?thesis by (intro exI[of _ st']) (simp add: left_level_def kept_below_def Let_def)
  qed
qed

section \<open>What the search finds\<close>

fun solutions :: "report list \<Rightarrow> Assignments list" where
  "solutions [] = []"
| "solutions (Solution s # rs) = s # solutions rs"
| "solutions (Rejection a # rs) = solutions rs"

lemma solutions_append [simp]: "solutions (rs @ rs') = solutions rs @ solutions rs'"
  by (induction rs rule: solutions.induct) auto

lemma solutions_visible [simp]: "solutions (visible rej rs) = solutions rs"
  by (induction rs rule: solutions.induct) auto

text \<open>The contract of a constraint (\<^verbatim>\<open>constraint.hpp\<close>): variables it does not use are ignored; a
  suggestion contains every value that satisfies it; values are not null.\<close>

definition constraints_local :: "csp_env \<Rightarrow> bool" where
  "constraints_local env \<longleftrightarrow>
     (\<forall>c a b. sorted_map a \<longrightarrow> sorted_map b \<longrightarrow> (\<forall>x \<in> set (GetVariables env c). map_of a x = map_of b x)
        \<longrightarrow> IsSatisfied env c a = IsSatisfied env c b)"

definition suggestions_sound :: "csp_env \<Rightarrow> bool" where
  "suggestions_sound env \<longleftrightarrow>
     (\<forall>c a f x v r. sorted_map a \<longrightarrow> sorted_map f \<longrightarrow> map_of a \<subseteq>\<^sub>m map_of f \<longrightarrow> x \<in> set (GetVariables env c)
        \<longrightarrow> map_of f x = Some v \<longrightarrow> IsSatisfied env c f \<longrightarrow> GetSuggestedValues env c a x = Some r
        \<longrightarrow> v \<in> denotes r)"

definition values_ok :: "csp_env \<Rightarrow> bool" where
  "values_ok env \<longleftrightarrow>
     null_link \<notin> set (unordered_domain env) \<and> distinct (unordered_domain env)
     \<and> (\<forall>c a x r. GetSuggestedValues env c a x = Some r \<longrightarrow> \<not> complement_flag r \<longrightarrow> null_link \<notin> set (xlinks r))"

definition contract :: "csp_env \<Rightarrow> bool" where
  "contract env \<longleftrightarrow> suggestions_ok env \<and> constraints_local env \<and> suggestions_sound env \<and> values_ok env"

lemma candidates_props:
  assumes "contract env"
  shows "distinct (candidates env p k a) \<and> null_link \<notin> set (candidates env p k a)"
proof -
  let ?cs = "affected_constraints p ! k" and ?x = "free_variables p ! k"
  have so: "suggestions_ok env" and vo: "values_ok env" using assms by (simp_all add: contract_def)
  obtain q rs where q: "new_ValueSelector env ?cs a ?x = Inr q"
    "map (\<lambda>c. GetSuggestedValues env c a ?x) ?cs = map Some rs"
    "(\<forall>r \<in> set rs. complement_flag r) \<longrightarrow> q = unordered_domain env"
    "\<not> (\<forall>r \<in> set rs. complement_flag r) \<longrightarrow> sorted_set q \<and> set q = (\<Inter>r \<in> set rs. denotes r)"
    using new_ValueSelector_spec[OF so, of ?cs a ?x] .
  have "candidates env p k a = q" using q(1) by (simp add: candidates_def)
  moreover have "distinct q \<and> null_link \<notin> set q"
  proof (cases "\<forall>r \<in> set rs. complement_flag r")
    case True
    with q(3) vo show ?thesis by (metis values_ok_def)
  next
    case False
    then obtain r where r: "r \<in> set rs" "\<not> complement_flag r" by blast
    have "Some r \<in> set (map (\<lambda>c. GetSuggestedValues env c a ?x) ?cs)" using r(1) q(2) by simp
    then obtain c where "GetSuggestedValues env c a ?x = Some r" by (metis (no_types, lifting) ex_map_conv)
    then have "null_link \<notin> denotes r" using r(2) vo by (auto simp: values_ok_def denotes_def)
    with q(4) False r(1) show ?thesis by (auto simp: sorted_set_distinct)
  qed
  ultimately show ?thesis by simp
qed

text \<open>A value of a satisfying assignment is among the candidates.\<close>

lemma candidates_complete:
  assumes "contract env" "plan_for env C p" "k < length (free_variables p)"
    "sorted_map a" "sorted_map f" "map_of a \<subseteq>\<^sub>m map_of f" "\<forall>c \<in> C. IsSatisfied env c f"
    "map_of f (free_variables p ! k) = Some v" "v \<in> set (unordered_domain env)"
  shows "v \<in> set (candidates env p k a)"
proof -
  let ?cs = "affected_constraints p ! k" and ?x = "free_variables p ! k"
  have so: "suggestions_ok env" and ss: "suggestions_sound env" using assms(1) by (simp_all add: contract_def)
  obtain q rs where q: "new_ValueSelector env ?cs a ?x = Inr q"
    "map (\<lambda>c. GetSuggestedValues env c a ?x) ?cs = map Some rs"
    "(\<forall>r \<in> set rs. complement_flag r) \<longrightarrow> q = unordered_domain env"
    "\<not> (\<forall>r \<in> set rs. complement_flag r) \<longrightarrow> sorted_set q \<and> set q = (\<Inter>r \<in> set rs. denotes r)"
    using new_ValueSelector_spec[OF so, of ?cs a ?x] .
  have cs: "set ?cs = {c \<in> C. k \<in> free_indices env (free_variables p) c}"
    using assms(2,3) by (simp add: plan_for_def Let_def represents_def)
  have "v \<in> denotes r" if "r \<in> set rs" for r
  proof -
    have "Some r \<in> set (map (\<lambda>c. GetSuggestedValues env c a ?x) ?cs)" using that q(2) by simp
    then obtain c where c: "c \<in> set ?cs" "GetSuggestedValues env c a ?x = Some r" by auto
    then have "c \<in> C" "?x \<in> set (GetVariables env c)" using cs by (auto simp: free_indices_def)
    with c ss assms(4-8) show ?thesis unfolding suggestions_sound_def by blast
  qed
  then have "v \<in> set q"
    using q(3,4) assms(9) by (cases "\<forall>r \<in> set rs. complement_flag r") auto
  then show ?thesis using q(1) by (simp add: candidates_def)
qed

text \<open>A complete assignment that extends a partial one.\<close>

definition completes :: "plan \<Rightarrow> Assignments \<Rightarrow> Assignments \<Rightarrow> Assignments \<Rightarrow> bool" where
  "completes p forced a f \<longleftrightarrow>
     sorted_map f \<and> map_of a \<subseteq>\<^sub>m map_of f \<and> dom (map_of f) = dom (map_of forced) \<union> set (free_variables p)"

definition partial_at :: "plan \<Rightarrow> Assignments \<Rightarrow> nat \<Rightarrow> Assignments \<Rightarrow> bool" where
  "partial_at p forced k a \<longleftrightarrow>
     sorted_map a \<and> dom (map_of a) = dom (map_of forced) \<union> set (take k (free_variables p))"

definition plan_vars_ok :: "plan \<Rightarrow> Assignments \<Rightarrow> bool" where
  "plan_vars_ok p forced \<longleftrightarrow>
     distinct (free_variables p) \<and> sorted_map forced \<and> dom (map_of forced) \<inter> set (free_variables p) = {}"

lemma partial_at_new:
  assumes "plan_vars_ok p forced" "partial_at p forced k a" "k < length (free_variables p)"
  shows "map_of a (free_variables p ! k) = None"
proof -
  have "free_variables p ! k \<notin> set (take k (free_variables p))"
    using assms by (auto simp: plan_vars_ok_def in_set_conv_nth nth_eq_iff_index_eq)
  moreover have "free_variables p ! k \<notin> dom (map_of forced)"
    using assms nth_mem[of k "free_variables p"] by (auto simp: plan_vars_ok_def)
  ultimately show ?thesis using assms(2) unfolding partial_at_def by blast
qed

lemma partial_at_put:
  assumes "plan_vars_ok p forced" "partial_at p forced k a" "k < length (free_variables p)"
  shows "partial_at p forced (Suc k) (map_put (free_variables p ! k) v a)"
    and "map_of a \<subseteq>\<^sub>m map_of (map_put (free_variables p ! k) v a)"
proof -
  have "set (take (Suc k) (free_variables p)) = insert (free_variables p ! k) (set (take k (free_variables p)))"
    using assms(3) by (simp add: take_Suc_conv_app_nth)
  with assms(2) show "partial_at p forced (Suc k) (map_put (free_variables p ! k) v a)"
    by (auto simp: partial_at_def)
  show "map_of a \<subseteq>\<^sub>m map_of (map_put (free_variables p ! k) v a)"
    using assms(2) partial_at_new[OF assms] by (auto simp: map_le_def partial_at_def)
qed

text \<open>A constraint completed at level \<open>k\<close> sees all its variables there, so its verdict stands.\<close>

lemma completed_verdict:
  assumes "contract env" "plan_for env C p" "plan_vars_ok p forced"
    "partial_at p forced (Suc k) a" "completes p forced a f" "k < length (free_variables p)"
    "c \<in> set (completed_constraints p ! k)"
  shows "IsSatisfied env c a = IsSatisfied env c f"
proof -
  let ?fv = "free_variables p"
  have c: "free_indices env ?fv c \<subseteq> {..k}"
    using assms(2,6,7) by (auto simp: plan_for_def Let_def represents_def)
  have "map_of a x = map_of f x" if x: "x \<in> set (GetVariables env c)" for x
  proof (cases "x \<in> dom (map_of a)")
    case True
    with assms(5) show ?thesis by (auto simp: completes_def map_le_def)
  next
    case False
    have "x \<notin> set ?fv"
    proof
      assume "x \<in> set ?fv"
      then obtain i where i: "i < length ?fv" "?fv ! i = x" by (auto simp: in_set_conv_nth)
      then have "i \<le> k" using c x by (auto simp: free_indices_def)
      then have "x \<in> set (take (Suc k) ?fv)" using i by (auto simp: in_set_conv_nth intro!: exI[of _ i])
      with False assms(4) show False by (auto simp: partial_at_def)
    qed
    moreover have "x \<notin> dom (map_of forced)" using False assms(4) by (auto simp: partial_at_def)
    ultimately have "x \<notin> dom (map_of f)" using assms(5) by (auto simp: completes_def)
    with False show ?thesis by (auto simp: domIff)
  qed
  with assms(1,4,5) show ?thesis
    unfolding contract_def constraints_local_def partial_at_def completes_def by blast
qed

lemma search_sound:
  assumes "contract env" "plan_for env C p" "plan_vars_ok p forced"
    "partial_at p forced k a" "k < length (free_variables p)" "s \<in> set (solutions (search env p forced k a q))"
  shows "\<exists>f v. v \<in> set q \<and> completes p forced (map_put (free_variables p ! k) v a) f \<and> s = free_part forced f
    \<and> (\<forall>j. k \<le> j \<longrightarrow> j < length (free_variables p) \<longrightarrow>
          (\<forall>c \<in> set (completed_constraints p ! j). IsSatisfied env c f))"
  using assms
proof (induction env p forced k a q rule: search.induct)
  case (2 env p forced k a v q)
  let ?a = "map_put (free_variables p ! k) v a"
  note step = partial_at_put[OF 2(5,6,7), of v]
  note verdict = completed_verdict[OF 2(3,4,5) step(1) _ 2(7)]
  consider "s \<in> set (solutions (search env p forced k a q))"
    | "v \<noteq> null_link" "consistent_at env p k ?a" "Suc k < length (free_variables p)"
      "s \<in> set (solutions (search env p forced (Suc k) ?a (candidates env p (Suc k) ?a)))"
    | "v \<noteq> null_link" "consistent_at env p k ?a" "Suc k = length (free_variables p)" "s = free_part forced ?a"
    using 2(7,8) by (auto simp: Let_def split: if_splits)
  then show ?case
  proof cases
    case 1
    show ?thesis
    proof (cases "v = null_link")
      case False
      from 2(2)[OF False refl 2(3-7) 1] show ?thesis by auto
    qed (use 2(8) in simp)
  next
    case a: 2
    from 2(1)[OF a(1) refl a(2,3) 2(3-5) step(1) a(3,4)] obtain f w where
      f: "completes p forced (map_put (free_variables p ! Suc k) w ?a) f" "s = free_part forced f"
      "\<forall>j. Suc k \<le> j \<longrightarrow> j < length (free_variables p) \<longrightarrow> (\<forall>c \<in> set (completed_constraints p ! j). IsSatisfied env c f)"
      by blast
    have c: "completes p forced ?a f"
      using f(1) partial_at_put(2)[OF 2(5) step(1) a(3), of w] by (auto simp: completes_def intro: map_le_trans)
    have "IsSatisfied env c f" if "c \<in> set (completed_constraints p ! k)" for c
      using verdict[OF c that] a(2) that by (simp add: consistent_at_def)
    with f(3) have "\<forall>j. k \<le> j \<longrightarrow> j < length (free_variables p) \<longrightarrow>
        (\<forall>c \<in> set (completed_constraints p ! j). IsSatisfied env c f)"
      by (metis Suc_leI le_neq_implies_less)
    with f(2) c show ?thesis by (intro exI[of _ f] exI[of _ v]) simp
  next
    case b: 3
    have c: "completes p forced ?a ?a"
      using step(1) b(3) by (simp add: completes_def partial_at_def)
    have "j = k" if "k \<le> j" "j < length (free_variables p)" for j using that b(3) by simp
    with b(2,4) c show ?thesis by (intro exI[of _ ?a] exI[of _ v]) (auto simp: consistent_at_def)
  qed
qed simp

lemma search_complete:
  assumes "contract env" "plan_for env C p" "plan_vars_ok p forced"
    "partial_at p forced k a" "k < length (free_variables p)" "completes p forced a f"
    "\<forall>c \<in> C. IsSatisfied env c f" "\<forall>x \<in> set (free_variables p). the (map_of f x) \<in> set (unordered_domain env)"
    "the (map_of f (free_variables p ! k)) \<in> set q" "null_link \<notin> set q"
  shows "free_part forced f \<in> set (solutions (search env p forced k a q))"
  using assms
proof (induction env p forced k a q rule: search.induct)
  case (2 env p forced k a v q)
  let ?x = "free_variables p ! k"
  let ?a = "map_put ?x v a"
  have v: "v \<noteq> null_link" using 2(12) by auto
  show ?case
  proof (cases "v = the (map_of f ?x)")
    case False
    then have "free_part forced f \<in> set (solutions (search env p forced k a q))"
      using 2(2)[OF v refl 2(3-10)] 2(11,12) by simp
    with v show ?thesis by (simp add: Let_def)
  next
    case True
    have "?x \<in> dom (map_of f)" using 2(7,8) nth_mem[of k "free_variables p"] by (auto simp: completes_def)
    with True have fx: "map_of f ?x = Some v" by auto
    note step = partial_at_put[OF 2(5,6,7), of v]
    have c: "completes p forced ?a f"
      using 2(6,8) fx by (auto simp: completes_def partial_at_def map_le_def)
    have "set (completed_constraints p ! k) \<subseteq> C"
      using 2(4,7) by (auto simp: plan_for_def Let_def represents_def)
    then have cons: "consistent_at env p k ?a"
      using completed_verdict[OF 2(3,4,5) step(1) c 2(7)] 2(9) by (auto simp: consistent_at_def)
    show ?thesis
    proof (cases "Suc k < length (free_variables p)")
      case more: True
      let ?y = "free_variables p ! Suc k"
      have y: "?y \<in> set (free_variables p)" using more by simp
      then have "?y \<in> dom (map_of f)" using c by (simp add: completes_def)
      then obtain w where w: "map_of f ?y = Some w" by auto
      then have "w \<in> set (candidates env p (Suc k) ?a)"
        using candidates_complete[OF 2(3,4) more _ _ _ 2(9) w] step(1) c 2(10) y
        by (auto simp: partial_at_def completes_def)
      then have "free_part forced f \<in> set (solutions (search env p forced (Suc k) ?a (candidates env p (Suc k) ?a)))"
        using 2(1)[OF v refl cons more 2(3,4,5) step(1) more c 2(9,10)] w candidates_props[OF 2(3)] by simp
      with v cons more show ?thesis by (simp add: Let_def)
    next
      case False
      with 2(7) have "Suc k = length (free_variables p)" by simp
      then have "map_of f = map_of ?a"
        using c step(1) by (intro map_le_antisym) (auto simp: completes_def partial_at_def map_le_def domIff)
      then have "f = ?a" using c step(1) by (intro sorted_map_eqI) (auto simp: completes_def partial_at_def)
      with v cons False show ?thesis by (simp add: Let_def)
    qed
  qed
qed simp

lemma map_of_free_part:
  "sorted_map f \<Longrightarrow> sorted_map forced \<Longrightarrow> map_of (free_part forced f) = (map_of f) |` (- dom (map_of forced))"
  by (simp add: free_part_def DifferenceOf_map_lookup)

lemma search_distinct:
  assumes "contract env" "plan_for env C p" "plan_vars_ok p forced"
    "partial_at p forced k a" "k < length (free_variables p)" "distinct q"
  shows "distinct (solutions (search env p forced k a q))"
  using assms
proof (induction env p forced k a q rule: search.induct)
  case (2 env p forced k a v q)
  let ?x = "free_variables p ! k"
  let ?a = "map_put ?x v a"
  note step = partial_at_put[OF 2(5,6,7)]
  have x: "?x \<notin> dom (map_of forced)"
    using 2(5,7) nth_mem[of k "free_variables p"] by (auto simp: plan_vars_ok_def)
  have at: "map_of (free_part forced f) ?x = Some w" if "completes p forced b f" "map_of b ?x = Some w" for b f w
  proof -
    have "map_of f ?x = Some w" using that by (metis completes_def domI map_le_def)
    with that(1) x 2(5) show ?thesis
      by (simp add: completes_def plan_vars_ok_def map_of_free_part restrict_map_def)
  qed
  have rest: "map_of s ?x \<noteq> Some v" if s: "s \<in> set (solutions (search env p forced k a q))" for s
  proof -
    obtain f w where "w \<in> set q" "completes p forced (map_put ?x w a) f" "s = free_part forced f"
      using search_sound[OF 2(3-7) s] by blast
    moreover have "map_of (map_put ?x w a) ?x = Some w" using 2(6) by (simp add: partial_at_def)
    ultimately show ?thesis using at 2(8) by auto
  qed
  show ?case
  proof (cases "v \<noteq> null_link \<and> consistent_at env p k ?a")
    case False
    show ?thesis
    proof (cases "v = null_link")
      case v: False
      with 2(2)[OF v refl 2(3-7)] 2(8) False show ?thesis by (simp add: Let_def)
    qed simp
  next
    case True
    then have v: "v \<noteq> null_link" "consistent_at env p k ?a" by auto
    have d: "distinct (solutions (search env p forced k a q))" using 2(2)[OF v(1) refl 2(3-7)] 2(8) by simp
    have av: "map_of ?a ?x = Some v" using 2(6) by (simp add: partial_at_def)
    show ?thesis
    proof (cases "Suc k < length (free_variables p)")
      case more: True
      let ?sub = "solutions (search env p forced (Suc k) ?a (candidates env p (Suc k) ?a))"
      have "distinct ?sub"
        using 2(1)[OF v(1) refl v(2) more 2(3,4,5) step(1) more] candidates_props[OF 2(3)] by simp
      moreover have "map_of s ?x = Some v" if sub: "s \<in> set ?sub" for s
      proof -
        obtain f w where f: "completes p forced (map_put (free_variables p ! Suc k) w ?a) f" "s = free_part forced f"
          using search_sound[OF 2(3,4,5) step(1) more sub] by blast
        then have "completes p forced ?a f"
          using partial_at_put(2)[OF 2(5) step(1) more, of v w] by (auto simp: completes_def intro: map_le_trans)
        with at av f(2) show ?thesis by blast
      qed
      ultimately show ?thesis using d rest v more by (auto simp: Let_def)
    next
      case False
      have "completes p forced ?a ?a"
        using step(1)[of v] False 2(7) by (simp add: completes_def partial_at_def)
      then have "map_of (free_part forced ?a) ?x = Some v" using at av by blast
      with d rest v False show ?thesis by (auto simp: Let_def)
    qed
  qed
qed simp

section \<open>Properties\<close>

text \<open>The answers to a problem: assignments of the free variables that, with the forces, satisfy
  every constraint.\<close>

definition answer :: "csp_env \<Rightarrow> ConstraintId list \<Rightarrow> VariableId list \<Rightarrow> Assignments \<Rightarrow> Assignments \<Rightarrow> bool" where
  "answer env cs fv forced s \<longleftrightarrow>
     sorted_map s \<and> dom (map_of s) = set fv \<and> (\<forall>c \<in> set cs. IsSatisfied env c (UnionOf_map (<) s forced))"

definition in_domain :: "csp_env \<Rightarrow> Assignments \<Rightarrow> bool" where
  "in_domain env s \<longleftrightarrow> snd ` set s \<subseteq> set (unordered_domain env)"

lemma ready_plan_vars_ok: "ready env p forced \<Longrightarrow> plan_vars_ok p forced"
  by (simp add: ready_def plan_vars_ok_def dom_map_of_conv_image_fst)

lemma free_part_union:
  assumes "sorted_map f" "sorted_map forced" "map_of forced \<subseteq>\<^sub>m map_of f"
  shows "UnionOf_map (<) (free_part forced f) forced = f"
proof (rule sorted_map_eqI)
  have fp: "sorted_map (free_part forced f)"
    using DifferenceOf_map_lookup(1)[OF assms(1,2)] by (simp add: free_part_def)
  show "sorted_map (UnionOf_map (<) (free_part forced f) forced)"
    using UnionOf_map_lookup(1)[OF fp assms(2)] .
  show "map_of (UnionOf_map (<) (free_part forced f) forced) = map_of f"
    using UnionOf_map_lookup(2)[OF fp assms(2)] map_of_free_part[OF assms(1,2)] assms(3)
    by (auto simp: fun_eq_iff restrict_map_def map_add_def map_le_def domIff split: option.splits)
qed (rule assms)

text \<open>The reports of a whole run, read off the recursive search.\<close>

definition run_reports :: "csp_env \<Rightarrow> plan \<Rightarrow> Assignments \<Rightarrow> report list" where
  "run_reports env p forced =
     (if \<not> (\<forall>c \<in> set (fully_forced_constraint_set p). IsSatisfied env c forced) then [Rejection []]
      else if free_variables p = [] then [Solution []]
      else search env p forced 0 forced (candidates env p 0 forced))"

lemma Run_reports:
  assumes "ready env p forced" "forced_assignments st = forced" "assignments st = forced"
  obtains st' where "ReferenceSolver_Run env p rej st = Some (Inr st')"
    "reports st' = reports st @ visible rej (run_reports env p forced)"
proof (cases "(\<forall>c \<in> set (fully_forced_constraint_set p). IsSatisfied env c forced) \<and> free_variables p \<noteq> []")
  case False
  show ?thesis
  proof (cases "\<forall>c \<in> set (fully_forced_constraint_set p). IsSatisfied env c forced")
    case True
    with False assms(3) show ?thesis
      by (intro that[of "st\<lparr>reports := reports st @ [Solution []]\<rparr>"])
        (simp_all add: ReferenceSolver_Run_def Run_def ConsistencyCheck_fst run_reports_def)
  next
    case unsat: False
    let ?st' = "if rej then st\<lparr>reports := reports st @ [Rejection []]\<rparr> else st"
    have "ReferenceSolver_Run env p rej st = Some (Inr ?st')"
      using unsat assms(3) by (simp add: ReferenceSolver_Run_def Run_def ConsistencyCheck_fst)
    then show ?thesis using unsat by (intro that[of ?st']) (simp_all add: run_reports_def)
  qed
next
  case True
  let ?q = "candidates env p 0 forced"
  let ?st = "st\<lparr>current_var_index := 0, value_selectors := (value_selectors st)(0 \<mapsto> ?q),
      success_count := (success_count st)(0 \<mapsto> 0)\<rparr>"
  have r: "sorted_map forced" "suggestions_ok env" "0 < length (affected_constraints p)"
    using assms(1) True by (simp_all add: ready_def)
  have none: "map_of forced (free_variables p ! 0) = None"
    using True ready_plan_vars_ok[OF assms(1)] partial_at_new[of p forced 0 forced] by (simp add: partial_at_def r)
  moreover from this have "map_erase (free_variables p ! 0) forced = forced"
    using r(1) by (intro sorted_map_eqI) (auto simp: fun_upd_idem)
  ultimately have lev: "at_level p forced 0 forced ?q ?st"
    using assms True r by (simp add: at_level_def)
  have sel: "make_selector env p (st\<lparr>current_var_index := 0\<rparr>) = Inr ?st"
    using True r new_ValueSelector_candidates[OF r(2), of p 0 forced] assms(3)
    by (simp add: make_selector_def Let_def)
  obtain st' where "reports st' = reports ?st @ visible rej (search env p forced 0 forced ?q)"
    "solve_loop (reference_iteration env p rej) ?st = Some (Inr st')"
    using solve_loop_search[OF assms(1) lev, of rej] by auto
  moreover have "ReferenceSolver_Run env p rej st = solve_loop (reference_iteration env p rej) ?st"
    using True assms(3) sel by (simp add: ReferenceSolver_Run_def Run_def Solve_def ConsistencyCheck_fst)
  ultimately show ?thesis using that[of st'] True by (simp add: run_reports_def)
qed

lemma answer_of_search:
  assumes "contract env" "plan_for env (set cs) p" "plan_vars_ok p forced" "free_variables p \<noteq> []"
    "\<forall>c \<in> set (fully_forced_constraint_set p). IsSatisfied env c forced"
    "s \<in> set (solutions (search env p forced 0 forced q))"
  shows "answer env cs (free_variables p) forced s"
proof -
  let ?fv = "free_variables p"
  have p0: "partial_at p forced 0 forced" "0 < length ?fv"
    using assms(3,4) by (simp_all add: partial_at_def plan_vars_ok_def)
  obtain f v where f: "completes p forced (map_put (?fv ! 0) v forced) f" "s = free_part forced f"
    "\<And>j c. j < length ?fv \<Longrightarrow> c \<in> set (completed_constraints p ! j) \<Longrightarrow> IsSatisfied env c f"
    using search_sound[OF assms(1-3) p0 assms(6)] by blast
  have sub: "map_of forced \<subseteq>\<^sub>m map_of f" "sorted_map f" "dom (map_of f) = dom (map_of forced) \<union> set ?fv"
    using f(1) partial_at_put(2)[OF assms(3) p0, of v] by (auto simp: completes_def intro: map_le_trans)
  have sf: "sorted_map forced" "dom (map_of forced) \<inter> set ?fv = {}" using assms(3) by (simp_all add: plan_vars_ok_def)
  have "IsSatisfied env c f" if c: "c \<in> set cs" for c
  proof (cases "free_indices env ?fv c = {}")
    case True
    then have "c \<in> set (fully_forced_constraint_set p)"
      using c assms(2) by (auto simp: plan_for_def Let_def represents_def)
    moreover have "map_of forced x = map_of f x" if x: "x \<in> set (GetVariables env c)" for x
    proof -
      have "x \<notin> set ?fv"
        using True x by (metis (mono_tags, lifting) empty_Collect_eq free_indices_def in_set_conv_nth)
      with sub show ?thesis by (metis UnE domIff map_le_def)
    qed
    ultimately show ?thesis
      using assms(1,5) sf(1) sub(2) unfolding contract_def constraints_local_def by blast
  next
    case False
    let ?m = "Max (free_indices env ?fv c)"
    have m: "?m \<in> free_indices env ?fv c" using False by simp
    moreover have "free_indices env ?fv c \<subseteq> {..?m}" by auto
    ultimately have "c \<in> set (completed_constraints p ! ?m)" "?m < length ?fv"
      using c assms(2) by (auto simp: plan_for_def Let_def represents_def free_indices_def)
    then show ?thesis using f(3) by blast
  qed
  moreover have "UnionOf_map (<) s forced = f" using free_part_union[OF sub(2) sf(1) sub(1)] f(2) by simp
  moreover have "dom (map_of s) = set ?fv"
    using map_of_free_part[OF sub(2) sf(1)] sub(3) sf(2) f(2) by auto
  moreover have "sorted_map s" using DifferenceOf_map_lookup(1)[OF sub(2) sf(1)] f(2) by (simp add: free_part_def)
  ultimately show ?thesis by (simp add: answer_def)
qed

lemma search_has_answer:
  assumes "contract env" "plan_for env (set cs) p" "plan_vars_ok p forced" "free_variables p \<noteq> []"
    "answer env cs (free_variables p) forced s" "in_domain env s"
  shows "s \<in> set (solutions (search env p forced 0 forced (candidates env p 0 forced)))"
proof -
  let ?fv = "free_variables p" and ?f = "UnionOf_map (<) s forced"
  have s: "sorted_map s" "dom (map_of s) = set ?fv" "\<forall>c \<in> set cs. IsSatisfied env c ?f"
    using assms(5) by (simp_all add: answer_def)
  have fo: "sorted_map forced" "dom (map_of forced) \<inter> set ?fv = {}" using assms(3) by (simp_all add: plan_vars_ok_def)
  note u = UnionOf_map_lookup[OF s(1) fo(1)]
  have f: "map_of forced \<subseteq>\<^sub>m map_of ?f" "dom (map_of ?f) = dom (map_of forced) \<union> set ?fv"
    using u(2) s(2) fo(2) map_add_comm[of "map_of forced" "map_of s"] by (auto simp: Un_commute)
  have fp: "free_part forced ?f = s"
  proof (rule sorted_map_eqI)
    show "sorted_map (free_part forced ?f)"
      using DifferenceOf_map_lookup(1)[OF u(1) fo(1)] by (simp add: free_part_def)
    show "map_of (free_part forced ?f) = map_of s"
      using map_of_free_part[OF u(1) fo(1)] u(2) s(2) fo(2)
      by (auto simp: fun_eq_iff restrict_map_def map_add_def domIff split: option.splits)
  qed (rule s)
  have vals: "the (map_of ?f x) \<in> set (unordered_domain env)" if x: "x \<in> set ?fv" for x
  proof -
    obtain w where w: "map_of s x = Some w" using x s(2) by (metis domD)
    then have "w \<in> set (unordered_domain env)" using assms(6) by (force simp: in_domain_def dest: map_of_SomeD)
    with w u(2) show ?thesis by (simp add: map_add_def)
  qed
  have p0: "partial_at p forced 0 forced" "0 < length ?fv" using fo assms(4) by (simp_all add: partial_at_def)
  have x0: "?fv ! 0 \<in> set ?fv" using p0(2) by simp
  then obtain w where w: "map_of ?f (?fv ! 0) = Some w" using f(2) by blast
  have "w \<in> set (candidates env p 0 forced)"
    using candidates_complete[OF assms(1,2) p0(2) fo(1) u(1) f(1) s(3) w] vals[OF x0] w by simp
  moreover have "completes p forced forced ?f" using u(1) f by (simp add: completes_def)
  ultimately show ?thesis
    using search_complete[OF assms(1-3) p0 _ s(3), of "candidates env p 0 forced"] vals w
      candidates_props[OF assms(1)] fp by auto
qed

lemma Start_forced_keys:
  assumes "Start p forces st = Inr st'" "sorted_map forces" "length forces < 2 ^ 63"
    "sorted_set (domain_forced_variables p)" "sorted_set (arbitrary_forced_variables p)"
    "length (domain_forced_variables p) < 2 ^ 63" "length (arbitrary_forced_variables p) < 2 ^ 63"
    "set (domain_forced_variables p) \<inter> set (arbitrary_forced_variables p) = {}"
  shows "dom (map_of forces) = set (domain_forced_variables p) \<union> set (arbitrary_forced_variables p)"
    and "forced_assignments st' = forces" "assignments st' = forces" "reports st' = reports st"
proof -
  let ?F = "set (domain_forced_variables p) \<union> set (arbitrary_forced_variables p)"
  have g: "?F \<subseteq> dom (map_of forces)"
    "size_of forces = size_of (domain_forced_variables p) + size_of (arbitrary_forced_variables p)"
    "st' = st\<lparr>forced_assignments := forces, assignments := forces\<rparr>"
    using assms(1) by (auto simp: Start_def list_all_iff dom_map_of_conv_image_fst)
  then show "forced_assignments st' = forces" "assignments st' = forces" "reports st' = reports st" by simp_all
  have "length forces = length (domain_forced_variables p) + length (arbitrary_forced_variables p)"
    using size_of_sum_eq[OF assms(6,7), of forces] g(2) assms(3) by simp
  then have "card (dom (map_of forces)) = card ?F"
    using assms(2,4,5,8) length_sorted_map[OF assms(2)]
    by (simp add: card_Un_disjoint length_sorted_set)
  with g(1) show "dom (map_of forces) = ?F"
    using card_subset_eq[of "dom (map_of forces)" ?F] finite_dom_map_of by metis
qed

text \<open>The solutions a run is expected to report, in order.\<close>

definition expected :: "csp_env \<Rightarrow> plan \<Rightarrow> Assignments \<Rightarrow> Assignments list" where
  "expected env p forced = solutions (run_reports env p forced)"

lemma forced_verdict:
  assumes "contract env" "plan_for env (set cs) p" "plan_vars_ok p forced"
    "sorted_map s" "dom (map_of s) = set (free_variables p)" "c \<in> set (fully_forced_constraint_set p)"
  shows "IsSatisfied env c (UnionOf_map (<) s forced) = IsSatisfied env c forced"
proof -
  have fo: "sorted_map forced" using assms(3) by (simp add: plan_vars_ok_def)
  note u = UnionOf_map_lookup[OF assms(4) fo]
  have "free_indices env (free_variables p) c = {}"
    using assms(2,6) by (auto simp: plan_for_def Let_def represents_def)
  then have "x \<notin> dom (map_of s)" if "x \<in> set (GetVariables env c)" for x
    using that assms(5) by (metis (mono_tags, lifting) empty_Collect_eq free_indices_def in_set_conv_nth)
  then have "map_of (UnionOf_map (<) s forced) x = map_of forced x" if "x \<in> set (GetVariables env c)" for x
    using that by (auto simp: u(2) map_add_def domIff)
  with assms(1) u(1) fo show ?thesis unfolding contract_def constraints_local_def by blast
qed

lemma expected_spec:
  assumes "contract env" "plan_for env (set cs) p" "plan_vars_ok p forced"
  shows "distinct (expected env p forced)"
    and "s \<in> set (expected env p forced) \<Longrightarrow> answer env cs (free_variables p) forced s"
    and "answer env cs (free_variables p) forced s \<Longrightarrow> in_domain env s \<Longrightarrow> s \<in> set (expected env p forced)"
proof -
  let ?fv = "free_variables p"
  let ?sat = "\<forall>c \<in> set (fully_forced_constraint_set p). IsSatisfied env c forced"
  have fo: "sorted_map forced" using assms(3) by (simp add: plan_vars_ok_def)
  have ff: "set (fully_forced_constraint_set p) = {c \<in> set cs. free_indices env ?fv c = {}}"
    using assms(2) by (simp add: plan_for_def Let_def represents_def)
  show "distinct (expected env p forced)"
    using search_distinct[OF assms, of 0 forced "candidates env p 0 forced"] candidates_props[OF assms(1)] fo
    by (simp add: expected_def run_reports_def partial_at_def)
  show "answer env cs ?fv forced s" if s: "s \<in> set (expected env p forced)"
  proof (cases "?fv = []")
    case True
    have "UnionOf_map (<) [] forced = forced"
      using UnionOf_map_lookup[of "[]" forced] fo by (intro sorted_map_eqI) auto
    moreover have "s = []" "?sat" using s True by (auto simp: expected_def run_reports_def split: if_splits)
    moreover have "free_indices env ?fv c = {}" for c using True by (simp add: free_indices_def)
    ultimately show ?thesis using True ff by (simp add: answer_def)
  next
    case False
    with s have "?sat" "s \<in> set (solutions (search env p forced 0 forced (candidates env p 0 forced)))"
      by (auto simp: expected_def run_reports_def split: if_splits)
    then show ?thesis using answer_of_search[OF assms False] by blast
  qed
  show "s \<in> set (expected env p forced)" if s: "answer env cs ?fv forced s" "in_domain env s"
  proof -
    have "sorted_map s" "dom (map_of s) = set ?fv" using s(1) by (simp_all add: answer_def)
    then have "?sat" using forced_verdict[OF assms] s(1) ff by (auto simp: answer_def)
    moreover have "s = []" if "?fv = []" using that s(1) by (auto simp: answer_def)
    ultimately show ?thesis using search_has_answer[OF assms _ s] by (auto simp: expected_def run_reports_def)
  qed
qed

text \<open>A solver that was planned and started is ready to run.\<close>

definition started :: "csp_env \<Rightarrow> ConstraintId list \<Rightarrow> VariableId list \<Rightarrow> VariableId list \<Rightarrow> VariableId list
    \<Rightarrow> Assignments \<Rightarrow> plan \<Rightarrow> solver \<Rightarrow> bool" where
  "started env cs fv df af forces p st \<longleftrightarrow>
     sorted_set df \<and> sorted_set af \<and> length df < 2 ^ 62 \<and> length af < 2 ^ 62 \<and> length fv < 2 ^ 62
     \<and> sorted_map forces \<and> length forces < 2 ^ 62
     \<and> DeduceVariables env cs fv df af = Inr p \<and> Start p forces new_solver = Inr st"

lemma started_ready:
  assumes "contract env" "started env cs fv df af forces p st"
  shows "ready env p forces" "plan_for env (set cs) p" "free_variables p = fv"
    "forced_assignments st = forces" "assignments st = forces" "reports st = []"
    "dom (map_of forces) = set df \<union> set af"
proof -
  have a: "sorted_set df" "sorted_set af" "length df < 2 ^ 63" "length af < 2 ^ 63" "length forces < 2 ^ 63"
      "length fv < 2 ^ 62" "length forces < 2 ^ 62" "sorted_map forces"
      "DeduceVariables env cs fv df af = Inr p" "Start p forces new_solver = Inr st"
    using assms(2) by (simp_all add: started_def)
  have d: "valid_problem env cs fv df af" "plan_for env (set cs) p" "free_variables p = fv"
      "domain_forced_variables p = df" "arbitrary_forced_variables p = af"
    using DeduceVariables_spec[OF a(1-4), of env cs fv] a(9) by auto
  then show "plan_for env (set cs) p" "free_variables p = fv" by simp_all
  show keys: "dom (map_of forces) = set df \<union> set af" "forced_assignments st = forces" "assignments st = forces"
      "reports st = []"
    using Start_forced_keys[OF a(10,8,5)] a(1-4) d by (auto simp: valid_problem_def new_solver_def)
  show "ready env p forces"
    using d keys(1) assms(1) a(6-8)
    by (auto simp: ready_def valid_problem_def contract_def plan_for_def Let_def dom_map_of_conv_image_fst)
qed

text \<open>C1: the backtracking solver always returns. For constraints that keep their contract, its
  solutions are reported once each; every solution satisfies every constraint together with the
  forces; and every assignment of the free variables from the domain that satisfies them all is
  reported.\<close>

theorem ReferenceSolver_correct:
  assumes "contract env" "started env cs fv df af forces p st"
  shows "\<exists>st'. ReferenceSolver_Run env p rej st = Some (Inr st')
    \<and> distinct (solutions (reports st'))
    \<and> (\<forall>s \<in> set (solutions (reports st')). answer env cs fv forces s)
    \<and> (\<forall>s. answer env cs fv forces s \<longrightarrow> in_domain env s \<longrightarrow> s \<in> set (solutions (reports st')))"
proof -
  note r = started_ready[OF assms]
  obtain st' where st': "ReferenceSolver_Run env p rej st = Some (Inr st')"
    "reports st' = reports st @ visible rej (run_reports env p forces)"
    using Run_reports[OF r(1,4,5), of rej] .
  then have "solutions (reports st') = expected env p forces" using r(6) by (simp add: expected_def)
  with st'(1) expected_spec[OF assms(1) r(2) ready_plan_vars_ok[OF r(1)]] r(3)
  show ?thesis by (intro exI[of _ st']) auto
qed

text \<open>A problem with one variable, which its only constraint wants to be 2.\<close>

definition example_env :: csp_env where
  "example_env = \<lparr>GetVariables = \<lambda>c. [5], GetVariablesRequiringDB = \<lambda>c. [],
     IsSatisfied = \<lambda>c a. map_of a 5 = Some 2,
     GetSuggestedValues = \<lambda>c a x. Some \<lparr>xlinks = [], complement_flag = True\<rparr>,
     unordered_domain = [1, 2]\<rparr>"

lemma example_contract: "contract example_env"
  by (simp add: contract_def suggestions_ok_def subset_ok_def constraints_local_def suggestions_sound_def
      values_ok_def denotes_def example_env_def)

lemma example_plan:
  obtains p st where "started example_env [0] [5] [] [] [] p st"
proof -
  have "valid_problem example_env [0] [5] [] []"
    by (auto simp: valid_problem_def db_rule_def used_indices_def free_indices_def example_env_def)
  then obtain p where p: "DeduceVariables example_env [0] [5] [] [] = Inr p"
      "domain_forced_variables p = []" "arbitrary_forced_variables p = []"
    using DeduceVariables_spec[of "[]" "[]" example_env "[0]" "[5]"] by (auto split: sum.splits)
  then show ?thesis using that by (simp add: Start_def started_def)
qed

lemma example_answer: "answer example_env [0] [5] [] [(5, 2)]" "in_domain example_env [(5, 2)]"
proof -
  have "map_of (UnionOf_map (<) [(5, 2)] ([] :: Assignments)) = [5 \<mapsto> 2]"
    using UnionOf_map_lookup[of "[(5, 2)]" "[] :: Assignments"] by simp
  then show "answer example_env [0] [5] [] [(5, 2)]"
    by (simp add: answer_def example_env_def)
  show "in_domain example_env [(5, 2)]" by (simp add: in_domain_def example_env_def)
qed

theorem ReferenceSolver_correct_witness:
  "\<exists>p st st'. started example_env [0] [5] [] [] [] p st
    \<and> ReferenceSolver_Run example_env p True st = Some (Inr st') \<and> distinct (solutions (reports st'))
    \<and> [(5, 2)] \<in> set (solutions (reports st'))"
proof -
  obtain p st where p: "started example_env [0] [5] [] [] [] p st" by (rule example_plan)
  from ReferenceSolver_correct[OF example_contract p, of True] p example_answer show ?thesis by blast
qed

text \<open>C25: the iterative loop refines the recursive search: a run makes exactly the reports of the
  search, in its order, with the rejections left out when there is no function to receive them.\<close>

theorem ReferenceSolver_refines_search:
  assumes "contract env" "started env cs fv df af forces p st"
  shows "\<exists>st'. ReferenceSolver_Run env p rej st = Some (Inr st')
    \<and> reports st' = visible rej (run_reports env p forces)"
proof -
  note r = started_ready[OF assms]
  from Run_reports[OF r(1,4,5), of rej] r(6) show ?thesis by (metis append_Nil)
qed

theorem ReferenceSolver_refines_search_witness:
  "\<exists>p st st'. started example_env [0] [5] [] [] [] p st
    \<and> ReferenceSolver_Run example_env p True st = Some (Inr st') \<and> reports st' = run_reports example_env p []"
proof -
  obtain p st where p: "started example_env [0] [5] [] [] [] p st" by (rule example_plan)
  from ReferenceSolver_refines_search[OF example_contract p, of True] p show ?thesis
    by (auto simp: visible_def)
qed

text \<open>C27: the plan is made exactly for well-formed problems, and places every constraint: those
  without free variables are checked once, every other one is checked when the last of its free
  variables is assigned, and is asked for suggestions for each of them.\<close>

theorem DeduceVariables_correct:
  assumes "sorted_set df" "sorted_set af" "length df < 2 ^ 63" "length af < 2 ^ 63"
  shows "case DeduceVariables env cs fv df af of
      Inl e \<Rightarrow> e = AssertFail \<and> \<not> valid_problem env cs fv df af
    | Inr p \<Rightarrow> valid_problem env cs fv df af \<and> plan_for env (set cs) p \<and> free_variables p = fv"
  using DeduceVariables_spec[OF assms, of env cs fv] by (simp split: sum.splits)

theorem DeduceVariables_correct_witness:
  "case DeduceVariables example_env [0] [5] [] [] of
      Inl e \<Rightarrow> e = AssertFail \<and> \<not> valid_problem example_env [0] [5] [] []
    | Inr p \<Rightarrow> valid_problem example_env [0] [5] [] [] \<and> plan_for example_env (set [0]) p \<and> free_variables p = [5]"
  by (rule DeduceVariables_correct) simp_all

end
