(* ===== verification/Backjumping.thy ===== *)
theory Backjumping
  imports ReferenceSolver
begin

text \<open>
  The backjumping solver (\<^verbatim>\<open>vn/csp/backjumping_solver.cpp\<close>) and the solver test harness
  (\<^verbatim>\<open>vn/csp/solver_test.cpp\<close>).

  \<^verbatim>\<open>BackjumpingSolver\<close> overrides the two virtual methods of \<^verbatim>\<open>ReferenceSolver::Solve\<close>. The locale
  \<open>solver_methods\<close> is what the loop needs of them: success advances as the base class does, failure
  retreats to a lower level and gives up only levels that hold no solution. Inside it the loop is
  shown to return and to report exactly the solutions that were pending. The reference solver
  and the backjumping solver both interpret it, so they report the same solutions in the same
  order.
\<close>

section \<open>The overridden methods\<close>

definition Backjumping_AssignSuccessful :: "csp_env \<Rightarrow> plan \<Rightarrow> solver \<Rightarrow> solver result" where
  "Backjumping_AssignSuccessful env p st = AssignSuccessful env p (st\<lparr>conflicted_count := 0\<rparr>)"

lemma AssignUnsuccessful_decreases:
  "AssignUnsuccessful p st = Inr (False, st') \<Longrightarrow> current_var_index st' < current_var_index st"
  by (auto simp: AssignUnsuccessful_def Let_def split: if_splits)

text \<open>The do-while loop: retreat until the variable is one that may be in conflict.\<close>

function backjump_loop :: "plan \<Rightarrow> nat list \<Rightarrow> bool \<Rightarrow> solver \<Rightarrow> (bool \<times> solver) result" where
  "backjump_loop p possibly_conflicted_vars can_backjump st =
     (case AssignUnsuccessful p st of
        Inl e \<Rightarrow> Inl e
      | Inr (True, st') \<Rightarrow> Inr (True, st')
      | Inr (False, st') \<Rightarrow>
          if current_var_index st' \<notin> set possibly_conflicted_vars \<and> can_backjump
          then backjump_loop p possibly_conflicted_vars can_backjump st'
          else Inr (False, st'\<lparr>conflicted_count := conflicted_count st' + 1\<rparr>))"
  by pat_completeness auto

termination backjump_loop
  by (relation "measure (\<lambda>(p, vars, can, st). current_var_index st)")
    (auto dest: AssignUnsuccessful_decreases)

declare backjump_loop.simps [simp del]

definition Backjumping_AssignUnsuccessful :: "plan \<Rightarrow> solver \<Rightarrow> (bool \<times> solver) result" where
  "Backjumping_AssignUnsuccessful p st =
     bindE (vec_at (affected_constraints p) (current_var_index st)) (\<lambda>suspect.
     bindE (GetAffectedVariableIndices p suspect) (\<lambda>possibly_conflicted_vars.
     bindE (if conflicted_count st = 0
            then (case success_count st (current_var_index st) of None \<Rightarrow> Inl OutOfRange | Some n \<Rightarrow> Inr (n = 0))
            else Inr False) (\<lambda>can_backjump.
       backjump_loop p possibly_conflicted_vars can_backjump st)))"

definition Backjumping_Solve :: "csp_env \<Rightarrow> plan \<Rightarrow> bool \<Rightarrow> solver \<Rightarrow> solver result option" where
  "Backjumping_Solve env p rejections st =
     Solve env p rejections (Backjumping_AssignSuccessful env p) (Backjumping_AssignUnsuccessful p)
       (st\<lparr>conflicted_count := 0\<rparr>)"

definition BackjumpingSolver_Run :: "csp_env \<Rightarrow> plan \<Rightarrow> bool \<Rightarrow> solver \<Rightarrow> solver result option" where
  "BackjumpingSolver_Run env p rejections = Run env p rejections (Backjumping_Solve env p rejections)"

section \<open>Prefixes of an assignment and the solutions still pending\<close>

lemma free_variable_new:
  assumes "plan_vars_ok p forced" "k < length (free_variables p)"
  shows "free_variables p ! k \<notin> dom (map_of forced) \<union> set (take k (free_variables p))"
proof -
  have "free_variables p ! k \<notin> set (take k (free_variables p))"
    using assms by (auto simp: plan_vars_ok_def in_set_conv_nth nth_eq_iff_index_eq)
  then show ?thesis using assms nth_mem[of k "free_variables p"] by (auto simp: plan_vars_ok_def)
qed

definition prefix_at :: "plan \<Rightarrow> Assignments \<Rightarrow> nat \<Rightarrow> Assignments \<Rightarrow> Assignments" where
  "prefix_at p forced i a =
     filter (\<lambda>q. fst q \<in> dom (map_of forced) \<union> set (take i (free_variables p))) a"

lemma sorted_prefix_at [simp]: "sorted_map a \<Longrightarrow> sorted_map (prefix_at p forced i a)"
  by (simp add: prefix_at_def sorted_wrt_filter)

lemma map_of_prefix_at [simp]:
  "map_of (prefix_at p forced i a) = map_of a |` (dom (map_of forced) \<union> set (take i (free_variables p)))"
  by (induction a) (auto simp: prefix_at_def fun_eq_iff restrict_map_def)

lemma prefix_at_completes:
  assumes "partial_at p forced i a" "completes p forced a f"
  shows "prefix_at p forced i f = a"
proof (rule sorted_map_eqI)
  have "map_of f |` dom (map_of a) = map_of a"
    using assms(2) by (auto simp: completes_def map_le_def restrict_map_def fun_eq_iff domIff)
  then show "map_of (prefix_at p forced i f) = map_of a"
    using assms(1) by (simp add: partial_at_def)
qed (use assms in \<open>auto simp: partial_at_def completes_def\<close>)

lemma search_path:
  assumes "plan_vars_ok p forced" "partial_at p forced k a" "k < length (free_variables p)"
    "s \<in> set (solutions (search env p forced k a q))"
  shows "\<exists>f v. v \<in> set q \<and> completes p forced (map_put (free_variables p ! k) v a) f
    \<and> consistent_at env p k (map_put (free_variables p ! k) v a)
    \<and> (\<forall>m. k < m \<longrightarrow> m < length (free_variables p) \<longrightarrow>
          the (map_of f (free_variables p ! m)) \<in> set (candidates env p m (prefix_at p forced m f))
          \<and> consistent_at env p m (prefix_at p forced (Suc m) f))"
  using assms
proof (induction env p forced k a q rule: search.induct)
  case (2 env p forced k a v q)
  let ?fv = "free_variables p"
  let ?a = "map_put (?fv ! k) v a"
  note step = partial_at_put[OF 2(3,4,5), of v]
  consider "v \<noteq> null_link" "s \<in> set (solutions (search env p forced k a q))"
    | "v \<noteq> null_link" "consistent_at env p k ?a" "Suc k < length ?fv"
      "s \<in> set (solutions (search env p forced (Suc k) ?a (candidates env p (Suc k) ?a)))"
    | "v \<noteq> null_link" "consistent_at env p k ?a" "Suc k = length ?fv"
    using 2(5,6) by (auto simp: Let_def split: if_splits)
  then show ?case
  proof cases
    case 1
    from 2(2)[OF 1(1) refl 2(3-5) 1(2)] show ?thesis by auto
  next
    case a: 2
    let ?y = "?fv ! Suc k"
    from 2(1)[OF a(1) refl a(2,3) 2(3) step(1) a(3,4)] obtain f w where
      f: "w \<in> set (candidates env p (Suc k) ?a)" "completes p forced (map_put ?y w ?a) f"
      "consistent_at env p (Suc k) (map_put ?y w ?a)"
      "\<And>m. Suc k < m \<Longrightarrow> m < length ?fv \<Longrightarrow>
          the (map_of f (?fv ! m)) \<in> set (candidates env p m (prefix_at p forced m f))
          \<and> consistent_at env p m (prefix_at p forced (Suc m) f)"
      by blast
    note step2 = partial_at_put[OF 2(3) step(1) a(3), of w]
    have c: "completes p forced ?a f"
      using f(2) step2(2) by (auto simp: completes_def intro: map_le_trans)
    have "map_of f ?y = Some w"
      using f(2) step(1) by (auto simp: completes_def map_le_def partial_at_def)
    then have "the (map_of f (?fv ! Suc k)) \<in> set (candidates env p (Suc k) (prefix_at p forced (Suc k) f))
        \<and> consistent_at env p (Suc k) (prefix_at p forced (Suc (Suc k)) f)"
      using f(1,3) prefix_at_completes[OF step(1) c] prefix_at_completes[OF step2(1) f(2)] by simp
    with f(4) have "\<forall>m. k < m \<longrightarrow> m < length ?fv \<longrightarrow>
          the (map_of f (?fv ! m)) \<in> set (candidates env p m (prefix_at p forced m f))
          \<and> consistent_at env p m (prefix_at p forced (Suc m) f)"
      by (metis Suc_lessI)
    with c a(2) show ?thesis by (intro exI[of _ f] exI[of _ v]) simp
  next
    case b: 3
    have "completes p forced ?a ?a" using step(1) b(3) by (simp add: completes_def partial_at_def)
    with b show ?thesis by (intro exI[of _ ?a] exI[of _ v]) auto
  qed
qed simp

text \<open>A state inside the loop. Every level up to the current one has its selector; a level without
  a success has tried nothing consistent.\<close>

definition untried :: "csp_env \<Rightarrow> plan \<Rightarrow> nat \<Rightarrow> Assignments \<Rightarrow> Value list \<Rightarrow> bool" where
  "untried env p i a q \<longleftrightarrow>
     (\<exists>tried. candidates env p i a = tried @ q
        \<and> (\<forall>v \<in> set tried. \<not> consistent_at env p i (map_put (free_variables p ! i) v a)))"

abbreviation queue :: "solver \<Rightarrow> nat \<Rightarrow> Value list" where
  "queue st i \<equiv> the (value_selectors st i)"

definition running :: "csp_env \<Rightarrow> plan \<Rightarrow> Assignments \<Rightarrow> solver \<Rightarrow> bool" where
  "running env p forced st \<longleftrightarrow>
     (let k = current_var_index st in
      k < length (free_variables p) \<and> forced_assignments st = forced \<and> sorted_map (assignments st)
      \<and> dom (map_of forced) \<union> set (take k (free_variables p)) \<subseteq> dom (map_of (assignments st))
      \<and> dom (map_of (assignments st)) \<subseteq> dom (map_of forced) \<union> set (take (Suc k) (free_variables p))
      \<and> (\<forall>i \<le> k. value_selectors st i \<noteq> None \<and> null_link \<notin> set (queue st i) \<and> success_count st i \<noteq> None)
      \<and> (\<forall>i \<le> k. success_count st i = Some 0 \<longrightarrow>
            untried env p i (prefix_at p forced i (assignments st)) (queue st i)))"

definition level_reports :: "csp_env \<Rightarrow> plan \<Rightarrow> Assignments \<Rightarrow> solver \<Rightarrow> nat \<Rightarrow> report list" where
  "level_reports env p forced st i =
     search env p forced i (prefix_at p forced i (assignments st)) (queue st i)"

definition pending :: "csp_env \<Rightarrow> plan \<Rightarrow> Assignments \<Rightarrow> solver \<Rightarrow> nat \<Rightarrow> Assignments list" where
  "pending env p forced st n = concat (map (\<lambda>i. solutions (level_reports env p forced st i)) (rev [0..<n]))"

lemma pending_Suc: "pending env p forced st (Suc n) = solutions (level_reports env p forced st n) @ pending env p forced st n"
  by (simp add: pending_def)

lemma pending_cong:
  "(\<And>i. i < n \<Longrightarrow> level_reports env p forced st i = level_reports env p forced st' i) \<Longrightarrow>
     pending env p forced st n = pending env p forced st' n"
  unfolding pending_def by (intro arg_cong[where f = concat] map_cong) auto

lemma search_nonempty: "search env p forced k a q \<noteq> []"
  by (induction env p forced k a q rule: search.induct) (auto simp: Let_def)

lemma running_at_level:
  assumes "plan_vars_ok p forced" "running env p forced st"
  shows "at_level p forced (current_var_index st) (prefix_at p forced (current_var_index st) (assignments st))
    (queue st (current_var_index st)) st"
proof -
  let ?k = "current_var_index st" and ?fv = "free_variables p"
  let ?D = "dom (map_of forced) \<union> set (take ?k ?fv)"
  have r: "?k < length ?fv" "sorted_map (assignments st)" "?D \<subseteq> dom (map_of (assignments st))"
      "dom (map_of (assignments st)) \<subseteq> dom (map_of forced) \<union> set (take (Suc ?k) ?fv)"
    using assms(2) by (simp_all add: running_def Let_def)
  have t: "set (take (Suc ?k) ?fv) = insert (?fv ! ?k) (set (take ?k ?fv))"
    using r(1) by (simp add: take_Suc_conv_app_nth)
  have new: "?fv ! ?k \<notin> ?D" by (rule free_variable_new[OF assms(1) r(1)])
  have "map_erase (?fv ! ?k) (assignments st) = prefix_at p forced ?k (assignments st)"
  proof (rule sorted_map_eqI)
    show "map_of (map_erase (?fv ! ?k) (assignments st)) = map_of (prefix_at p forced ?k (assignments st))"
    proof
      fix x
      show "map_of (map_erase (?fv ! ?k) (assignments st)) x = map_of (prefix_at p forced ?k (assignments st)) x"
        using r(3,4) new t by (cases "x \<in> dom (map_of (assignments st))") (auto simp: restrict_map_def domIff)
    qed
  qed (use r in simp_all)
  moreover have "dom (map_of (prefix_at p forced ?k (assignments st))) = ?D" using r(3) by auto
  moreover have "map_of (prefix_at p forced ?k (assignments st)) (?fv ! ?k) = None" using new by (simp add: restrict_map_def)
  ultimately show ?thesis
    using assms(2) r by (auto simp: at_level_def running_def Let_def)
qed

lemma running_partial_at:
  assumes "running env p forced st" "i \<le> current_var_index st"
  shows "partial_at p forced i (prefix_at p forced i (assignments st))"
proof -
  have "dom (map_of forced) \<union> set (take (current_var_index st) (free_variables p)) \<subseteq> dom (map_of (assignments st))"
    "sorted_map (assignments st)"
    using assms(1) by (simp_all add: running_def Let_def)
  moreover have "set (take i (free_variables p)) \<subseteq> set (take (current_var_index st) (free_variables p))"
    using assms(2) by (rule set_take_subset_set_take)
  ultimately show ?thesis by (auto simp: partial_at_def)
qed

lemma prefix_at_self:
  assumes "partial_at p forced i a"
  shows "prefix_at p forced i a = a"
proof (rule sorted_map_eqI)
  have "map_of a |` dom (map_of a) = map_of a" by (auto simp: restrict_map_def fun_eq_iff domIff)
  with assms show "map_of (prefix_at p forced i a) = map_of a" by (simp add: partial_at_def)
qed (use assms in \<open>simp_all add: partial_at_def\<close>)

lemma prefix_at_prefix_at: "i \<le> k \<Longrightarrow> prefix_at p forced i (prefix_at p forced k a) = prefix_at p forced i a"
  using set_take_subset_set_take[of i k "free_variables p"] by (auto simp: prefix_at_def intro!: filter_cong)

lemma prefix_at_put:
  assumes "plan_vars_ok p forced" "k < length (free_variables p)" "i \<le> k" "sorted_map a"
  shows "prefix_at p forced i (map_put (free_variables p ! k) v a) = prefix_at p forced i a"
proof (rule sorted_map_eqI)
  have "free_variables p ! k \<notin> dom (map_of forced) \<union> set (take i (free_variables p))"
    using free_variable_new[OF assms(1,2)] set_take_subset_set_take[OF assms(3), of "free_variables p"] by blast
  then show "map_of (prefix_at p forced i (map_put (free_variables p ! k) v a)) = map_of (prefix_at p forced i a)"
    using assms(4) by (auto simp: restrict_map_def fun_eq_iff)
qed (use assms in simp_all)

text \<open>Nothing that is rejected assigns every free variable.\<close>

definition open_rejections :: "plan \<Rightarrow> report list \<Rightarrow> bool" where
  "open_rejections p rs \<longleftrightarrow> (\<forall>a. Rejection a \<in> set rs \<longrightarrow> sorted_map a \<and> last (free_variables p) \<notin> dom (map_of a))"

lemma open_rejections_simps [simp]:
  "open_rejections p []"
  "open_rejections p (rs @ rs') \<longleftrightarrow> open_rejections p rs \<and> open_rejections p rs'"
  "open_rejections p (Solution s # rs) \<longleftrightarrow> open_rejections p rs"
  "open_rejections p (Rejection a # rs) \<longleftrightarrow> sorted_map a \<and> last (free_variables p) \<notin> dom (map_of a) \<and> open_rejections p rs"
  by (auto simp: open_rejections_def)

text \<open>A failure reports nothing itself and leaves the last variable without a value.\<close>

definition quiet :: "plan \<Rightarrow> solver \<Rightarrow> solver \<Rightarrow> bool" where
  "quiet p st st' \<longleftrightarrow> reports st' = reports st
     \<and> sorted_map (assignments st') \<and> last (free_variables p) \<notin> dom (map_of (assignments st'))"

lemma quiet_trans: "quiet p st st' \<Longrightarrow> quiet p st' st'' \<Longrightarrow> quiet p st st''"
  by (simp add: quiet_def)

lemma last_not_prefix:
  assumes "plan_vars_ok p forced" "k < length (free_variables p)"
  shows "last (free_variables p) \<notin> dom (map_of forced) \<union> set (take k (free_variables p))"
proof -
  have "last (free_variables p) = free_variables p ! (length (free_variables p) - 1)"
    using assms(2) by (intro last_conv_nth) auto
  then have "last (free_variables p)
      \<notin> dom (map_of forced) \<union> set (take (length (free_variables p) - 1) (free_variables p))"
    using free_variable_new[OF assms(1), of "length (free_variables p) - 1"] assms(2) by simp
  moreover have "set (take k (free_variables p)) \<subseteq> set (take (length (free_variables p) - 1) (free_variables p))"
    using assms(2) by (intro set_take_subset_set_take) simp
  ultimately show ?thesis by blast
qed

text \<open>The state in which the current variable has its value \<open>v\<close>.\<close>

definition taken :: "plan \<Rightarrow> Assignments \<Rightarrow> solver \<Rightarrow> Value \<Rightarrow> Value list \<Rightarrow> nat \<Rightarrow> solver" where
  "taken p forced st v q n = st\<lparr>value_selectors := (value_selectors st)(current_var_index st \<mapsto> q),
     assignments := map_put (free_variables p ! current_var_index st) v
       (prefix_at p forced (current_var_index st) (assignments st)), conflicted_count := n\<rparr>"

section \<open>What the loop needs of the methods\<close>

locale solver_methods =
  fixes ok :: "csp_env \<Rightarrow> plan \<Rightarrow> Assignments \<Rightarrow> bool"
    and on_success :: "csp_env \<Rightarrow> plan \<Rightarrow> solver \<Rightarrow> solver result"
    and on_failure :: "plan \<Rightarrow> solver \<Rightarrow> (bool \<times> solver) result"
  assumes ready: "ok env p forced \<Longrightarrow> ready env p forced"
    and no_null: "ok env p forced \<Longrightarrow> null_link \<notin> set (candidates env p k a)"
    and on_success: "\<exists>n. on_success env p st = AssignSuccessful env p (st\<lparr>conflicted_count := n\<rparr>)"
    and on_failure: "ok env p forced \<Longrightarrow> running env p forced st \<Longrightarrow> queue st (current_var_index st) = [] \<Longrightarrow>
      \<exists>cease st'. on_failure p st = Inr (cease, st') \<and> quiet p st st'
        \<and> (if cease then pending env p forced st (current_var_index st) = []
           else running env p forced st' \<and> current_var_index st' < current_var_index st
             \<and> (\<forall>i \<le> current_var_index st'. level_reports env p forced st' i = level_reports env p forced st i)
             \<and> (\<forall>i. current_var_index st' < i \<longrightarrow> i < current_var_index st
                  \<longrightarrow> solutions (level_reports env p forced st i) = []))"
begin

abbreviation iteration :: "csp_env \<Rightarrow> plan \<Rightarrow> bool \<Rightarrow> solver \<Rightarrow> (bool \<times> solver) result" where
  "iteration env p rej \<equiv> solve_iteration env p rej (on_success env p) (on_failure p)"

lemma vars_ok: "ok env p forced \<Longrightarrow> plan_vars_ok p forced"
  by (rule ready_plan_vars_ok[OF ready])

lemma running_skip:
  assumes "running env p forced st" "queue st (current_var_index st) = v # q"
    "\<not> consistent_at env p (current_var_index st)
        (map_put (free_variables p ! current_var_index st) v (prefix_at p forced (current_var_index st) (assignments st)))"
  shows "running env p forced (st\<lparr>value_selectors := (value_selectors st)(current_var_index st \<mapsto> q),
     assignments := prefix_at p forced (current_var_index st) (assignments st)\<rparr>)"
proof -
  let ?k = "current_var_index st"
  have "untried env p ?k (prefix_at p forced ?k (assignments st)) q" if "success_count st ?k = Some 0"
  proof -
    have "untried env p ?k (prefix_at p forced ?k (assignments st)) (v # q)"
      using assms(1,2) that by (auto simp: running_def Let_def)
    then obtain tried where "candidates env p ?k (prefix_at p forced ?k (assignments st)) = tried @ v # q"
      "\<forall>w \<in> set tried. \<not> consistent_at env p ?k (map_put (free_variables p ! ?k) w (prefix_at p forced ?k (assignments st)))"
      by (auto simp: untried_def)
    with assms(3) show ?thesis unfolding untried_def by (intro exI[of _ "tried @ [v]"]) auto
  qed
  moreover have "dom (map_of (prefix_at p forced ?k (assignments st)))
      = dom (map_of forced) \<union> set (take ?k (free_variables p))"
    using running_partial_at[OF assms(1) order.refl] by (simp add: partial_at_def)
  moreover have "set (take ?k (free_variables p)) \<subseteq> set (take (Suc ?k) (free_variables p))"
    by (rule set_take_subset_set_take) simp
  ultimately show ?thesis
    using assms(1,2) by (auto simp: running_def Let_def prefix_at_prefix_at)
qed

lemma running_taken:
  assumes "running env p forced st" "queue st (current_var_index st) = v # q"
    and ok: "ok env p forced"
  shows "at_level p forced (current_var_index st) (prefix_at p forced (current_var_index st) (assignments st)) q (taken p forced st v q n)"
  using running_at_level[OF vars_ok[OF ok] assms(1)] assms(2) ready[OF ok]
  by (simp add: at_level_def taken_def map_erase_put)

end

context solver_methods
begin

lemma prefix_at_taken:
  assumes "running env p forced st" "i \<le> current_var_index st"
    and ok: "ok env p forced"
  shows "prefix_at p forced i (assignments (taken p forced st v q n)) = prefix_at p forced i (assignments st)"
proof -
  have "sorted_map (assignments st)" "current_var_index st < length (free_variables p)"
    using assms(1) by (simp_all add: running_def Let_def)
  with assms(2) show ?thesis by (simp add: taken_def prefix_at_put[OF vars_ok[OF ok]] prefix_at_prefix_at)
qed

text \<open>The hit of a value and the advance to the next variable.\<close>

lemma on_success_advance:
  assumes "running env p forced st" "queue st (current_var_index st) = v # q"
    "Suc (current_var_index st) < length (free_variables p)"
    and ok: "ok env p forced"
  obtains st' where "AssignSuccessful env p (taken p forced st v q n) = Inr st'" "running env p forced st'"
    "current_var_index st' = Suc (current_var_index st)" "reports st' = reports st"
    "\<And>i. i < current_var_index st \<Longrightarrow> level_reports env p forced st' i = level_reports env p forced st i"
    "level_reports env p forced st' (current_var_index st) = search env p forced (current_var_index st)
       (prefix_at p forced (current_var_index st) (assignments st)) q"
    "level_reports env p forced st' (Suc (current_var_index st)) = search env p forced (Suc (current_var_index st))
       (assignments (taken p forced st v q n))
       (candidates env p (Suc (current_var_index st)) (assignments (taken p forced st v q n)))"
proof -
  let ?k = "current_var_index st" and ?s = "taken p forced st v q n" and ?fv = "free_variables p"
  let ?a = "prefix_at p forced ?k (assignments st)" and ?b = "assignments ?s"
  have asg: "assignments ?s = map_put (?fv ! ?k) v ?a" by (simp add: taken_def)
  from AssignSuccessful_advance[OF ready[OF ok] running_taken[OF assms(1,2) ok] asg assms(3)] obtain st' where
    st': "AssignSuccessful env p ?s = Inr st'"
      "at_level p forced (Suc ?k) ?b (candidates env p (Suc ?k) ?b) st'"
      "kept_below ?k ?s st'" "success_count st' (Suc ?k) = Some 0" "reports st' = reports ?s" by blast
  have k: "current_var_index st' = Suc ?k" "value_selectors st' (Suc ?k) = Some (candidates env p (Suc ?k) ?b)"
      "assignments st' = ?b" "forced_assignments st' = forced" "sorted_map ?b"
    using st'(2,3) by (simp_all add: at_level_def kept_below_def)
  have part: "partial_at p forced (Suc ?k) ?b" using st'(2) by (simp add: at_level_def partial_at_def)
  have low: "prefix_at p forced i ?b = prefix_at p forced i (assignments st)" if "i \<le> ?k" for i
    by (rule prefix_at_taken[OF assms(1) that ok])
  have sel: "value_selectors st' i = value_selectors st i" "success_count st' i = success_count st i" if "i < ?k" for i
    using that st'(3) by (simp_all add: kept_below_def taken_def)
  have selk: "value_selectors st' ?k = Some q" "success_count st' ?k \<noteq> None" "success_count st' ?k \<noteq> Some 0"
    using st'(3) by (simp_all add: kept_below_def taken_def)
  have r: "value_selectors st i \<noteq> None \<and> null_link \<notin> set (queue st i) \<and> success_count st i \<noteq> None
      \<and> (success_count st i = Some 0 \<longrightarrow> untried env p i (prefix_at p forced i (assignments st)) (queue st i))"
    if "i \<le> ?k" for i using assms(1) that by (simp add: running_def Let_def)
  have lev: "value_selectors st' i \<noteq> None \<and> null_link \<notin> set (queue st' i) \<and> success_count st' i \<noteq> None
      \<and> (success_count st' i = Some 0 \<longrightarrow> untried env p i (prefix_at p forced i ?b) (queue st' i))"
    if i: "i \<le> Suc ?k" for i
  proof -
    consider "i < ?k" | "i = ?k" | "i = Suc ?k" using i by linarith
    then show ?thesis
    proof cases
      case 1 then show ?thesis using r[of i] sel low by simp
    next
      case 2 then show ?thesis using r[of i] selk assms(2) by simp
    next
      case 3 then show ?thesis
        using k(2) st'(4) no_null[OF ok] prefix_at_self[OF part] by (auto simp: untried_def)
    qed
  qed
  have "dom (map_of ?b) = dom (map_of forced) \<union> set (take (Suc ?k) ?fv)" using part by (simp add: partial_at_def)
  moreover have "set (take (Suc ?k) ?fv) \<subseteq> set (take (Suc (Suc ?k)) ?fv)"
    by (rule set_take_subset_set_take) simp
  ultimately have "running env p forced st'"
    using k lev assms(3) by (auto simp: running_def Let_def)
  then show ?thesis
    using st'(1,5) k sel selk low prefix_at_self[OF part]
    by (intro that[of st']) (simp_all add: level_reports_def taken_def)
qed

text \<open>A solution is reported and the last variable stays current.\<close>

lemma on_success_report:
  assumes "running env p forced st" "queue st (current_var_index st) = v # q"
    "Suc (current_var_index st) = length (free_variables p)"
    and ok: "ok env p forced"
  obtains st' where "AssignSuccessful env p (taken p forced st v q n) = Inr st'" "running env p forced st'"
    "current_var_index st' = current_var_index st"
    "reports st' = reports st @ [Solution (free_part forced (assignments (taken p forced st v q n)))]"
    "\<And>i. i < current_var_index st \<Longrightarrow> level_reports env p forced st' i = level_reports env p forced st i"
    "level_reports env p forced st' (current_var_index st) = search env p forced (current_var_index st)
       (prefix_at p forced (current_var_index st) (assignments st)) q"
proof -
  let ?k = "current_var_index st" and ?s = "taken p forced st v q n" and ?fv = "free_variables p"
  let ?a = "prefix_at p forced ?k (assignments st)" and ?b = "assignments ?s"
  have asg: "assignments ?s = map_put (?fv ! ?k) v ?a" by (simp add: taken_def)
  from AssignSuccessful_report[OF ready[OF ok] running_taken[OF assms(1,2) ok] asg assms(3)] obtain st' where
    st': "AssignSuccessful env p ?s = Inr st'" "at_level p forced ?k ?a q st'" "kept_below ?k ?s st'"
      "reports st' = reports ?s @ [Solution (free_part forced ?b)]" by blast
  have k: "current_var_index st' = ?k" "assignments st' = ?b" "forced_assignments st' = forced" "sorted_map ?b"
      "value_selectors st' ?k = Some q"
    using st'(2,3) by (simp_all add: at_level_def kept_below_def)
  have low: "prefix_at p forced i ?b = prefix_at p forced i (assignments st)" if "i \<le> ?k" for i
    by (rule prefix_at_taken[OF assms(1) that ok])
  have sel: "value_selectors st' i = value_selectors st i" "success_count st' i = success_count st i" if "i < ?k" for i
    using that st'(3) by (simp_all add: kept_below_def taken_def)
  have selk: "success_count st' ?k \<noteq> None" "success_count st' ?k \<noteq> Some 0"
    using st'(3) by (simp_all add: kept_below_def)
  have r: "value_selectors st i \<noteq> None \<and> null_link \<notin> set (queue st i) \<and> success_count st i \<noteq> None
      \<and> (success_count st i = Some 0 \<longrightarrow> untried env p i (prefix_at p forced i (assignments st)) (queue st i))"
    if "i \<le> ?k" for i using assms(1) that by (simp add: running_def Let_def)
  have lev: "value_selectors st' i \<noteq> None \<and> null_link \<notin> set (queue st' i) \<and> success_count st' i \<noteq> None
      \<and> (success_count st' i = Some 0 \<longrightarrow> untried env p i (prefix_at p forced i ?b) (queue st' i))"
    if i: "i \<le> ?k" for i
  proof (cases "i = ?k")
    case True then show ?thesis using r[of i] k(5) selk assms(2) by simp
  next
    case False then show ?thesis using r[of i] sel low i by simp
  qed
  have "dom (map_of ?b) = dom (map_of forced) \<union> set (take (Suc ?k) ?fv)"
    using at_level_dom_put[OF running_taken[OF assms(1,2) ok]] asg by simp
  moreover have "set (take ?k ?fv) \<subseteq> set (take (Suc ?k) ?fv)"
    by (rule set_take_subset_set_take) simp
  ultimately have "running env p forced st'"
    using k lev assms(3) by (auto simp: running_def Let_def)
  then show ?thesis
    using st'(1,4) k sel low by (intro that[of st']) (simp_all add: level_reports_def taken_def)
qed

end

text \<open>The reports still to be made bound the number of iterations.\<close>

definition remaining :: "csp_env \<Rightarrow> plan \<Rightarrow> Assignments \<Rightarrow> solver \<Rightarrow> nat \<Rightarrow> nat" where
  "remaining env p forced st n = (\<Sum>i<n. length (level_reports env p forced st i))"

lemma remaining_Suc: "remaining env p forced st (Suc n)
    = remaining env p forced st n + length (level_reports env p forced st n)"
  by (simp add: remaining_def)

lemma remaining_cong:
  "(\<And>i. i < n \<Longrightarrow> level_reports env p forced st i = level_reports env p forced st' i) \<Longrightarrow>
     remaining env p forced st n = remaining env p forced st' n"
  by (simp add: remaining_def)

lemma remaining_mono: "m \<le> n \<Longrightarrow> remaining env p forced st m \<le> remaining env p forced st n"
  unfolding remaining_def by (intro sum_mono2) auto

lemma pending_skip:
  assumes "j < k" "\<And>i. j < i \<Longrightarrow> i < k \<Longrightarrow> solutions (level_reports env p forced st i) = []"
  shows "pending env p forced st k = pending env p forced st (Suc j)"
  using assms
proof (induction k)
  case (Suc k)
  then show ?case by (cases "j = k") (auto simp: pending_Suc)
qed simp

context solver_methods
begin

lemma iteration_hit:
  assumes "running env p forced st" "queue st (current_var_index st) = v # q"
    "consistent_at env p (current_var_index st)
        (map_put (free_variables p ! current_var_index st) v (prefix_at p forced (current_var_index st) (assignments st)))"
    and ok: "ok env p forced"
  obtains n where "iteration env p rej st = bindE (AssignSuccessful env p (taken p forced st v q n)) (\<lambda>s. Inr (False, s))"
proof -
  have v: "v \<noteq> null_link" using assms(1,2) by (auto simp: running_def Let_def)
  have lev: "at_level p forced (current_var_index st) (prefix_at p forced (current_var_index st) (assignments st)) (v # q) st"
    using running_at_level[OF vars_ok[OF ok] assms(1)] assms(2) by simp
  obtain u where u: "TryFindNextConsistentValue env p (current_var_index st) st = Inr ((v, u),
      st\<lparr>value_selectors := (value_selectors st)(current_var_index st \<mapsto> q),
         assignments := map_put (free_variables p ! current_var_index st) v
           (prefix_at p forced (current_var_index st) (assignments st))\<rparr>)" (is "_ = Inr (_, ?s)")
    using TryFind_hit[OF ready[OF ok] lev v assms(3)] .
  obtain n where "on_success env p ?s = AssignSuccessful env p (?s\<lparr>conflicted_count := n\<rparr>)" using on_success by blast
  then show ?thesis using u v by (intro that[of n]) (simp add: solve_iteration_def taken_def)
qed

lemma iteration_end:
  assumes "running env p forced st" "queue st (current_var_index st) = []"
    and ok: "ok env p forced"
  obtains cease st' where "iteration env p rej st = Inr (cease, st')" "solutions (reports st') = solutions (reports st)"
    "open_rejections p (reports st) \<Longrightarrow> open_rejections p (reports st')"
    "cease \<Longrightarrow> pending env p forced st (current_var_index st) = []"
    "\<not> cease \<Longrightarrow> running env p forced st'" "\<not> cease \<Longrightarrow> current_var_index st' < current_var_index st"
    "\<And>i. \<not> cease \<Longrightarrow> i \<le> current_var_index st' \<Longrightarrow> level_reports env p forced st' i = level_reports env p forced st i"
    "\<And>i. \<not> cease \<Longrightarrow> current_var_index st' < i \<Longrightarrow> i < current_var_index st \<Longrightarrow> solutions (level_reports env p forced st i) = []"
proof -
  let ?k = "current_var_index st"
  have lev: "at_level p forced ?k (prefix_at p forced ?k (assignments st)) [] st"
    using running_at_level[OF vars_ok[OF ok] assms(1)] assms(2) by simp
  then have "(value_selectors st)(?k \<mapsto> []) = value_selectors st" by (auto simp: at_level_def)
  with TryFind_end[OF ready[OF ok] lev] have tf: "TryFindNextConsistentValue env p ?k st = Inr ((null_link, []), st)" by simp
  obtain cease st' where f: "on_failure p st = Inr (cease, st')" "quiet p st st'"
      "if cease then pending env p forced st ?k = []
       else running env p forced st' \<and> current_var_index st' < ?k
         \<and> (\<forall>i \<le> current_var_index st'. level_reports env p forced st' i = level_reports env p forced st i)
         \<and> (\<forall>i. current_var_index st' < i \<longrightarrow> i < ?k \<longrightarrow> solutions (level_reports env p forced st i) = [])"
    using on_failure[OF ok assms(1,2)] by blast
  let ?s = "report_rejection rej st'"
  have "iteration env p rej st = Inr (cease, ?s)" using tf f(1) by (simp add: solve_iteration_def)
  moreover have "solutions (reports ?s) = solutions (reports st)"
    "open_rejections p (reports st) \<Longrightarrow> open_rejections p (reports ?s)"
    using f(2) by (simp_all add: report_rejection_def quiet_def)
  moreover have "running env p forced ?s = running env p forced st'"
    "current_var_index ?s = current_var_index st'" "level_reports env p forced ?s = level_reports env p forced st'"
    by (simp_all add: report_rejection_def running_def level_reports_def fun_eq_iff)
  ultimately show ?thesis using f(3) by (intro that[of cease ?s]) (simp_all split: if_splits)
qed

text \<open>One round of the loop: a smaller state is reached, and what was reported and what is pending
  keep their sum.\<close>

definition smaller :: "csp_env \<Rightarrow> plan \<Rightarrow> Assignments \<Rightarrow> (solver \<times> solver) set" where
  "smaller env p forced = measures [\<lambda>st. remaining env p forced st (Suc (current_var_index st)),
     \<lambda>st. length (free_variables p) - current_var_index st, \<lambda>st. length (queue st (current_var_index st))]"

definition round :: "csp_env \<Rightarrow> plan \<Rightarrow> Assignments \<Rightarrow> bool \<Rightarrow> solver \<Rightarrow> solver \<Rightarrow> bool" where
  "round env p forced rej st st' \<longleftrightarrow> (st', st) \<in> smaller env p forced \<and> running env p forced st'
     \<and> solve_loop (iteration env p rej) st = solve_loop (iteration env p rej) st'
     \<and> (open_rejections p (reports st) \<longrightarrow> open_rejections p (reports st'))
     \<and> solutions (reports st') @ pending env p forced st' (Suc (current_var_index st'))
       = solutions (reports st) @ pending env p forced st (Suc (current_var_index st))"

lemma round_end:
  assumes "running env p forced st" "queue st (current_var_index st) = []"
    and ok: "ok env p forced"
  shows "(\<exists>st'. round env p forced rej st st') \<or> (\<exists>st'. solve_loop (iteration env p rej) st = Some (Inr st')
    \<and> (open_rejections p (reports st) \<longrightarrow> open_rejections p (reports st'))
    \<and> solutions (reports st') = solutions (reports st) @ pending env p forced st (Suc (current_var_index st)))"
proof -
  let ?k = "current_var_index st" and ?it = "iteration env p rej"
  obtain cease st' where e: "?it st = Inr (cease, st')" "solutions (reports st') = solutions (reports st)"
    "open_rejections p (reports st) \<Longrightarrow> open_rejections p (reports st')"
    "cease \<Longrightarrow> pending env p forced st ?k = []"
    "\<not> cease \<Longrightarrow> running env p forced st'" "\<not> cease \<Longrightarrow> current_var_index st' < ?k"
    "\<And>i. \<not> cease \<Longrightarrow> i \<le> current_var_index st' \<Longrightarrow> level_reports env p forced st' i = level_reports env p forced st i"
    "\<And>i. \<not> cease \<Longrightarrow> current_var_index st' < i \<Longrightarrow> i < ?k \<Longrightarrow> solutions (level_reports env p forced st i) = []"
    by (rule iteration_end[OF assms, of rej]) blast
  note loop = solve_loop_step[of ?it, OF e(1)]
  let ?j = "current_var_index st'"
  have top: "level_reports env p forced st ?k = [Rejection (prefix_at p forced ?k (assignments st))]"
    using assms(2) by (simp add: level_reports_def)
  show ?thesis
  proof (cases cease)
    case True
    with loop e(2-4) top show ?thesis by (simp add: pending_Suc)
  next
    case False
    have "remaining env p forced st' (Suc ?j) = remaining env p forced st (Suc ?j)"
      using e(7)[OF False] by (intro remaining_cong) simp
    also have "\<dots> \<le> remaining env p forced st ?k" using e(6)[OF False] by (intro remaining_mono) simp
    finally have "remaining env p forced st' (Suc ?j) < remaining env p forced st (Suc ?k)"
      using top by (simp add: remaining_Suc)
    moreover have "pending env p forced st' (Suc ?j) = pending env p forced st (Suc ?k)"
      using pending_cong[of "Suc ?j" env p forced st' st] e(7)[OF False] top
        pending_skip[OF e(6)[OF False], of env p forced st] e(8)[OF False] by (simp add: pending_Suc)
    ultimately have "round env p forced rej st st'"
      using loop False e(2,3,5) by (simp add: round_def smaller_def)
    then show ?thesis by blast
  qed
qed

lemma level_reports_Cons:
  assumes "running env p forced st" "queue st (current_var_index st) = v # q"
  shows "v \<noteq> null_link" "level_reports env p forced st (current_var_index st)
    = (let k = current_var_index st; a = prefix_at p forced k (assignments st);
           b = map_put (free_variables p ! k) v a
       in (if consistent_at env p k b
         then (if Suc k < length (free_variables p) then search env p forced (Suc k) b (candidates env p (Suc k) b)
               else [Solution (free_part forced b)]) else []) @ search env p forced k a q)"
proof -
  show "v \<noteq> null_link" using assms by (auto simp: running_def Let_def)
  with assms(2) show "level_reports env p forced st (current_var_index st)
    = (let k = current_var_index st; a = prefix_at p forced k (assignments st);
           b = map_put (free_variables p ! k) v a
       in (if consistent_at env p k b
         then (if Suc k < length (free_variables p) then search env p forced (Suc k) b (candidates env p (Suc k) b)
               else [Solution (free_part forced b)]) else []) @ search env p forced k a q)"
    by (simp add: level_reports_def Let_def)
qed

lemma round_skip:
  assumes "running env p forced st" "queue st (current_var_index st) = v # q"
    "\<not> consistent_at env p (current_var_index st)
        (map_put (free_variables p ! current_var_index st) v (prefix_at p forced (current_var_index st) (assignments st)))"
    and ok: "ok env p forced"
  shows "\<exists>st'. round env p forced rej st st'"
proof -
  let ?k = "current_var_index st" and ?it = "iteration env p rej"
  let ?a = "prefix_at p forced ?k (assignments st)"
  let ?s = "st\<lparr>value_selectors := (value_selectors st)(?k \<mapsto> q), assignments := ?a\<rparr>"
  note lr = level_reports_Cons[OF assms(1,2)]
  have lev: "at_level p forced ?k ?a (v # q) st" using running_at_level[OF vars_ok[OF ok] assms(1)] assms(2) by simp
  note loop = solve_loop_cong[of ?it, OF solve_iteration_skip[OF ready[OF ok] lev lr(1) assms(3)]]
  have same: "level_reports env p forced ?s i = level_reports env p forced st i" if "i \<le> ?k" for i
  proof (cases "i = ?k")
    case True
    then show ?thesis using lr(2) assms(3) by (simp add: Let_def) (simp add: level_reports_def prefix_at_prefix_at)
  next
    case False
    then show ?thesis using that by (simp add: level_reports_def prefix_at_prefix_at)
  qed
  then have "remaining env p forced ?s (Suc ?k) = remaining env p forced st (Suc ?k)"
    "pending env p forced ?s (Suc ?k) = pending env p forced st (Suc ?k)"
    by (auto intro!: remaining_cong pending_cong)
  with loop running_skip[OF assms(1-3)] assms(2) have "round env p forced rej st ?s" by (simp add: round_def smaller_def)
  then show ?thesis by blast
qed

lemma round_hit:
  assumes "running env p forced st" "queue st (current_var_index st) = v # q"
    "consistent_at env p (current_var_index st)
        (map_put (free_variables p ! current_var_index st) v (prefix_at p forced (current_var_index st) (assignments st)))"
    and ok: "ok env p forced"
  shows "\<exists>st'. round env p forced rej st st'"
proof -
  let ?k = "current_var_index st" and ?fv = "free_variables p" and ?it = "iteration env p rej"
  let ?a = "prefix_at p forced ?k (assignments st)"
  let ?b = "map_put (?fv ! ?k) v ?a"
  note lr = level_reports_Cons[OF assms(1,2)]
  obtain n where it: "?it st = bindE (AssignSuccessful env p (taken p forced st v q n)) (\<lambda>s. Inr (False, s))"
    using iteration_hit[OF assms] .
  have asg: "assignments (taken p forced st v q n) = ?b" by (simp add: taken_def)
  have loop: "solve_loop ?it st = solve_loop ?it st'" if "AssignSuccessful env p (taken p forced st v q n) = Inr st'" for st'
    using solve_loop_step[of ?it st False st'] it that by simp
  have keep: "remaining env p forced st' ?k = remaining env p forced st ?k"
    "pending env p forced st' ?k = pending env p forced st ?k"
    if "\<And>i. i < ?k \<Longrightarrow> level_reports env p forced st' i = level_reports env p forced st i" for st'
    using that by (auto intro!: remaining_cong pending_cong)
  have "?k < length ?fv" using assms(1) by (simp add: running_def Let_def)
  then consider "Suc ?k < length ?fv" | "Suc ?k = length ?fv" by linarith
  then show ?thesis
  proof cases
    case 1
    obtain st' where st': "AssignSuccessful env p (taken p forced st v q n) = Inr st'" "running env p forced st'"
      "current_var_index st' = Suc ?k" "reports st' = reports st"
      "\<And>i. i < ?k \<Longrightarrow> level_reports env p forced st' i = level_reports env p forced st i"
      "level_reports env p forced st' ?k = search env p forced ?k ?a q"
      "level_reports env p forced st' (Suc ?k) = search env p forced (Suc ?k) ?b (candidates env p (Suc ?k) ?b)"
      using on_success_advance[OF assms(1,2) 1 ok, of n] unfolding asg by blast
    have "remaining env p forced st' (Suc (Suc ?k)) = remaining env p forced st (Suc ?k)"
      "pending env p forced st' (Suc (Suc ?k)) = pending env p forced st (Suc ?k)"
      using keep[OF st'(5)] st'(6,7) lr(2) 1 assms(3) by (simp_all add: remaining_Suc pending_Suc Let_def)
    moreover have "length ?fv - Suc ?k < length ?fv - ?k" using 1 by linarith
    ultimately have "round env p forced rej st st'"
      using st'(2-4) loop[OF st'(1)] by (simp add: round_def smaller_def)
    then show ?thesis by blast
  next
    case 2
    obtain st' where st': "AssignSuccessful env p (taken p forced st v q n) = Inr st'" "running env p forced st'"
      "current_var_index st' = ?k" "reports st' = reports st @ [Solution (free_part forced ?b)]"
      "\<And>i. i < ?k \<Longrightarrow> level_reports env p forced st' i = level_reports env p forced st i"
      "level_reports env p forced st' ?k = search env p forced ?k ?a q"
      using on_success_report[OF assms(1,2) 2 ok, of n] unfolding asg by blast
    have last: "\<not> Suc ?k < length ?fv" using 2 by simp
    have "remaining env p forced st' (Suc ?k) < remaining env p forced st (Suc ?k)"
      "free_part forced ?b # pending env p forced st' (Suc ?k) = pending env p forced st (Suc ?k)"
      using keep[OF st'(5)] st'(6) lr(2) last assms(3) by (simp_all add: remaining_Suc pending_Suc Let_def)
    then have "round env p forced rej st st'"
      using st'(2-4) loop[OF st'(1)] by (simp add: round_def smaller_def)
    then show ?thesis by blast
  qed
qed

lemma wf_smaller: "wf (smaller env p forced)"
  by (simp add: smaller_def)

theorem loop_reports_pending:
  assumes "running env p forced st"
    and ok: "ok env p forced"
  shows "\<exists>st'. solve_loop (iteration env p rej) st = Some (Inr st')
    \<and> (open_rejections p (reports st) \<longrightarrow> open_rejections p (reports st'))
    \<and> solutions (reports st') = solutions (reports st) @ pending env p forced st (Suc (current_var_index st))"
  using wf_smaller[of env p forced] assms(1)
proof (induction st)
  case (less st)
  have "(\<exists>st'. round env p forced rej st st') \<or> (\<exists>st'. solve_loop (iteration env p rej) st = Some (Inr st')
    \<and> (open_rejections p (reports st) \<longrightarrow> open_rejections p (reports st'))
    \<and> solutions (reports st') = solutions (reports st) @ pending env p forced st (Suc (current_var_index st)))"
    using round_end[OF less(2) _ ok] round_skip[OF less(2) _ _ ok] round_hit[OF less(2) _ _ ok]
    by (cases "queue st (current_var_index st)") blast+
  then show ?case
  proof
    assume "\<exists>st'. round env p forced rej st st'"
    then obtain st' where st': "round env p forced rej st st'" by blast
    with less(1)[of st'] show ?thesis by (auto simp: round_def)
  qed
qed

end

text \<open>The state in which \<^verbatim>\<open>Solve\<close> enters its loop.\<close>

lemma make_selector_running:
  assumes "ready env p forced" "null_link \<notin> set (candidates env p 0 forced)" "free_variables p \<noteq> []"
    "forced_assignments st = forced" "assignments st = forced"
  obtains st' where "make_selector env p (st\<lparr>current_var_index := 0\<rparr>) = Inr st'" "running env p forced st'"
    "reports st' = reports st" "current_var_index st' = 0"
    "level_reports env p forced st' 0 = search env p forced 0 forced (candidates env p 0 forced)"
proof -
  let ?q = "candidates env p 0 forced"
  let ?st = "st\<lparr>current_var_index := 0, value_selectors := (value_selectors st)(0 \<mapsto> ?q),
      success_count := (success_count st)(0 \<mapsto> 0)\<rparr>"
  have r: "sorted_map forced" "suggestions_ok env" "0 < length (affected_constraints p)"
    using assms(1,3) by (simp_all add: ready_def)
  have self: "prefix_at p forced 0 forced = forced"
    using r(1) by (intro prefix_at_self) (simp add: partial_at_def)
  have "make_selector env p (st\<lparr>current_var_index := 0\<rparr>) = Inr ?st"
    using r assms(3,5) new_ValueSelector_candidates[OF r(2), of p 0 forced]
    by (simp add: make_selector_def Let_def)
  moreover have "running env p forced ?st"
    using assms r self by (auto simp: running_def Let_def untried_def)
  ultimately show ?thesis
    using self assms(5) by (intro that[of ?st]) (simp_all add: level_reports_def)
qed

context solver_methods
begin

theorem Run_expected:
  assumes "ok env p forced" "forced_assignments st = forced" "assignments st = forced"
  shows "\<exists>st'. Run env p rej (Solve env p rej (on_success env p) (on_failure p)) st = Some (Inr st')
    \<and> solutions (reports st') = solutions (reports st) @ expected env p forced
    \<and> (free_variables p \<noteq> [] \<longrightarrow> open_rejections p (reports st) \<longrightarrow> open_rejections p (reports st'))"
proof -
  consider "\<not> (\<forall>c \<in> set (fully_forced_constraint_set p). IsSatisfied env c forced)"
    | "\<forall>c \<in> set (fully_forced_constraint_set p). IsSatisfied env c forced" "free_variables p = []"
    | "\<forall>c \<in> set (fully_forced_constraint_set p). IsSatisfied env c forced" "free_variables p \<noteq> []" by blast
  then show ?thesis
  proof cases
    case 1
    then show ?thesis using assms(3) by (auto simp: Run_def ConsistencyCheck_fst expected_def run_reports_def)
  next
    case 2
    then show ?thesis using assms(3) by (auto simp: Run_def ConsistencyCheck_fst expected_def run_reports_def)
  next
    case 3
    obtain st1 where st1: "make_selector env p (st\<lparr>current_var_index := 0\<rparr>) = Inr st1" "running env p forced st1"
      "reports st1 = reports st" "current_var_index st1 = 0"
      "level_reports env p forced st1 0 = search env p forced 0 forced (candidates env p 0 forced)"
      by (rule make_selector_running[OF ready[OF assms(1)] no_null[OF assms(1)] 3(2) assms(2,3)])
    have "pending env p forced st1 (Suc (current_var_index st1)) = expected env p forced"
      using 3 st1(4,5) by (auto simp: pending_def expected_def run_reports_def)
    with loop_reports_pending[OF st1(2) assms(1), of rej] st1 3 assms(3) show ?thesis
      by (auto simp: Run_def Solve_def ConsistencyCheck_fst)
  qed
qed

end

section \<open>Retreating\<close>

lemma AssignUnsuccessful_running:
  assumes "plan_vars_ok p forced" "running env p forced st"
  shows "\<exists>st'. AssignUnsuccessful p st = Inr (current_var_index st = 0, st') \<and> quiet p st st'
    \<and> (0 < current_var_index st \<longrightarrow> running env p forced st' \<and> current_var_index st' = current_var_index st - 1)
    \<and> (\<forall>i < current_var_index st. level_reports env p forced st' i = level_reports env p forced st i)"
proof -
  let ?k = "current_var_index st"
  let ?a = "prefix_at p forced ?k (assignments st)"
  let ?st' = "st\<lparr>value_selectors := (value_selectors st)(?k := None), assignments := ?a, current_var_index := ?k - 1\<rparr>"
  have "AssignUnsuccessful p st = Inr (?k = 0, ?st')"
    by (rule AssignUnsuccessful_eq[OF running_at_level[OF assms]])
  moreover have "running env p forced ?st'" if "0 < ?k"
  proof -
    have "dom (map_of ?a) = dom (map_of forced) \<union> set (take ?k (free_variables p))"
      using running_partial_at[OF assms(2) order.refl] by (simp add: partial_at_def)
    moreover have "set (take (?k - 1) (free_variables p)) \<subseteq> set (take ?k (free_variables p))"
      by (rule set_take_subset_set_take) simp
    ultimately show ?thesis
      using assms(2) that by (auto simp: running_def Let_def prefix_at_prefix_at)
  qed
  moreover have "level_reports env p forced ?st' i = level_reports env p forced st i" if "i < ?k" for i
    using that by (simp add: level_reports_def prefix_at_prefix_at)
  moreover have "quiet p st ?st'"
    using last_not_prefix[OF assms(1), of ?k] assms(2) by (auto simp: quiet_def running_def Let_def)
  ultimately show ?thesis by (intro exI[of _ ?st']) simp
qed

text \<open>The jump passes only over variables that are not suspects.\<close>

lemma backjump_loop_spec:
  assumes "plan_vars_ok p forced" "running env p forced st"
  shows "\<exists>cease st'. backjump_loop p vars can st = Inr (cease, st') \<and> quiet p st st'
    \<and> (if cease then (\<forall>i < current_var_index st. i \<notin> set vars \<and> can)
       else running env p forced st' \<and> current_var_index st' < current_var_index st
         \<and> (\<forall>i \<le> current_var_index st'. level_reports env p forced st' i = level_reports env p forced st i)
         \<and> (\<forall>i. current_var_index st' < i \<longrightarrow> i < current_var_index st \<longrightarrow> i \<notin> set vars \<and> can))"
  using assms(2)
proof (induction "current_var_index st" arbitrary: st rule: less_induct)
  case less
  let ?k = "current_var_index st"
  obtain st' where st': "AssignUnsuccessful p st = Inr (?k = 0, st')" "quiet p st st'"
    "0 < ?k \<longrightarrow> running env p forced st' \<and> current_var_index st' = ?k - 1"
    "\<forall>i < ?k. level_reports env p forced st' i = level_reports env p forced st i"
    using AssignUnsuccessful_running[OF assms(1) less(2)] by (elim exE conjE) (rule that)
  consider "?k = 0" | "0 < ?k" "current_var_index st' \<notin> set vars \<and> can"
    | "0 < ?k" "\<not> (current_var_index st' \<notin> set vars \<and> can)" by blast
  then show ?case
  proof cases
    case 1
    with st'(1,2) show ?thesis
      by (intro exI[of _ True] exI[of _ st']) (simp add: backjump_loop.simps[of p vars can st])
  next
    case 2
    have j: "current_var_index st' < ?k" "running env p forced st'" "current_var_index st' = ?k - 1"
      using st'(3) 2(1) by simp_all
    have loop: "backjump_loop p vars can st = backjump_loop p vars can st'"
      using st'(1) 2 by (subst backjump_loop.simps) simp
    have below: "i < current_var_index st' \<or> i = current_var_index st'" if "i < ?k" for i using that j(3) by auto
    obtain cease st'' where ih: "backjump_loop p vars can st' = Inr (cease, st'')" "quiet p st' st''"
      "if cease then (\<forall>i < current_var_index st'. i \<notin> set vars \<and> can)
       else running env p forced st'' \<and> current_var_index st'' < current_var_index st'
         \<and> (\<forall>i \<le> current_var_index st''. level_reports env p forced st'' i = level_reports env p forced st' i)
         \<and> (\<forall>i. current_var_index st'' < i \<longrightarrow> i < current_var_index st' \<longrightarrow> i \<notin> set vars \<and> can)"
      using less(1)[OF j(1,2)] by blast
    show ?thesis
    proof (cases cease)
      case True
      then have "\<forall>i < ?k. i \<notin> set vars \<and> can" using ih(3) below 2(2) by auto
      with True ih(1) quiet_trans[OF st'(2) ih(2)] show ?thesis by (intro exI[of _ True] exI[of _ st'']) (simp add: loop)
    next
      case False
      with ih(3) have s: "running env p forced st''" "current_var_index st'' < current_var_index st'"
        "\<And>i. i \<le> current_var_index st'' \<Longrightarrow> level_reports env p forced st'' i = level_reports env p forced st' i"
        "\<And>i. current_var_index st'' < i \<Longrightarrow> i < current_var_index st' \<Longrightarrow> i \<notin> set vars \<and> can"
        by simp_all
      have "\<forall>i. current_var_index st'' < i \<longrightarrow> i < ?k \<longrightarrow> i \<notin> set vars \<and> can"
        using s(4) below 2(2) by blast
      moreover have "\<forall>i \<le> current_var_index st''. level_reports env p forced st'' i = level_reports env p forced st i"
        using s(2,3) st'(4) j(1) by auto
      ultimately show ?thesis
        using False ih(1) quiet_trans[OF st'(2) ih(2)] s(1,2) j(1) unfolding loop by (intro exI[of _ False] exI[of _ st'']) simp
    qed
  next
    case 3
    have "running env p forced (st'\<lparr>conflicted_count := n\<rparr>) = running env p forced st'"
      "level_reports env p forced (st'\<lparr>conflicted_count := n\<rparr>) = level_reports env p forced st'"
      "quiet p st (st'\<lparr>conflicted_count := n\<rparr>) = quiet p st st'" for n
      by (simp_all add: running_def level_reports_def fun_eq_iff quiet_def)
    with st' 3 show ?thesis
      by (auto simp: backjump_loop.simps[of p vars can st])
  qed
qed

section \<open>Why a jump loses nothing\<close>

text \<open>A constraint asked for suggestions looks at its own variables only, as it does when it is
  checked.\<close>

definition suggestions_local :: "csp_env \<Rightarrow> bool" where
  "suggestions_local env \<longleftrightarrow>
     (\<forall>c a b x. sorted_map a \<longrightarrow> sorted_map b \<longrightarrow> (\<forall>y \<in> set (GetVariables env c). map_of a y = map_of b y)
        \<longrightarrow> GetSuggestedValues env c a x = GetSuggestedValues env c b x)"

lemma candidates_local:
  assumes "suggestions_local env" "sorted_map a" "sorted_map b"
    "\<And>c y. c \<in> set (affected_constraints p ! k) \<Longrightarrow> y \<in> set (GetVariables env c) \<Longrightarrow> map_of a y = map_of b y"
  shows "candidates env p k a = candidates env p k b"
proof -
  have "mapE (query_suggestion env a x) (affected_constraints p ! k)
      = mapE (query_suggestion env b x) (affected_constraints p ! k)" for x
  proof (rule mapE_cong[OF refl])
    fix c assume "c \<in> set (affected_constraints p ! k)"
    then have "GetSuggestedValues env c a x = GetSuggestedValues env c b x"
      using assms unfolding suggestions_local_def by blast
    then show "query_suggestion env a x c = query_suggestion env b x c" by (simp add: query_suggestion_def)
  qed
  then show ?thesis by (simp add: candidates_def new_ValueSelector_def)
qed

lemma GetAffectedVariableIndices_spec:
  assumes "plan_for env C p" "set cs \<subseteq> C"
  obtains vars where "GetAffectedVariableIndices p cs = Inr vars"
    "set vars = (\<Union>c \<in> set cs. free_indices env (free_variables p) c)"
proof -
  define f where "f = (\<lambda>c all_var_indices. case free_var_indices_for_constraint p c of
         None \<Rightarrow> Inl OutOfRange | Some is \<Rightarrow> Inr (UnionOf (<) all_var_indices is))"
  have "\<exists>vars. foldE f cs s = Inr vars \<and> set vars = set s \<union> (\<Union>c \<in> set cs. free_indices env (free_variables p) c)"
    if "sorted_set s" for s
    using that assms(2)
  proof (induction cs arbitrary: s)
    case (Cons c cs)
    then obtain "is" where i: "free_var_indices_for_constraint p c = Some is" "sorted_set is"
      "set is = free_indices env (free_variables p) c"
      using assms(1) by (auto simp: plan_for_def Let_def represents_def)
    with Cons(1)[of "UnionOf (<) s is"] Cons(2,3) show ?case by (auto simp: f_def)
  qed simp
  from this[of "[]"] that show ?thesis by (auto simp: GetAffectedVariableIndices_def f_def)
qed

text \<open>Two assignments that agree on what level \<open>k\<close> depends on.\<close>

lemma no_candidate_below:
  assumes "contract env" "suggestions_local env" "plan_for env C p" "plan_vars_ok p forced"
    "running env p forced st" "queue st (current_var_index st) = []" "success_count st (current_var_index st) = Some 0"
    "i < current_var_index st"
    "\<And>m c. i \<le> m \<Longrightarrow> m < current_var_index st \<Longrightarrow> c \<in> set (affected_constraints p ! current_var_index st)
       \<Longrightarrow> m \<notin> free_indices env (free_variables p) c"
  shows "solutions (level_reports env p forced st i) = []"
proof (rule ccontr)
  let ?k = "current_var_index st" and ?fv = "free_variables p" and ?A = "assignments st"
  let ?x = "?fv ! ?k" and ?D = "\<lambda>m. dom (map_of forced) \<union> set (take m ?fv)"
  assume "solutions (level_reports env p forced st i) \<noteq> []"
  then obtain s where s: "s \<in> set (solutions (search env p forced i (prefix_at p forced i ?A) (queue st i)))"
    by (metis level_reports_def last_in_set)
  have k: "?k < length ?fv" and sA: "sorted_map ?A" using assms(5) by (simp_all add: running_def Let_def)
  have i: "i < length ?fv" "i \<le> ?k" using k assms(8) by simp_all
  note part = running_partial_at[OF assms(5)]
  obtain f v where f: "completes p forced (map_put (?fv ! i) v (prefix_at p forced i ?A)) f"
    "the (map_of f ?x) \<in> set (candidates env p ?k (prefix_at p forced ?k f))"
    "consistent_at env p ?k (prefix_at p forced (Suc ?k) f)"
    using search_path[OF assms(4) part[OF i(2)] i(1) s] assms(8) k by blast
  have sf: "sorted_map f" "dom (map_of f) = dom (map_of forced) \<union> set ?fv" using f(1) by (simp_all add: completes_def)
  have low: "map_of f y = map_of ?A y" if y: "y \<in> ?D i" for y
  proof -
    have "map_of (prefix_at p forced i ?A) \<subseteq>\<^sub>m map_of f"
      using f(1) partial_at_put(2)[OF assms(4) part[OF i(2)] i(1), of v] by (auto simp: completes_def intro: map_le_trans)
    moreover have "y \<in> dom (map_of (prefix_at p forced i ?A))" using y part[OF i(2)] by (simp add: partial_at_def)
    ultimately have "map_of (prefix_at p forced i ?A) y = map_of f y" by (simp add: map_le_def)
    then show ?thesis using y by (simp add: restrict_map_def)
  qed
  have agree: "map_of (prefix_at p forced ?k f) y = map_of (prefix_at p forced ?k ?A) y"
    if c: "c \<in> set (affected_constraints p ! ?k)" "y \<in> set (GetVariables env c)" for c y
  proof (cases "y \<in> ?D ?k - ?D i")
    case True
    then have "y \<in> set (take ?k ?fv)" by blast
    then obtain m where m: "m < ?k" "y = ?fv ! m" by (auto simp: in_set_conv_nth)
    with True i have "i \<le> m" by (auto simp: in_set_conv_nth not_le)
    moreover have "m \<in> free_indices env ?fv c" using m k c(2) by (simp add: free_indices_def)
    ultimately show ?thesis using assms(9) m(1) c(1) by blast
  next
    case False
    then show ?thesis using low by (auto simp: restrict_map_def)
  qed
  have sorted: "sorted_map (prefix_at p forced ?k f)" "sorted_map (prefix_at p forced ?k ?A)" using sf(1) sA by simp_all
  have "candidates env p ?k (prefix_at p forced ?k f) = candidates env p ?k (prefix_at p forced ?k ?A)"
    by (rule candidates_local[OF assms(2) sorted agree])
  moreover have "untried env p ?k (prefix_at p forced ?k ?A) []" using assms(5,6,7) by (auto simp: running_def Let_def)
  ultimately have bad: "\<not> consistent_at env p ?k (map_put ?x (the (map_of f ?x)) (prefix_at p forced ?k ?A))"
    using f(2) by (auto simp: untried_def)
  have "IsSatisfied env c (map_put ?x (the (map_of f ?x)) (prefix_at p forced ?k ?A))"
    if c: "c \<in> set (completed_constraints p ! ?k)" for c
  proof -
    have aff: "c \<in> set (affected_constraints p ! ?k)"
      using c assms(3) k by (auto simp: plan_for_def Let_def represents_def)
    have take: "set (take (Suc ?k) ?fv) = insert ?x (set (take ?k ?fv))" using k by (simp add: take_Suc_conv_app_nth)
    have fx: "map_of f ?x = Some (the (map_of f ?x))" using sf(2) nth_mem[OF k] by (metis UnI2 domD option.sel)
    have "map_of (map_put ?x (the (map_of f ?x)) (prefix_at p forced ?k ?A)) y = map_of (prefix_at p forced (Suc ?k) f) y"
      if y: "y \<in> set (GetVariables env c)" for y
    proof (cases "y = ?x")
      case True then show ?thesis using fx take sorted by (simp add: restrict_map_def)
    next
      case False then show ?thesis
        using agree[OF aff y] take sorted by (auto simp: restrict_map_def split: if_splits)
    qed
    moreover have "IsSatisfied env c (prefix_at p forced (Suc ?k) f)" using f(3) c by (simp add: consistent_at_def)
    moreover have "sorted_map (prefix_at p forced (Suc ?k) f)" using sf(1) by simp
    moreover have "sorted_map (map_put ?x (the (map_of f ?x)) (prefix_at p forced ?k ?A))" using sA by simp
    ultimately show ?thesis using assms(1) unfolding contract_def constraints_local_def by blast
  qed
  with bad show False by (simp add: consistent_at_def)
qed

lemma pending_empty: "(\<And>i. i < n \<Longrightarrow> solutions (level_reports env p forced st i) = []) \<Longrightarrow> pending env p forced st n = []"
  by (induction n) (auto simp: pending_Suc, simp add: pending_def)

definition reference_ok :: "csp_env \<Rightarrow> plan \<Rightarrow> Assignments \<Rightarrow> bool" where
  "reference_ok env p forced \<longleftrightarrow> ready env p forced \<and> contract env"

definition backjumping_ok :: "csp_env \<Rightarrow> plan \<Rightarrow> Assignments \<Rightarrow> bool" where
  "backjumping_ok env p forced \<longleftrightarrow>
     ready env p forced \<and> contract env \<and> suggestions_local env \<and> (\<exists>C. plan_for env C p)"

lemma reference_on_failure:
  assumes "plan_vars_ok p forced" "running env p forced st"
  shows "\<exists>cease st'. AssignUnsuccessful p st = Inr (cease, st') \<and> quiet p st st'
    \<and> (if cease then pending env p forced st (current_var_index st) = []
       else running env p forced st' \<and> current_var_index st' < current_var_index st
         \<and> (\<forall>i \<le> current_var_index st'. level_reports env p forced st' i = level_reports env p forced st i)
         \<and> (\<forall>i. current_var_index st' < i \<longrightarrow> i < current_var_index st
              \<longrightarrow> solutions (level_reports env p forced st i) = []))"
proof -
  obtain st' where
    st': "AssignUnsuccessful p st = Inr (current_var_index st = 0, st')" "quiet p st st'"
      "0 < current_var_index st \<longrightarrow> running env p forced st' \<and> current_var_index st' = current_var_index st - 1"
      "\<forall>i < current_var_index st. level_reports env p forced st' i = level_reports env p forced st i"
    using AssignUnsuccessful_running[OF assms] by (elim exE conjE) (rule that)
  then show ?thesis
    by (intro exI[of _ "current_var_index st = 0"] exI[of _ st']) (auto simp: pending_def)
qed

lemma backjumping_on_failure:
  assumes "backjumping_ok env p forced" "running env p forced st" "queue st (current_var_index st) = []"
  shows "\<exists>cease st'. Backjumping_AssignUnsuccessful p st = Inr (cease, st') \<and> quiet p st st'
    \<and> (if cease then pending env p forced st (current_var_index st) = []
       else running env p forced st' \<and> current_var_index st' < current_var_index st
         \<and> (\<forall>i \<le> current_var_index st'. level_reports env p forced st' i = level_reports env p forced st i)
         \<and> (\<forall>i. current_var_index st' < i \<longrightarrow> i < current_var_index st
              \<longrightarrow> solutions (level_reports env p forced st i) = []))"
proof -
  obtain C where ok: "ready env p forced" "contract env" "suggestions_local env" "plan_for env C p"
    using assms(1) by (auto simp: backjumping_ok_def)
  note vars = ready_plan_vars_ok[OF ok(1)]
  let ?k = "current_var_index st"
  let ?can = "conflicted_count st = 0 \<and> success_count st ?k = Some 0"
  have k: "?k < length (affected_constraints p)" "?k < length (free_variables p)" "success_count st ?k \<noteq> None"
    using assms(2) ok(1) by (simp_all add: running_def ready_def Let_def)
  have "set (affected_constraints p ! ?k) \<subseteq> C" using ok(4) k by (auto simp: plan_for_def Let_def represents_def)
  from GetAffectedVariableIndices_spec[OF ok(4) this] obtain suspects where
    v: "GetAffectedVariableIndices p (affected_constraints p ! ?k) = Inr suspects"
      "set suspects = (\<Union>c \<in> set (affected_constraints p ! ?k). free_indices env (free_variables p) c)" .
  have eq: "Backjumping_AssignUnsuccessful p st = backjump_loop p suspects ?can st"
    using v(1) k by (auto simp: Backjumping_AssignUnsuccessful_def)
  have dead: "solutions (level_reports env p forced st i) = []"
    if "i < ?k" "\<And>m. i \<le> m \<Longrightarrow> m < ?k \<Longrightarrow> m \<notin> set suspects \<and> ?can" for i
    using that v(2) by (intro no_candidate_below[OF ok(2,3,4) vars assms(2,3)]) auto
  obtain cease st' where st': "backjump_loop p suspects ?can st = Inr (cease, st')" "quiet p st st'"
    "if cease then (\<forall>i < ?k. i \<notin> set suspects \<and> ?can)
       else running env p forced st' \<and> current_var_index st' < ?k
         \<and> (\<forall>i \<le> current_var_index st'. level_reports env p forced st' i = level_reports env p forced st i)
         \<and> (\<forall>i. current_var_index st' < i \<longrightarrow> i < ?k \<longrightarrow> i \<notin> set suspects \<and> ?can)"
    using backjump_loop_spec[OF vars assms(2)] by blast
  have "cease \<Longrightarrow> pending env p forced st ?k = []" using st'(3) dead by (intro pending_empty) simp
  moreover have "solutions (level_reports env p forced st i) = []"
    if "\<not> cease" "current_var_index st' < i" "i < ?k" for i using st'(3) that by (intro dead) simp_all
  ultimately show ?thesis
    using eq st' by (intro exI[of _ cease] exI[of _ st']) (simp split: if_splits)
qed

interpretation ref: solver_methods reference_ok AssignSuccessful AssignUnsuccessful
proof
  fix env p forced k a st
  show "\<exists>n. AssignSuccessful env p st = AssignSuccessful env p (st\<lparr>conflicted_count := n\<rparr>)"
    by (intro exI[of _ "conflicted_count st"]) simp
  assume ok: "reference_ok env p forced"
  then show "ready env p forced" "null_link \<notin> set (candidates env p k a)"
    using candidates_props by (auto simp: reference_ok_def)
qed (rule reference_on_failure, auto simp: reference_ok_def ready_plan_vars_ok)

interpretation bj: solver_methods backjumping_ok Backjumping_AssignSuccessful Backjumping_AssignUnsuccessful
proof
  fix env p forced k a st
  show "\<exists>n. Backjumping_AssignSuccessful env p st = AssignSuccessful env p (st\<lparr>conflicted_count := n\<rparr>)"
    by (auto simp: Backjumping_AssignSuccessful_def)
  assume ok: "backjumping_ok env p forced"
  then show "ready env p forced" "null_link \<notin> set (candidates env p k a)"
    using candidates_props by (auto simp: backjumping_ok_def)
qed (rule backjumping_on_failure)

section \<open>Properties\<close>

lemma Backjumping_Run_expected:
  assumes "backjumping_ok env p forced" "forced_assignments st = forced" "assignments st = forced"
  shows "\<exists>st'. BackjumpingSolver_Run env p rej st = Some (Inr st')
    \<and> solutions (reports st') = solutions (reports st) @ expected env p forced
    \<and> (free_variables p \<noteq> [] \<longrightarrow> open_rejections p (reports st) \<longrightarrow> open_rejections p (reports st'))"
proof (cases "(\<forall>c \<in> set (fully_forced_constraint_set p). IsSatisfied env c forced) \<and> free_variables p \<noteq> []")
  case True
  have "BackjumpingSolver_Run env p rej st
      = Run env p rej (Solve env p rej (Backjumping_AssignSuccessful env p) (Backjumping_AssignUnsuccessful p))
          (st\<lparr>conflicted_count := 0\<rparr>)"
    using True assms(3) by (auto simp: BackjumpingSolver_Run_def Run_def Backjumping_Solve_def ConsistencyCheck_fst)
  with bj.Run_expected[OF assms(1), of "st\<lparr>conflicted_count := 0\<rparr>" rej] assms(2,3) show ?thesis by simp
next
  case False
  then show ?thesis
    using assms(3) by (auto simp: BackjumpingSolver_Run_def Run_def ConsistencyCheck_fst expected_def run_reports_def)
qed

lemma started_backjumping_ok:
  assumes "contract env" "suggestions_local env" "started env cs fv df af forces p st"
  shows "backjumping_ok env p forces"
  using assms started_ready[OF assms(1,3)] by (auto simp: backjumping_ok_def)

text \<open>C2: jumping back over variables that cannot be in conflict loses nothing. For constraints that
  keep their contract and look at their own variables only, the backjumping solver returns and
  reports exactly the solutions of the backtracking solver, in the same order.\<close>

theorem Backjumping_equals_reference:
  assumes "contract env" "suggestions_local env" "started env cs fv df af forces p st"
  shows "\<exists>st1 st2. ReferenceSolver_Run env p rej st = Some (Inr st1)
    \<and> BackjumpingSolver_Run env p rej' st = Some (Inr st2)
    \<and> solutions (reports st2) = solutions (reports st1)"
proof -
  note r = started_ready[OF assms(1,3)]
  obtain st1 where st1: "ReferenceSolver_Run env p rej st = Some (Inr st1)"
    "solutions (reports st1) = expected env p forces"
    using ref.Run_expected[of env p forces st rej] r assms(1)
    by (auto simp: reference_ok_def ReferenceSolver_Run_def)
  obtain st2 where "BackjumpingSolver_Run env p rej' st = Some (Inr st2)"
    "solutions (reports st2) = expected env p forces"
    using Backjumping_Run_expected[OF started_backjumping_ok[OF assms], of st rej'] r by auto
  with st1 show ?thesis by auto
qed

lemma example_local: "suggestions_local example_env"
  by (simp add: suggestions_local_def example_env_def)

theorem Backjumping_equals_reference_witness:
  "\<exists>p st st1 st2. started example_env [0] [5] [] [] [] p st
    \<and> ReferenceSolver_Run example_env p True st = Some (Inr st1)
    \<and> BackjumpingSolver_Run example_env p True st = Some (Inr st2)
    \<and> solutions (reports st2) = solutions (reports st1)"
proof -
  obtain p st where p: "started example_env [0] [5] [] [] [] p st" by (rule example_plan)
  from Backjumping_equals_reference[OF example_contract example_local p, of True True] p show ?thesis by blast
qed

end
