(* ===== verification/Solver_Test.thy ===== *)
theory Solver_Test
  imports Backjumping "HOL-Library.Product_Lexorder"
begin

text \<open>
  The solver that checks one solver against another (\<^verbatim>\<open>vn/csp/solver_test.cpp\<close>). Its report
  functions only collect and assert, so they are run over the reports that the solver under test
  has made, in their order; the first assertion that fails is the outcome.

  Solutions are maps, and sets of them are ordered by \<^verbatim>\<open>std::map\<close>'s comparison: the lexicographical
  comparison of their pairs.
\<close>

section \<open>The harness\<close>

abbreviation solution_less :: "Assignments \<Rightarrow> Assignments \<Rightarrow> bool" where
  "solution_less \<equiv> lexicographical_compare (<)"

definition under_test_report ::
    "Assignments list \<Rightarrow> report \<Rightarrow> Assignments list \<Rightarrow> Assignments list result" where
  "under_test_report reference_solutions r under_test_solutions =
     (case r of
        Solution s \<Rightarrow>
          guardE (list_ex (\<lambda>t. equivalent solution_less t s) reference_solutions)
            (Inr (fst (container_insert solution_less s under_test_solutions)))
      | Rejection assigns \<Rightarrow>
          guardE (list_all (\<lambda>s. \<not> IsIncludes_map (<) s assigns) reference_solutions)
            (Inr under_test_solutions))"

type_synonym runner = "bool \<Rightarrow> solver \<Rightarrow> solver result option"

definition SolverTest_Start ::
    "plan \<Rightarrow> plan \<Rightarrow> Assignments \<Rightarrow> solver \<times> solver \<Rightarrow> (solver \<times> solver) result" where
  "SolverTest_Start p p' forces = (\<lambda>(reference, under_test).
     bindE (Start p forces reference) (\<lambda>reference'.
     bindE (Start p' forces under_test) (\<lambda>under_test'. Inr (reference', under_test'))))"

definition SolverTest_Stop :: "solver \<times> solver \<Rightarrow> solver \<times> solver" where
  "SolverTest_Stop = (\<lambda>(reference, under_test). (Stop reference, Stop under_test))"

text \<open>The reports of one run are those added to the state's.\<close>

definition SolverTest_Run ::
    "runner \<Rightarrow> runner \<Rightarrow> solver \<times> solver \<Rightarrow> (report list \<times> (solver \<times> solver)) result option" where
  "SolverTest_Run reference_run under_test_run = (\<lambda>(reference, under_test).
     case reference_run False (reference\<lparr>reports := []\<rparr>) of
       None \<Rightarrow> None
     | Some (Inl e) \<Rightarrow> Some (Inl e)
     | Some (Inr reference') \<Rightarrow>
         (let reference_solutions = insert_range solution_less (solutions (reports reference'))
          in case under_test_run True (under_test\<lparr>reports := []\<rparr>) of
               None \<Rightarrow> None
             | Some (Inl e) \<Rightarrow> Some (Inl e)
             | Some (Inr under_test') \<Rightarrow>
                 Some (bindE (foldE (under_test_report reference_solutions) (reports under_test') [])
                   (\<lambda>under_test_solutions.
                     guardE (size_of under_test_solutions = size_of reference_solutions)
                       (Inr (map Solution reference_solutions, (reference', under_test')))))))"

section \<open>What it checks\<close>

lemma solution_equivalent [simp]: "equivalent solution_less s t \<longleftrightarrow> s = t"
proof
  assume "equivalent solution_less s t"
  then have "list_all2 (equivalent (<)) s t"
    by (intro lin.lexicographical_compare_total) (simp_all add: equivalent_def)
  moreover have "equivalent (<) = ((=) :: nat \<times> nat \<Rightarrow> nat \<times> nat \<Rightarrow> bool)"
    by (auto simp: equivalent_def fun_eq_iff antisym_conv3)
  ultimately show "s = t" by (simp add: list_all2_eq)
qed (simp add: lex.equivalent_refl)

lemma solution_covers [simp]: "covers solution_less xs s \<longleftrightarrow> s \<in> set xs"
  by (auto simp: covers_def)

lemma solution_insert:
  assumes "sorted_wrt solution_less ss"
  shows "sorted_wrt solution_less (fst (container_insert solution_less s ss))"
    and "set (fst (container_insert solution_less s ss)) = insert s (set ss)"
  using lex.container_insert_props[OF assms, of s] by auto

lemma solution_fold:
  assumes "sorted_wrt solution_less r"
  shows "sorted_wrt solution_less (fold (\<lambda>x r. fst (container_insert solution_less x r)) xs r)
    \<and> set (fold (\<lambda>x r. fst (container_insert solution_less x r)) xs r) = set r \<union> set xs"
  using assms by (induction xs arbitrary: r) (auto simp: solution_insert)

lemma solution_set:
  "sorted_wrt solution_less (insert_range solution_less xs)" "set (insert_range solution_less xs) = set xs"
  using solution_fold[of "[]" xs] by (simp_all add: insert_range_def)

lemma sorted_solutions_distinct: "sorted_wrt solution_less ss \<Longrightarrow> distinct ss"
  by (induction ss) (auto dest: lex.irrefl[THEN notE])

lemma under_test_reports:
  assumes "sorted_wrt solution_less ut" "set (solutions rs) \<subseteq> set ref"
    "\<And>a s. Rejection a \<in> set rs \<Longrightarrow> s \<in> set ref \<Longrightarrow> \<not> IsIncludes_map (<) s a"
  shows "\<exists>ut'. foldE (under_test_report ref) rs ut = Inr ut' \<and> sorted_wrt solution_less ut'
    \<and> set ut' = set ut \<union> set (solutions rs)"
  using assms
proof (induction rs arbitrary: ut)
  case (Cons r rs)
  show ?case
  proof (cases r)
    case (Solution s)
    then have "under_test_report ref r ut = Inr (fst (container_insert solution_less s ut))"
      using Cons.prems(2) by (auto simp: under_test_report_def list_ex_iff guardE_def)
    with Cons.IH[of "fst (container_insert solution_less s ut)"] Cons.prems Solution show ?thesis
      by (auto simp: solution_insert)
  next
    case (Rejection a)
    then have "under_test_report ref r ut = Inr ut"
      using Cons.prems(3) by (auto simp: under_test_report_def list_all_iff guardE_def)
    with Cons.IH[of ut] Cons.prems Rejection show ?thesis by auto
  qed
qed simp

lemma unassigned_not_included:
  assumes "answer env cs fv forced s" "fv \<noteq> []" "sorted_map a" "last fv \<notin> dom (map_of a)"
  shows "\<not> IsIncludes_map (<) s a"
proof -
  have "sorted_map s" "last fv \<in> dom (map_of s)" using assms(1,2) by (simp_all add: answer_def)
  with IsIncludes_map_keys[of s a] assms(3,4) show ?thesis by blast
qed

section \<open>Property\<close>

text \<open>C24: the harness accepts the backjumping solver against the backtracking solver on every problem
  whose constraints keep their contract: no assertion fires, and it reports each answer once.\<close>

theorem SolverTest_accepts_backjumping:
  assumes "contract env" "suggestions_local env" "started env cs fv df af forces p st"
  shows "\<exists>rs sts. SolverTest_Run (ReferenceSolver_Run env p) (BackjumpingSolver_Run env p) (st, st)
      = Some (Inr (map Solution rs, sts))
    \<and> distinct rs \<and> set rs = set (expected env p forces) \<and> (\<forall>s \<in> set rs. answer env cs fv forces s)"
proof -
  note r = started_ready[OF assms(1,3)]
  note spec = expected_spec[OF assms(1) r(2) ready_plan_vars_ok[OF r(1)]]
  let ?st = "st\<lparr>reports := []\<rparr>" and ?E = "expected env p forces"
  let ?ref = "insert_range solution_less ?E"
  obtain st1 where st1: "ReferenceSolver_Run env p False ?st = Some (Inr st1)" "solutions (reports st1) = ?E"
    using ref.Run_expected[of env p forces ?st False] r assms(1)
    by (auto simp: reference_ok_def ReferenceSolver_Run_def)
  obtain st2 where st2: "BackjumpingSolver_Run env p True ?st = Some (Inr st2)" "solutions (reports st2) = ?E"
    "free_variables p \<noteq> [] \<longrightarrow> open_rejections p (reports st2)"
    using Backjumping_Run_expected[OF started_backjumping_ok[OF assms], of ?st True] r by auto
  have "\<not> IsIncludes_map (<) s a" if rej: "Rejection a \<in> set (reports st2)" "s \<in> set ?ref" for a s
  proof (cases "fv = []")
    case False
    have "answer env cs fv forces s" using spec(2) rej(2) r(3) solution_set(2)[of ?E] by simp
    moreover have "sorted_map a" "last fv \<notin> dom (map_of a)"
      using st2(3) False rej(1) r(3) by (auto simp: open_rejections_def)
    ultimately show ?thesis using unassigned_not_included False by blast
  next
    case True
    have "?E = []"
    proof (rule ccontr)
      assume "?E \<noteq> []"
      then have "BackjumpingSolver_Run env p True ?st = Some (Inr (?st\<lparr>reports := [Solution []]\<rparr>))"
        using True r by (auto simp: expected_def run_reports_def BackjumpingSolver_Run_def Run_def ConsistencyCheck_fst
            split: if_splits)
      then have "st2 = ?st\<lparr>reports := [Solution []]\<rparr>" using st2(1) by simp
      then have "reports st2 = [Solution []]" by simp
      with rej(1) show False by simp
    qed
    then show ?thesis using rej(2) by (simp add: insert_range_def)
  qed
  then obtain ut where ut: "foldE (under_test_report ?ref) (reports st2) [] = Inr ut" "sorted_wrt solution_less ut"
    "set ut = set ?E"
    using under_test_reports[of "[]" "reports st2" ?ref] st2(2) solution_set(2)[of ?E] by auto
  have d: "distinct ut" "distinct ?ref"
    using sorted_solutions_distinct ut(2) solution_set(1)[of ?E] by auto
  have "length ut = length ?ref"
    using distinct_card[OF d(1)] distinct_card[OF d(2)] ut(3) solution_set(2)[of ?E] by simp
  then have "SolverTest_Run (ReferenceSolver_Run env p) (BackjumpingSolver_Run env p) (st, st)
      = Some (Inr (map Solution ?ref, (st1, st2)))"
    using st1 st2(1) ut(1) by (simp add: SolverTest_Run_def Let_def)
  then show ?thesis
    using d(2) solution_set(2)[of ?E] spec(2) r(3) by (intro exI[of _ ?ref] exI[of _ "(st1, st2)"]) auto
qed

theorem SolverTest_accepts_backjumping_witness:
  "\<exists>p st rs sts. started example_env [0] [5] [] [] [] p st
    \<and> SolverTest_Run (ReferenceSolver_Run example_env p) (BackjumpingSolver_Run example_env p) (st, st)
      = Some (Inr (map Solution rs, sts)) \<and> distinct rs"
proof -
  obtain p st where p: "started example_env [0] [5] [] [] [] p st" by (rule example_plan)
  from SolverTest_accepts_backjumping[OF example_contract example_local p] p show ?thesis by blast
qed

text \<open>The check of a rejection compares keys only, and the wrong way round for its purpose: whatever
  values it holds, a rejection that leaves a free variable open passes, also when every reference
  solution extends it.\<close>

lemma rejection_check_vacuous:
  assumes "\<And>s. s \<in> set ref \<Longrightarrow> sorted_map s \<and> x \<in> dom (map_of s)" "sorted_map a" "x \<notin> dom (map_of a)"
  shows "under_test_report ref (Rejection a) ut = Inr ut"
proof -
  have "\<not> IsIncludes_map (<) s a" if "s \<in> set ref" for s
    using IsIncludes_map_keys[of s a] assms that by blast
  then show ?thesis by (simp add: under_test_report_def list_all_iff guardE_def)
qed

end
