(* ===== verification/Expressions.thy ===== *)
theory Expressions
  imports LambdaLoops Csp
begin

text \<open>
  Symbolic expressions and their evaluation (\<^verbatim>\<open>vn/sym/expression\<close>, \<^verbatim>\<open>boolean_operators\<close>,
  \<^verbatim>\<open>predicate_operators\<close>, \<^verbatim>\<open>symbol_operators\<close>, \<^verbatim>\<open>set_operators\<close>, \<^verbatim>\<open>conditional_operators\<close>).

  The class hierarchy is one datatype with a constructor per concrete class; classes that differ
  in one method only share a constructor with a tag (the four comparisons, the four child
  operators, the six operators that read the tree database, the four depth-first ranges).
  \<open>IsBoolean\<close>, \<open>IsSymbol\<close> and \<open>IsPredicate\<close> are the dynamic casts to the base classes and
  \<open>well_typed\<close> is what the static types of the constructors ensure. Objects are values: two
  objects with the same fields are not told apart, which the code never relies on.

  Trees and the tree database are parameters: records of the operations that evaluation calls.
  A predicate can be forced to a value; the forces are part of the evaluation kit.
\<close>

section \<open>Trees and the tree database, as expressions see them\<close>

datatype BoundingRole = MINIMUS | NONE_ROLE | MAXIMUS

text \<open>A node of the tree, or a node made to bound a range of an ordering.\<close>

datatype Node =
    TreeNode nat
  | MinimaxNode Node BoundingRole
  | MinimusNode int

datatype Item =
    SequenceItem "XValue list"
  | CollectionItem "XValue list"
  | SingularItem XValue

type_synonym Archetype = nat

record tree_ops =
  GetChildTreePtr :: "XValue \<Rightarrow> Node"
  CreateFrom :: "Node \<Rightarrow> XValue"
  OffEnd :: XValue
  IsSubcategory :: "Archetype \<Rightarrow> Node \<Rightarrow> bool"
  ArchetypeIsSubcategory :: "Archetype \<Rightarrow> Archetype \<Rightarrow> bool"
  Itemise :: "Archetype \<Rightarrow> Node \<Rightarrow> Item list"
  IsLocalMatch :: "Archetype \<Rightarrow> Node \<Rightarrow> bool"
  FlattenNode :: "Node \<Rightarrow> XValue list"
  simple_compare :: "Node \<Rightarrow> Node \<Rightarrow> int"
  GetLastDescendantXLink :: "XValue \<Rightarrow> XValue"

record Row =
  container_front :: XValue
  container_back :: XValue
  sequence_successor :: XValue
  sequence_predecessor :: XValue

record x_tree_db =
  TryGetRow :: "XValue \<Rightarrow> Row option"
  TryGetParentXLink :: "XValue \<Rightarrow> XValue"
  incoming_xlinks :: "Node \<Rightarrow> XValue list"
  depth_first_ordering :: "XValue list"
  simple_compare_ordering :: "Node list"
  category_ordering :: "Node list"
  DepthFirst_Compare3Way :: "XValue \<Rightarrow> XValue \<Rightarrow> int"
  SimpleCompare_Compare3Way :: "Node \<Rightarrow> Node \<Rightarrow> int"
  Category_Compare3Way :: "Node \<Rightarrow> Node \<Rightarrow> int"

section \<open>Results of evaluation\<close>

text \<open>A range result keeps the database and the bounds and is expanded only on demand. Three of its
  methods are not implemented and fail.\<close>

datatype EvalResult =
    Simple SymbolicResult
  | DepthFirstRangeResult "x_tree_db option" XValue bool XValue bool
  | SimpleCompareRangeResult "x_tree_db option" "Node option" bool "Node option" bool
  | CategoryRangeResult "x_tree_db option" "(Node option \<times> Node option) list" bool bool

definition deref :: "'a option \<Rightarrow> 'a result" where
  "deref p = (case p of None \<Rightarrow> Inl NullDeref | Some x \<Rightarrow> Inr x)"

fun Eval_IsDefinedAndUnique :: "EvalResult \<Rightarrow> bool result" where
  "Eval_IsDefinedAndUnique (Simple r) = Inr (IsDefinedAndUnique r)"
| "Eval_IsDefinedAndUnique _ = Inl AssertFail"

fun Eval_GetOnlyXLink :: "EvalResult \<Rightarrow> XValue result" where
  "Eval_GetOnlyXLink (Simple r) = GetOnlyXLink r"
| "Eval_GetOnlyXLink _ = Inl AssertFail"

fun Eval_equal :: "EvalResult \<Rightarrow> EvalResult \<Rightarrow> bool result" where
  "Eval_equal (Simple r) (Simple q) = result_equal r q"
| "Eval_equal _ _ = Inl AssertFail"

fun Eval_TryExtensionalise :: "EvalResult \<Rightarrow> XValue list option result" where
  "Eval_TryExtensionalise (Simple r) = Inr (TryExtensionalise r)"
| "Eval_TryExtensionalise (DepthFirstRangeResult pdb lower lower_incl upper upper_incl) =
     bindE (deref pdb) (\<lambda>db. bindE (DepthFirst_TryExtensionalise
       (\<lambda>l r. DepthFirst_Compare3Way db l r < 0) (depth_first_ordering db) lower lower_incl upper upper_incl)
       (\<lambda>ls. Inr (Some ls)))"
| "Eval_TryExtensionalise (SimpleCompareRangeResult pdb lower lower_incl upper upper_incl) =
     bindE (deref pdb) (\<lambda>db. bindE (SimpleCompare_TryExtensionalise
       (\<lambda>l r. SimpleCompare_Compare3Way db l r < 0) (simple_compare_ordering db) (incoming_xlinks db)
       lower lower_incl upper upper_incl) (\<lambda>ls. Inr (Some ls)))"
| "Eval_TryExtensionalise (CategoryRangeResult pdb bounds_list lower_incl upper_incl) =
     bindE (deref pdb) (\<lambda>db. bindE (Category_TryExtensionalise
       (\<lambda>l r. Category_Compare3Way db l r < 0) (category_ordering db) (incoming_xlinks db)
       bounds_list lower_incl upper_incl) (\<lambda>ls. Inr (Some ls)))"

definition Eval_SubsetResult :: "EvalResult \<Rightarrow> SubsetResult result" where
  "Eval_SubsetResult other =
     (case other of
        Simple r \<Rightarrow> SubsetResult_from r
      | _ \<Rightarrow> bindE (Eval_TryExtensionalise other) (\<lambda>links.
               case links of None \<Rightarrow> Inl AssertFail | Some xs \<Rightarrow> Inr (subset_result xs)))"

text \<open>Results of boolean expressions are always defined.\<close>

datatype BooleanResult = BooleanResult bool

fun Boolean_IsDefinedAndUnique :: "BooleanResult \<Rightarrow> bool" where
  "Boolean_IsDefinedAndUnique (BooleanResult v) = True"

fun IsDefinedAndTrue :: "BooleanResult \<Rightarrow> bool" where
  "IsDefinedAndTrue (BooleanResult v) = v"

fun IsDefinedAndFalse :: "BooleanResult \<Rightarrow> bool" where
  "IsDefinedAndFalse (BooleanResult v) = (\<not> v)"

fun GetAsBool :: "BooleanResult \<Rightarrow> bool" where
  "GetAsBool (BooleanResult v) = v"

fun Boolean_less :: "BooleanResult \<Rightarrow> BooleanResult \<Rightarrow> bool" where
  "Boolean_less (BooleanResult v) (BooleanResult w) \<longleftrightarrow> (of_bool v :: int) < of_bool w"

section \<open>Expressions\<close>

datatype Comparison = IsGreater | IsLess | IsGreaterOrEqual | IsLessOrEqual

datatype Range = AllGreater | AllLess | AllGreaterOrEqual | AllLessOrEqual

datatype ChildKind = ChildSequenceFront | ChildSequenceBack | ChildCollectionFront | SingularChild

datatype DbKind =
    Parent | LastDescendant | MyContainerFront | MyContainerBack | MySequenceSuccessor | MySequencePredecessor

datatype Expression =
    BooleanConstant bool
  | NotOperator Expression
  | AndOperator "Expression list"
  | OrOperator "Expression list"
  | BoolEqualOperator Expression Expression
  | ImplicationOperator Expression Expression
  | Uniplexor Expression Expression Expression
  | Multiplexor "Expression list" "Expression list"
  | IsEqualOperator Expression Expression
  | DepthFirstComparisonOperator Comparison Expression Expression
  | IsAllDiffOperator "Expression list"
  | IsInCategoryOperator Archetype Expression
  | IsChildCollectionSizedOperator Archetype nat Expression int
  | IsSimpleCompareEquivalentOperator Expression Expression
  | IsLocalMatchOperator Archetype Expression
  | SymbolConstant XValue
  | SymbolVariable VariableId
  | ChildOperator ChildKind Archetype nat Expression
  | XTreeDbToSymbolOperator DbKind Expression
  | AllChildrenOperator Expression
  | ComplementOperator Expression
  | UnionOperator "Expression list"
  | IntersectionOperator "Expression list"
  | DepthFirstRangeOperator Range Expression
  | AllInSimpleCompareRangeOperator Expression BoundingRole bool Expression BoundingRole bool
  | AllInCategoryRangeOperator "(Expression \<times> Expression) list" bool bool
  | ConditionalOperator Expression Expression "Expression option"
  | MultiConditionalOperator "Expression list" "Expression list"

fun IsPredicate :: "Expression \<Rightarrow> bool" where
  "IsPredicate (IsEqualOperator a b) = True"
| "IsPredicate (DepthFirstComparisonOperator c a b) = True"
| "IsPredicate (IsAllDiffOperator sa) = True"
| "IsPredicate (IsInCategoryOperator arch a) = True"
| "IsPredicate (IsChildCollectionSizedOperator arch i a n) = True"
| "IsPredicate (IsSimpleCompareEquivalentOperator a b) = True"
| "IsPredicate (IsLocalMatchOperator pat a) = True"
| "IsPredicate _ = False"

fun IsBoolean :: "Expression \<Rightarrow> bool" where
  "IsBoolean (BooleanConstant v) = True"
| "IsBoolean (NotOperator a) = True"
| "IsBoolean (AndOperator sa) = True"
| "IsBoolean (OrOperator sa) = True"
| "IsBoolean (BoolEqualOperator a b) = True"
| "IsBoolean (ImplicationOperator a b) = True"
| "IsBoolean (Uniplexor a b c) = True"
| "IsBoolean (Multiplexor cs os) = True"
| "IsBoolean e = IsPredicate e"

definition IsSymbol :: "Expression \<Rightarrow> bool" where
  "IsSymbol e \<longleftrightarrow> \<not> IsBoolean e"

fun GetOperands :: "Expression \<Rightarrow> Expression list" where
  "GetOperands (BooleanConstant v) = []"
| "GetOperands (NotOperator a) = [a]"
| "GetOperands (AndOperator sa) = sa"
| "GetOperands (OrOperator sa) = sa"
| "GetOperands (BoolEqualOperator a b) = [a, b]"
| "GetOperands (ImplicationOperator a b) = [a, b]"
| "GetOperands (Uniplexor a b c) = [a, b, c]"
| "GetOperands (Multiplexor controls options) = controls @ options"
| "GetOperands (IsEqualOperator a b) = [a, b]"
| "GetOperands (DepthFirstComparisonOperator c a b) = [a, b]"
| "GetOperands (IsAllDiffOperator sa) = sa"
| "GetOperands (IsInCategoryOperator arch a) = [a]"
| "GetOperands (IsChildCollectionSizedOperator arch i a n) = [a]"
| "GetOperands (IsSimpleCompareEquivalentOperator a b) = [a, b]"
| "GetOperands (IsLocalMatchOperator pat a) = [a]"
| "GetOperands (SymbolConstant x) = []"
| "GetOperands (SymbolVariable v) = []"
| "GetOperands (ChildOperator k arch i a) = [a]"
| "GetOperands (XTreeDbToSymbolOperator k a) = [a]"
| "GetOperands (AllChildrenOperator a) = [a]"
| "GetOperands (ComplementOperator a) = [a]"
| "GetOperands (UnionOperator sa) = sa"
| "GetOperands (IntersectionOperator sa) = sa"
| "GetOperands (DepthFirstRangeOperator r a) = [a]"
| "GetOperands (AllInSimpleCompareRangeOperator l lr li u ur ui) = [l, u]"
| "GetOperands (AllInCategoryRangeOperator bounds li ui) = concat (map (\<lambda>(l, u). [l, u]) bounds)"
| "GetOperands (ConditionalOperator c t f) = (case f of None \<Rightarrow> [c, t] | Some e \<Rightarrow> [c, t, e])"
| "GetOperands (MultiConditionalOperator controls options) = controls @ options"

section \<open>Variables\<close>

lemma size_GetOperands [termination_simp]: "x \<in> set (GetOperands e) \<Longrightarrow> size x < size e"
proof (cases e)
  case (AllInCategoryRangeOperator bounds li ui)
  assume "x \<in> set (GetOperands e)"
  then obtain p where p: "p \<in> set bounds" "x = fst p \<or> x = snd p"
    using AllInCategoryRangeOperator by (auto split: prod.splits)
  have "size_prod size size p < Suc (size_list (size_prod size size) bounds)"
    using size_list_estimation'[OF p(1) order.refl, of "size_prod size size"] by simp
  moreover have "size x < size_prod size size p" using p(2) by (cases p) auto
  ultimately show ?thesis using AllInCategoryRangeOperator by simp
qed (auto split: option.splits simp: less_Suc_eq_le size_list_estimation' trans_le_add1 trans_le_add2)

lemma expression_induct [case_names operands]:
  "(\<And>e. (\<And>x. x \<in> set (GetOperands e) \<Longrightarrow> P x) \<Longrightarrow> P e) \<Longrightarrow> P e"
  by (induction e rule: measure_induct_rule[of size]) (simp add: size_GetOperands)

function GetRequiredVariables :: "Expression \<Rightarrow> VariableId list" where
  "GetRequiredVariables e =
     (case e of
        SymbolVariable plink \<Rightarrow> [plink]
      | _ \<Rightarrow> fold (\<lambda>vs required_vars. UnionOf (<) required_vars vs) (map GetRequiredVariables (GetOperands e)) [])"
  by pat_completeness auto

termination GetRequiredVariables
  by (relation "measure size") (simp_all only: in_measure size_GetOperands wf_measure)

declare GetRequiredVariables.simps [simp del]

function GetVariablesRequiringDB :: "Expression \<Rightarrow> VariableId list" where
  "GetVariablesRequiringDB e =
     (case e of
        DepthFirstComparisonOperator c a b \<Rightarrow> GetRequiredVariables e
      | XTreeDbToSymbolOperator k a \<Rightarrow> GetRequiredVariables e
      | DepthFirstRangeOperator r a \<Rightarrow> GetRequiredVariables e
      | _ \<Rightarrow> fold (\<lambda>vs k. UnionOf (<) k vs) (map GetVariablesRequiringDB (GetOperands e)) [])"
  by pat_completeness auto

termination GetVariablesRequiringDB
  by (relation "measure size") (simp_all only: in_measure size_GetOperands wf_measure)

declare GetVariablesRequiringDB.simps [simp del]

text \<open>\<^verbatim>\<open>ForTreeDepthFirstWalk\<close>: the expressions it calls its function on, in order.\<close>

function ForTreeDepthFirstWalk :: "Expression \<Rightarrow> Expression list" where
  "ForTreeDepthFirstWalk e = e # concat (map ForTreeDepthFirstWalk (GetOperands e))"
  by pat_completeness auto

termination ForTreeDepthFirstWalk
  by (relation "measure size") (simp_all only: in_measure size_GetOperands wf_measure)

declare ForTreeDepthFirstWalk.simps [simp del]

section \<open>What the static types ensure\<close>

fun operands_typed :: "Expression \<Rightarrow> bool" where
  "operands_typed (NotOperator a) = IsBoolean a"
| "operands_typed (AndOperator sa) = list_all IsBoolean sa"
| "operands_typed (OrOperator sa) = list_all IsBoolean sa"
| "operands_typed (BoolEqualOperator a b) = (IsBoolean a \<and> IsBoolean b)"
| "operands_typed (ImplicationOperator a b) = (IsBoolean a \<and> IsBoolean b)"
| "operands_typed (Uniplexor a b c) = (IsBoolean a \<and> IsBoolean b \<and> IsBoolean c)"
| "operands_typed (Multiplexor controls options) =
     (list_all IsBoolean controls \<and> list_all IsBoolean options
      \<and> length options = 2 ^ length controls)"
| "operands_typed (ConditionalOperator c t f) = (IsBoolean c \<and> IsSymbol t \<and> pred_option IsSymbol f)"
| "operands_typed (MultiConditionalOperator controls options) =
     (list_all IsBoolean controls \<and> list_all IsSymbol options
      \<and> length options = 2 ^ length controls)"
| "operands_typed (IsAllDiffOperator sa) = (2 \<le> length sa \<and> list_all IsSymbol sa)"
| "operands_typed e = list_all IsSymbol (GetOperands e)"

function well_typed :: "Expression \<Rightarrow> bool" where
  "well_typed e \<longleftrightarrow> operands_typed e \<and> list_all well_typed (GetOperands e)"
  by pat_completeness auto

termination well_typed
  by (relation "measure size") (simp_all only: in_measure size_GetOperands wf_measure)

declare well_typed.simps [simp del]

lemma well_typed_operand: "well_typed e \<Longrightarrow> x \<in> set (GetOperands e) \<Longrightarrow> well_typed x"
  by (simp add: well_typed.simps[of e] list_all_iff)

lemma predicate_operands_symbols:
  "well_typed e \<Longrightarrow> IsPredicate e \<Longrightarrow> x \<in> set (GetOperands e) \<Longrightarrow> IsSymbol x"
  using well_typed.simps[of e] by (cases e) (auto simp: list_all_iff)

section \<open>Facts on variables\<close>

lemma fold_UnionOf:
  assumes "sorted_set s" "\<forall>vs \<in> set vss. sorted_set vs"
  shows "sorted_set (fold (\<lambda>vs r. UnionOf (<) r vs) vss s)
    \<and> set (fold (\<lambda>vs r. UnionOf (<) r vs) vss s) = set s \<union> (\<Union>vs \<in> set vss. set vs)"
  using assms by (induction vss arbitrary: s) auto

lemma SymbolVariable_variables [simp]: "GetRequiredVariables (SymbolVariable v) = [v]"
  by (subst GetRequiredVariables.simps) simp

lemma GetRequiredVariables_other:
  assumes "\<And>v. e \<noteq> SymbolVariable v"
  shows "GetRequiredVariables e = fold (\<lambda>vs r. UnionOf (<) r vs) (map GetRequiredVariables (GetOperands e)) []"
proof (cases e)
  case (SymbolVariable v)
  with assms show ?thesis by blast
qed (use GetRequiredVariables.simps[of e] in \<open>simp_all del: GetOperands.simps\<close>)

lemma GetRequiredVariables_sorted [simp]: "sorted_set (GetRequiredVariables e)"
proof (induction e rule: expression_induct)
  case (operands e)
  then show ?case
    by (cases "\<exists>v. e = SymbolVariable v") (auto simp: GetRequiredVariables_other fold_UnionOf)
qed

lemma GetRequiredVariables_set:
  "(\<And>v. e \<noteq> SymbolVariable v) \<Longrightarrow>
     set (GetRequiredVariables e) = (\<Union>x \<in> set (GetOperands e). set (GetRequiredVariables x))"
  by (simp add: GetRequiredVariables_other fold_UnionOf)

lemma GetRequiredVariables_eqI:
  "sorted_set vs \<Longrightarrow> set (GetRequiredVariables e) = set vs \<Longrightarrow> GetRequiredVariables e = vs"
  by (rule strict_sorted_equal) simp_all

lemma GetRequiredVariables_operand:
  assumes "x \<in> set (GetOperands e)"
  shows "set (GetRequiredVariables x) \<subseteq> set (GetRequiredVariables e)"
proof (cases "\<exists>v. e = SymbolVariable v")
  case True
  with assms show ?thesis by auto
next
  case False
  then have "\<And>v. e \<noteq> SymbolVariable v" by blast
  from GetRequiredVariables_set[OF this] assms show ?thesis by blast
qed

end
