(* ===== verification/Evaluation.thy ===== *)
theory Evaluation
  imports Expressions
begin

text \<open>
  The \<^verbatim>\<open>Evaluate\<close> methods of the expressions. A class either combines the results of all its
  operands (\<open>Boolean_combine\<close>, \<open>Predicate_combine\<close>, \<open>Symbol_combine\<close>: the overloads of
  \<^verbatim>\<open>Evaluate\<close> with a list of results) or evaluates the operands it needs itself
  (\<open>EvaluateBoolean\<close>, \<open>EvaluateSymbol\<close>).
\<close>

section \<open>The evaluation kit\<close>

record EvalKit =
  hypothesis_links :: "Assignments option"
  kit_db :: "x_tree_db option"
  force_expression :: "Expression \<Rightarrow> bool option"

section \<open>Combining the results of boolean operands\<close>

text \<open>\<^verbatim>\<open>std::min_element\<close> and \<^verbatim>\<open>std::max_element\<close>: the first least and the first greatest element.\<close>

fun min_element :: "('a \<Rightarrow> 'a \<Rightarrow> bool) \<Rightarrow> 'a list \<Rightarrow> 'a \<Rightarrow> 'a" where
  "min_element lt [] smallest = smallest"
| "min_element lt (x # xs) smallest = min_element lt xs (if lt x smallest then x else smallest)"

fun max_element :: "('a \<Rightarrow> 'a \<Rightarrow> bool) \<Rightarrow> 'a list \<Rightarrow> 'a \<Rightarrow> 'a" where
  "max_element lt [] largest = largest"
| "max_element lt (x # xs) largest = max_element lt xs (if lt largest x then x else largest)"

definition NotOperator_Evaluate :: "BooleanResult list \<Rightarrow> BooleanResult" where
  "NotOperator_Evaluate op_results =
     (let ra = hd op_results in
      if Boolean_IsDefinedAndUnique ra then BooleanResult (\<not> GetAsBool ra) else ra)"

definition AndOperator_Evaluate :: "BooleanResult list \<Rightarrow> BooleanResult" where
  "AndOperator_Evaluate op_results =
     (case op_results of [] \<Rightarrow> BooleanResult True | r # rs \<Rightarrow> min_element Boolean_less rs r)"

definition OrOperator_Evaluate :: "BooleanResult list \<Rightarrow> BooleanResult" where
  "OrOperator_Evaluate op_results =
     (case op_results of [] \<Rightarrow> BooleanResult False | r # rs \<Rightarrow> max_element Boolean_less rs r)"

definition BoolEqualOperator_Evaluate :: "BooleanResult list \<Rightarrow> BooleanResult" where
  "BoolEqualOperator_Evaluate op_results =
     (let ra = hd op_results; rb = last op_results in
      if \<not> Boolean_IsDefinedAndUnique ra then ra
      else if \<not> Boolean_IsDefinedAndUnique rb then rb
      else BooleanResult (GetAsBool ra = GetAsBool rb))"

definition ImplicationOperator_Evaluate :: "BooleanResult list \<Rightarrow> BooleanResult" where
  "ImplicationOperator_Evaluate op_results =
     (let ra = hd op_results; rb = last op_results in
      if Boolean_IsDefinedAndUnique ra
      then (if GetAsBool ra then rb else BooleanResult True)
      else if IsDefinedAndTrue rb then rb else ra)"

fun Boolean_combine :: "Expression \<Rightarrow> BooleanResult list \<Rightarrow> BooleanResult result" where
  "Boolean_combine (NotOperator a) rs = Inr (NotOperator_Evaluate rs)"
| "Boolean_combine (AndOperator sa) rs = Inr (AndOperator_Evaluate rs)"
| "Boolean_combine (OrOperator sa) rs = Inr (OrOperator_Evaluate rs)"
| "Boolean_combine (BoolEqualOperator a b) rs = Inr (BoolEqualOperator_Evaluate rs)"
| "Boolean_combine (ImplicationOperator a b) rs = Inr (ImplicationOperator_Evaluate rs)"
| "Boolean_combine e rs = Inl AssertFail"

section \<open>Predicates on the results of symbol operands\<close>

fun all_unique :: "EvalResult list \<Rightarrow> bool result" where
  "all_unique [] = Inr True"
| "all_unique (ra # rs) = bindE (Eval_IsDefinedAndUnique ra) (\<lambda>b. if \<not> b then Inr False else all_unique rs)"

text \<open>Most predicates are false when an operand is undefined or not unique.\<close>

definition if_all_unique :: "EvalResult list \<Rightarrow> bool result \<Rightarrow> BooleanResult result" where
  "if_all_unique rs r =
     bindE (all_unique rs) (\<lambda>b. if \<not> b then Inr (BooleanResult False) else bindE r (\<lambda>v. Inr (BooleanResult v)))"

definition same_xlink :: "EvalResult \<Rightarrow> EvalResult \<Rightarrow> bool result" where
  "same_xlink ra rb = bindE (Eval_GetOnlyXLink ra) (\<lambda>x. bindE (Eval_GetOnlyXLink rb) (\<lambda>y. Inr (x = y)))"

definition IsEqualOperator_Evaluate :: "EvalResult list \<Rightarrow> BooleanResult result" where
  "IsEqualOperator_Evaluate rs =
     guardE (length rs = 2) (if_all_unique rs (same_xlink (hd rs) (last rs)))"

fun EvalBoolFromDiff :: "Comparison \<Rightarrow> int \<Rightarrow> bool" where
  "EvalBoolFromDiff IsGreater diff \<longleftrightarrow> diff > 0"
| "EvalBoolFromDiff IsLess diff \<longleftrightarrow> diff < 0"
| "EvalBoolFromDiff IsGreaterOrEqual diff \<longleftrightarrow> diff \<ge> 0"
| "EvalBoolFromDiff IsLessOrEqual diff \<longleftrightarrow> diff \<le> 0"

definition DepthFirstComparison_Evaluate ::
    "x_tree_db option \<Rightarrow> Comparison \<Rightarrow> EvalResult list \<Rightarrow> BooleanResult result" where
  "DepthFirstComparison_Evaluate pdb c rs =
     guardE (length rs = 2)
       (if_all_unique rs
         (bindE (Eval_GetOnlyXLink (hd rs)) (\<lambda>x.
          bindE (Eval_GetOnlyXLink (last rs)) (\<lambda>y.
          bindE (deref pdb) (\<lambda>db. Inr (EvalBoolFromDiff c (DepthFirst_Compare3Way db x y)))))))"

definition IsAllDiffOperator_Evaluate :: "EvalResult list \<Rightarrow> BooleanResult result" where
  "IsAllDiffOperator_Evaluate rs =
     if_all_unique rs
       (ForAllUnorderedPairs rs (\<lambda>ra rb m.
          case same_xlink ra rb of
            Inl e \<Rightarrow> Fail e
          | Inr True \<Rightarrow> LLBreak False
          | Inr False \<Rightarrow> Next m) True)"

definition IsInCategoryOperator_Evaluate :: "tree_ops \<Rightarrow> Archetype \<Rightarrow> EvalResult list \<Rightarrow> BooleanResult result" where
  "IsInCategoryOperator_Evaluate T archetype_node rs =
     guardE (length rs = 1)
       (if_all_unique rs
         (bindE (Eval_GetOnlyXLink (hd rs)) (\<lambda>x. Inr (IsSubcategory T archetype_node (GetChildTreePtr T x)))))"

definition IsChildCollectionSizedOperator_Evaluate ::
    "tree_ops \<Rightarrow> Archetype \<Rightarrow> nat \<Rightarrow> int \<Rightarrow> EvalResult list \<Rightarrow> BooleanResult result" where
  "IsChildCollectionSizedOperator_Evaluate T archetype_node item_index required_size rs =
     guardE (length rs = 1)
       (if_all_unique rs
         (bindE (Eval_GetOnlyXLink (hd rs)) (\<lambda>x.
            let node = GetChildTreePtr T x in
            if \<not> IsSubcategory T archetype_node node then Inr False
            else (let items = Itemise T archetype_node node in
              guardE (item_index < length items)
                (case items ! item_index of
                   CollectionItem xs \<Rightarrow> Inr (int (length xs) = required_size)
                 | _ \<Rightarrow> Inl AssertFail)))))"

definition IsSimpleCompareEquivalentOperator_Evaluate :: "tree_ops \<Rightarrow> EvalResult list \<Rightarrow> BooleanResult result" where
  "IsSimpleCompareEquivalentOperator_Evaluate T rs =
     if_all_unique rs
       (bindE (Eval_GetOnlyXLink (hd rs)) (\<lambda>x.
        bindE (Eval_GetOnlyXLink (last rs)) (\<lambda>y.
          Inr (simple_compare T (GetChildTreePtr T x) (GetChildTreePtr T y) = 0))))"

definition IsLocalMatchOperator_Evaluate :: "tree_ops \<Rightarrow> Archetype \<Rightarrow> EvalResult list \<Rightarrow> BooleanResult result" where
  "IsLocalMatchOperator_Evaluate T pattern_node rs =
     guardE (length rs = 1)
       (if_all_unique rs
         (bindE (Eval_GetOnlyXLink (hd rs)) (\<lambda>x. Inr (IsLocalMatch T pattern_node (GetChildTreePtr T x)))))"

fun Predicate_combine :: "tree_ops \<Rightarrow> x_tree_db option \<Rightarrow> Expression \<Rightarrow> EvalResult list \<Rightarrow> BooleanResult result" where
  "Predicate_combine T pdb (IsEqualOperator a b) rs = IsEqualOperator_Evaluate rs"
| "Predicate_combine T pdb (DepthFirstComparisonOperator c a b) rs = DepthFirstComparison_Evaluate pdb c rs"
| "Predicate_combine T pdb (IsAllDiffOperator sa) rs = IsAllDiffOperator_Evaluate rs"
| "Predicate_combine T pdb (IsInCategoryOperator arch a) rs = IsInCategoryOperator_Evaluate T arch rs"
| "Predicate_combine T pdb (IsChildCollectionSizedOperator arch i a n) rs =
     IsChildCollectionSizedOperator_Evaluate T arch i n rs"
| "Predicate_combine T pdb (IsSimpleCompareEquivalentOperator a b) rs =
     IsSimpleCompareEquivalentOperator_Evaluate T rs"
| "Predicate_combine T pdb (IsLocalMatchOperator pat a) rs = IsLocalMatchOperator_Evaluate T pat rs"
| "Predicate_combine T pdb e rs = Inl AssertFail"

section \<open>Symbols from the results of symbol operands\<close>

definition make_UniqueResult :: "XValue \<Rightarrow> EvalResult result" where
  "make_UniqueResult x = bindE (new_UniqueResult x) (\<lambda>r. Inr (Simple r))"

fun ChildSequenceFront_EvalFromItem :: "tree_ops \<Rightarrow> Item \<Rightarrow> EvalResult result" where
  "ChildSequenceFront_EvalFromItem T (SequenceItem xs) =
     (let result_xlink = (if xs = [] then OffEnd T else hd xs) in make_UniqueResult result_xlink)"
| "ChildSequenceFront_EvalFromItem T item = Inl AssertFail"

fun ChildSequenceBack_EvalFromItem :: "Item \<Rightarrow> EvalResult result" where
  "ChildSequenceBack_EvalFromItem (SequenceItem xs) =
     (if xs = [] then Inr (Simple EmptyResult) else make_UniqueResult (last xs))"
| "ChildSequenceBack_EvalFromItem item = Inl AssertFail"

fun ChildCollectionFront_EvalFromItem :: "Item \<Rightarrow> EvalResult result" where
  "ChildCollectionFront_EvalFromItem (CollectionItem xs) =
     (if xs = [] then Inr (Simple EmptyResult) else make_UniqueResult (hd xs))"
| "ChildCollectionFront_EvalFromItem item = Inl AssertFail"

fun SingularChild_EvalFromItem :: "Item \<Rightarrow> EvalResult result" where
  "SingularChild_EvalFromItem (SingularItem x) = make_UniqueResult x"
| "SingularChild_EvalFromItem item = Inl AssertFail"

fun EvalFromItem :: "tree_ops \<Rightarrow> ChildKind \<Rightarrow> Item \<Rightarrow> EvalResult result" where
  "EvalFromItem T ChildSequenceFront item = ChildSequenceFront_EvalFromItem T item"
| "EvalFromItem T ChildSequenceBack item = ChildSequenceBack_EvalFromItem item"
| "EvalFromItem T ChildCollectionFront item = ChildCollectionFront_EvalFromItem item"
| "EvalFromItem T SingularChild item = SingularChild_EvalFromItem item"

definition ChildOperator_Evaluate ::
    "tree_ops \<Rightarrow> ChildKind \<Rightarrow> Archetype \<Rightarrow> nat \<Rightarrow> EvalResult list \<Rightarrow> EvalResult result" where
  "ChildOperator_Evaluate T k archetype_node item_index rs =
     guardE (length rs = 1)
      (bindE (Eval_IsDefinedAndUnique (hd rs)) (\<lambda>unique.
        if \<not> unique then Inr (hd rs)
        else bindE (Eval_GetOnlyXLink (hd rs)) (\<lambda>x.
          let node = GetChildTreePtr T x in
          if \<not> IsSubcategory T archetype_node node then Inr (Simple EmptyResult)
          else (let items = Itemise T archetype_node node in
            guardE (item_index < length items) (EvalFromItem T k (items ! item_index))))))"

definition Parent_EvalXLinkFromRow :: "tree_ops \<Rightarrow> x_tree_db \<Rightarrow> XValue \<Rightarrow> Row \<Rightarrow> XValue" where
  "Parent_EvalXLinkFromRow T db xlink row = TryGetParentXLink db xlink"

definition LastDescendant_EvalXLinkFromRow :: "tree_ops \<Rightarrow> x_tree_db \<Rightarrow> XValue \<Rightarrow> Row \<Rightarrow> XValue" where
  "LastDescendant_EvalXLinkFromRow T db xlink row = GetLastDescendantXLink T xlink"

definition MyContainerFront_EvalXLinkFromRow :: "tree_ops \<Rightarrow> x_tree_db \<Rightarrow> XValue \<Rightarrow> Row \<Rightarrow> XValue" where
  "MyContainerFront_EvalXLinkFromRow T db xlink row = container_front row"

definition MyContainerBack_EvalXLinkFromRow :: "tree_ops \<Rightarrow> x_tree_db \<Rightarrow> XValue \<Rightarrow> Row \<Rightarrow> XValue" where
  "MyContainerBack_EvalXLinkFromRow T db xlink row = container_back row"

definition MySequenceSuccessor_EvalXLinkFromRow :: "tree_ops \<Rightarrow> x_tree_db \<Rightarrow> XValue \<Rightarrow> Row \<Rightarrow> XValue" where
  "MySequenceSuccessor_EvalXLinkFromRow T db xlink row = sequence_successor row"

definition MySequencePredecessor_EvalXLinkFromRow :: "tree_ops \<Rightarrow> x_tree_db \<Rightarrow> XValue \<Rightarrow> Row \<Rightarrow> XValue" where
  "MySequencePredecessor_EvalXLinkFromRow T db xlink row = sequence_predecessor row"

fun EvalXLinkFromRow :: "tree_ops \<Rightarrow> x_tree_db \<Rightarrow> DbKind \<Rightarrow> XValue \<Rightarrow> Row \<Rightarrow> XValue" where
  "EvalXLinkFromRow T db Parent = Parent_EvalXLinkFromRow T db"
| "EvalXLinkFromRow T db LastDescendant = LastDescendant_EvalXLinkFromRow T db"
| "EvalXLinkFromRow T db MyContainerFront = MyContainerFront_EvalXLinkFromRow T db"
| "EvalXLinkFromRow T db MyContainerBack = MyContainerBack_EvalXLinkFromRow T db"
| "EvalXLinkFromRow T db MySequenceSuccessor = MySequenceSuccessor_EvalXLinkFromRow T db"
| "EvalXLinkFromRow T db MySequencePredecessor = MySequencePredecessor_EvalXLinkFromRow T db"

definition XTreeDbToSymbolOperator_Evaluate ::
    "tree_ops \<Rightarrow> x_tree_db option \<Rightarrow> DbKind \<Rightarrow> EvalResult list \<Rightarrow> EvalResult result" where
  "XTreeDbToSymbolOperator_Evaluate T pdb k rs =
     bindE (SoloElementOf rs) (\<lambda>ar.
     bindE (Eval_IsDefinedAndUnique ar) (\<lambda>unique.
       if \<not> unique then Inr ar
       else bindE (deref pdb) (\<lambda>db. bindE (Eval_GetOnlyXLink ar) (\<lambda>x.
         case TryGetRow db x of
           None \<Rightarrow> Inr (Simple EmptyResult)
         | Some row \<Rightarrow>
             (let result_xlink = EvalXLinkFromRow T db k x row
              in if result_xlink \<noteq> null_link then make_UniqueResult result_xlink
                 else Inr (Simple EmptyResult))))))"

definition AllChildrenOperator_Evaluate :: "tree_ops \<Rightarrow> EvalResult list \<Rightarrow> EvalResult result" where
  "AllChildrenOperator_Evaluate T rs =
     guardE (length rs = 1)
      (bindE (Eval_IsDefinedAndUnique (hd rs)) (\<lambda>unique.
        if \<not> unique then Inr (hd rs)
        else bindE (Eval_GetOnlyXLink (hd rs)) (\<lambda>x.
          Inr (Simple (SubsetRes (subset_result (insert_range (<) (FlattenNode T (GetChildTreePtr T x)))))))))"

definition AllGreater_Evaluate :: "x_tree_db option \<Rightarrow> EvalResult list \<Rightarrow> EvalResult result" where
  "AllGreater_Evaluate pdb rs =
     bindE (SoloElementOf rs) (\<lambda>ar. bindE (Eval_GetOnlyXLink ar) (\<lambda>x. Inr (DepthFirstRangeResult pdb x False null_link False)))"

definition AllLess_Evaluate :: "x_tree_db option \<Rightarrow> EvalResult list \<Rightarrow> EvalResult result" where
  "AllLess_Evaluate pdb rs =
     bindE (SoloElementOf rs) (\<lambda>ar. bindE (Eval_GetOnlyXLink ar) (\<lambda>x. Inr (DepthFirstRangeResult pdb null_link False x False)))"

definition AllGreaterOrEqual_Evaluate :: "x_tree_db option \<Rightarrow> EvalResult list \<Rightarrow> EvalResult result" where
  "AllGreaterOrEqual_Evaluate pdb rs =
     bindE (SoloElementOf rs) (\<lambda>ar. bindE (Eval_GetOnlyXLink ar) (\<lambda>x. Inr (DepthFirstRangeResult pdb x True null_link False)))"

definition AllLessOrEqual_Evaluate :: "x_tree_db option \<Rightarrow> EvalResult list \<Rightarrow> EvalResult result" where
  "AllLessOrEqual_Evaluate pdb rs =
     bindE (SoloElementOf rs) (\<lambda>ar. bindE (Eval_GetOnlyXLink ar) (\<lambda>x. Inr (DepthFirstRangeResult pdb null_link False x True)))"

fun DepthFirstRange_Evaluate :: "x_tree_db option \<Rightarrow> Range \<Rightarrow> EvalResult list \<Rightarrow> EvalResult result" where
  "DepthFirstRange_Evaluate pdb AllGreater rs = AllGreater_Evaluate pdb rs"
| "DepthFirstRange_Evaluate pdb AllLess rs = AllLess_Evaluate pdb rs"
| "DepthFirstRange_Evaluate pdb AllGreaterOrEqual rs = AllGreaterOrEqual_Evaluate pdb rs"
| "DepthFirstRange_Evaluate pdb AllLessOrEqual rs = AllLessOrEqual_Evaluate pdb rs"

definition subset_operation ::
    "(SubsetResult list \<Rightarrow> SubsetResult result) \<Rightarrow> EvalResult list \<Rightarrow> EvalResult result" where
  "subset_operation f rs =
     bindE (mapE Eval_SubsetResult rs) (\<lambda>ssrs. bindE (f ssrs) (\<lambda>r. Inr (Simple (SubsetRes r))))"

definition ComplementOperator_Evaluate :: "EvalResult list \<Rightarrow> EvalResult result" where
  "ComplementOperator_Evaluate rs =
     bindE (SoloElementOf rs) (\<lambda>ar. bindE (Eval_SubsetResult ar) (\<lambda>asr. Inr (Simple (SubsetRes (GetComplement asr)))))"

definition UnionOperator_Evaluate :: "EvalResult list \<Rightarrow> EvalResult result" where
  "UnionOperator_Evaluate = subset_operation GetUnion"

definition IntersectionOperator_Evaluate :: "EvalResult list \<Rightarrow> EvalResult result" where
  "IntersectionOperator_Evaluate = subset_operation GetIntersection"

fun Symbol_combine :: "tree_ops \<Rightarrow> x_tree_db option \<Rightarrow> Expression \<Rightarrow> EvalResult list \<Rightarrow> EvalResult result" where
  "Symbol_combine T pdb (ChildOperator k arch i a) rs = ChildOperator_Evaluate T k arch i rs"
| "Symbol_combine T pdb (XTreeDbToSymbolOperator k a) rs = XTreeDbToSymbolOperator_Evaluate T pdb k rs"
| "Symbol_combine T pdb (AllChildrenOperator a) rs = AllChildrenOperator_Evaluate T rs"
| "Symbol_combine T pdb (ComplementOperator a) rs = ComplementOperator_Evaluate rs"
| "Symbol_combine T pdb (UnionOperator sa) rs = UnionOperator_Evaluate rs"
| "Symbol_combine T pdb (IntersectionOperator sa) rs = IntersectionOperator_Evaluate rs"
| "Symbol_combine T pdb (DepthFirstRangeOperator r a) rs = DepthFirstRange_Evaluate pdb r rs"
| "Symbol_combine T pdb e rs = Inl AssertFail"

section \<open>Evaluate\<close>

text \<open>The controls of a multiplexor as a little-endian number.\<close>

fun control_number :: "BooleanResult list \<Rightarrow> nat" where
  "control_number [] = 0"
| "control_number (r # rs) = of_bool (GetAsBool r) + 2 * control_number rs"

definition bound_node :: "tree_ops \<Rightarrow> EvalResult \<Rightarrow> Node result" where
  "bound_node T r = bindE (Eval_GetOnlyXLink r) (\<lambda>x. Inr (GetChildTreePtr T x))"

definition with_role :: "BoundingRole \<Rightarrow> Node \<Rightarrow> Node" where
  "with_role role n = (if role \<noteq> NONE_ROLE then MinimaxNode n role else n)"

text \<open>\<^verbatim>\<open>operator[]\<close> on a vector.\<close>

definition unchecked_at :: "'a list \<Rightarrow> nat \<Rightarrow> 'a result" where
  "unchecked_at xs i = (if i < length xs then Inr (xs ! i) else Inl Undefined)"

lemma unchecked_at_mem: "unchecked_at xs i = Inr x \<Longrightarrow> x \<in> set xs"
  by (auto simp: unchecked_at_def split: if_splits)

definition SymbolVariable_Evaluate :: "EvalKit \<Rightarrow> VariableId \<Rightarrow> EvalResult result" where
  "SymbolVariable_Evaluate kit v =
     bindE (deref (hypothesis_links kit)) (\<lambda>links.
       case map_of links v of None \<Rightarrow> Inl AssertFail | Some x \<Rightarrow> make_UniqueResult x)"

text \<open>The classes that evaluate their operands themselves. \<open>evb\<close> and \<open>evs\<close> stand for the virtual
  methods of the operands, called with the same kit.\<close>

definition Uniplexor_Evaluate ::
    "(Expression \<Rightarrow> BooleanResult result) \<Rightarrow> Expression \<Rightarrow> Expression \<Rightarrow> Expression \<Rightarrow> BooleanResult result" where
  "Uniplexor_Evaluate evb a b c =
     bindE (evb a) (\<lambda>ra.
       if Boolean_IsDefinedAndUnique ra
       then (if GetAsBool ra then evb b else evb c)
       else bindE (evb b) (\<lambda>rb. bindE (evb c) (\<lambda>rc. Inr (if rb = rc then rb else BooleanResult False))))"

definition Multiplexor_Evaluate ::
    "(Expression \<Rightarrow> BooleanResult result) \<Rightarrow> Expression list \<Rightarrow> Expression list \<Rightarrow> BooleanResult result" where
  "Multiplexor_Evaluate evb controls options =
     bindE (mapE evb controls) (\<lambda>rs.
       if list_all Boolean_IsDefinedAndUnique rs
       then bindE (unchecked_at options (control_number rs)) evb
       else Inr (BooleanResult False))"

definition ConditionalOperator_Evaluate ::
    "(Expression \<Rightarrow> BooleanResult result) \<Rightarrow> (Expression \<Rightarrow> EvalResult result)
     \<Rightarrow> Expression \<Rightarrow> Expression \<Rightarrow> Expression option \<Rightarrow> EvalResult result" where
  "ConditionalOperator_Evaluate evb evs control option_true option_false =
     bindE (evb control) (\<lambda>r_control.
       if Boolean_IsDefinedAndUnique r_control
       then (if GetAsBool r_control then evs option_true
             else (case option_false of Some f \<Rightarrow> evs f | None \<Rightarrow> Inr (Simple EmptyResult)))
       else bindE (evs option_true) (\<lambda>r_option_true.
            bindE (case option_false of Some f \<Rightarrow> evs f | None \<Rightarrow> Inl NullDeref) (\<lambda>r_option_false.
            bindE (Eval_equal r_option_true r_option_false)
              (\<lambda>same. Inr (if same then r_option_true else Simple EmptyResult)))))"

definition MultiConditionalOperator_Evaluate ::
    "(Expression \<Rightarrow> BooleanResult result) \<Rightarrow> (Expression \<Rightarrow> EvalResult result)
     \<Rightarrow> Expression list \<Rightarrow> Expression list \<Rightarrow> EvalResult result" where
  "MultiConditionalOperator_Evaluate evb evs controls options =
     bindE (mapE evb controls) (\<lambda>rs.
       if list_all Boolean_IsDefinedAndUnique rs
       then bindE (unchecked_at options (control_number rs)) evs
       else Inr (Simple EmptyResult))"

text \<open>Evaluate a bound to its node; an upper bound equal to the lower one is evaluated only once.\<close>

definition bound_nodes ::
    "tree_ops \<Rightarrow> (Expression \<Rightarrow> EvalResult result) \<Rightarrow> Expression \<Rightarrow> Expression \<Rightarrow> (Node \<times> Node) result" where
  "bound_nodes T evs lower upper =
     bindE (bindE (evs lower) (bound_node T)) (\<lambda>lower_node.
     bindE (if upper = lower then Inr lower_node else bindE (evs upper) (bound_node T)) (\<lambda>upper_node.
       Inr (lower_node, upper_node)))"

definition AllInSimpleCompareRangeOperator_Evaluate ::
    "tree_ops \<Rightarrow> x_tree_db option \<Rightarrow> (Expression \<Rightarrow> EvalResult result)
     \<Rightarrow> Expression \<Rightarrow> BoundingRole \<Rightarrow> bool \<Rightarrow> Expression \<Rightarrow> BoundingRole \<Rightarrow> bool \<Rightarrow> EvalResult result" where
  "AllInSimpleCompareRangeOperator_Evaluate T pdb evs lower lower_role lower_incl upper upper_role upper_incl =
     bindE (bound_nodes T evs lower upper) (\<lambda>(lower_node, upper_node).
       Inr (SimpleCompareRangeResult pdb
         (Some (with_role lower_role lower_node)) lower_incl
         (Some (with_role upper_role upper_node)) upper_incl))"

definition AllInCategoryRangeOperator_Evaluate ::
    "tree_ops \<Rightarrow> x_tree_db option \<Rightarrow> (Expression \<Rightarrow> EvalResult result)
     \<Rightarrow> (Expression \<times> Expression) list \<Rightarrow> bool \<Rightarrow> bool \<Rightarrow> EvalResult result" where
  "AllInCategoryRangeOperator_Evaluate T pdb evs bounds_exprs lower_incl upper_incl =
     bindE (mapE (\<lambda>b. bindE (bound_nodes T evs (fst b) (snd b)) (\<lambda>(lower_node, upper_node).
         Inr (Some lower_node, Some upper_node))) bounds_exprs)
       (\<lambda>bounds. Inr (CategoryRangeResult pdb bounds lower_incl upper_incl))"

text \<open>A forced predicate does not look at its operands.\<close>

definition PredicateOperator_Evaluate ::
    "tree_ops \<Rightarrow> EvalKit \<Rightarrow> (Expression \<Rightarrow> EvalResult result) \<Rightarrow> Expression \<Rightarrow> BooleanResult result" where
  "PredicateOperator_Evaluate T kit evs e =
     (case force_expression kit e of
        Some b \<Rightarrow> Inr (BooleanResult b)
      | None \<Rightarrow> bindE (mapE evs (GetOperands e)) (Predicate_combine T (kit_db kit) e))"

lemma unchecked_local:
  assumes "\<And>x. x \<in> set xs \<Longrightarrow> f x = g x"
  shows "bindE (unchecked_at xs i) f = bindE (unchecked_at xs i) g"
  using assms by (intro bindE_cong) (auto dest: unchecked_at_mem)

lemma Evaluate_cong [fundef_cong]:
  "a = a' \<Longrightarrow> b = b' \<Longrightarrow> c = c' \<Longrightarrow> (\<And>x. x = a' \<or> x = b' \<or> x = c' \<Longrightarrow> evb x = evb' x)
    \<Longrightarrow> Uniplexor_Evaluate evb a b c = Uniplexor_Evaluate evb' a' b' c'"
  "cs = cs' \<Longrightarrow> os = os' \<Longrightarrow> (\<And>x. x \<in> set cs' \<or> x \<in> set os' \<Longrightarrow> evb x = evb' x)
    \<Longrightarrow> Multiplexor_Evaluate evb cs os = Multiplexor_Evaluate evb' cs' os'"
  "a = a' \<Longrightarrow> b = b' \<Longrightarrow> f = f' \<Longrightarrow> evb a' = evb' a' \<Longrightarrow> (\<And>x. x = b' \<or> f' = Some x \<Longrightarrow> evs x = evs' x)
    \<Longrightarrow> ConditionalOperator_Evaluate evb evs a b f = ConditionalOperator_Evaluate evb' evs' a' b' f'"
  "cs = cs' \<Longrightarrow> os = os' \<Longrightarrow> (\<And>x. x \<in> set cs' \<Longrightarrow> evb x = evb' x) \<Longrightarrow> (\<And>x. x \<in> set os' \<Longrightarrow> evs x = evs' x)
    \<Longrightarrow> MultiConditionalOperator_Evaluate evb evs cs os = MultiConditionalOperator_Evaluate evb' evs' cs' os'"
  "l = l' \<Longrightarrow> u = u' \<Longrightarrow> (\<And>x. x = l' \<or> x = u' \<Longrightarrow> evs x = evs' x)
    \<Longrightarrow> AllInSimpleCompareRangeOperator_Evaluate T pdb evs l lr li u ur ui
      = AllInSimpleCompareRangeOperator_Evaluate T pdb evs' l' lr li u' ur ui"
  "bs = bs' \<Longrightarrow> (\<And>p x. p \<in> set bs' \<Longrightarrow> x = fst p \<or> x = snd p \<Longrightarrow> evs x = evs' x)
    \<Longrightarrow> AllInCategoryRangeOperator_Evaluate T pdb evs bs li ui
      = AllInCategoryRangeOperator_Evaluate T pdb evs' bs' li ui"
  "e = e' \<Longrightarrow> (\<And>x. x \<in> set (GetOperands e') \<Longrightarrow> evs x = evs' x)
    \<Longrightarrow> PredicateOperator_Evaluate T kit evs e = PredicateOperator_Evaluate T kit evs' e'"
  by (auto simp: Uniplexor_Evaluate_def Multiplexor_Evaluate_def ConditionalOperator_Evaluate_def
      MultiConditionalOperator_Evaluate_def AllInSimpleCompareRangeOperator_Evaluate_def
      AllInCategoryRangeOperator_Evaluate_def PredicateOperator_Evaluate_def bound_nodes_def
      intro!: bindE_cong mapE_cong unchecked_local split: option.splits)

lemma member_size: "x \<in> set (xs :: Expression list) \<Longrightarrow> size x \<le> size_list size xs"
  by (rule size_list_estimation'[OF _ order.refl])

lemma pair_member_size:
  fixes xs :: "(Expression \<times> Expression) list"
  assumes "p \<in> set xs"
  shows "size (fst p) < size_list (size_prod size size) xs \<and> size (snd p) < size_list (size_prod size size) xs"
  using size_list_estimation'[OF assms order.refl, of "size_prod size size"] by (cases p) simp

lemma unchecked_at_size:
  "unchecked_at xs i = Inr x \<Longrightarrow> size (x :: Expression) \<le> size_list size xs"
  by (rule member_size[OF unchecked_at_mem])

function (sequential)
      EvaluateBoolean :: "tree_ops \<Rightarrow> EvalKit \<Rightarrow> Expression \<Rightarrow> BooleanResult result"
  and EvaluateSymbol :: "tree_ops \<Rightarrow> EvalKit \<Rightarrow> Expression \<Rightarrow> EvalResult result" where
  "EvaluateBoolean T kit e =
     (case e of
        BooleanConstant v \<Rightarrow> Inr (BooleanResult v)
      | Uniplexor a b c \<Rightarrow> Uniplexor_Evaluate (EvaluateBoolean T kit) a b c
      | Multiplexor controls options \<Rightarrow> Multiplexor_Evaluate (EvaluateBoolean T kit) controls options
      | _ \<Rightarrow>
          if IsPredicate e then PredicateOperator_Evaluate T kit (EvaluateSymbol T kit) e
          else bindE (mapE (EvaluateBoolean T kit) (GetOperands e)) (Boolean_combine e))"
| "EvaluateSymbol T kit e =
     (case e of
        SymbolConstant x \<Rightarrow> make_UniqueResult x
      | SymbolVariable v \<Rightarrow> SymbolVariable_Evaluate kit v
      | ConditionalOperator control option_true option_false \<Rightarrow>
          ConditionalOperator_Evaluate (EvaluateBoolean T kit) (EvaluateSymbol T kit) control option_true option_false
      | MultiConditionalOperator controls options \<Rightarrow>
          MultiConditionalOperator_Evaluate (EvaluateBoolean T kit) (EvaluateSymbol T kit) controls options
      | AllInSimpleCompareRangeOperator lower lower_role lower_incl upper upper_role upper_incl \<Rightarrow>
          AllInSimpleCompareRangeOperator_Evaluate T (kit_db kit) (EvaluateSymbol T kit)
            lower lower_role lower_incl upper upper_role upper_incl
      | AllInCategoryRangeOperator bounds_exprs lower_incl upper_incl \<Rightarrow>
          AllInCategoryRangeOperator_Evaluate T (kit_db kit) (EvaluateSymbol T kit) bounds_exprs lower_incl upper_incl
      | _ \<Rightarrow> bindE (mapE (EvaluateSymbol T kit) (GetOperands e)) (Symbol_combine T (kit_db kit) e))"
  by pat_completeness auto

termination
  by (relation "measure (case_sum (\<lambda>(T, kit, e). size e) (\<lambda>(T, kit, e). size e))")
    (auto dest!: member_size pair_member_size unchecked_at_size split: option.splits)

declare EvaluateBoolean.simps [simp del] EvaluateSymbol.simps [simp del]

declare Uniplexor_Evaluate_def [simp] Multiplexor_Evaluate_def [simp] ConditionalOperator_Evaluate_def [simp]
  MultiConditionalOperator_Evaluate_def [simp] AllInSimpleCompareRangeOperator_Evaluate_def [simp]
  SymbolVariable_Evaluate_def [simp] bound_nodes_def [simp]

section \<open>The connectives\<close>

lemma Boolean_defined [simp]: "Boolean_IsDefinedAndUnique r"
  by (cases r) simp

lemma BooleanResult_GetAsBool [simp]: "BooleanResult (GetAsBool r) = r"
  by (cases r) simp

lemma IsDefinedAndTrue_eq [simp]: "IsDefinedAndTrue r = GetAsBool r"
  by (cases r) simp

lemma AndOperator_Evaluate_eq: "AndOperator_Evaluate rs = BooleanResult (\<forall>r \<in> set rs. GetAsBool r)"
proof -
  have m: "GetAsBool (min_element Boolean_less qs r) \<longleftrightarrow> GetAsBool r \<and> (\<forall>q \<in> set qs. GetAsBool q)" for r qs
  proof (induction qs arbitrary: r)
    case (Cons q qs)
    then show ?case by (cases q; cases r) auto
  qed simp
  have "GetAsBool (AndOperator_Evaluate rs) = (\<forall>r \<in> set rs. GetAsBool r)"
    by (cases rs) (simp_all add: AndOperator_Evaluate_def m)
  then show ?thesis by (cases "AndOperator_Evaluate rs") simp
qed

lemma OrOperator_Evaluate_eq: "OrOperator_Evaluate rs = BooleanResult (\<exists>r \<in> set rs. GetAsBool r)"
proof -
  have m: "GetAsBool (max_element Boolean_less qs r) \<longleftrightarrow> GetAsBool r \<or> (\<exists>q \<in> set qs. GetAsBool q)" for r qs
  proof (induction qs arbitrary: r)
    case (Cons q qs)
    then show ?case by (cases q; cases r) auto
  qed simp
  have "GetAsBool (OrOperator_Evaluate rs) = (\<exists>r \<in> set rs. GetAsBool r)"
    by (cases rs) (simp_all add: OrOperator_Evaluate_def m)
  then show ?thesis by (cases "OrOperator_Evaluate rs") simp
qed

fun truth_number :: "bool list \<Rightarrow> nat" where
  "truth_number [] = 0"
| "truth_number (b # bs) = of_bool b + 2 * truth_number bs"

lemma truth_number_bound: "truth_number bs < 2 ^ length bs"
  by (induction bs) auto

lemma control_number_eq: "control_number rs = truth_number (map GetAsBool rs)"
  by (induction rs) auto

text \<open>The value of a boolean expression when each of its predicates has a given value.\<close>

function truth :: "(Expression \<Rightarrow> bool) \<Rightarrow> Expression \<Rightarrow> bool" where
  "truth \<sigma> e =
     (case e of
        BooleanConstant v \<Rightarrow> v
      | NotOperator a \<Rightarrow> \<not> truth \<sigma> a
      | AndOperator sa \<Rightarrow> list_all (truth \<sigma>) sa
      | OrOperator sa \<Rightarrow> list_ex (truth \<sigma>) sa
      | BoolEqualOperator a b \<Rightarrow> truth \<sigma> a = truth \<sigma> b
      | ImplicationOperator a b \<Rightarrow> truth \<sigma> a \<longrightarrow> truth \<sigma> b
      | Uniplexor a b c \<Rightarrow> if truth \<sigma> a then truth \<sigma> b else truth \<sigma> c
      | Multiplexor controls options \<Rightarrow>
          (case unchecked_at options (truth_number (map (truth \<sigma>) controls)) of
             Inr e \<Rightarrow> truth \<sigma> e | Inl _ \<Rightarrow> False)
      | _ \<Rightarrow> \<sigma> e)"
  by pat_completeness auto

termination
  by (relation "measure (\<lambda>(\<sigma>, e). size e)") (auto dest!: member_size unchecked_at_size)

declare truth.simps [simp del]

lemma truth_simps [simp]:
  "truth \<sigma> (BooleanConstant v) = v"
  "truth \<sigma> (NotOperator a) = (\<not> truth \<sigma> a)"
  "truth \<sigma> (AndOperator sa) = list_all (truth \<sigma>) sa"
  "truth \<sigma> (OrOperator sa) = list_ex (truth \<sigma>) sa"
  "truth \<sigma> (BoolEqualOperator a b) = (truth \<sigma> a = truth \<sigma> b)"
  "truth \<sigma> (ImplicationOperator a b) = (truth \<sigma> a \<longrightarrow> truth \<sigma> b)"
  "truth \<sigma> (Uniplexor a b c) = (if truth \<sigma> a then truth \<sigma> b else truth \<sigma> c)"
  by (simp_all add: truth.simps[of \<sigma>])

lemma truth_predicate: "IsPredicate e \<Longrightarrow> truth \<sigma> e = \<sigma> e"
  by (cases e) (simp_all add: truth.simps[of \<sigma>])

text \<open>The predicates of an expression: the walk stops at each predicate.\<close>

function predicates_of :: "Expression \<Rightarrow> Expression list" where
  "predicates_of e = (if IsPredicate e then [e] else concat (map predicates_of (GetOperands e)))"
  by pat_completeness auto

termination predicates_of
  by (relation "measure size") (simp_all only: in_measure size_GetOperands wf_measure)

declare predicates_of.simps [simp del]

lemma predicates_of_operand:
  "x \<in> set (GetOperands e) \<Longrightarrow> \<not> IsPredicate e \<Longrightarrow> set (predicates_of x) \<subseteq> set (predicates_of e)"
  by (subst (2) predicates_of.simps) auto

lemma predicates_of_predicate [simp]: "IsPredicate e \<Longrightarrow> predicates_of e = [e]"
  by (simp add: predicates_of.simps)

lemma predicates_of_are [simp]: "p \<in> set (predicates_of e) \<Longrightarrow> IsPredicate p"
proof (induction e rule: expression_induct)
  case (operands e)
  then show ?case by (cases "IsPredicate e") (auto simp: predicates_of.simps[of e])
qed

lemma boolean_operands:
  "well_typed e \<Longrightarrow> IsBoolean e \<Longrightarrow> \<not> IsPredicate e \<Longrightarrow> x \<in> set (GetOperands e) \<Longrightarrow> IsBoolean x"
  using well_typed.simps[of e] by (cases e) (auto simp: list_all_iff)

lemma mapE_Boolean:
  "(\<And>x. x \<in> set xs \<Longrightarrow> f x = Inr (BooleanResult (v x))) \<Longrightarrow> mapE f xs = Inr (map (\<lambda>x. BooleanResult (v x)) xs)"
  by (rule mapE_Inr)

lemma Evaluate_truth:
  assumes "well_typed e" "IsBoolean e"
    "\<And>p. p \<in> set (predicates_of e) \<Longrightarrow> EvaluateBoolean T kit p = Inr (BooleanResult (\<sigma> p))"
  shows "EvaluateBoolean T kit e = Inr (BooleanResult (truth \<sigma> e))"
  using assms
proof (induction e rule: expression_induct)
  case (operands e)
  show ?case
  proof (cases "IsPredicate e")
    case True
    then show ?thesis using operands(4)[of e] by (simp add: truth_predicate)
  next
    case False
    have IH: "EvaluateBoolean T kit x = Inr (BooleanResult (truth \<sigma> x))" if x: "x \<in> set (GetOperands e)" for x
    proof -
      have "well_typed x" "IsBoolean x"
        using well_typed_operand[OF operands(2) x] boolean_operands[OF operands(2,3) False x] by simp_all
      then show ?thesis
        using operands(1)[OF x] operands(4) predicates_of_operand[OF x False] by blast
    qed
    have all: "mapE (EvaluateBoolean T kit) xs = Inr (map (\<lambda>x. BooleanResult (truth \<sigma> x)) xs)"
      if "set xs \<subseteq> set (GetOperands e)" for xs
      using that IH by (intro mapE_Boolean) auto
    note ev = EvaluateBoolean.simps[of T kit e]
    show ?thesis
    proof (cases e)
      case (AndOperator sa)
      then show ?thesis using ev all[of sa]
        by (simp add: list_all_iff AndOperator_Evaluate_eq)
    next
      case (OrOperator sa)
      then show ?thesis using ev all[of sa]
        by (simp add: list_ex_iff OrOperator_Evaluate_eq)
    next
      case (Multiplexor controls options)
      let ?n = "truth_number (map (truth \<sigma>) controls)"
      have "length options = 2 ^ length controls"
        using operands(2) well_typed.simps[of e] Multiplexor by simp
      then have n: "unchecked_at options ?n = Inr (options ! ?n)" "options ! ?n \<in> set options"
        using truth_number_bound[of "map (truth \<sigma>) controls"] by (simp_all add: unchecked_at_def)
      then have "truth \<sigma> e = truth \<sigma> (options ! ?n)" using Multiplexor truth.simps[of \<sigma> e] by simp
      moreover have "EvaluateBoolean T kit e = EvaluateBoolean T kit (options ! ?n)"
        using ev all[of controls] n(1) Multiplexor by (simp add: control_number_eq list_all_iff comp_def)
      ultimately show ?thesis using IH n(2) Multiplexor by simp
    qed (use ev IH operands(3) False in \<open>auto simp: NotOperator_Evaluate_def BoolEqualOperator_Evaluate_def
        ImplicationOperator_Evaluate_def Let_def\<close>)
  qed
qed

section \<open>Evaluation looks at required variables only\<close>

lemma mapE_local:
  assumes "\<And>x. x \<in> set xs \<Longrightarrow> f x = g x"
  shows "mapE f xs = mapE g xs"
  using assms by (intro mapE_cong) auto

lemma EvaluateBoolean_predicate:
  "IsPredicate e \<Longrightarrow> EvaluateBoolean T kit e = (case force_expression kit e of
     Some b \<Rightarrow> Inr (BooleanResult b)
   | None \<Rightarrow> bindE (mapE (EvaluateSymbol T kit) (GetOperands e)) (Predicate_combine T (kit_db kit) e))"
proof -
  assume "IsPredicate e"
  then have "EvaluateBoolean T kit e = PredicateOperator_Evaluate T kit (EvaluateSymbol T kit) e"
    using EvaluateBoolean.simps[of T kit e] by (cases e) simp_all
  then show ?thesis by (simp add: PredicateOperator_Evaluate_def)
qed

lemma bounds_operands:
  assumes "b \<in> set bounds"
  shows "fst b \<in> set (GetOperands (AllInCategoryRangeOperator bounds li ui))
    \<and> snd b \<in> set (GetOperands (AllInCategoryRangeOperator bounds li ui))"
proof -
  obtain l u where "b = (l, u)" by (cases b)
  with assms show ?thesis by (auto intro!: bexI[of _ "(l, u)"])
qed

lemma Evaluate_local:
  assumes "hypothesis_links kit = Some a" "hypothesis_links kit' = Some b"
    "kit_db kit' = kit_db kit" "force_expression kit' = force_expression kit"
    "\<forall>v \<in> set (GetRequiredVariables e). map_of a v = map_of b v"
  shows "EvaluateBoolean T kit e = EvaluateBoolean T kit' e \<and> EvaluateSymbol T kit e = EvaluateSymbol T kit' e"
  using assms(5)
proof (induction e rule: expression_induct)
  case (operands e)
  have IH: "EvaluateBoolean T kit x = EvaluateBoolean T kit' x" "EvaluateSymbol T kit x = EvaluateSymbol T kit' x"
    if "x \<in> set (GetOperands e)" for x
    using operands(1)[OF that] operands(2) GetRequiredVariables_operand[OF that] by blast+
  have m: "mapE (EvaluateBoolean T kit) xs = mapE (EvaluateBoolean T kit') xs"
      "mapE (EvaluateSymbol T kit) xs = mapE (EvaluateSymbol T kit') xs"
      "bindE (unchecked_at xs i) (EvaluateBoolean T kit) = bindE (unchecked_at xs i) (EvaluateBoolean T kit')"
      "bindE (unchecked_at xs i) (EvaluateSymbol T kit) = bindE (unchecked_at xs i) (EvaluateSymbol T kit')"
    if "set xs \<subseteq> set (GetOperands e)" for xs i
    using that IH by (auto intro!: mapE_local unchecked_local)
  note ev = EvaluateBoolean.simps[of T kit e] EvaluateBoolean.simps[of T kit' e]
  note es = EvaluateSymbol.simps[of T kit e] EvaluateSymbol.simps[of T kit' e]
  have "EvaluateBoolean T kit e = EvaluateBoolean T kit' e"
  proof (cases "IsPredicate e")
    case True
    then show ?thesis
      using m(2)[of "GetOperands e"] assms(3,4) by (simp add: EvaluateBoolean_predicate split: option.splits)
  next
    case False
    then show ?thesis
      using m(1)[of "GetOperands e"] m(1,3) IH ev
      by (cases e) (simp_all cong: if_cong)
  qed
  moreover have "EvaluateSymbol T kit e = EvaluateSymbol T kit' e"
  proof (cases e)
    case (SymbolVariable v)
    with operands(2) assms(1,2) es show ?thesis by (simp add: deref_def)
  next
    case (AllInCategoryRangeOperator bounds li ui)
    have "AllInCategoryRangeOperator_Evaluate T (kit_db kit) (EvaluateSymbol T kit) bounds li ui
      = AllInCategoryRangeOperator_Evaluate T (kit_db kit) (EvaluateSymbol T kit') bounds li ui"
      using bounds_operands[of _ bounds li ui] IH(2) AllInCategoryRangeOperator by (intro Evaluate_cong) auto
    then show ?thesis using AllInCategoryRangeOperator assms(3) es by simp
  next
    case (ConditionalOperator c t f)
    then show ?thesis using IH es by (simp cong: if_cong split: option.splits)
  next
    case (MultiConditionalOperator cs os)
    then show ?thesis using m(1,4) es by (simp cong: if_cong)
  qed (use m(2)[of "GetOperands e"] IH assms(3) es in \<open>simp_all cong: if_cong\<close>)
  ultimately show ?case by blast
qed

section \<open>Properties of evaluation\<close>

text \<open>A small tree for concrete evaluations: link \<open>1\<close> is a node of category \<open>7\<close> whose sequence of
  children is \<open>[2, 3]\<close> and whose singular child is \<open>4\<close>; the other nodes are leaves of category \<open>8\<close>.\<close>

definition example_tree :: tree_ops where
  "example_tree = \<lparr>
     GetChildTreePtr = TreeNode,
     CreateFrom = (\<lambda>n. case n of TreeNode k \<Rightarrow> k | _ \<Rightarrow> 10),
     OffEnd = 9,
     IsSubcategory = (\<lambda>a n. (a = 7) = (n = TreeNode 1)),
     ArchetypeIsSubcategory = (=),
     Itemise = (\<lambda>a n. if a = 7 then [SequenceItem [2, 3], SingularItem 4] else []),
     IsLocalMatch = (\<lambda>p n. (p = 7) = (n = TreeNode 1)),
     FlattenNode = (\<lambda>n. if n = TreeNode 1 then [2, 3, 4] else []),
     simple_compare = (\<lambda>m n. if m = n then 0 else 1),
     GetLastDescendantXLink = (\<lambda>x. if x = 1 then 4 else x)\<rparr>"

definition example_kit :: "Assignments \<Rightarrow> EvalKit" where
  "example_kit links = \<lparr>hypothesis_links = Some links, kit_db = None, force_expression = (\<lambda>e. None)\<rparr>"

text \<open>The second link's first child is the first link: \<open>C\<^sub>1 = ChildSequenceFront(C\<^sub>2)\<close>.\<close>

definition example_clause :: Expression where
  "example_clause = IsEqualOperator (SymbolVariable 1) (ChildOperator ChildSequenceFront 7 0 (SymbolVariable 2))"

lemma example_clause_facts [simp]:
  "IsPredicate example_clause" "IsBoolean example_clause" "well_typed example_clause"
  "GetRequiredVariables example_clause = [1, 2]"
proof -
  show "GetRequiredVariables example_clause = [1, 2]"
    by (rule GetRequiredVariables_eqI) (auto simp: example_clause_def GetRequiredVariables_set)
qed (simp_all add: example_clause_def well_typed.simps IsSymbol_def)

lemma example_clause_evaluates:
  "map_of links 2 = Some 1 \<Longrightarrow> map_of links 1 = Some x \<Longrightarrow> x \<noteq> null_link \<Longrightarrow>
     EvaluateBoolean example_tree (example_kit links) example_clause = Inr (BooleanResult (x = 2))"
  by (simp add: example_clause_def EvaluateBoolean.simps[of _ _ "IsEqualOperator a b" for a b] EvaluateSymbol.simps
      example_kit_def example_tree_def deref_def make_UniqueResult_def new_UniqueResult_def
      ChildOperator_Evaluate_def PredicateOperator_Evaluate_def IsEqualOperator_Evaluate_def if_all_unique_def same_xlink_def Let_def unchecked_at_def)

text \<open>C36: An expression evaluates the same way, to the same result or the same failure, in any two kits that
  agree on the variables it requires, whatever else the hypotheses assign: \<open>GetRequiredVariables\<close> names
  every variable that evaluation reads, through all operand kinds, conditionals and ranges.\<close>

theorem Evaluation_reads_required_variables:
  assumes "hypothesis_links kit = Some a"
    "\<forall>v \<in> set (GetRequiredVariables e). map_of a v = map_of b v"
  shows "EvaluateBoolean T kit e = EvaluateBoolean T (kit\<lparr>hypothesis_links := Some b\<rparr>) e
    \<and> EvaluateSymbol T kit e = EvaluateSymbol T (kit\<lparr>hypothesis_links := Some b\<rparr>) e"
  using assms by (intro Evaluate_local) simp_all

lemma Evaluation_reads_required_variables_witness:
  "EvaluateBoolean example_tree (example_kit [(1, 2), (2, 1), (3, 5)]) example_clause
     = Inr (BooleanResult True)"
proof -
  have "EvaluateBoolean example_tree (example_kit [(1, 2), (2, 1)]) example_clause
    = EvaluateBoolean example_tree ((example_kit [(1, 2), (2, 1)])\<lparr>hypothesis_links := Some [(1, 2), (2, 1), (3, 5)]\<rparr>) example_clause"
    using Evaluation_reads_required_variables[of "example_kit [(1, 2), (2, 1)]" "[(1, 2), (2, 1)]"
      example_clause "[(1, 2), (2, 1), (3, 5)]" example_tree] by (simp add: example_kit_def)
  then show ?thesis
    using example_clause_evaluates[of "[(1, 2), (2, 1)]" 2] by (simp add: example_kit_def)
qed

text \<open>C22: Evaluation of the boolean connectives is the classical truth function of their predicates:
  when every predicate below a well-typed boolean expression evaluates to a value, the expression
  evaluates to the value that the truth tables of its connectives give, and nothing fails. This holds
  for negation, conjunction and disjunction over any number of operands (computed as a least and a
  greatest element), equality, implication, the conditional \<open>Uniplexor\<close> and the \<open>Multiplexor\<close>,
  which never reads past its options.\<close>

theorem Evaluation_is_truth_functional:
  assumes "well_typed e" "IsBoolean e"
    "\<forall>p \<in> set (predicates_of e). EvaluateBoolean T kit p = Inr (BooleanResult (\<sigma> p))"
  shows "EvaluateBoolean T kit e = Inr (BooleanResult (truth \<sigma> e))"
  using assms by (intro Evaluate_truth) simp_all

lemma Evaluation_is_truth_functional_witness:
  "EvaluateBoolean example_tree (example_kit [(1, 3), (2, 1)])
     (Multiplexor [BooleanConstant True] [BooleanConstant False, NotOperator example_clause])
   = Inr (BooleanResult True)"
proof -
  let ?kit = "example_kit [(1, 3), (2, 1)]"
  let ?e = "Multiplexor [BooleanConstant True] [BooleanConstant False, NotOperator example_clause]"
  have t: "well_typed ?e" "IsBoolean ?e"
    by (simp_all add: well_typed.simps[of "Multiplexor c s" for c s] well_typed.simps[of "BooleanConstant b" for b]
        well_typed.simps[of "NotOperator x" for x])
  have p: "predicates_of ?e = [example_clause]"
    by (simp add: predicates_of.simps[of "Multiplexor c s" for c s] predicates_of.simps[of "BooleanConstant b" for b]
        predicates_of.simps[of "NotOperator x" for x])
  have "\<forall>p \<in> set (predicates_of ?e). EvaluateBoolean example_tree ?kit p = Inr (BooleanResult False)"
    using example_clause_evaluates[of "[(1, 3), (2, 1)]" 3] by (simp add: p)
  from Evaluation_is_truth_functional[OF t this] show ?thesis
    by (simp add: truth.simps[of _ ?e] unchecked_at_def truth_predicate)
qed

end
