(* ===== verification/Rewriters.thy ===== *)
theory Rewriters
  imports Evaluation
begin

text \<open>
  Rewriting of boolean expressions: the tidied connectives behind the overloaded operators and the
  preprocessing of clauses (\<^verbatim>\<open>vn/sym/rewriters.cpp\<close>, \<^verbatim>\<open>lazy_eval.hpp\<close>), and the clutch that makes a
  constraint optional (\<^verbatim>\<open>vn/sym/clutch.cpp\<close>). Each is shown to evaluate as it should.

  A set of shared pointers iterates in an order that the code does not determine; a list stands
  for it.
\<close>

section \<open>Tidied connectives\<close>

text \<open>The dynamic cast to \<^verbatim>\<open>BooleanConstant\<close>.\<close>

fun as_constant :: "Expression \<Rightarrow> bool option" where
  "as_constant (BooleanConstant v) = Some v"
| "as_constant _ = None"

fun tidy_loop :: "(Expression \<Rightarrow> bool) \<Rightarrow> bool \<Rightarrow> Expression list \<Rightarrow> Expression list \<Rightarrow> Expression list" where
  "tidy_loop is_op identity [] out = out"
| "tidy_loop is_op identity (bexpr # exprs) out =
     (if is_op bexpr then tidy_loop is_op identity exprs (out @ GetOperands bexpr)
      else (case as_constant bexpr of
              Some v \<Rightarrow> if v = identity then tidy_loop is_op identity exprs out else [bexpr]
            | None \<Rightarrow> tidy_loop is_op identity exprs (out @ [bexpr])))"

definition CreateTidiedOperator ::
    "(Expression \<Rightarrow> bool) \<Rightarrow> (Expression list \<Rightarrow> Expression) \<Rightarrow> bool \<Rightarrow> Expression list \<Rightarrow> Expression" where
  "CreateTidiedOperator is_op make_op identity exprs =
     (let out = tidy_loop is_op identity exprs [] in
      if out = [] then BooleanConstant identity
      else if length out = 1 then hd out
      else make_op out)"

fun IsAnd :: "Expression \<Rightarrow> bool" where
  "IsAnd (AndOperator sa) = True"
| "IsAnd _ = False"

fun IsOr :: "Expression \<Rightarrow> bool" where
  "IsOr (OrOperator sa) = True"
| "IsOr _ = False"

definition TidiedAnd :: "Expression list \<Rightarrow> Expression" where
  "TidiedAnd = CreateTidiedOperator IsAnd AndOperator True"

definition TidiedOr :: "Expression list \<Rightarrow> Expression" where
  "TidiedOr = CreateTidiedOperator IsOr OrOperator False"

text \<open>The overloaded operators \<^verbatim>\<open>~\<close>, \<^verbatim>\<open>&\<close>, \<^verbatim>\<open>|\<close>, \<^verbatim>\<open>==\<close> and \<^verbatim>\<open>!=\<close>.\<close>

definition lazy_not :: "Expression \<Rightarrow> Expression" where
  "lazy_not a = NotOperator a"

definition lazy_and :: "Expression \<Rightarrow> Expression \<Rightarrow> Expression" where
  "lazy_and a b = TidiedAnd [a, b]"

definition lazy_or :: "Expression \<Rightarrow> Expression \<Rightarrow> Expression" where
  "lazy_or a b = TidiedOr [a, b]"

definition lazy_bool_equal :: "Expression \<Rightarrow> Expression \<Rightarrow> Expression" where
  "lazy_bool_equal a b = BoolEqualOperator a b"

definition lazy_equal :: "Expression \<Rightarrow> Expression \<Rightarrow> Expression" where
  "lazy_equal a b = IsEqualOperator a b"

definition lazy_not_equal :: "Expression \<Rightarrow> Expression \<Rightarrow> Expression" where
  "lazy_not_equal a b = lazy_not (lazy_equal a b)"

section \<open>Preprocessing of clauses\<close>

function SplitAnds :: "Expression list \<Rightarrow> Expression \<Rightarrow> Expression list" where
  "SplitAnds split original =
     (if IsAnd original then fold (\<lambda>x s. SplitAnds s x) (GetOperands original) split
      else List.insert original split)"
  by pat_completeness auto

termination SplitAnds
  by (relation "measure (\<lambda>(split, e). size e)") (simp_all only: in_measure size_GetOperands wf_measure prod.case)

declare SplitAnds.simps [simp del]

definition PreprocessForEngine :: "Expression list \<Rightarrow> Expression list result" where
  "PreprocessForEngine exprs =
     foldE (\<lambda>bexpr l2.
         case as_constant bexpr of
           Some v \<Rightarrow> guardE v (Inr l2)
         | None \<Rightarrow> Inr (List.insert bexpr l2))
       (fold (\<lambda>bexpr l1. SplitAnds l1 bexpr) exprs []) []"

section \<open>The clutch\<close>

definition all_disengaged_list :: "Expression \<Rightarrow> VariableId list \<Rightarrow> Expression list" where
  "all_disengaged_list disengager_expr plinks =
     map (\<lambda>plink. lazy_equal (SymbolVariable plink) disengager_expr) plinks"

definition ApplyUnified :: "Expression \<Rightarrow> Expression \<Rightarrow> Expression result" where
  "ApplyUnified disengager_expr original_expr =
     (case GetRequiredVariables original_expr of
        [] \<Rightarrow> Inr original_expr
      | first # rest \<Rightarrow>
          (let first_engage = lazy_not_equal (SymbolVariable first) disengager_expr;
               original_when_engaged = ImplicationOperator first_engage original_expr
           in bindE (ForOverlappingAdjacentPairs (all_disengaged_list disengager_expr (first # rest))
                  (\<lambda>ea eb all_disengage_equal. Next (lazy_and all_disengage_equal (lazy_bool_equal ea eb)))
                  (BooleanConstant True))
                (\<lambda>all_disengage_equal. Inr (lazy_and all_disengage_equal original_when_engaged))))"

function ApplyDistributed :: "Expression \<Rightarrow> Expression \<Rightarrow> Expression result" where
  "ApplyDistributed disengager_expr original_expr =
     (if IsAnd original_expr
      then bindE (mapE (ApplyDistributed disengager_expr) (GetOperands original_expr))
             (\<lambda>new_clauses. Inr (AndOperator new_clauses))
      else ApplyUnified disengager_expr original_expr)"
  by pat_completeness auto

termination ApplyDistributed
  by (relation "measure (\<lambda>(d, e). size e)") (simp_all only: in_measure size_GetOperands wf_measure prod.case)

declare ApplyDistributed.simps [simp del]

section \<open>What the tidied connectives mean\<close>

definition conj_of :: "(Expression \<Rightarrow> bool) \<Rightarrow> Expression list \<Rightarrow> bool" where
  "conj_of \<sigma> es \<longleftrightarrow> (\<forall>e \<in> set es. truth \<sigma> e)"

lemma as_constant_Some: "as_constant e = Some v \<Longrightarrow> e = BooleanConstant v"
  by (cases e) simp_all

lemma IsAnd_truth: "IsAnd e \<Longrightarrow> truth \<sigma> e \<longleftrightarrow> conj_of \<sigma> (GetOperands e)"
  by (cases e) (simp_all add: conj_of_def list_all_iff)

lemma IsOr_truth: "IsOr e \<Longrightarrow> truth \<sigma> e \<longleftrightarrow> (\<exists>x \<in> set (GetOperands e). truth \<sigma> x)"
  by (cases e) (simp_all add: list_ex_iff)

lemma conj_of_simps [simp]:
  "conj_of \<sigma> []"
  "conj_of \<sigma> (e # es) \<longleftrightarrow> truth \<sigma> e \<and> conj_of \<sigma> es"
  "conj_of \<sigma> (es @ fs) \<longleftrightarrow> conj_of \<sigma> es \<and> conj_of \<sigma> fs"
  by (auto simp: conj_of_def)

lemma tidy_and: "conj_of \<sigma> (tidy_loop IsAnd True exprs out) \<longleftrightarrow> conj_of \<sigma> exprs \<and> conj_of \<sigma> out"
proof (induction exprs arbitrary: out)
  case (Cons b exprs)
  consider "IsAnd b" | "\<not> IsAnd b" "as_constant b = None" | v where "\<not> IsAnd b" "b = BooleanConstant v"
    by (cases "as_constant b") (auto dest: as_constant_Some)
  then show ?case by cases (auto simp: Cons IsAnd_truth)
qed simp

lemma tidy_or:
  "(\<exists>e \<in> set (tidy_loop IsOr False exprs out). truth \<sigma> e)
     \<longleftrightarrow> (\<exists>e \<in> set exprs. truth \<sigma> e) \<or> (\<exists>e \<in> set out. truth \<sigma> e)"
proof (induction exprs arbitrary: out)
  case (Cons b exprs)
  consider "IsOr b" | "\<not> IsOr b" "as_constant b = None" | v where "\<not> IsOr b" "b = BooleanConstant v"
    by (cases "as_constant b") (auto dest: as_constant_Some)
  then show ?case by cases (auto simp: Cons IsOr_truth)
qed simp

lemma TidiedAnd_truth [simp]: "truth \<sigma> (TidiedAnd es) \<longleftrightarrow> conj_of \<sigma> es"
proof -
  let ?out = "tidy_loop IsAnd True es []"
  have "conj_of \<sigma> ?out = conj_of \<sigma> es" using tidy_and[of \<sigma> es "[]"] by (simp add: conj_of_def)
  moreover have "truth \<sigma> (TidiedAnd es) = conj_of \<sigma> ?out"
    by (cases ?out rule: list.exhaust; cases "tl ?out")
      (auto simp: TidiedAnd_def CreateTidiedOperator_def conj_of_def Let_def list_all_iff)
  ultimately show ?thesis by simp
qed

lemma TidiedOr_truth [simp]: "truth \<sigma> (TidiedOr es) \<longleftrightarrow> (\<exists>e \<in> set es. truth \<sigma> e)"
proof -
  let ?out = "tidy_loop IsOr False es []"
  have "truth \<sigma> (TidiedOr es) = (\<exists>e \<in> set ?out. truth \<sigma> e)"
    by (cases ?out rule: list.exhaust; cases "tl ?out")
      (auto simp: TidiedOr_def CreateTidiedOperator_def Let_def list_ex_iff)
  then show ?thesis using tidy_or[of es "[]" \<sigma>] by simp
qed

text \<open>Rewriting brings in no new predicates and keeps the types: a property that passes to the
  operands of a connective passes to the tidied connective.\<close>

definition clause_over :: "Expression set \<Rightarrow> Expression \<Rightarrow> bool" where
  "clause_over P e \<longleftrightarrow> well_typed e \<and> IsBoolean e \<and> set (predicates_of e) \<subseteq> P"

lemma connective_not_predicate: "IsAnd e \<or> IsOr e \<Longrightarrow> \<not> IsPredicate e \<and> IsBoolean e"
  by (cases e) simp_all

lemma clause_over_operand:
  assumes "clause_over P e" "\<not> IsPredicate e" "x \<in> set (GetOperands e)"
  shows "clause_over P x"
  using assms boolean_operands[of e x] predicates_of_operand[of x e] well_typed_operand[of e x]
  by (auto simp: clause_over_def)

lemma tidy_clauses:
  assumes "is_op = IsAnd \<or> is_op = IsOr" "\<forall>e \<in> set exprs. clause_over P e" "\<forall>e \<in> set out. clause_over P e"
  shows "\<forall>e \<in> set (tidy_loop is_op identity exprs out). clause_over P e"
  using assms(2,3)
proof (induction exprs arbitrary: out)
  case (Cons b exprs)
  have zs: "\<forall>e \<in> set (tidy_loop is_op identity exprs (out @ zs)). clause_over P e"
    if "\<forall>x \<in> set zs. clause_over P x" for zs
    using that Cons.prems by (intro Cons.IH) auto
  have out: "\<forall>e \<in> set (tidy_loop is_op identity exprs out). clause_over P e"
    using Cons.prems by (intro Cons.IH) auto
  have b: "clause_over P b" using Cons.prems(1) by simp
  show ?case
  proof (cases "is_op b")
    case True
    then have "IsAnd b \<or> IsOr b" using assms(1) by auto
    then have "\<not> IsPredicate b" using connective_not_predicate by blast
    then have "\<forall>x \<in> set (GetOperands b). clause_over P x" using clause_over_operand[OF b] by blast
    from zs[OF this] True show ?thesis by simp
  next
    case False
    then show ?thesis using zs[of "[b]"] out b by (cases "as_constant b") simp_all
  qed
qed simp

lemma clause_over_simps [simp]:
  "clause_over P (BooleanConstant v)"
  "clause_over P (AndOperator es) \<longleftrightarrow> (\<forall>e \<in> set es. clause_over P e)"
  "clause_over P (OrOperator es) \<longleftrightarrow> (\<forall>e \<in> set es. clause_over P e)"
  "clause_over P (NotOperator a) \<longleftrightarrow> clause_over P a"
  "clause_over P (BoolEqualOperator a b) \<longleftrightarrow> clause_over P a \<and> clause_over P b"
  "clause_over P (ImplicationOperator a b) \<longleftrightarrow> clause_over P a \<and> clause_over P b"
  by (auto simp: clause_over_def list_all_iff well_typed.simps[of "BooleanConstant v"] predicates_of.simps[of "BooleanConstant v"]
      well_typed.simps[of "AndOperator es"] predicates_of.simps[of "AndOperator es"]
      well_typed.simps[of "OrOperator es"] predicates_of.simps[of "OrOperator es"]
      well_typed.simps[of "NotOperator a"] predicates_of.simps[of "NotOperator a"]
      well_typed.simps[of "BoolEqualOperator a b"] predicates_of.simps[of "BoolEqualOperator a b"]
      well_typed.simps[of "ImplicationOperator a b"] predicates_of.simps[of "ImplicationOperator a b"])

lemma clause_over_predicate: "IsPredicate p \<Longrightarrow> clause_over P p \<longleftrightarrow> well_typed p \<and> p \<in> P"
  by (cases p) (auto simp: clause_over_def)

lemma CreateTidiedOperator_clauses:
  assumes "is_op = IsAnd \<or> is_op = IsOr" "\<forall>e \<in> set es. clause_over P e"
    "\<And>es. \<forall>e \<in> set es. clause_over P e \<Longrightarrow> clause_over P (make_op es)"
  shows "clause_over P (CreateTidiedOperator is_op make_op identity es)"
proof -
  have "\<forall>e \<in> set (tidy_loop is_op identity es []). clause_over P e"
    using tidy_clauses[OF assms(1,2), of "[]" identity] by simp
  then show ?thesis
    using assms(3) by (auto simp: CreateTidiedOperator_def Let_def)
qed

lemma Tidied_clauses:
  assumes "\<forall>e \<in> set es. clause_over P e"
  shows "clause_over P (TidiedAnd es)" "clause_over P (TidiedOr es)"
  unfolding TidiedAnd_def TidiedOr_def using assms by (auto intro!: CreateTidiedOperator_clauses)

text \<open>A kit that gives the predicates of \<open>P\<close> the values \<open>\<sigma>\<close>.\<close>

definition gives :: "tree_ops \<Rightarrow> EvalKit \<Rightarrow> Expression set \<Rightarrow> (Expression \<Rightarrow> bool) \<Rightarrow> bool" where
  "gives T kit P \<sigma> \<longleftrightarrow> (\<forall>p \<in> P. EvaluateBoolean T kit p = Inr (BooleanResult (\<sigma> p)))"

lemma gives_truth: "gives T kit P \<sigma> \<Longrightarrow> clause_over P e \<Longrightarrow> EvaluateBoolean T kit e = Inr (BooleanResult (truth \<sigma> e))"
  by (rule Evaluate_truth) (auto simp: gives_def clause_over_def)

section \<open>What preprocessing does\<close>

lemma GetOperands_And: "IsAnd e \<Longrightarrow> e = AndOperator (GetOperands e)"
  by (cases e) simp_all

definition split_ok :: "Expression set \<Rightarrow> Expression list \<Rightarrow> bool" where
  "split_ok P split \<longleftrightarrow> (\<forall>x \<in> set split. clause_over P x \<and> \<not> IsAnd x) \<and> distinct split"

lemma conj_of_insert [simp]: "conj_of \<sigma> (List.insert e es) \<longleftrightarrow> truth \<sigma> e \<and> conj_of \<sigma> es"
  by (auto simp: conj_of_def)

lemma SplitAnds_fold:
  assumes "\<And>e s. e \<in> set es \<Longrightarrow> split_ok P s \<Longrightarrow>
      split_ok P (SplitAnds s e) \<and> (\<forall>\<sigma>. conj_of \<sigma> (SplitAnds s e) \<longleftrightarrow> conj_of \<sigma> s \<and> truth \<sigma> e)"
    and "split_ok P split"
  shows "split_ok P (fold (\<lambda>b l. SplitAnds l b) es split)
    \<and> (\<forall>\<sigma>. conj_of \<sigma> (fold (\<lambda>b l. SplitAnds l b) es split) \<longleftrightarrow> conj_of \<sigma> split \<and> conj_of \<sigma> es)"
  using assms
proof (induction es arbitrary: split)
  case (Cons e es)
  then have "split_ok P (SplitAnds split e)" by simp
  with Cons.IH[of "SplitAnds split e"] Cons.prems show ?case by auto
qed simp

lemma SplitAnds_spec:
  assumes "clause_over P e" "split_ok P split"
  shows "split_ok P (SplitAnds split e) \<and> (\<forall>\<sigma>. conj_of \<sigma> (SplitAnds split e) \<longleftrightarrow> conj_of \<sigma> split \<and> truth \<sigma> e)"
  using assms
proof (induction e arbitrary: split rule: expression_induct)
  case (operands e)
  show ?case
  proof (cases "IsAnd e")
    case True
    then have "\<forall>x \<in> set (GetOperands e). clause_over P x"
      using connective_not_predicate clause_over_operand operands(2) by blast
    then have "split_ok P (fold (\<lambda>b l. SplitAnds l b) (GetOperands e) split)
      \<and> (\<forall>\<sigma>. conj_of \<sigma> (fold (\<lambda>b l. SplitAnds l b) (GetOperands e) split)
          \<longleftrightarrow> conj_of \<sigma> split \<and> conj_of \<sigma> (GetOperands e))"
      using operands(1,3) by (intro SplitAnds_fold) simp_all
    then show ?thesis using True by (simp add: SplitAnds.simps[of split e] IsAnd_truth)
  next
    case False
    then show ?thesis using operands(2,3)
      by (auto simp: SplitAnds.simps[of split e] split_ok_def)
  qed
qed

definition preprocess_clause :: "Expression \<Rightarrow> Expression list \<Rightarrow> Expression list result" where
  "preprocess_clause bexpr l2 =
     (case as_constant bexpr of Some v \<Rightarrow> guardE v (Inr l2) | None \<Rightarrow> Inr (List.insert bexpr l2))"

lemma preprocess_clause_simps [simp]:
  "preprocess_clause (BooleanConstant v) l2 = guardE v (Inr l2)"
  "as_constant b = None \<Longrightarrow> preprocess_clause b l2 = Inr (List.insert b l2)"
  by (simp_all add: preprocess_clause_def)

lemma Preprocess_Inl: "foldE preprocess_clause l1 l2 = Inl e \<Longrightarrow> e = AssertFail \<and> BooleanConstant False \<in> set l1"
proof (induction l1 arbitrary: l2)
  case (Cons b l1)
  show ?case
  proof (cases "as_constant b")
    case (Some v)
    then have "b = BooleanConstant v" by (rule as_constant_Some)
    with Cons show ?thesis by (cases v) auto
  next
    case None
    with Cons show ?thesis by auto
  qed
qed simp

lemma Preprocess_Inr:
  "foldE preprocess_clause l1 l2 = Inr out \<Longrightarrow> distinct l2 \<Longrightarrow> distinct out
     \<and> set out = set l2 \<union> {x \<in> set l1. as_constant x = None} \<and> BooleanConstant False \<notin> set l1"
proof (induction l1 arbitrary: l2)
  case (Cons b l1)
  show ?case
  proof (cases "as_constant b")
    case (Some v)
    then have "b = BooleanConstant v" by (rule as_constant_Some)
    with Cons show ?thesis by (cases v) auto
  next
    case None
    with Cons.prems have "foldE preprocess_clause l1 (List.insert b l2) = Inr out" by simp
    from Cons.IH[OF this] Cons.prems(2) have "distinct out"
      "set out = set (List.insert b l2) \<union> {x \<in> set l1. as_constant x = None}" "BooleanConstant False \<notin> set l1" by simp_all
    with None show ?thesis by auto
  qed
qed simp

lemma PreprocessForEngine_eq:
  "PreprocessForEngine es = foldE preprocess_clause (fold (\<lambda>b l. SplitAnds l b) es []) []"
  by (simp add: PreprocessForEngine_def preprocess_clause_def[abs_def])

lemma conj_of_False: "BooleanConstant False \<in> set es \<Longrightarrow> \<not> conj_of \<sigma> es"
  unfolding conj_of_def by (auto intro: bexI[of _ "BooleanConstant False"])

lemma PreprocessForEngine_spec:
  assumes "\<forall>e \<in> set es. clause_over P e"
  shows "case PreprocessForEngine es of
      Inl e \<Rightarrow> e = AssertFail \<and> (\<forall>\<sigma>. \<not> conj_of \<sigma> es)
    | Inr out \<Rightarrow> distinct out \<and> (\<forall>x \<in> set out. clause_over P x \<and> \<not> IsAnd x \<and> as_constant x = None)
        \<and> (\<forall>\<sigma>. conj_of \<sigma> out \<longleftrightarrow> conj_of \<sigma> es)"
proof -
  obtain l1 where l1_def: "fold (\<lambda>b l. SplitAnds l b) es [] = l1" by blast
  have "split_ok P (fold (\<lambda>b l. SplitAnds l b) es [])
      \<and> (\<forall>\<sigma>. conj_of \<sigma> (fold (\<lambda>b l. SplitAnds l b) es []) \<longleftrightarrow> conj_of \<sigma> [] \<and> conj_of \<sigma> es)"
  proof (rule SplitAnds_fold)
    show "split_ok P (SplitAnds s e) \<and> (\<forall>\<sigma>. conj_of \<sigma> (SplitAnds s e) \<longleftrightarrow> conj_of \<sigma> s \<and> truth \<sigma> e)"
      if "e \<in> set es" "split_ok P s" for e s
      using assms that by (intro SplitAnds_spec) simp_all
  qed (simp add: split_ok_def)
  then have l1: "split_ok P l1" "conj_of \<sigma> l1 \<longleftrightarrow> conj_of \<sigma> es" for \<sigma>
    by (simp_all add: l1_def)
  have eq: "PreprocessForEngine es = foldE preprocess_clause l1 []"
    by (simp add: PreprocessForEngine_eq l1_def)
  show ?thesis
  proof (cases "PreprocessForEngine es")
    case (Inl e)
    then have "e = AssertFail" "BooleanConstant False \<in> set l1"
      using Preprocess_Inl[of l1 "[]"] eq by simp_all
    then show ?thesis using l1(2) conj_of_False[of l1] Inl by simp
  next
    case (Inr out)
    then have out: "distinct out" "set out = {x \<in> set l1. as_constant x = None}" "BooleanConstant False \<notin> set l1"
      using Preprocess_Inr[of l1 "[]" out] eq by simp_all
    have "truth \<sigma> x" if a: "x \<in> set l1" "as_constant x \<noteq> None" for \<sigma> x
    proof -
      obtain v where "x = BooleanConstant v" using a(2) as_constant_Some by blast
      with a(1) out(3) show ?thesis by (cases v) auto
    qed
    then have "conj_of \<sigma> out \<longleftrightarrow> conj_of \<sigma> l1" for \<sigma>
      using out(2) unfolding conj_of_def by blast
    with out(1,2) l1 Inr show ?thesis by (simp add: split_ok_def)
  qed
qed

text \<open>Preprocessing a list of boolean expressions flattens every nested conjunction and drops the
  constants without changing what the list as a whole says: the clauses it returns are distinct, none
  is an \<open>AndOperator\<close> or a constant, and under every assignment they all evaluate to true exactly when
  all the given expressions do. It fails its assertion only when some clause is the constant false, and then
  no assignment satisfies the given expressions.\<close>

theorem PreprocessForEngine_conjunction:
  assumes "\<forall>e \<in> set es. clause_over P e"
  shows "case PreprocessForEngine es of
      Inl e \<Rightarrow> e = AssertFail
        \<and> (\<forall>T kit \<sigma>. gives T kit P \<sigma> \<longrightarrow> (\<exists>e \<in> set es. EvaluateBoolean T kit e = Inr (BooleanResult False)))
    | Inr out \<Rightarrow> distinct out \<and> (\<forall>x \<in> set out. \<not> IsAnd x \<and> as_constant x = None)
        \<and> (\<forall>T kit \<sigma>. gives T kit P \<sigma> \<longrightarrow>
            (\<forall>x \<in> set out. EvaluateBoolean T kit x = Inr (BooleanResult True))
              = (\<forall>e \<in> set es. EvaluateBoolean T kit e = Inr (BooleanResult True)))"
proof (cases "PreprocessForEngine es")
  case (Inl e)
  have "\<exists>e \<in> set es. EvaluateBoolean T kit e = Inr (BooleanResult False)" if g: "gives T kit P \<sigma>" for T kit \<sigma>
  proof -
    from PreprocessForEngine_spec[OF assms] Inl obtain e where e: "e \<in> set es" "\<not> truth \<sigma> e"
      by (auto simp: conj_of_def)
    with assms gives_truth[OF g, of e] show ?thesis by (intro bexI[of _ e]) simp_all
  qed
  with PreprocessForEngine_spec[OF assms] Inl show ?thesis by simp
next
  case (Inr out)
  have out: "\<forall>x \<in> set out. clause_over P x" "conj_of \<sigma> out \<longleftrightarrow> conj_of \<sigma> es" for \<sigma>
    using PreprocessForEngine_spec[OF assms] Inr by simp_all
  have conj: "(\<forall>x \<in> set xs. EvaluateBoolean T kit x = Inr (BooleanResult True)) = conj_of \<sigma> xs"
    if "gives T kit P \<sigma>" "\<forall>x \<in> set xs. clause_over P x" for T kit \<sigma> xs
    using gives_truth[OF that(1)] that(2) by (simp add: conj_of_def)
  have "(\<forall>x \<in> set out. EvaluateBoolean T kit x = Inr (BooleanResult True))
      = (\<forall>e \<in> set es. EvaluateBoolean T kit e = Inr (BooleanResult True))"
    if "gives T kit P \<sigma>" for T kit \<sigma>
    using conj[OF that out(1)] conj[OF that assms] out(2) by simp
  with PreprocessForEngine_spec[OF assms] Inr show ?thesis by simp
qed

lemma PreprocessForEngine_conjunction_witness:
  "case PreprocessForEngine [AndOperator [IsLocalMatchOperator 1 (SymbolVariable 2), BooleanConstant True]] of
      Inl e \<Rightarrow> e = AssertFail
    | Inr out \<Rightarrow> distinct out \<and> (\<forall>x \<in> set out. \<not> IsAnd x \<and> as_constant x = None)"
proof -
  let ?e = "AndOperator [IsLocalMatchOperator 1 (SymbolVariable 2), BooleanConstant True]"
  have "\<forall>e \<in> set [?e]. clause_over {IsLocalMatchOperator 1 (SymbolVariable 2)} e"
    by (simp add: clause_over_predicate well_typed.simps IsSymbol_def)
  from PreprocessForEngine_conjunction[OF this] show ?thesis by (simp split: sum.splits)
qed

section \<open>Tidied connectives evaluate like the plain ones\<close>

text \<open>The tidied connectives behind the overloaded operators evaluate like the plain ones: a
  tidied conjunction of well-typed boolean expressions gives the result that an \<open>AndOperator\<close> over the
  same list gives, and a tidied disjunction the result of an \<open>OrOperator\<close>, although nested connectives are
  merged, constants dropped and short lists replaced by their element.\<close>

theorem Tidied_evaluates:
  assumes "gives T kit P \<sigma>" "\<forall>e \<in> set es. clause_over P e"
  shows "EvaluateBoolean T kit (TidiedAnd es) = EvaluateBoolean T kit (AndOperator es)
    \<and> EvaluateBoolean T kit (TidiedOr es) = EvaluateBoolean T kit (OrOperator es)"
  using gives_truth[OF assms(1) Tidied_clauses(1)[OF assms(2)]] gives_truth[OF assms(1) Tidied_clauses(2)[OF assms(2)]]
    gives_truth[OF assms(1), of "AndOperator es"] gives_truth[OF assms(1), of "OrOperator es"] assms(2)
  by (simp add: conj_of_def list_all_iff list_ex_iff)

text \<open>A kit in which the clause of the example evaluates to \<open>v\<close>.\<close>

lemma example_gives:
  "map_of links 2 = Some 1 \<Longrightarrow> map_of links 1 = Some x \<Longrightarrow> x \<noteq> null_link \<Longrightarrow>
     gives example_tree (example_kit links) {example_clause} (\<lambda>p. x = 2)"
  by (simp add: gives_def example_clause_evaluates)

lemma example_clause_over [simp]: "clause_over {example_clause} example_clause"
  by (simp add: clause_over_predicate)

lemma Tidied_evaluates_witness:
  "EvaluateBoolean example_tree (example_kit [(1, 3), (2, 1)]) (TidiedAnd [BooleanConstant True, example_clause])
     = EvaluateBoolean example_tree (example_kit [(1, 3), (2, 1)]) (AndOperator [BooleanConstant True, example_clause])"
  using Tidied_evaluates[OF example_gives, of "[(1, 3), (2, 1)]" 3 "[BooleanConstant True, example_clause]"] by simp

section \<open>What the clutch means\<close>

text \<open>Whether a variable is disengaged, and what a constraint with a clutch requires.\<close>

definition disengaged :: "(Expression \<Rightarrow> bool) \<Rightarrow> Expression \<Rightarrow> VariableId \<Rightarrow> bool" where
  "disengaged \<sigma> d v \<longleftrightarrow> \<sigma> (IsEqualOperator (SymbolVariable v) d)"

definition clutched :: "(Expression \<Rightarrow> bool) \<Rightarrow> Expression \<Rightarrow> Expression \<Rightarrow> bool" where
  "clutched \<sigma> d e \<longleftrightarrow>
     (let vs = GetRequiredVariables e in
      if vs = [] then truth \<sigma> e
      else (\<forall>v \<in> set vs. disengaged \<sigma> d v) \<or> (\<forall>v \<in> set vs. \<not> disengaged \<sigma> d v) \<and> truth \<sigma> e)"

lemma truth_disengaged: "truth \<sigma> (lazy_equal (SymbolVariable v) d) = disengaged \<sigma> d v"
  by (simp add: lazy_equal_def truth_predicate disengaged_def)

lemma all_equal_loop:
  "\<exists>r. catch_break (run_loop (\<lambda>(ea, eb) acc. Next (lazy_and acc (lazy_bool_equal ea eb))) ps s) = Inr r
    \<and> (\<forall>\<sigma>. truth \<sigma> r \<longleftrightarrow> truth \<sigma> s \<and> (\<forall>(ea, eb) \<in> set ps. truth \<sigma> ea = truth \<sigma> eb))
    \<and> (\<forall>P. clause_over P s \<and> (\<forall>(ea, eb) \<in> set ps. clause_over P ea \<and> clause_over P eb) \<longrightarrow> clause_over P r)"
proof (induction ps arbitrary: s)
  case (Cons p ps)
  obtain ea eb where p: "p = (ea, eb)" by (cases p)
  let ?s = "lazy_and s (lazy_bool_equal ea eb)"
  from Cons[of ?s] obtain r where
    "catch_break (run_loop (\<lambda>(ea, eb) acc. Next (lazy_and acc (lazy_bool_equal ea eb))) ps ?s) = Inr r"
    "\<forall>\<sigma>. truth \<sigma> r \<longleftrightarrow> truth \<sigma> ?s \<and> (\<forall>(ea, eb) \<in> set ps. truth \<sigma> ea = truth \<sigma> eb)"
    "\<forall>P. clause_over P ?s \<and> (\<forall>(ea, eb) \<in> set ps. clause_over P ea \<and> clause_over P eb) \<longrightarrow> clause_over P r"
    by (elim exE conjE) (rule that)
  then show ?case using p
    by (intro exI[of _ r]) (simp add: lazy_and_def lazy_bool_equal_def Tidied_clauses)
qed simp

lemma adjacent_equal:
  "(\<forall>(a, b) \<in> set (zip xs (tl xs)). f a = f b) \<longleftrightarrow> (\<forall>x \<in> set xs. f x = f (hd xs))"
proof (induction xs)
  case (Cons x xs)
  then show ?case by (cases xs) auto
qed simp

lemma ApplyUnified_spec:
  "\<exists>u. ApplyUnified d e = Inr u \<and> (\<forall>\<sigma>. truth \<sigma> u = clutched \<sigma> d e)
    \<and> (\<forall>P. clause_over P e \<and> (\<forall>v \<in> set (GetRequiredVariables e). clause_over P (lazy_equal (SymbolVariable v) d))
         \<longrightarrow> clause_over P u)"
proof (cases "GetRequiredVariables e")
  case Nil
  then show ?thesis by (simp add: ApplyUnified_def clutched_def)
next
  case (Cons first rest)
  let ?vs = "first # rest"
  let ?ds = "all_disengaged_list d ?vs"
  let ?when = "ImplicationOperator (lazy_not_equal (SymbolVariable first) d) e"
  obtain r where r:
    "catch_break (run_loop (\<lambda>(ea, eb) acc. Next (lazy_and acc (lazy_bool_equal ea eb))) (zip ?ds (tl ?ds)) (BooleanConstant True)) = Inr r"
    "\<forall>\<sigma>. truth \<sigma> r \<longleftrightarrow> truth \<sigma> (BooleanConstant True) \<and> (\<forall>(ea, eb) \<in> set (zip ?ds (tl ?ds)). truth \<sigma> ea = truth \<sigma> eb)"
    "\<forall>P. clause_over P (BooleanConstant True) \<and> (\<forall>(ea, eb) \<in> set (zip ?ds (tl ?ds)). clause_over P ea \<and> clause_over P eb)
       \<longrightarrow> clause_over P r"
    using all_equal_loop[of "zip ?ds (tl ?ds)" "BooleanConstant True"] by (elim exE conjE) (rule that)
  have unified: "ApplyUnified d e = Inr (lazy_and r ?when)"
    using r(1) by (simp add: ApplyUnified_def Cons Let_def ForOverlappingAdjacentPairs_eq)
  have "truth \<sigma> (lazy_and r ?when) = clutched \<sigma> d e" for \<sigma>
  proof -
    have "truth \<sigma> r \<longleftrightarrow> (\<forall>x \<in> set ?ds. truth \<sigma> x = truth \<sigma> (hd ?ds))"
      using r(2) adjacent_equal[of ?ds "truth \<sigma>"] by simp
    then have "truth \<sigma> r \<longleftrightarrow> (\<forall>v \<in> set ?vs. disengaged \<sigma> d v = disengaged \<sigma> d first)"
      by (simp add: all_disengaged_list_def truth_disengaged)
    then show ?thesis
      using Cons truth_disengaged[of \<sigma> first d]
      by (auto simp: clutched_def Let_def lazy_and_def lazy_not_equal_def lazy_not_def)
  qed
  moreover have "clause_over P (lazy_and r ?when)"
    if P: "clause_over P e" "\<forall>v \<in> set (GetRequiredVariables e). clause_over P (lazy_equal (SymbolVariable v) d)" for P
  proof -
    have "\<forall>x \<in> set ?ds. clause_over P x" using P(2) Cons by (auto simp: all_disengaged_list_def)
    moreover have "set (tl ?ds) \<subseteq> set ?ds" by (simp add: all_disengaged_list_def subset_insertI)
    ultimately have "\<forall>(ea, eb) \<in> set (zip ?ds (tl ?ds)). clause_over P ea \<and> clause_over P eb"
      using set_zip_leftD[of _ _ ?ds "tl ?ds"] set_zip_rightD[of _ _ ?ds "tl ?ds"] by blast
    then have "clause_over P r" using r(3) by simp
    then show ?thesis using P Cons
      by (simp add: lazy_and_def Tidied_clauses lazy_not_equal_def lazy_not_def)
  qed
  ultimately show ?thesis using unified by blast
qed

text \<open>The clauses that \<open>ApplyDistributed\<close> puts a clutch on.\<close>

function and_clauses :: "Expression \<Rightarrow> Expression list" where
  "and_clauses e = (if IsAnd e then concat (map and_clauses (GetOperands e)) else [e])"
  by pat_completeness auto

termination and_clauses
  by (relation "measure size") (simp_all only: in_measure size_GetOperands wf_measure)

declare and_clauses.simps [simp del]

definition clutch_over :: "Expression set \<Rightarrow> Expression \<Rightarrow> Expression \<Rightarrow> bool" where
  "clutch_over P d e \<longleftrightarrow>
     clause_over P e \<and> (\<forall>v \<in> set (GetRequiredVariables e). clause_over P (lazy_equal (SymbolVariable v) d))"

lemma clutch_over_operand:
  "clutch_over P d e \<Longrightarrow> IsAnd e \<Longrightarrow> x \<in> set (GetOperands e) \<Longrightarrow> clutch_over P d x"
  using clause_over_operand[of P e x] connective_not_predicate[of e] GetRequiredVariables_operand[of x e]
  by (auto simp: clutch_over_def)

lemma ApplyDistributed_spec:
  "clutch_over P d e \<Longrightarrow>
     \<exists>u. ApplyDistributed d e = Inr u \<and> clause_over P u
       \<and> (\<forall>\<sigma>. truth \<sigma> u = (\<forall>c \<in> set (and_clauses e). clutched \<sigma> d c))"
proof (induction e rule: expression_induct)
  case (operands e)
  show ?case
  proof (cases "IsAnd e")
    case True
    have "\<forall>x \<in> set (GetOperands e). \<exists>u. ApplyDistributed d x = Inr u \<and> clause_over P u
       \<and> (\<forall>\<sigma>. truth \<sigma> u = (\<forall>c \<in> set (and_clauses x). clutched \<sigma> d c))"
      using operands clutch_over_operand[OF operands(2) True] by blast
    then obtain f where f: "\<forall>x \<in> set (GetOperands e). ApplyDistributed d x = Inr (f x) \<and> clause_over P (f x)
       \<and> (\<forall>\<sigma>. truth \<sigma> (f x) = (\<forall>c \<in> set (and_clauses x). clutched \<sigma> d c))"
      unfolding bchoice_iff by blast
    then have "mapE (ApplyDistributed d) (GetOperands e) = Inr (map f (GetOperands e))"
      by (intro mapE_Inr) blast
    then have "ApplyDistributed d e = Inr (AndOperator (map f (GetOperands e)))"
      using True by (simp add: ApplyDistributed.simps[of d e])
    with f True show ?thesis
      by (simp add: list_all_iff and_clauses.simps[of e])
  next
    case False
    obtain u where "ApplyUnified d e = Inr u" "\<forall>\<sigma>. truth \<sigma> u = clutched \<sigma> d e"
      "\<forall>P. clause_over P e \<and> (\<forall>v \<in> set (GetRequiredVariables e). clause_over P (lazy_equal (SymbolVariable v) d))
         \<longrightarrow> clause_over P u"
      using ApplyUnified_spec[of d e] by (elim exE conjE) (rule that)
    with False operands(2) show ?thesis
      by (simp add: ApplyDistributed.simps[of d e] and_clauses.simps[of e] clutch_over_def)
  qed
qed

text \<open>C23: A clutch makes a constraint optional. The rewritten expression evaluates to true exactly when
  either every variable of the constraint equals the disengager and the constraint does not matter, or
  none does and the constraint holds: a constraint with only some of its variables disengaged never
  matches. A constraint without variables is left as it is. Distributing the clutch over a conjunction
  applies this to each of its clauses, nested conjunctions included.\<close>

theorem ClutchRewriter_makes_optional:
  assumes "clutch_over P d e" "gives T kit P \<sigma>"
  shows "(\<exists>u. ApplyUnified d e = Inr u
      \<and> EvaluateBoolean T kit u = Inr (BooleanResult
         (if GetRequiredVariables e = [] then truth \<sigma> e
          else (\<forall>v \<in> set (GetRequiredVariables e). disengaged \<sigma> d v)
            \<or> (\<forall>v \<in> set (GetRequiredVariables e). \<not> disengaged \<sigma> d v) \<and> truth \<sigma> e)))
    \<and> (\<exists>u. ApplyDistributed d e = Inr u
      \<and> EvaluateBoolean T kit u = Inr (BooleanResult (\<forall>c \<in> set (and_clauses e). clutched \<sigma> d c)))"
proof -
  obtain u where u: "ApplyUnified d e = Inr u" "\<forall>\<sigma>. truth \<sigma> u = clutched \<sigma> d e"
    "\<forall>P. clause_over P e \<and> (\<forall>v \<in> set (GetRequiredVariables e). clause_over P (lazy_equal (SymbolVariable v) d))
       \<longrightarrow> clause_over P u"
    using ApplyUnified_spec[of d e] by (elim exE conjE) (rule that)
  then have "clause_over P u" using assms(1) by (simp add: clutch_over_def)
  from gives_truth[OF assms(2) this] u(1,2)
  have "\<exists>u. ApplyUnified d e = Inr u \<and> EvaluateBoolean T kit u = Inr (BooleanResult (clutched \<sigma> d e))" by simp
  moreover have "\<exists>u. ApplyDistributed d e = Inr u
      \<and> EvaluateBoolean T kit u = Inr (BooleanResult (\<forall>c \<in> set (and_clauses e). clutched \<sigma> d c))"
    using ApplyDistributed_spec[OF assms(1)] gives_truth[OF assms(2)] by auto
  ultimately show ?thesis by (simp add: clutched_def Let_def)
qed

lemma ClutchRewriter_makes_optional_witness:
  "\<exists>u. ApplyUnified (SymbolConstant 5) example_clause = Inr u
    \<and> EvaluateBoolean example_tree (example_kit [(1, 5), (2, 5)]) u = Inr (BooleanResult True)"
proof -
  let ?d = "SymbolConstant 5"
  let ?kit = "example_kit [(1, 5), (2, 5)]"
  let ?eq = "\<lambda>v. IsEqualOperator (SymbolVariable v) ?d"
  let ?\<sigma> = "\<lambda>p. p \<noteq> example_clause"
  have v: "EvaluateBoolean example_tree ?kit (?eq 1) = Inr (BooleanResult True)"
    "EvaluateBoolean example_tree ?kit (?eq 2) = Inr (BooleanResult True)"
    by (simp_all add: EvaluateBoolean.simps[of _ _ "?eq w" for w] EvaluateSymbol.simps example_kit_def
        deref_def make_UniqueResult_def new_UniqueResult_def PredicateOperator_Evaluate_def IsEqualOperator_Evaluate_def if_all_unique_def same_xlink_def)
  have c: "EvaluateBoolean example_tree ?kit example_clause = Inr (BooleanResult False)"
    by (simp add: example_clause_def EvaluateBoolean.simps[of _ _ "IsEqualOperator a b" for a b] EvaluateSymbol.simps
      example_kit_def example_tree_def deref_def make_UniqueResult_def new_UniqueResult_def
      ChildOperator_Evaluate_def PredicateOperator_Evaluate_def IsEqualOperator_Evaluate_def if_all_unique_def Let_def)
  have "gives example_tree ?kit {?eq 1, ?eq 2, example_clause} ?\<sigma>"
    using v c by (simp add: gives_def example_clause_def)
  moreover have "clutch_over {?eq 1, ?eq 2, example_clause} ?d example_clause"
    by (simp add: clutch_over_def clause_over_predicate lazy_equal_def well_typed.simps[of "?eq w" for w]
        well_typed.simps[of "SymbolConstant x" for x] well_typed.simps[of "SymbolVariable x" for x] IsSymbol_def)
  moreover have "disengaged ?\<sigma> ?d 1" "disengaged ?\<sigma> ?d 2"
    by (simp_all add: disengaged_def example_clause_def)
  ultimately show ?thesis
    using ClutchRewriter_makes_optional[of "{?eq 1, ?eq 2, example_clause}" ?d example_clause example_tree ?kit ?\<sigma>]
    by simp
qed

end
