(* ===== verification/ExpressionOrder.thy ===== *)
theory ExpressionOrder
  imports Evaluation "HOL-Library.Countable"
begin

text \<open>
  The ordering of expressions (\<^verbatim>\<open>common/orderable.cpp\<close>, \<^verbatim>\<open>Expression::OrderCompare3WayChildren\<close>
  and the \<^verbatim>\<open>OrderCompare3WayCovariant\<close> overrides), by which the solver groups predicates that are
  equal. It is shown to be a strict weak ordering, and what compares equal is characterised.

  The order of \<^verbatim>\<open>std::type_index\<close> and the ordering of pattern nodes are parameters. Indices and
  sizes are exact integers: the differences that the code computes fit an \<^verbatim>\<open>int\<close> as long as indices and
  sizes are below \<open>2 ^ 31\<close>.
\<close>

section \<open>Classes\<close>

datatype TypeId =
    T_BooleanConstant | T_Not | T_And | T_Or | T_BoolEqual | T_Implication | T_Uniplexor | T_Multiplexor
  | T_IsEqual | T_Comparison Comparison | T_IsAllDiff | T_IsInCategory | T_IsChildCollectionSized
  | T_IsSimpleCompareEquivalent | T_IsLocalMatch
  | T_SymbolConstant | T_SymbolVariable | T_Child ChildKind | T_XTreeDb DbKind | T_AllChildren
  | T_Complement | T_Union | T_Intersection | T_Range Range | T_AllInSimpleCompareRange
  | T_AllInCategoryRange | T_Conditional | T_MultiConditional

text \<open>\<^verbatim>\<open>typeid\<close>.\<close>

fun type_id :: "Expression \<Rightarrow> TypeId" where
  "type_id (BooleanConstant v) = T_BooleanConstant"
| "type_id (NotOperator a) = T_Not"
| "type_id (AndOperator sa) = T_And"
| "type_id (OrOperator sa) = T_Or"
| "type_id (BoolEqualOperator a b) = T_BoolEqual"
| "type_id (ImplicationOperator a b) = T_Implication"
| "type_id (Uniplexor a b c) = T_Uniplexor"
| "type_id (Multiplexor cs os) = T_Multiplexor"
| "type_id (IsEqualOperator a b) = T_IsEqual"
| "type_id (DepthFirstComparisonOperator c a b) = T_Comparison c"
| "type_id (IsAllDiffOperator sa) = T_IsAllDiff"
| "type_id (IsInCategoryOperator arch a) = T_IsInCategory"
| "type_id (IsChildCollectionSizedOperator arch i a n) = T_IsChildCollectionSized"
| "type_id (IsSimpleCompareEquivalentOperator a b) = T_IsSimpleCompareEquivalent"
| "type_id (IsLocalMatchOperator pat a) = T_IsLocalMatch"
| "type_id (SymbolConstant x) = T_SymbolConstant"
| "type_id (SymbolVariable v) = T_SymbolVariable"
| "type_id (ChildOperator k arch i a) = T_Child k"
| "type_id (XTreeDbToSymbolOperator k a) = T_XTreeDb k"
| "type_id (AllChildrenOperator a) = T_AllChildren"
| "type_id (ComplementOperator a) = T_Complement"
| "type_id (UnionOperator sa) = T_Union"
| "type_id (IntersectionOperator sa) = T_Intersection"
| "type_id (DepthFirstRangeOperator r a) = T_Range r"
| "type_id (AllInSimpleCompareRangeOperator l lr li u ur ui) = T_AllInSimpleCompareRange"
| "type_id (AllInCategoryRangeOperator bounds li ui) = T_AllInCategoryRange"
| "type_id (ConditionalOperator c t f) = T_Conditional"
| "type_id (MultiConditionalOperator cs os) = T_MultiConditional"

record order_ops =
  type_rank :: "TypeId \<Rightarrow> nat"
  node_compare :: "Archetype \<Rightarrow> Archetype \<Rightarrow> int"

fun IsCommutative :: "Expression \<Rightarrow> bool" where
  "IsCommutative (AndOperator sa) = True"
| "IsCommutative (OrOperator sa) = True"
| "IsCommutative (BoolEqualOperator a b) = True"
| "IsCommutative (IsEqualOperator a b) = True"
| "IsCommutative (IsAllDiffOperator sa) = True"
| "IsCommutative (IsSimpleCompareEquivalentOperator a b) = True"
| "IsCommutative e = False"

section \<open>Contents other than operands\<close>

text \<open>Each override casts its argument to its own class; the class is the same when it is called.\<close>

definition BooleanConstant_Covariant :: "bool \<Rightarrow> Expression \<Rightarrow> int" where
  "BooleanConstant_Covariant v right = (case right of BooleanConstant w \<Rightarrow> of_bool v - of_bool w | _ \<Rightarrow> 0)"

definition IsInCategory_Covariant :: "order_ops \<Rightarrow> Archetype \<Rightarrow> Expression \<Rightarrow> int" where
  "IsInCategory_Covariant Od arch right =
     (case right of IsInCategoryOperator arch' b \<Rightarrow> node_compare Od arch arch' | _ \<Rightarrow> 0)"

definition IsChildCollectionSized_Covariant ::
    "order_ops \<Rightarrow> Archetype \<Rightarrow> nat \<Rightarrow> int \<Rightarrow> Expression \<Rightarrow> int" where
  "IsChildCollectionSized_Covariant Od arch item_index required_size right =
     (case right of
        IsChildCollectionSizedOperator arch' item_index' b required_size' \<Rightarrow>
          (let d1 = node_compare Od arch arch' in
           if d1 \<noteq> 0 then d1
           else let d2 = int item_index - int item_index' in
           if d2 \<noteq> 0 then d2
           else required_size - required_size')
      | _ \<Rightarrow> 0)"

definition IsLocalMatch_Covariant :: "order_ops \<Rightarrow> Archetype \<Rightarrow> Expression \<Rightarrow> int" where
  "IsLocalMatch_Covariant Od pat right =
     (case right of IsLocalMatchOperator pat' b \<Rightarrow> node_compare Od pat pat' | _ \<Rightarrow> 0)"

definition SymbolConstant_Covariant :: "XValue \<Rightarrow> Expression \<Rightarrow> int" where
  "SymbolConstant_Covariant xlink right =
     (case right of SymbolConstant xlink' \<Rightarrow> if xlink = xlink' then 0 else if xlink < xlink' then -1 else 1
      | _ \<Rightarrow> 0)"

definition SymbolVariable_Covariant :: "VariableId \<Rightarrow> Expression \<Rightarrow> int" where
  "SymbolVariable_Covariant plink right =
     (case right of SymbolVariable plink' \<Rightarrow> if plink = plink' then 0 else if plink < plink' then -1 else 1
      | _ \<Rightarrow> 0)"

definition ChildToSymbol_Covariant :: "order_ops \<Rightarrow> Archetype \<Rightarrow> nat \<Rightarrow> Expression \<Rightarrow> int" where
  "ChildToSymbol_Covariant Od arch item_index right =
     (case right of
        ChildOperator k arch' item_index' b \<Rightarrow>
          (let d1 = node_compare Od arch arch' in if d1 \<noteq> 0 then d1 else int item_index - int item_index')
      | _ \<Rightarrow> 0)"

definition OrderCompare3WayCovariant :: "order_ops \<Rightarrow> Expression \<Rightarrow> Expression \<Rightarrow> int" where
  "OrderCompare3WayCovariant Od l right =
     (case l of
        BooleanConstant v \<Rightarrow> BooleanConstant_Covariant v right
      | IsInCategoryOperator arch a \<Rightarrow> IsInCategory_Covariant Od arch right
      | IsChildCollectionSizedOperator arch i a n \<Rightarrow> IsChildCollectionSized_Covariant Od arch i n right
      | IsLocalMatchOperator pat a \<Rightarrow> IsLocalMatch_Covariant Od pat right
      | SymbolConstant x \<Rightarrow> SymbolConstant_Covariant x right
      | SymbolVariable v \<Rightarrow> SymbolVariable_Covariant v right
      | ChildOperator k arch i a \<Rightarrow> ChildToSymbol_Covariant Od arch i right
      | _ \<Rightarrow> 0)"

section \<open>Comparison\<close>

text \<open>\<^verbatim>\<open>ToSet\<close>: insert every element into a set ordered by \<open>lt\<close>.\<close>

abbreviation ToSet :: "('a \<Rightarrow> 'a \<Rightarrow> bool) \<Rightarrow> 'a list \<Rightarrow> 'a list" where
  "ToSet \<equiv> insert_range"

definition OrderCompare3WayChildren ::
    "(Expression \<Rightarrow> Expression \<Rightarrow> bool) \<Rightarrow> Expression \<Rightarrow> Expression \<Rightarrow> int" where
  "OrderCompare3WayChildren relation l right =
     (let ll = GetOperands l; rl = GetOperands right in
      if IsCommutative l
      then LexicographicalCompare relation (insert_range relation ll) (insert_range relation rl)
      else LexicographicalCompare relation ll rl)"

text \<open>The algorithms compare elements of their ranges only.\<close>

definition agree_on :: "'a set \<Rightarrow> ('a \<Rightarrow> 'a \<Rightarrow> bool) \<Rightarrow> ('a \<Rightarrow> 'a \<Rightarrow> bool) \<Rightarrow> bool" where
  "agree_on A lt lt' \<longleftrightarrow> (\<forall>a \<in> A. \<forall>b \<in> A. lt a b = lt' a b)"

lemma agree_on_mono: "agree_on A lt lt' \<Longrightarrow> B \<subseteq> A \<Longrightarrow> agree_on B lt lt'"
  by (auto simp: agree_on_def)

lemma container_insert_cong: "agree_on (insert x (set ys)) lt lt' \<Longrightarrow> container_insert lt x ys = container_insert lt' x ys"
  by (induction ys) (auto simp: agree_on_def)

lemma container_insert_subset: "set (fst (container_insert lt x ys)) \<subseteq> insert x (set ys)"
  by (induction ys) auto

lemma insert_range_cong:
  assumes "agree_on (set xs) lt lt'"
  shows "insert_range lt xs = insert_range lt' xs \<and> set (insert_range lt xs) \<subseteq> set xs"
proof -
  have "fold (\<lambda>x r. fst (container_insert lt x r)) ys r = fold (\<lambda>x r. fst (container_insert lt' x r)) ys r
      \<and> set (fold (\<lambda>x r. fst (container_insert lt x r)) ys r) \<subseteq> set xs"
    if "set ys \<subseteq> set xs" "set r \<subseteq> set xs" for ys r
    using that
  proof (induction ys arbitrary: r)
    case (Cons y ys)
    then have "insert y (set r) \<subseteq> set xs" by simp
    then have eq: "container_insert lt y r = container_insert lt' y r"
      using assms agree_on_mono container_insert_cong by metis
    have "set (fst (container_insert lt y r)) \<subseteq> set xs"
      using Cons.prems container_insert_subset[of lt y r] by auto
    then show ?case using Cons.IH[of "fst (container_insert lt y r)"] Cons.prems eq by auto
  qed simp
  from this[of xs "[]"] show ?thesis by (auto simp: insert_range_def)
qed

lemma lexicographical_compare_cong:
  "agree_on (set xs \<union> set ys) lt lt' \<Longrightarrow> lexicographical_compare lt xs ys = lexicographical_compare lt' xs ys"
proof (induction xs ys rule: merge_induct)
  case (left_empty ys)
  then show ?case by (cases ys) simp_all
qed (simp_all add: agree_on_def)

lemma LexicographicalCompare_cong:
  "agree_on (set xs \<union> set ys) lt lt' \<Longrightarrow> LexicographicalCompare lt xs ys = LexicographicalCompare lt' xs ys"
  using lexicographical_compare_cong[of xs ys] lexicographical_compare_cong[of ys xs]
  by (simp add: LexicographicalCompare_def Un_commute)

lemma OrderCompare3WayChildren_agree:
  assumes "agree_on (set (GetOperands l) \<union> set (GetOperands r)) lt lt'"
  shows "OrderCompare3WayChildren lt l r = OrderCompare3WayChildren lt' l r"
proof -
  have "agree_on (set (GetOperands l)) lt lt'" "agree_on (set (GetOperands r)) lt lt'"
    using assms by (auto intro: agree_on_mono)
  note ins = this[THEN insert_range_cong]
  have "agree_on (set (insert_range lt (GetOperands l)) \<union> set (insert_range lt (GetOperands r))) lt lt'"
    using ins by (intro agree_on_mono[OF assms]) auto
  with ins assms show ?thesis
    by (simp add: OrderCompare3WayChildren_def Let_def LexicographicalCompare_cong[of _ _ lt lt'])
qed

lemma OrderCompare3WayChildren_cong [fundef_cong]:
  "l = l' \<Longrightarrow> r = r' \<Longrightarrow>
    (\<And>a b. a \<in> set (GetOperands l') \<union> set (GetOperands r') \<Longrightarrow> b \<in> set (GetOperands l') \<union> set (GetOperands r')
       \<Longrightarrow> lt a b = lt' a b)
    \<Longrightarrow> OrderCompare3WayChildren lt l r = OrderCompare3WayChildren lt' l' r'"
  by (simp add: OrderCompare3WayChildren_agree[of l' r' lt lt'] agree_on_def)

function OrderCompare3Way :: "order_ops \<Rightarrow> Expression \<Rightarrow> Expression \<Rightarrow> int" where
  "OrderCompare3Way Od l r =
     (if type_id l \<noteq> type_id r
      then (if type_rank Od (type_id l) > type_rank Od (type_id r) then 1 else -1)
      else let id = OrderCompare3WayCovariant Od l r in
      if id \<noteq> 0 then id
      else OrderCompare3WayChildren (\<lambda>a b. OrderCompare3Way Od a b < 0) l r)"
  by pat_completeness auto

termination OrderCompare3Way
  by (relation "measure (\<lambda>(Od, l, r). max (size l) (size r))")
    (auto dest!: size_GetOperands)

declare OrderCompare3Way.simps [simp del]

text \<open>\<^verbatim>\<open>Expression::Relation\<close>.\<close>

definition Relation :: "order_ops \<Rightarrow> Expression \<Rightarrow> Expression \<Rightarrow> bool" where
  "Relation Od l r \<longleftrightarrow> OrderCompare3Way Od l r < 0"

section \<open>A strict weak ordering\<close>

text \<open>What the parameters must be: \<^verbatim>\<open>std::type_index\<close> is a total order and nodes are ordered weakly.\<close>

definition three_way :: "('a \<Rightarrow> 'a \<Rightarrow> int) \<Rightarrow> bool" where
  "three_way c \<longleftrightarrow> (\<forall>a. c a a = 0) \<and> (\<forall>a b. c a b < 0 \<longleftrightarrow> c b a > 0)
     \<and> (\<forall>a b d. c a b \<le> 0 \<longrightarrow> c b d \<le> 0 \<longrightarrow> c a d \<le> 0)"

definition order_ok :: "order_ops \<Rightarrow> bool" where
  "order_ok Od \<longleftrightarrow> inj (type_rank Od) \<and> three_way (node_compare Od)"

text \<open>Compare by \<open>c1\<close>, then by \<open>c2\<close>.\<close>

definition then_by :: "('a \<Rightarrow> 'a \<Rightarrow> int) \<Rightarrow> ('b \<Rightarrow> 'b \<Rightarrow> int) \<Rightarrow> 'a \<times> 'b \<Rightarrow> 'a \<times> 'b \<Rightarrow> int" where
  "then_by c1 c2 p q = (let d = c1 (fst p) (fst q) in if d \<noteq> 0 then d else c2 (snd p) (snd q))"

lemma three_wayD:
  assumes "three_way c"
  shows "c a a = 0" "c a b < 0 \<longleftrightarrow> c b a > 0" "c a b = 0 \<longleftrightarrow> c b a = 0"
    "c a b \<le> 0 \<Longrightarrow> c b d \<le> 0 \<Longrightarrow> c a d \<le> 0"
    "c a b < 0 \<Longrightarrow> c b d \<le> 0 \<Longrightarrow> c a d < 0" "c a b \<le> 0 \<Longrightarrow> c b d < 0 \<Longrightarrow> c a d < 0"
proof -
  have r: "c x x = 0" and f: "c x y < 0 \<longleftrightarrow> c y x > 0"
    and t: "c x y \<le> 0 \<Longrightarrow> c y z \<le> 0 \<Longrightarrow> c x z \<le> 0" for x y z
    using assms by (auto simp: three_way_def)
  show "c a a = 0" by (rule r)
  show "c a b < 0 \<longleftrightarrow> c b a > 0" by (rule f)
  show "c a b = 0 \<longleftrightarrow> c b a = 0" using f[of a b] f[of b a] by linarith
  show "c a b \<le> 0 \<Longrightarrow> c b d \<le> 0 \<Longrightarrow> c a d \<le> 0" by (rule t)
  show "c a b < 0 \<Longrightarrow> c b d \<le> 0 \<Longrightarrow> c a d < 0"
    using f[of a b] f[of a d] f[of d a] t[of b d a] by linarith
  show "c a b \<le> 0 \<Longrightarrow> c b d < 0 \<Longrightarrow> c a d < 0"
    using f[of b d] f[of a d] f[of d a] t[of d a b] by linarith
qed

lemma three_way_then_by:
  assumes "three_way c1" "three_way c2"
  shows "three_way (then_by c1 c2)"
proof -
  note d1 = three_wayD[OF assms(1)] and d2 = three_wayD[OF assms(2)]
  have "then_by c1 c2 p p = 0" for p by (simp add: then_by_def d1 d2)
  moreover have "then_by c1 c2 p q < 0 \<longleftrightarrow> then_by c1 c2 q p > 0" for p q
    using d1(2,3)[of "fst p" "fst q"] d2(2)[of "snd p" "snd q"] by (simp add: then_by_def Let_def)
  moreover have "then_by c1 c2 p r \<le> 0" if "then_by c1 c2 p q \<le> 0" "then_by c1 c2 q r \<le> 0" for p q r
  proof -
    have le: "c1 (fst p) (fst q) \<le> 0" "c1 (fst q) (fst r) \<le> 0"
      using that by (auto simp: then_by_def Let_def split: if_splits)
    show ?thesis
    proof (cases "c1 (fst p) (fst r) < 0")
      case False
      then have z: "c1 (fst p) (fst q) = 0" "c1 (fst q) (fst r) = 0"
        using le d1(5)[of "fst p" "fst q" "fst r"] d1(6)[of "fst p" "fst q" "fst r"] by linarith+
      moreover have "c1 (fst p) (fst r) = 0" using False d1(4)[OF le] by simp
      ultimately show ?thesis
        using that d2(4)[of "snd p" "snd q" "snd r"] by (simp add: then_by_def)
    qed (simp add: then_by_def)
  qed
  ultimately show ?thesis unfolding three_way_def by blast
qed

lemma three_wayI:
  assumes "\<And>a. c a a = 0" "\<And>a b. c a b < 0 \<longleftrightarrow> c b a > 0" "\<And>a b d. c a b \<le> 0 \<Longrightarrow> c b d \<le> 0 \<Longrightarrow> c a d \<le> 0"
  shows "three_way c"
  using assms unfolding three_way_def by blast

lemma three_way_key: "three_way c \<Longrightarrow> three_way (\<lambda>x y. c (f x) (f y))"
  unfolding three_way_def by blast

lemma three_way_zero_trans:
  assumes "three_way c" "c x y = 0" "c y z = 0" shows "c x z = 0"
proof -
  note d = three_wayD[OF assms(1)]
  have "c z y = 0" "c y x = 0" using assms(2,3) d(3)[of y z] d(3)[of x y] by simp_all
  then have "c x z \<le> 0" "c z x \<le> 0" using d(4)[of x y z] d(4)[of z y x] assms(2,3) by simp_all
  then show ?thesis using d(2)[of x z] by linarith
qed

lemma three_way_order:
  assumes "three_way c" shows "strict_weak_order (\<lambda>x y. c x y < 0)"
proof
  note d = three_wayD[OF assms]
  show "\<not> c x x < 0" for x using d(1)[of x] by simp
  show "c x y < 0 \<Longrightarrow> c y z < 0 \<Longrightarrow> c x z < 0" for x y z using d(5)[of x y z] by simp
  show "\<not> c x y < 0 \<Longrightarrow> \<not> c y z < 0 \<Longrightarrow> \<not> c x z < 0" for x y z
    using d(2)[of x y] d(2)[of y z] d(2)[of x z] d(2)[of y x] d(2)[of z y] d(2)[of z x] d(4)[of z y x] by linarith
qed

lemma three_way_equivalent:
  assumes "three_way c" shows "equivalent (\<lambda>x y. c x y < 0) x y \<longleftrightarrow> c x y = 0"
  using three_wayD(2)[OF assms, of x y] three_wayD(2)[OF assms, of y x] by (auto simp: equivalent_def)

lemma three_way_diff: "three_way (\<lambda>i j. f i - f j)"
  by (simp add: three_way_def)

lemma three_way_by: "three_way (\<lambda>(x :: 'a::linorder) y. if x = y then 0 else if x < y then -1 else (1 :: int))"
  by (auto simp: three_way_def split: if_splits)

lemma swo_combine:
  assumes "strict_weak_order lt1" "\<And>x. \<not> lt2 x x"
    "\<And>x y z. equivalent lt1 x y \<Longrightarrow> equivalent lt1 y z \<Longrightarrow> lt2 x y \<Longrightarrow> lt2 y z \<Longrightarrow> lt2 x z"
    "\<And>x y z. equivalent lt1 x y \<Longrightarrow> equivalent lt1 y z \<Longrightarrow> \<not> lt2 x y \<Longrightarrow> \<not> lt2 y z \<Longrightarrow> \<not> lt2 x z"
  shows "strict_weak_order (\<lambda>x y. lt1 x y \<or> equivalent lt1 x y \<and> lt2 x y)"
proof
  note swo1 = strict_weak_order.trans[OF assms(1)] strict_weak_order.neg_trans[OF assms(1)]
    strict_weak_order.irrefl[OF assms(1)] strict_weak_order.asym[OF assms(1)]
  fix x y z
  show "\<not> (lt1 x x \<or> equivalent lt1 x x \<and> lt2 x x)" using assms(2) swo1 by blast
  show "lt1 x z \<or> equivalent lt1 x z \<and> lt2 x z"
    if "lt1 x y \<or> equivalent lt1 x y \<and> lt2 x y" "lt1 y z \<or> equivalent lt1 y z \<and> lt2 y z"
    using that assms(3)[of x y z] strict_weak_order.equivalent_trans[OF assms(1), of x y z]
      strict_weak_order.lt_equivalent_left[OF assms(1), of x y z]
      strict_weak_order.lt_equivalent_right[OF assms(1), of y z x] swo1(1)[of x y z] by blast
  show "\<not> (lt1 x z \<or> equivalent lt1 x z \<and> lt2 x z)"
    if "\<not> (lt1 x y \<or> equivalent lt1 x y \<and> lt2 x y)" "\<not> (lt1 y z \<or> equivalent lt1 y z \<and> lt2 y z)"
  proof
    assume xz: "lt1 x z \<or> equivalent lt1 x z \<and> lt2 x z"
    have n: "\<not> lt1 x y" "\<not> lt1 y z" using that by auto
    then have "\<not> lt1 x z" by (rule swo1(2))
    with xz have e: "equivalent lt1 x z" "lt2 x z" by auto
    have "equivalent lt1 x y" "equivalent lt1 y z"
      using e(1) n swo1(2)[of y z x] swo1(2)[of z x y] unfolding equivalent_def by blast+
    with that assms(4) e(2) show False by blast
  qed
qed

lemma swo_image: "strict_weak_order lt \<Longrightarrow> strict_weak_order (\<lambda>x y. lt (f x) (f y))"
  unfolding strict_weak_order_def by blast

lemma swo_converse: "strict_weak_order lt \<Longrightarrow> strict_weak_order (\<lambda>x y. lt y x)"
  unfolding strict_weak_order_def by blast

lemma swo_restrict:
  "strict_weak_order lt \<Longrightarrow> strict_weak_order (\<lambda>x y. P x \<and> (P y \<longrightarrow> lt x y))"
  unfolding strict_weak_order_def by blast

text \<open>The contents of expressions of one class are compared by a three-way comparison.\<close>

lemma Covariant_three_way:
  assumes "order_ok Od"
  shows "\<exists>(f :: Expression \<Rightarrow> nat \<times> nat \<times> int) c. three_way c \<and>
    (\<forall>x y. type_id x = t \<longrightarrow> type_id y = t \<longrightarrow> OrderCompare3WayCovariant Od x y = c (f x) (f y))"
proof -
  have nc: "three_way (node_compare Od)" using assms by (simp add: order_ok_def)
  let ?lin = "\<lambda>x y. if x = y then 0 else if x < y then -1 else (1 :: int)"
  let ?cov = "OrderCompare3WayCovariant Od"
  have by_arch: "three_way (\<lambda>p q. then_by (node_compare Od) (then_by (\<lambda>i j. int i - int j) (\<lambda>i j. i - j)) p q)"
    by (intro three_way_then_by nc three_way_diff)
  have by_fst: "three_way (\<lambda>p q :: nat \<times> nat \<times> int. c (fst p) (fst q))" if "three_way c" for c
    using that by (simp add: three_way_def)
  show ?thesis
  proof (cases t)
    case T_BooleanConstant
    show ?thesis
    proof (intro exI conjI allI impI)
      show "three_way (\<lambda>p q :: nat \<times> nat \<times> int. snd (snd p) - snd (snd q))" by (rule three_way_diff)
      fix x y assume "type_id x = t" "type_id y = t"
      then show "?cov x y = snd (snd ((\<lambda>e. (0, 0, case e of BooleanConstant v \<Rightarrow> of_bool v | _ \<Rightarrow> 0)) x))
          - snd (snd ((\<lambda>e. (0, 0, case e of BooleanConstant v \<Rightarrow> of_bool v | _ \<Rightarrow> 0)) y))"
        using T_BooleanConstant
        by (cases x; simp; cases y; simp add: OrderCompare3WayCovariant_def BooleanConstant_Covariant_def)
    qed
  next
    case T_IsInCategory
    show ?thesis
    proof (intro exI conjI allI impI)
      show "three_way (\<lambda>p q :: nat \<times> nat \<times> int. node_compare Od (fst p) (fst q))" by (rule by_fst[OF nc])
      fix x y assume "type_id x = t" "type_id y = t"
      then show "?cov x y = node_compare Od
          (fst ((\<lambda>e. (case e of IsInCategoryOperator a b \<Rightarrow> a | _ \<Rightarrow> 0, 0, 0)) x))
          (fst ((\<lambda>e. (case e of IsInCategoryOperator a b \<Rightarrow> a | _ \<Rightarrow> 0, 0, 0)) y))"
        using T_IsInCategory
        by (cases x; simp; cases y; simp add: OrderCompare3WayCovariant_def IsInCategory_Covariant_def)
    qed
  next
    case T_IsLocalMatch
    show ?thesis
    proof (intro exI conjI allI impI)
      show "three_way (\<lambda>p q :: nat \<times> nat \<times> int. node_compare Od (fst p) (fst q))" by (rule by_fst[OF nc])
      fix x y assume "type_id x = t" "type_id y = t"
      then show "?cov x y = node_compare Od
          (fst ((\<lambda>e. (case e of IsLocalMatchOperator a b \<Rightarrow> a | _ \<Rightarrow> 0, 0, 0)) x))
          (fst ((\<lambda>e. (case e of IsLocalMatchOperator a b \<Rightarrow> a | _ \<Rightarrow> 0, 0, 0)) y))"
        using T_IsLocalMatch
        by (cases x; simp; cases y; simp add: OrderCompare3WayCovariant_def IsLocalMatch_Covariant_def)
    qed
  next
    case T_SymbolConstant
    show ?thesis
    proof (intro exI conjI allI impI)
      show "three_way (\<lambda>p q :: nat \<times> nat \<times> int. ?lin (fst p) (fst q))" by (rule by_fst[OF three_way_by])
      fix x y assume "type_id x = t" "type_id y = t"
      then show "?cov x y = ?lin (fst ((\<lambda>e. (case e of SymbolConstant a \<Rightarrow> a | _ \<Rightarrow> 0, 0, 0)) x))
          (fst ((\<lambda>e. (case e of SymbolConstant a \<Rightarrow> a | _ \<Rightarrow> 0, 0, 0)) y))"
        using T_SymbolConstant
        by (cases x; simp; cases y; simp add: OrderCompare3WayCovariant_def SymbolConstant_Covariant_def)
    qed
  next
    case T_SymbolVariable
    show ?thesis
    proof (intro exI conjI allI impI)
      show "three_way (\<lambda>p q :: nat \<times> nat \<times> int. ?lin (fst p) (fst q))" by (rule by_fst[OF three_way_by])
      fix x y assume "type_id x = t" "type_id y = t"
      then show "?cov x y = ?lin (fst ((\<lambda>e. (case e of SymbolVariable a \<Rightarrow> a | _ \<Rightarrow> 0, 0, 0)) x))
          (fst ((\<lambda>e. (case e of SymbolVariable a \<Rightarrow> a | _ \<Rightarrow> 0, 0, 0)) y))"
        using T_SymbolVariable
        by (cases x; simp; cases y; simp add: OrderCompare3WayCovariant_def SymbolVariable_Covariant_def)
    qed
  next
    case T_IsChildCollectionSized
    show ?thesis
    proof (intro exI conjI allI impI)
      show "three_way (\<lambda>p q. then_by (node_compare Od) (then_by (\<lambda>i j. int i - int j) (\<lambda>i j. i - j)) p q)"
        by (rule by_arch)
      fix x y assume "type_id x = t" "type_id y = t"
      then show "?cov x y = then_by (node_compare Od) (then_by (\<lambda>i j. int i - int j) (\<lambda>i j. i - j))
          ((\<lambda>e. case e of IsChildCollectionSizedOperator a i b n \<Rightarrow> (a, i, n) | _ \<Rightarrow> (0, 0, 0)) x)
          ((\<lambda>e. case e of IsChildCollectionSizedOperator a i b n \<Rightarrow> (a, i, n) | _ \<Rightarrow> (0, 0, 0)) y)"
        using T_IsChildCollectionSized
        by (cases x; simp; cases y;
            simp add: OrderCompare3WayCovariant_def IsChildCollectionSized_Covariant_def then_by_def Let_def)
    qed
  next
    case (T_Child k)
    show ?thesis
    proof (intro exI conjI allI impI)
      show "three_way (\<lambda>p q. then_by (node_compare Od) (then_by (\<lambda>i j. int i - int j) (\<lambda>i j. i - j)) p q)"
        by (rule by_arch)
      fix x y assume "type_id x = t" "type_id y = t"
      then show "?cov x y = then_by (node_compare Od) (then_by (\<lambda>i j. int i - int j) (\<lambda>i j. i - j))
          ((\<lambda>e. case e of ChildOperator k a i b \<Rightarrow> (a, i, 0) | _ \<Rightarrow> (0, 0, 0)) x)
          ((\<lambda>e. case e of ChildOperator k a i b \<Rightarrow> (a, i, 0) | _ \<Rightarrow> (0, 0, 0)) y)"
        using T_Child
        by (cases x; simp; cases y;
            simp add: OrderCompare3WayCovariant_def ChildToSymbol_Covariant_def then_by_def Let_def)
    qed
  qed (intro exI[of _ "\<lambda>e. (0, 0, 0)"] exI[of _ "\<lambda>p q. 0"] conjI allI impI,
      simp add: three_way_def, rename_tac x y, case_tac x; simp add: OrderCompare3WayCovariant_def)+
qed

text \<open>The order restricted to expressions below a size; the others come after all of these.\<close>

definition below :: "order_ops \<Rightarrow> nat \<Rightarrow> Expression \<Rightarrow> Expression \<Rightarrow> bool" where
  "below Od N a b \<longleftrightarrow> size a < N \<and> (size b < N \<longrightarrow> Relation Od a b)"

definition operand_key :: "order_ops \<Rightarrow> nat \<Rightarrow> Expression \<Rightarrow> Expression list" where
  "operand_key Od N e =
     (if IsCommutative e then insert_range (below Od N) (GetOperands e) else GetOperands e)"

lemma IsCommutative_type: "type_id l = type_id r \<Longrightarrow> IsCommutative l = IsCommutative r"
  by (cases l; simp; cases r; simp)

lemma LexicographicalCompare_less:
  "strict_weak_order lt \<Longrightarrow> LexicographicalCompare lt xs ys < 0 \<longleftrightarrow> lexicographical_compare lt ys xs"
  using strict_weak_order.lexicographical_compare_asym[of lt ys xs]
  by (auto simp: LexicographicalCompare_def Let_def)

lemma Relation_unfold:
  assumes "strict_weak_order (below Od N)" "size l \<le> N" "size r \<le> N"
  shows "Relation Od l r \<longleftrightarrow>
    (if type_id l \<noteq> type_id r then type_rank Od (type_id l) \<le> type_rank Od (type_id r)
     else OrderCompare3WayCovariant Od l r < 0
       \<or> OrderCompare3WayCovariant Od l r = 0
         \<and> lexicographical_compare (below Od N) (operand_key Od N r) (operand_key Od N l))"
proof -
  have "agree_on (set (GetOperands l) \<union> set (GetOperands r)) (\<lambda>a b. OrderCompare3Way Od a b < 0) (below Od N)"
    using assms(2,3) by (auto simp: agree_on_def below_def Relation_def dest!: size_GetOperands)
  then have "OrderCompare3WayChildren (\<lambda>a b. OrderCompare3Way Od a b < 0) l r
      = OrderCompare3WayChildren (below Od N) l r"
    by (rule OrderCompare3WayChildren_agree)
  then have "Relation Od l r \<longleftrightarrow>
    (if type_id l \<noteq> type_id r then type_rank Od (type_id l) \<le> type_rank Od (type_id r)
     else OrderCompare3WayCovariant Od l r < 0
       \<or> OrderCompare3WayCovariant Od l r = 0 \<and> OrderCompare3WayChildren (below Od N) l r < 0)"
    by (simp add: Relation_def OrderCompare3Way.simps[of Od l r] Let_def)
  moreover have "OrderCompare3WayChildren (below Od N) l r < 0
      \<longleftrightarrow> lexicographical_compare (below Od N) (operand_key Od N r) (operand_key Od N l)" if "type_id l = type_id r"
    using LexicographicalCompare_less[OF assms(1)] IsCommutative_type[OF that]
    by (simp add: OrderCompare3WayChildren_def operand_key_def Let_def)
  ultimately show ?thesis by simp
qed

lemma below_Suc:
  assumes "order_ok Od" "strict_weak_order (below Od N)"
  shows "strict_weak_order (below Od (Suc N))"
proof -
  let ?rank = "\<lambda>e. type_rank Od (type_id e)"
  let ?cov = "OrderCompare3WayCovariant Od"
  let ?ops = "\<lambda>l r. lexicographical_compare (below Od N) (operand_key Od N r) (operand_key Od N l)"
  have rank_eq: "?rank x = ?rank y \<longleftrightarrow> type_id x = type_id y" for x y
    using assms(1) by (auto simp: order_ok_def dest: injD)
  have cov: "?cov x x = 0" "?cov x y < 0 \<longleftrightarrow> ?cov y x > 0" "?cov x y = 0 \<longleftrightarrow> ?cov y x = 0"
    "?cov x y < 0 \<Longrightarrow> ?cov y z \<le> 0 \<Longrightarrow> ?cov x z < 0" "?cov x y \<le> 0 \<Longrightarrow> ?cov y z < 0 \<Longrightarrow> ?cov x z < 0"
    "?cov x y \<le> 0 \<Longrightarrow> ?cov y z \<le> 0 \<Longrightarrow> ?cov x z \<le> 0"
    if "type_id x = type_id y" "type_id y = type_id z" for x y z
  proof -
    obtain f :: "Expression \<Rightarrow> nat \<times> nat \<times> int" and c where c: "three_way c"
      "\<forall>u v. type_id u = type_id x \<longrightarrow> type_id v = type_id x \<longrightarrow> ?cov u v = c (f u) (f v)"
      using Covariant_three_way[OF assms(1), of "type_id x"] by (elim exE conjE) (rule that)
    then have "?cov x x = c (f x) (f x)" "?cov x y = c (f x) (f y)" "?cov y x = c (f y) (f x)"
      "?cov y z = c (f y) (f z)" "?cov x z = c (f x) (f z)" using that by simp_all
    with three_wayD[OF c(1)] show "?cov x x = 0" "?cov x y < 0 \<longleftrightarrow> ?cov y x > 0" "?cov x y = 0 \<longleftrightarrow> ?cov y x = 0"
      "?cov x y < 0 \<Longrightarrow> ?cov y z \<le> 0 \<Longrightarrow> ?cov x z < 0" "?cov x y \<le> 0 \<Longrightarrow> ?cov y z < 0 \<Longrightarrow> ?cov x z < 0"
      "?cov x y \<le> 0 \<Longrightarrow> ?cov y z \<le> 0 \<Longrightarrow> ?cov x z \<le> 0" by metis+
  qed
  have ops: "strict_weak_order ?ops"
    by (rule swo_converse[OF swo_image[OF strict_weak_order.lexicographic[OF assms(2)]]])
  have types: "strict_weak_order (\<lambda>x y. ?rank x < ?rank y)"
    by (rule swo_image[OF lin.strict_weak_order_axioms])
  have eq_types: "equivalent (\<lambda>x y. ?rank x < ?rank y) x y \<longleftrightarrow> type_id x = type_id y" for x y
    using rank_eq[of x y] by (auto simp: equivalent_def)
  let ?F1 = "\<lambda>x y. ?rank x < ?rank y \<or> equivalent (\<lambda>x y. ?rank x < ?rank y) x y \<and> ?cov x y < 0"
  have F1: "strict_weak_order ?F1"
  proof (rule swo_combine[OF types])
    show "\<not> ?cov x x < 0" for x using cov(1)[of x x x] by simp
    show "?cov x z < 0" if "equivalent (\<lambda>x y. ?rank x < ?rank y) x y" "equivalent (\<lambda>x y. ?rank x < ?rank y) y z"
      "?cov x y < 0" "?cov y z < 0" for x y z
      using that cov(4)[of x y z] by (simp add: eq_types)
    show "\<not> ?cov x z < 0" if "equivalent (\<lambda>x y. ?rank x < ?rank y) x y" "equivalent (\<lambda>x y. ?rank x < ?rank y) y z"
      "\<not> ?cov x y < 0" "\<not> ?cov y z < 0" for x y z
    proof -
      have t: "type_id x = type_id y" "type_id y = type_id z" using that by (simp_all add: eq_types)
      have "?cov y x \<le> 0" "?cov z y \<le> 0"
        using that(3,4) cov(2)[OF t] cov(2)[OF t(2) refl] by linarith+
      then have "?cov z x \<le> 0" using cov(6)[of z y x] t by simp
      then show ?thesis using cov(2)[of x z z] t by simp
    qed
  qed
  have eq_F1: "equivalent ?F1 x y \<longleftrightarrow> type_id x = type_id y \<and> ?cov x y = 0" for x y
  proof (cases "type_id x = type_id y")
    case True
    then have "?F1 x y \<longleftrightarrow> ?cov x y < 0" "?F1 y x \<longleftrightarrow> ?cov y x < 0" by (simp_all add: eq_types)
    then have "equivalent ?F1 x y \<longleftrightarrow> \<not> ?cov x y < 0 \<and> \<not> ?cov y x < 0" by (simp add: equivalent_def[of ?F1])
    moreover have "\<not> ?cov x y < 0 \<and> \<not> ?cov y x < 0 \<longleftrightarrow> ?cov x y = 0"
      using cov(2,3)[OF True refl] by linarith
    ultimately show ?thesis using True by simp
  next
    case False
    then have "?rank x < ?rank y \<or> ?rank y < ?rank x" using rank_eq[of x y] by linarith
    then have "?F1 x y \<or> ?F1 y x" by blast
    with False show ?thesis by (simp only: equivalent_def[of ?F1]) blast
  qed
  let ?F = "\<lambda>x y. ?F1 x y \<or> equivalent ?F1 x y \<and> ?ops x y"
  have F: "strict_weak_order ?F"
    by (rule swo_combine[OF F1])
      (use strict_weak_order.irrefl[OF ops] strict_weak_order.trans[OF ops] strict_weak_order.neg_trans[OF ops] in blast)+
  have "below Od (Suc N) = (\<lambda>x y. size x < Suc N \<and> (size y < Suc N \<longrightarrow> ?F x y))"
  proof (intro ext)
    fix x y
    have "?F x y \<longleftrightarrow> (?rank x < ?rank y \<or> type_id x = type_id y \<and> ?cov x y < 0)
        \<or> (type_id x = type_id y \<and> ?cov x y = 0) \<and> ?ops x y"
      by (subst eq_F1) (simp only: eq_types)
    then have "Relation Od x y \<longleftrightarrow> ?F x y" if "size x \<le> N" "size y \<le> N"
      using Relation_unfold[OF assms(2) that] rank_eq[of x y] by (cases "type_id x = type_id y") auto
    then show "below Od (Suc N) x y \<longleftrightarrow> size x < Suc N \<and> (size y < Suc N \<longrightarrow> ?F x y)"
      by (auto simp: below_def)
  qed
  with swo_restrict[OF F, of "\<lambda>e. size e < Suc N"] show ?thesis by simp
qed

lemma below_order: "order_ok Od \<Longrightarrow> strict_weak_order (below Od N)"
proof (induction N)
  case 0
  show ?case by unfold_locales (simp_all add: below_def)
next
  case (Suc N)
  then show ?case by (intro below_Suc)
qed

lemma Relation_order:
  assumes "order_ok Od" shows "strict_weak_order (Relation Od)"
proof
  fix x y z :: Expression
  let ?N = "Suc (size x + size y + size z)"
  note swo = below_order[OF assms, of ?N]
  show "\<not> Relation Od x x" using strict_weak_order.irrefl[OF swo, of x] by (simp add: below_def)
  show "Relation Od x y \<Longrightarrow> Relation Od y z \<Longrightarrow> Relation Od x z"
    using strict_weak_order.trans[OF swo, of x y z] by (simp add: below_def)
  show "\<not> Relation Od x y \<Longrightarrow> \<not> Relation Od y z \<Longrightarrow> \<not> Relation Od x z"
    using strict_weak_order.neg_trans[OF swo, of x y z] by (simp add: below_def)
qed

section \<open>What compares equal\<close>

lemma Compare3Way_sign:
  assumes "order_ok Od"
  shows "OrderCompare3Way Od l r < 0 \<longleftrightarrow> OrderCompare3Way Od r l > 0"
proof (cases "type_id l = type_id r")
  case True
  obtain f :: "Expression \<Rightarrow> nat \<times> nat \<times> int" and c where c: "three_way c"
    "\<forall>u v. type_id u = type_id l \<longrightarrow> type_id v = type_id l \<longrightarrow> OrderCompare3WayCovariant Od u v = c (f u) (f v)"
    using Covariant_three_way[OF assms, of "type_id l"] by (elim exE conjE) (rule that)
  then have cov: "OrderCompare3WayCovariant Od l r < 0 \<longleftrightarrow> OrderCompare3WayCovariant Od r l > 0"
    "OrderCompare3WayCovariant Od l r = 0 \<longleftrightarrow> OrderCompare3WayCovariant Od r l = 0"
    using three_wayD(2,3)[OF c(1), of "f l" "f r"] True by simp_all
  have "OrderCompare3WayChildren lt l r = - OrderCompare3WayChildren lt r l" for lt
    using IsCommutative_type[OF True] by (simp add: OrderCompare3WayChildren_def LexicographicalCompare_def Let_def)
  then show ?thesis using cov True by (simp add: OrderCompare3Way.simps[of Od l r] OrderCompare3Way.simps[of Od r l] Let_def)
next
  case False
  then have "type_rank Od (type_id l) \<noteq> type_rank Od (type_id r)"
    using assms by (auto simp: order_ok_def dest: injD)
  with False show ?thesis by (auto simp: OrderCompare3Way.simps[of Od l r] OrderCompare3Way.simps[of Od r l])
qed

lemma Compare3Way_zero: "order_ok Od \<Longrightarrow> OrderCompare3Way Od l r = 0 \<longleftrightarrow> equivalent (Relation Od) l r"
  using Compare3Way_sign[of Od l r] Compare3Way_sign[of Od r l] by (auto simp: equivalent_def Relation_def)

lemma Compare3Way_zero_unfold:
  assumes "order_ok Od"
  shows "OrderCompare3Way Od l r = 0 \<longleftrightarrow> type_id l = type_id r \<and> OrderCompare3WayCovariant Od l r = 0
    \<and> list_all2 (equivalent (Relation Od))
        (if IsCommutative l then insert_range (Relation Od) (GetOperands l) else GetOperands l)
        (if IsCommutative l then insert_range (Relation Od) (GetOperands r) else GetOperands r)"
proof -
  have r: "(\<lambda>a b. OrderCompare3Way Od a b < 0) = Relation Od" by (simp add: Relation_def fun_eq_iff)
  show ?thesis
    by (simp add: OrderCompare3Way.simps[of Od l r] r OrderCompare3WayChildren_def Let_def
        strict_weak_order.LexicographicalCompare_zero[OF Relation_order[OF assms]])
qed

text \<open>Symbol expressions as patterns give rise to them: no conditionals and no bounded ranges.\<close>

fun plain_type :: "TypeId \<Rightarrow> bool" where
  "plain_type T_SymbolConstant = True"
| "plain_type T_SymbolVariable = True"
| "plain_type (T_Child k) = True"
| "plain_type (T_XTreeDb k) = True"
| "plain_type T_AllChildren = True"
| "plain_type T_Complement = True"
| "plain_type T_Union = True"
| "plain_type T_Intersection = True"
| "plain_type (T_Range r) = True"
| "plain_type _ = False"

function plain :: "Expression \<Rightarrow> bool" where
  "plain e \<longleftrightarrow> plain_type (type_id e) \<and> list_all plain (GetOperands e)"
  by pat_completeness auto

termination plain
  by (relation "measure size") (simp_all only: in_measure size_GetOperands wf_measure)

declare plain.simps [simp del]

lemma plain_operand: "plain e \<Longrightarrow> x \<in> set (GetOperands e) \<Longrightarrow> plain x"
  by (simp add: plain.simps[of e] list_all_iff)

lemma plain_not_commutative: "plain e \<Longrightarrow> \<not> IsCommutative e"
  by (simp add: plain.simps[of e], cases e) simp_all

definition nodes_distinct :: "order_ops \<Rightarrow> bool" where
  "nodes_distinct Od \<longleftrightarrow> order_ok Od \<and> (\<forall>a b. node_compare Od a b = 0 \<longrightarrow> a = b)"

lemma same_contents:
  assumes "nodes_distinct Od" "plain_type (type_id l)" "type_id l = type_id r"
    "OrderCompare3WayCovariant Od l r = 0" "GetOperands l = GetOperands r"
  shows "l = r"
proof -
  have nc: "node_compare Od a b = 0 \<Longrightarrow> a = b" for a b
    using assms(1) by (simp add: nodes_distinct_def)
  show ?thesis
  proof (cases l)
    case (SymbolConstant x)
    with assms(3,4) show ?thesis
      by (cases r) (auto simp: OrderCompare3WayCovariant_def SymbolConstant_Covariant_def split: if_splits)
  next
    case (SymbolVariable v)
    with assms(3,4) show ?thesis
      by (cases r) (auto simp: OrderCompare3WayCovariant_def SymbolVariable_Covariant_def split: if_splits)
  next
    case (ChildOperator k arch i a)
    with assms(3,4,5) show ?thesis
      by (cases r) (auto simp: OrderCompare3WayCovariant_def ChildToSymbol_Covariant_def Let_def dest: nc split: if_splits)
  qed (use assms(2,3,5) in \<open>cases r; simp\<close>)+
qed

lemma plain_equal:
  assumes "nodes_distinct Od"
  shows "plain l \<Longrightarrow> OrderCompare3Way Od l r = 0 \<longleftrightarrow> l = r"
proof (induction l arbitrary: r rule: expression_induct)
  case (operands l)
  have ok: "order_ok Od" using assms by (simp add: nodes_distinct_def)
  show ?case
  proof
    assume z: "OrderCompare3Way Od l r = 0"
    have t: "type_id l = type_id r" "OrderCompare3WayCovariant Od l r = 0"
      "list_all2 (equivalent (Relation Od)) (GetOperands l) (GetOperands r)"
      using z plain_not_commutative[OF operands(2)] by (simp_all add: Compare3Way_zero_unfold[OF ok])
    have "list_all2 (=) (GetOperands l) (GetOperands r)"
      using t(3) operands(1) plain_operand[OF operands(2)]
      by (auto simp: list_all2_conv_all_nth Compare3Way_zero[OF ok, symmetric])
    then have "GetOperands l = GetOperands r" by (simp add: list_all2_eq)
    moreover have "plain_type (type_id l)" using operands(2) by (simp add: plain.simps[of l])
    ultimately show "l = r" using same_contents[OF assms] t by simp
  next
    assume "l = r"
    then show "OrderCompare3Way Od l r = 0"
      using Compare3Way_sign[OF ok, of l l] by (cases "OrderCompare3Way Od l l < 0") auto
  qed
qed

function IsIndependentOf :: "order_ops \<Rightarrow> Expression \<Rightarrow> Expression \<Rightarrow> bool" where
  "IsIndependentOf Od e target =
     (if OrderCompare3Way Od e target = 0 then False
      else list_all (\<lambda>op. IsIndependentOf Od op target) (GetOperands e))"
  by pat_completeness auto

termination IsIndependentOf
  by (relation "measure (\<lambda>(Od, e, t). size e)") (simp_all only: in_measure size_GetOperands wf_measure prod.case)

declare IsIndependentOf.simps [simp del]

lemma IsIndependentOf_variable:
  assumes "nodes_distinct Od"
  shows "IsIndependentOf Od e (SymbolVariable v) \<longleftrightarrow> v \<notin> set (GetRequiredVariables e)"
proof (induction e rule: expression_induct)
  case (operands e)
  have "plain (SymbolVariable v)" by (simp add: plain.simps)
  then have eq: "OrderCompare3Way Od e (SymbolVariable v) = 0 \<longleftrightarrow> e = SymbolVariable v"
    using plain_equal[OF assms, of "SymbolVariable v" e] assms
      Compare3Way_sign[of Od e "SymbolVariable v"] Compare3Way_sign[of Od "SymbolVariable v" e]
    by (auto simp: nodes_distinct_def neq_iff)
  show ?case
  proof (cases "\<exists>w. e = SymbolVariable w")
    case True
    with eq show ?thesis by (auto simp: IsIndependentOf.simps[of Od e])
  next
    case False
    then have "\<And>w. e \<noteq> SymbolVariable w" by blast
    from GetRequiredVariables_set[OF this] show ?thesis
      using eq False operands by (auto simp: IsIndependentOf.simps[of Od e] list_all_iff)
  qed
qed

lemma ToSet_plain:
  assumes "nodes_distinct Od" "list_all plain xs"
  shows "set (insert_range (Relation Od) xs) = set xs"
proof -
  have ok: "order_ok Od" using assms(1) by (simp add: nodes_distinct_def)
  note swo = Relation_order[OF ok]
  have "set (fold (\<lambda>x r. fst (container_insert (Relation Od) x r)) ys r) = set ys \<union> set r"
    if "set ys \<subseteq> set xs" "set r \<subseteq> set xs" "sorted_wrt (Relation Od) r" for ys r
    using that
  proof (induction ys arbitrary: r)
    case (Cons y ys)
    have "covers (Relation Od) r y \<longleftrightarrow> y \<in> set r"
      using Cons.prems assms(2) plain_equal[OF assms(1)] strict_weak_order.covers_self[OF swo]
      by (auto simp: covers_def Compare3Way_zero[OF ok, symmetric] list_all_iff)
    then have "set (fst (container_insert (Relation Od) y r)) = insert y (set r)"
      using strict_weak_order.container_insert_props[OF swo Cons.prems(3), of y] by auto
    then show ?case
      using Cons strict_weak_order.container_insert_props[OF swo Cons.prems(3), of y] by simp
  qed simp
  from this[of xs "[]"] show ?thesis by (simp add: insert_range_def)
qed

lemma commutative_equal:
  assumes "nodes_distinct Od" "IsCommutative l" "list_all plain (GetOperands l)" "OrderCompare3Way Od l r = 0"
    "list_all plain (GetOperands r)"
  shows "set (GetOperands l) = set (GetOperands r)"
proof -
  have ok: "order_ok Od" using assms(1) by (simp add: nodes_distinct_def)
  let ?L = "insert_range (Relation Od) (GetOperands l)" and ?R = "insert_range (Relation Od) (GetOperands r)"
  have "list_all2 (equivalent (Relation Od)) ?L ?R"
    using assms(2,4) by (simp add: Compare3Way_zero_unfold[OF ok])
  moreover have "\<forall>x \<in> set ?L. plain x" using ToSet_plain[OF assms(1,3)] assms(3) by (simp add: list_all_iff)
  ultimately have "list_all2 (=) ?L ?R"
    using plain_equal[OF assms(1)] by (auto simp: list_all2_conv_all_nth Compare3Way_zero[OF ok, symmetric])
  then have "?L = ?R" by (simp add: list_all2_eq)
  with ToSet_plain[OF assms(1,3)] ToSet_plain[OF assms(1,5)] show ?thesis by simp
qed

section \<open>Properties\<close>

text \<open>A concrete order: classes by a numbering, nodes by number.\<close>

instance Comparison :: countable by countable_datatype

instance ChildKind :: countable by countable_datatype

instance DbKind :: countable by countable_datatype

instance Range :: countable by countable_datatype

instance TypeId :: countable by countable_datatype

definition example_order :: order_ops where
  "example_order = \<lparr>type_rank = to_nat, node_compare = (\<lambda>a b. int a - int b)\<rparr>"

lemma example_order_ok [simp]: "nodes_distinct example_order" "order_ok example_order"
  by (simp_all add: nodes_distinct_def order_ok_def example_order_def three_way_def)

text \<open>C29: The comparison of expressions is a consistent three-way comparison: exchanging the arguments
  exchanges the sign, and \<open>Relation\<close> is irreflexive and transitive with transitive incomparability, as
  the ordered sets and maps of the solver need, although it compares the operands of commutative
  operators as sets that are themselves ordered by it. On symbol expressions without conditionals and
  bounded ranges it identifies no two different expressions.\<close>

theorem expression_order:
  assumes "order_ok Od"
  shows "(OrderCompare3Way Od x y < 0 \<longleftrightarrow> OrderCompare3Way Od y x > 0) \<and> OrderCompare3Way Od x x = 0
    \<and> (Relation Od x y \<longrightarrow> Relation Od y z \<longrightarrow> Relation Od x z)
    \<and> (OrderCompare3Way Od x y = 0 \<longrightarrow> OrderCompare3Way Od y z = 0 \<longrightarrow> OrderCompare3Way Od x z = 0)
    \<and> (OrderCompare3Way Od x y = 0 \<longrightarrow> (Relation Od x z \<longleftrightarrow> Relation Od y z))
    \<and> (nodes_distinct Od \<longrightarrow> plain x \<longrightarrow> (OrderCompare3Way Od x y = 0 \<longleftrightarrow> x = y))"
  using Compare3Way_sign[OF assms] Compare3Way_zero[OF assms] plain_equal[of Od x y]
    strict_weak_order.equivalent_refl[OF Relation_order[OF assms]]
    strict_weak_order.trans[OF Relation_order[OF assms], of x y z]
    strict_weak_order.equivalent_trans[OF Relation_order[OF assms], of x y z]
    strict_weak_order.lt_equivalent_left[OF Relation_order[OF assms], of x y z]
  by simp

lemma expression_order_witness:
  "OrderCompare3Way example_order (SymbolVariable 1) (SymbolVariable 2) < 0
    \<and> OrderCompare3Way example_order (SymbolVariable 2) (SymbolVariable 1) > 0"
  using expression_order[of example_order "SymbolVariable 1" "SymbolVariable 2" "SymbolVariable 3"]
  by (simp add: OrderCompare3Way.simps OrderCompare3WayCovariant_def SymbolVariable_Covariant_def)

text \<open>C39: Comparing the operands of \<open>IsAllDiffOperator\<close> as a set loses repetitions: \<open>AllDiff(a, a, b)\<close>
  compares equal to \<open>AllDiff(a, b)\<close>, so the solver gives both one column of its truth table and
  forces them to one value, but the first is always false and the second is true whenever its two
  operands differ.\<close>

theorem AllDiff_repetition_lost:
  assumes "nodes_distinct Od" "plain a" "plain b"
    "EvaluateSymbol T kit a = Inr (Simple (UniqueResult x))" "EvaluateSymbol T kit b = Inr (Simple (UniqueResult y))"
    "x \<noteq> y" "x \<noteq> null_link" "y \<noteq> null_link" "\<forall>e. force_expression kit e = None"
  shows "OrderCompare3Way Od (IsAllDiffOperator [a, a, b]) (IsAllDiffOperator [a, b]) = 0
    \<and> EvaluateBoolean T kit (IsAllDiffOperator [a, a, b]) = Inr (BooleanResult False)
    \<and> EvaluateBoolean T kit (IsAllDiffOperator [a, b]) = Inr (BooleanResult True)"
proof -
  have ok: "order_ok Od" using assms(1) by (simp add: nodes_distinct_def)
  have refl: "\<not> Relation Od e e" for e using strict_weak_order.irrefl[OF Relation_order[OF ok]] .
  have "a \<noteq> b" using assms(4,5,6) by auto
  then have "OrderCompare3Way Od a b \<noteq> 0" using plain_equal[OF assms(1,2)] by simp
  then have ab: "Relation Od a b \<or> Relation Od b a" by (simp add: Compare3Way_zero[OF ok] equivalent_def)
  have "insert_range (Relation Od) [a, a, b] = insert_range (Relation Od) [a, b]"
    using refl by (simp add: insert_range_def)
  then have "OrderCompare3Way Od (IsAllDiffOperator [a, a, b]) (IsAllDiffOperator [a, b]) = 0"
    using strict_weak_order.equivalent_refl[OF Relation_order[OF ok]]
    by (simp add: Compare3Way_zero_unfold[OF ok] OrderCompare3WayCovariant_def list_all2_same)
  moreover have "EvaluateBoolean T kit (IsAllDiffOperator [a, a, b]) = Inr (BooleanResult False)"
    using assms(4-9)
    by (simp add: EvaluateBoolean_predicate IsAllDiffOperator_Evaluate_def if_all_unique_def
        ForAllUnorderedPairs_eq unordered_pairs_def same_xlink_def)
  moreover have "EvaluateBoolean T kit (IsAllDiffOperator [a, b]) = Inr (BooleanResult True)"
    using assms(4-9)
    by (simp add: EvaluateBoolean_predicate IsAllDiffOperator_Evaluate_def if_all_unique_def
        ForAllUnorderedPairs_eq unordered_pairs_def same_xlink_def)
  ultimately show ?thesis by blast
qed

lemma AllDiff_repetition_lost_witness:
  "OrderCompare3Way example_order (IsAllDiffOperator [SymbolConstant 1, SymbolConstant 1, SymbolConstant 2])
     (IsAllDiffOperator [SymbolConstant 1, SymbolConstant 2]) = 0"
  using AllDiff_repetition_lost[of example_order "SymbolConstant 1" "SymbolConstant 2" example_tree "example_kit []" 1 2]
  by (simp add: plain.simps EvaluateSymbol.simps make_UniqueResult_def new_UniqueResult_def example_kit_def)

end
