(* ===== verification/KeyedMaps.thy ===== *)
theory KeyedMaps
  imports Containers
begin

text \<open>
  \<^verbatim>\<open>std::map\<close> with a comparison object: a list of entries sorted by key, whose keys are found up to
  equivalence. The maps that the solver keys by \<^verbatim>\<open>Expression::Relation\<close> are of this kind: an entry
  keeps the key it was made with, and an equivalent key finds it.
\<close>

section \<open>Operations\<close>

text \<open>\<^verbatim>\<open>find\<close>, \<^verbatim>\<open>count\<close> and \<^verbatim>\<open>at\<close>.\<close>

fun map_find :: "('k \<Rightarrow> 'k \<Rightarrow> bool) \<Rightarrow> 'k \<Rightarrow> ('k \<times> 'v) list \<Rightarrow> 'v option" where
  "map_find lt k [] = None"
| "map_find lt k (p # m) = (if equivalent lt (fst p) k then Some (snd p) else map_find lt k m)"

definition map_count :: "('k \<Rightarrow> 'k \<Rightarrow> bool) \<Rightarrow> 'k \<Rightarrow> ('k \<times> 'v) list \<Rightarrow> nat" where
  "map_count lt k m = length (filter (\<lambda>p. equivalent lt (fst p) k) m)"

definition map_at :: "('k \<Rightarrow> 'k \<Rightarrow> bool) \<Rightarrow> 'k \<Rightarrow> ('k \<times> 'v) list \<Rightarrow> 'v result" where
  "map_at lt k m = (case map_find lt k m of None \<Rightarrow> Inl OutOfRange | Some v \<Rightarrow> Inr v)"

text \<open>\<^verbatim>\<open>m[k]\<close> makes an entry with an initial value when there is none, and what follows it changes the value.\<close>

fun map_change :: "('k \<Rightarrow> 'k \<Rightarrow> bool) \<Rightarrow> 'k \<Rightarrow> 'v \<Rightarrow> ('v \<Rightarrow> 'v) \<Rightarrow> ('k \<times> 'v) list \<Rightarrow> ('k \<times> 'v) list" where
  "map_change lt k ini f [] = [(k, f ini)]"
| "map_change lt k ini f (p # m) =
     (if lt k (fst p) then (k, f ini) # p # m
      else if lt (fst p) k then p # map_change lt k ini f m
      else (fst p, f (snd p)) # m)"

definition map_assign :: "('k \<Rightarrow> 'k \<Rightarrow> bool) \<Rightarrow> 'k \<Rightarrow> 'v \<Rightarrow> ('k \<times> 'v) list \<Rightarrow> ('k \<times> 'v) list" where
  "map_assign lt k v m = map_change lt k v (\<lambda>_. v) m"

section \<open>Lookup\<close>

abbreviation sorted_keys :: "('k \<Rightarrow> 'k \<Rightarrow> bool) \<Rightarrow> ('k \<times> 'v) list \<Rightarrow> bool" where
  "sorted_keys lt m \<equiv> sorted_wrt (\<lambda>p q. lt (fst p) (fst q)) m"

lemma map_find_mem: "map_find lt k m = Some v \<Longrightarrow> \<exists>k'. (k', v) \<in> set m \<and> equivalent lt k' k"
  by (induction m) (auto split: if_splits)

context strict_weak_order
begin

lemma map_find_equivalent: "equivalent lt k k' \<Longrightarrow> map_find lt k m = map_find lt k' m"
proof (induction m)
  case (Cons p m)
  have "equivalent lt (fst p) k \<longleftrightarrow> equivalent lt (fst p) k'"
    using Cons.prems equivalent_trans equivalent_sym by blast
  with Cons show ?case by simp
qed simp

lemma map_find_below: "\<forall>p \<in> set m. lt k (fst p) \<Longrightarrow> map_find lt k m = None"
  by (induction m) (auto dest: lt_not_equivalent)

lemma map_find_sorted:
  assumes "sorted_keys lt m" "(k, v) \<in> set m"
  shows "map_find lt k m = Some v"
  using assms
proof (induction m)
  case (Cons p m)
  show ?case
  proof (cases "p = (k, v)")
    case True
    then show ?thesis by (simp add: equivalent_refl)
  next
    case False
    with Cons.prems have "(k, v) \<in> set m" by simp
    moreover from this have "lt (fst p) k" using Cons.prems(1) by force
    ultimately show ?thesis using Cons by (auto dest: lt_not_equivalent)
  qed
qed simp

lemma map_change_props:
  assumes "sorted_keys lt m"
  shows "sorted_keys lt (map_change lt k ini f m)
    \<and> (\<forall>p \<in> set (map_change lt k ini f m). fst p = k \<or> fst p \<in> fst ` set m)"
  using assms
proof (induction m)
  case (Cons p m)
  consider "lt k (fst p)" | "\<not> lt k (fst p)" "lt (fst p) k" | "\<not> lt k (fst p)" "\<not> lt (fst p) k" by blast
  then show ?case
  proof cases
    case 1
    then show ?thesis using Cons.prems by (auto dest: trans)
  next
    case 2
    have "sorted_keys lt (map_change lt k ini f m)"
      and mem: "\<forall>q \<in> set (map_change lt k ini f m). fst q = k \<or> fst q \<in> fst ` set m"
      using Cons by auto
    moreover have "lt (fst p) (fst q)" if "q \<in> set (map_change lt k ini f m)" for q
      using mem that 2(2) Cons.prems by fastforce
    ultimately show ?thesis using 2 by auto
  next
    case 3
    then show ?thesis using Cons.prems by auto
  qed
qed simp

lemma map_find_change:
  assumes "sorted_keys lt m"
  shows "map_find lt x (map_change lt k ini f m)
    = (if equivalent lt k x then Some (f (case map_find lt k m of None \<Rightarrow> ini | Some v \<Rightarrow> v)) else map_find lt x m)"
  using assms
proof (induction m)
  case (Cons p m)
  consider "lt k (fst p)" | "\<not> lt k (fst p)" "lt (fst p) k" | "equivalent lt k (fst p)"
    by (auto simp: equivalent_def)
  then show ?case
  proof cases
    case 1
    have "map_find lt k (p # m) = None"
      using 1 Cons.prems by (intro map_find_below) (auto dest: trans)
    with 1 show ?thesis by simp
  next
    case 2
    have ne: "\<not> equivalent lt (fst p) k" using 2 by (auto dest: lt_not_equivalent)
    moreover have "\<not> equivalent lt (fst p) x" if "equivalent lt k x"
      using that ne equivalent_trans equivalent_sym by blast
    ultimately show ?thesis using 2 Cons by auto
  next
    case 3
    then have "\<not> lt k (fst p)" "\<not> lt (fst p) k" "equivalent lt (fst p) k" by (auto simp: equivalent_def)
    moreover have "equivalent lt (fst p) x \<longleftrightarrow> equivalent lt k x"
      using 3 equivalent_trans equivalent_sym by blast
    ultimately show ?thesis by simp
  qed
qed simp

lemma map_count_find:
  assumes "sorted_keys lt m"
  shows "map_count lt k m = (case map_find lt k m of None \<Rightarrow> 0 | Some v \<Rightarrow> 1)"
  using assms
proof (induction m)
  case (Cons p m)
  have "filter (\<lambda>q. equivalent lt (fst q) k) m = []" if "equivalent lt (fst p) k"
  proof -
    have "\<not> equivalent lt (fst q) k" if "q \<in> set m" for q
    proof
      assume "equivalent lt (fst q) k"
      then have "equivalent lt (fst p) (fst q)"
        using \<open>equivalent lt (fst p) k\<close> equivalent_trans equivalent_sym by blast
      moreover have "lt (fst p) (fst q)" using Cons.prems that by simp
      ultimately show False by (simp add: equivalent_def)
    qed
    then show ?thesis by (simp add: filter_empty_conv)
  qed
  then show ?case using Cons by (simp add: map_count_def split: option.splits)
qed (simp add: map_count_def)

lemma map_find_assign:
  "sorted_keys lt m \<Longrightarrow> map_find lt x (map_assign lt k v m) = (if equivalent lt k x then Some v else map_find lt x m)"
  by (simp add: map_assign_def map_find_change)

lemma sorted_map_assign: "sorted_keys lt m \<Longrightarrow> sorted_keys lt (map_assign lt k v m)"
  by (simp add: map_assign_def map_change_props)

end

end
