(* ===== verification/PredicateTables.thy ===== *)
theory PredicateTables
  imports ExpressionOrder TruthTable KeyedMaps
begin

text \<open>
  Analysis of an expression into its predicates (\<^verbatim>\<open>vn/sym/expression_analysis.cpp\<close>) and truth tables
  whose axes are labelled with predicates (\<^verbatim>\<open>vn/sym/truth_table_with_predicates.cpp\<close>).

  A set of pointers is ordered by address, which is a parameter: \<open>address p\<close> is the least address of
  an object with the contents \<open>p\<close>. Two objects with the same contents are one element here; the code
  never tells them apart.
\<close>

section \<open>Walking an expression\<close>

lemma foldE_fundef_cong [fundef_cong]:
  "xs = ys \<Longrightarrow> s = t \<Longrightarrow> (\<And>x s. x \<in> set ys \<Longrightarrow> f x s = g x s) \<Longrightarrow> foldE f xs s = foldE g ys t"
proof (induction xs arbitrary: ys s t)
  case (Cons x xs)
  have "foldE f xs u = foldE g xs u" for u by (rule Cons.IH[OF refl refl]) (use Cons.prems in auto)
  then have "foldE f xs = foldE g xs" by (simp add: fun_eq_iff)
  moreover have "f x s = g x s" using Cons.prems by auto
  ultimately show ?case using Cons.prems(1,2) by force
qed simp

text \<open>The lambda says whether to go on below an expression; it can fail.\<close>

function ExpressionWalker ::
    "bool \<Rightarrow> (Expression \<Rightarrow> 's \<Rightarrow> (bool \<times> 's) result) \<Rightarrow> Expression \<Rightarrow> bool \<Rightarrow> 's \<Rightarrow> 's result" where
  "ExpressionWalker include_root lambda e is_root s =
     bindE (if include_root \<or> \<not> is_root then lambda e s else Inr (True, s))
       (\<lambda>(cont, s).
          if \<not> cont then Inr s
          else foldE (\<lambda>op. ExpressionWalker include_root lambda op False) (GetOperands e) s)"
  by pat_completeness auto

termination ExpressionWalker
  by (relation "measure (\<lambda>(i, l, e, r, s). size e)") (simp_all only: in_measure size_GetOperands wf_measure prod.case)

declare ExpressionWalker.simps [simp del]

definition CheckNoPredicatesUnder :: "Expression \<Rightarrow> unit result" where
  "CheckNoPredicatesUnder expr =
     ExpressionWalker False (\<lambda>e s. guardE (\<not> IsPredicate e) (Inr (True, s))) expr True ()"

definition CheckRegularPredicateForm :: "Expression \<Rightarrow> unit result" where
  "CheckRegularPredicateForm main_expr =
     ExpressionWalker True
       (\<lambda>expr s.
          let ops = GetOperands expr;
              got_bool_ops = list_ex IsBoolean ops;
              got_sym_ops = list_ex IsSymbol ops
          in guardE (\<not> (IsSymbol expr \<and> got_bool_ops))
               (if IsPredicate expr
                then guardE (IsBoolean expr) (guardE (\<not> got_bool_ops) (guardE got_sym_ops
                       (bindE (CheckNoPredicatesUnder expr) (\<lambda>_. Inr (False, s)))))
                else guardE (\<not> got_sym_ops) (Inr (True, s))))
       main_expr True ()"

definition GetPredicates :: "order_ops \<Rightarrow> (Expression \<Rightarrow> nat) \<Rightarrow> Expression \<Rightarrow> Expression list list result" where
  "GetPredicates Od address expr =
     bindE (ExpressionWalker True
         (\<lambda>e preds_unique_by_ptr.
            if IsPredicate e
            then Inr (False, fst (container_insert (\<lambda>a b. address a < address b) e preds_unique_by_ptr))
            else Inr (True, preds_unique_by_ptr))
         expr True [])
       (\<lambda>preds_unique_by_ptr.
          let preds_grouped_by_equality =
                fold (\<lambda>pred. map_change (Relation Od) pred []
                        (\<lambda>s. fst (container_insert (\<lambda>a b. address a < address b) pred s)))
                  preds_unique_by_ptr []
          in Inr (map snd preds_grouped_by_equality))"

section \<open>Truth tables with predicates\<close>

record truth_table_with_predicates =
  label_var_name :: string
  predicates :: "Expression list list"
  table :: truth_table
  pred_to_index :: "(Expression \<times> nat) list"
  pred_labels :: "string list"
  next_pred_num :: nat

text \<open>\<^verbatim>\<open>SSPrintf\<close> with the format \<^verbatim>\<open>name%0<w>d\<close>.\<close>

definition digit :: "nat \<Rightarrow> char" where
  "digit n = char_of (48 + n)"

fun decimal :: "nat \<Rightarrow> string" where
  "decimal n = (if n < 10 then [digit n] else decimal (n div 10) @ [digit (n mod 10)])"

definition zero_padded :: "nat \<Rightarrow> nat \<Rightarrow> string" where
  "zero_padded w n = replicate (w - length (decimal n)) (digit 0) @ decimal n"

text \<open>\<^verbatim>\<open>render_index_size\<close> is 2, \<^verbatim>\<open>render_cell_size\<close> is \<open>2 + length name + 1\<close>, the width is that less 2.\<close>

definition label :: "string \<Rightarrow> nat \<Rightarrow> string" where
  "label name n = name @ zero_padded (2 + length name + 1 - 2) n"

definition GetDegree :: "truth_table_with_predicates \<Rightarrow> nat result" where
  "GetDegree w = guardE (degree (table w) = length (predicates w)) (Inr (degree (table w)))"

definition GetFrontPredicate :: "truth_table_with_predicates \<Rightarrow> nat \<Rightarrow> Expression result" where
  "GetFrontPredicate w axis = bindE (vec_at (predicates w) axis) FrontOf"

definition GetPredicateSet :: "truth_table_with_predicates \<Rightarrow> nat \<Rightarrow> Expression list result" where
  "GetPredicateSet w axis = vec_at (predicates w) axis"

definition UpdatePredToIndex :: "order_ops \<Rightarrow> truth_table_with_predicates \<Rightarrow> truth_table_with_predicates result" where
  "UpdatePredToIndex Od w =
     bindE (GetDegree w) (\<lambda>d.
     bindE (foldE (\<lambda>i m. bindE (GetFrontPredicate w i) (\<lambda>p. Inr (map_assign (Relation Od) p i m))) [0..<d] [])
       (\<lambda>m. Inr (w\<lparr>pred_to_index := m\<rparr>)))"

definition new_ttwp ::
    "order_ops \<Rightarrow> Expression list list \<Rightarrow> CellType \<Rightarrow> string \<Rightarrow> nat \<Rightarrow> truth_table_with_predicates result" where
  "new_ttwp Od preds initval name counting_based =
     bindE (UpdatePredToIndex Od \<lparr>label_var_name = name, predicates = preds,
              table = new_truth_table (length preds) initval, pred_to_index = [], pred_labels = [],
              next_pred_num = counting_based\<rparr>) (\<lambda>w.
     bindE (GetDegree w) (\<lambda>d.
       Inr (w\<lparr>pred_labels := map (\<lambda>i. label name (counting_based + i)) [0..<d],
              next_pred_num := counting_based + d\<rparr>)))"

text \<open>The private constructor, which \<^verbatim>\<open>GetSlice\<close> and \<^verbatim>\<open>GetFolded\<close> use.\<close>

definition make_ttwp ::
    "order_ops \<Rightarrow> string \<Rightarrow> Expression list list \<Rightarrow> truth_table \<Rightarrow> string list \<Rightarrow> nat \<Rightarrow> truth_table_with_predicates result" where
  "make_ttwp Od name preds tt labels next =
     UpdatePredToIndex Od \<lparr>label_var_name = name, predicates = preds, table = tt, pred_to_index = [],
       pred_labels = labels, next_pred_num = next\<rparr>"

definition Extend_ttwp ::
    "order_ops \<Rightarrow> truth_table_with_predicates \<Rightarrow> Expression list list \<Rightarrow> truth_table_with_predicates result" where
  "Extend_ttwp Od w new_predicates =
     bindE (GetDegree w) (\<lambda>d.
     bindE (UpdatePredToIndex Od
        (w\<lparr>table := Extend (table w) (d + length new_predicates), predicates := predicates w @ new_predicates\<rparr>))
       (\<lambda>w. Inr (w\<lparr>pred_labels := pred_labels w
                @ map (\<lambda>i. label (label_var_name w) (next_pred_num w + i)) [0..<length new_predicates],
              next_pred_num := next_pred_num w + length new_predicates\<rparr>)))"

definition GetSlice_ttwp ::
    "order_ops \<Rightarrow> truth_table_with_predicates \<Rightarrow> SliceSpec \<Rightarrow> truth_table_with_predicates result" where
  "GetSlice_ttwp Od w sl =
     bindE (GetDegree w) (\<lambda>d.
      let axes = filter (\<lambda>axis. axis \<notin> fst ` set sl) [0..<d] in
      bindE (mapE (vec_at (predicates w)) axes) (\<lambda>new_predicates.
      bindE (mapE (vec_at (pred_labels w)) axes) (\<lambda>new_pred_labels.
      bindE (GetSlice (table w) sl) (\<lambda>new_tt.
        make_ttwp Od (label_var_name w) new_predicates new_tt new_pred_labels (next_pred_num w)))))"

definition GetFolded_ttwp ::
    "order_ops \<Rightarrow> truth_table_with_predicates \<Rightarrow> nat list \<Rightarrow> truth_table_with_predicates result" where
  "GetFolded_ttwp Od w fold_axes =
     bindE (GetDegree w) (\<lambda>d.
      let axes = filter (\<lambda>axis. axis \<notin> set fold_axes) [0..<d] in
      bindE (mapE (vec_at (predicates w)) axes) (\<lambda>new_predicates.
      bindE (mapE (vec_at (pred_labels w)) axes) (\<lambda>new_pred_labels.
      bindE (GetFolded (table w) fold_axes) (\<lambda>new_tt.
        make_ttwp Od (label_var_name w) new_predicates new_tt new_pred_labels (next_pred_num w)))))"

definition PredExists :: "order_ops \<Rightarrow> truth_table_with_predicates \<Rightarrow> Expression \<Rightarrow> bool" where
  "PredExists Od w pred \<longleftrightarrow> map_count (Relation Od) pred (pred_to_index w) = 1"

definition PredToIndex :: "order_ops \<Rightarrow> truth_table_with_predicates \<Rightarrow> Expression \<Rightarrow> nat result" where
  "PredToIndex Od w pred = guardE (PredExists Od w pred) (map_at (Relation Od) pred (pred_to_index w))"

section \<open>What the analysis finds\<close>

abbreviation address_less :: "(Expression \<Rightarrow> nat) \<Rightarrow> Expression \<Rightarrow> Expression \<Rightarrow> bool" where
  "address_less address a b \<equiv> address a < address b"

lemma address_order: "strict_weak_order (address_less address)"
  by unfold_locales auto

lemma foldE_fold_concat:
  "(\<And>x s. x \<in> set xs \<Longrightarrow> f x s = Inr (fold g (h x) s)) \<Longrightarrow> foldE f xs s = Inr (fold g (concat (map h xs)) s)"
  by (induction xs arbitrary: s) auto

lemma walk_predicates:
  "ExpressionWalker True (\<lambda>e s. if IsPredicate e then Inr (False, g e s) else Inr (True, s)) e r s
    = Inr (fold g (predicates_of e) s)"
proof (induction e arbitrary: r s rule: expression_induct)
  case (operands e)
  show ?case
    using foldE_fold_concat[of "GetOperands e" "\<lambda>op. ExpressionWalker True (\<lambda>e s. if IsPredicate e then Inr (False, g e s) else Inr (True, s)) op False"
      g predicates_of s] operands
    by (cases "IsPredicate e") (simp_all add: ExpressionWalker.simps[of True _ e] predicates_of.simps[of e])
qed

text \<open>The expressions strictly below an expression.\<close>

definition below_all :: "(Expression \<Rightarrow> bool) \<Rightarrow> Expression \<Rightarrow> bool" where
  "below_all P e \<longleftrightarrow> list_all P (tl (ForTreeDepthFirstWalk e))"

lemma walk_list: "list_all P (ForTreeDepthFirstWalk e) \<longleftrightarrow> P e \<and> below_all P e"
  by (simp add: below_all_def ForTreeDepthFirstWalk.simps[of e])

lemma below_all_operands: "below_all P e \<longleftrightarrow> (\<forall>x \<in> set (GetOperands e). P x \<and> below_all P x)"
proof -
  have "below_all P e \<longleftrightarrow> (\<forall>x \<in> set (GetOperands e). list_all P (ForTreeDepthFirstWalk x))"
    by (simp add: below_all_def[of P e] ForTreeDepthFirstWalk.simps[of e] list_all_iff)
  then show ?thesis by (simp only: walk_list)
qed

lemma foldE_check:
  "(\<And>x. x \<in> set xs \<Longrightarrow> f x () = guardE (P x) (Inr ())) \<Longrightarrow> foldE f xs () = guardE (\<forall>x \<in> set xs. P x) (Inr ())"
  by (induction xs) (auto simp: guardE_def)

lemma walk_check:
  "ExpressionWalker i (\<lambda>e s. guardE (P e) (Inr (True, s))) e r ()
    = guardE ((i \<or> \<not> r \<longrightarrow> P e) \<and> below_all P e) (Inr ())"
proof (induction e arbitrary: r rule: expression_induct)
  case (operands e)
  have "foldE (\<lambda>op. ExpressionWalker i (\<lambda>e s. guardE (P e) (Inr (True, s))) op False) (GetOperands e) ()
    = guardE (\<forall>x \<in> set (GetOperands e). P x \<and> below_all P x) (Inr ())"
  proof (rule foldE_check)
    fix x assume "x \<in> set (GetOperands e)"
    from operands(1)[OF this, of False]
    show "ExpressionWalker i (\<lambda>e s. guardE (P e) (Inr (True, s))) x False () = guardE (P x \<and> below_all P x) (Inr ())"
      by simp
  qed
  then show ?case
    by (cases "i \<or> \<not> r"; cases "P e") (simp_all add: ExpressionWalker.simps[of _ _ e] below_all_operands[of P e])
qed

lemma CheckNoPredicatesUnder_eq:
  "CheckNoPredicatesUnder e = guardE (below_all (\<lambda>x. \<not> IsPredicate x) e) (Inr ())"
  unfolding CheckNoPredicatesUnder_def walk_check by simp

lemma predicate_operands:
  "well_typed e \<Longrightarrow> IsPredicate e \<Longrightarrow> list_ex IsSymbol (GetOperands e) \<and> \<not> list_ex IsBoolean (GetOperands e)"
  using well_typed.simps[of e] predicate_operands_symbols[of e]
  by (cases e) (auto simp: IsSymbol_def list_ex_iff list_all_iff numeral_2_eq_2 Suc_le_length_iff)

lemma IsPredicate_boolean [simp]: "IsPredicate e \<Longrightarrow> IsBoolean e"
  by (cases e) simp_all

lemma CheckRegularPredicateForm_eq:
  assumes "well_typed e" "IsBoolean e"
  shows "CheckRegularPredicateForm e
    = guardE (\<forall>p \<in> set (predicates_of e). below_all (\<lambda>x. \<not> IsPredicate x) p) (Inr ())"
proof -
  let ?l = "\<lambda>expr s.
          let ops = GetOperands expr; got_bool_ops = list_ex IsBoolean ops; got_sym_ops = list_ex IsSymbol ops
          in guardE (\<not> (IsSymbol expr \<and> got_bool_ops))
               (if IsPredicate expr
                then guardE (IsBoolean expr) (guardE (\<not> got_bool_ops) (guardE got_sym_ops
                       (bindE (CheckNoPredicatesUnder expr) (\<lambda>_. Inr (False, s)))))
                else guardE (\<not> got_sym_ops) (Inr (True, s)))"
  let ?P = "below_all (\<lambda>x. \<not> IsPredicate x)"
  have "ExpressionWalker True ?l e r () = guardE (\<forall>p \<in> set (predicates_of e). ?P p) (Inr ())" for r
    using assms
  proof (induction e arbitrary: r rule: expression_induct)
    case (operands e)
    show ?case
    proof (cases "IsPredicate e")
      case True
      moreover have "\<not> IsSymbol e" using operands(3) by (simp add: IsSymbol_def)
      ultimately show ?thesis
        using predicate_operands[OF operands(2) True] operands(3)
        by (cases "?P e") (simp_all add: ExpressionWalker.simps[of True _ e] CheckNoPredicatesUnder_eq)
    next
      case False
      have b: "IsBoolean x" "well_typed x" if "x \<in> set (GetOperands e)" for x
        using boolean_operands[OF operands(2,3) False that] well_typed_operand[OF operands(2) that] by simp_all
      have ns: "\<not> IsSymbol e" using operands(3) by (simp add: IsSymbol_def)
      from b have "\<not> list_ex IsSymbol (GetOperands e)" by (auto simp: list_ex_iff IsSymbol_def)
      moreover have "foldE (\<lambda>op. ExpressionWalker True ?l op False) (GetOperands e) ()
        = guardE (\<forall>x \<in> set (GetOperands e). \<forall>p \<in> set (predicates_of x). ?P p) (Inr ())"
        by (rule foldE_check) (use operands(1) b in simp)
      ultimately show ?thesis
        using False ns by (simp add: ExpressionWalker.simps[of True _ e] predicates_of.simps[of e])
    qed
  qed
  then show ?thesis by (simp add: CheckRegularPredicateForm_def)
qed

text \<open>A grouping of expressions by equality, in the order of expressions.\<close>

definition grouped :: "order_ops \<Rightarrow> Expression set \<Rightarrow> Expression list list \<Rightarrow> bool" where
  "grouped Od P G \<longleftrightarrow> (\<Union>S \<in> set G. set S) = P
     \<and> (\<forall>S \<in> set G. S \<noteq> [] \<and> (\<forall>p \<in> set S. \<forall>q \<in> set S. equivalent (Relation Od) p q))
     \<and> sorted_wrt (\<lambda>S S'. \<forall>p \<in> set S. \<forall>q \<in> set S'. Relation Od p q) G"

definition group_entries :: "order_ops \<Rightarrow> (Expression \<Rightarrow> nat) \<Rightarrow> Expression set \<Rightarrow> (Expression \<times> Expression list) list \<Rightarrow> bool" where
  "group_entries Od address P m \<longleftrightarrow> sorted_keys (Relation Od) m
     \<and> (\<forall>x. case map_find (Relation Od) x m of
              None \<Rightarrow> \<forall>p \<in> P. \<not> equivalent (Relation Od) p x
            | Some S \<Rightarrow> S \<noteq> [] \<and> sorted_wrt (address_less address) S \<and> set S = {p \<in> P. equivalent (Relation Od) p x})"

lemma group_entries_at:
  "group_entries Od address P m \<Longrightarrow> case map_find (Relation Od) x m of
      None \<Rightarrow> \<forall>p \<in> P. \<not> equivalent (Relation Od) p x
    | Some S \<Rightarrow> S \<noteq> [] \<and> sorted_wrt (address_less address) S \<and> set S = {p \<in> P. equivalent (Relation Od) p x}"
  by (simp add: group_entries_def)

lemma group_entries_change:
  assumes ok: "order_ok Od" and inj: "inj address" and m: "group_entries Od address P m"
  shows "group_entries Od address (insert p P)
    (map_change (Relation Od) p [] (\<lambda>s. fst (container_insert (address_less address) p s)) m)"
proof -
  note swo = Relation_order[OF ok]
  note sym = strict_weak_order.equivalent_sym[OF swo] and trans = strict_weak_order.equivalent_trans[OF swo]
  have s: "sorted_keys (Relation Od) m" using m by (simp add: group_entries_def)
  have ins: "sorted_wrt (address_less address) (fst (container_insert (address_less address) p S))
      \<and> set (fst (container_insert (address_less address) p S)) = insert p (set S)
      \<and> fst (container_insert (address_less address) p S) \<noteq> []"
    if "sorted_wrt (address_less address) S" for S
  proof -
    have "covers (address_less address) S p \<longleftrightarrow> p \<in> set S"
      by (auto simp: covers_def equivalent_def not_less inj_eq[OF inj] dest!: antisym)
    with strict_weak_order.container_insert_props[OF address_order that, of p] show ?thesis by auto
  qed
  have "case map_find (Relation Od) x (map_change (Relation Od) p [] (\<lambda>s. fst (container_insert (address_less address) p s)) m) of
          None \<Rightarrow> \<forall>q \<in> insert p P. \<not> equivalent (Relation Od) q x
        | Some S \<Rightarrow> S \<noteq> [] \<and> sorted_wrt (address_less address) S \<and> set S = {q \<in> insert p P. equivalent (Relation Od) q x}" for x
  proof (cases "equivalent (Relation Od) p x")
    case True
    have "equivalent (Relation Od) q x \<longleftrightarrow> equivalent (Relation Od) q p" for q using True sym trans by blast
    with True group_entries_at[OF m, of p] ins ins[of "[]"] show ?thesis
      by (auto simp: strict_weak_order.map_find_change[OF swo s] split: option.splits)
  next
    case False
    with group_entries_at[OF m, of x] show ?thesis by (auto simp: strict_weak_order.map_find_change[OF swo s] split: option.splits)
  qed
  then show ?thesis
    using strict_weak_order.map_change_props[OF swo s] by (simp add: group_entries_def)
qed

lemma group_entries_keys:
  assumes ok: "order_ok Od" and m: "group_entries Od address P m" and mem: "(k, S) \<in> set m"
  shows "S \<noteq> [] \<and> set S = {p \<in> P. equivalent (Relation Od) p k}"
proof -
  have "map_find (Relation Od) k m = Some S"
    using strict_weak_order.map_find_sorted[OF Relation_order[OF ok] _ mem] m by (simp add: group_entries_def)
  with m show ?thesis by (auto simp: group_entries_def split: option.splits)
qed

lemma group_entries_grouped:
  assumes ok: "order_ok Od" and m: "group_entries Od address P m"
  shows "grouped Od P (map snd m)"
proof -
  note swo = Relation_order[OF ok]
  note sym = strict_weak_order.equivalent_sym[OF swo] and trans = strict_weak_order.equivalent_trans[OF swo]
  note key = group_entries_keys[OF ok m]
  have "\<exists>p \<in> set m. q \<in> set (snd p)" if "q \<in> P" for q
  proof -
    from that group_entries_at[OF m, of q] strict_weak_order.equivalent_refl[OF swo, of q]
    obtain S where S: "map_find (Relation Od) q m = Some S" and "q \<in> set S"
      by (cases "map_find (Relation Od) q m") auto
    with map_find_mem[OF S] show ?thesis by force
  qed
  then have "(\<Union>S \<in> set (map snd m). set S) = P" using key by fastforce
  moreover have "\<forall>S \<in> set (map snd m). S \<noteq> [] \<and> (\<forall>p \<in> set S. \<forall>q \<in> set S. equivalent (Relation Od) p q)"
    using key sym trans by fastforce
  moreover have "sorted_wrt (\<lambda>S S'. \<forall>p \<in> set S. \<forall>q \<in> set S'. Relation Od p q) (map snd m)"
    unfolding sorted_wrt_map
  proof (rule sorted_wrt_mono_rel[rotated])
    show "sorted_keys (Relation Od) m" using m by (simp add: group_entries_def)
    fix a b assume ab: "a \<in> set m" "b \<in> set m" and lt: "Relation Od (fst a) (fst b)"
    show "\<forall>p \<in> set (snd a). \<forall>q \<in> set (snd b). Relation Od p q"
    proof (intro ballI)
      fix p q assume "p \<in> set (snd a)" "q \<in> set (snd b)"
      then have "equivalent (Relation Od) p (fst a)" "equivalent (Relation Od) q (fst b)"
        using key[of "fst a" "snd a"] key[of "fst b" "snd b"] ab by auto
      then show "Relation Od p q"
        using lt strict_weak_order.lt_equivalent_left[OF swo] strict_weak_order.lt_equivalent_right[OF swo] by metis
    qed
  qed
  ultimately show ?thesis by (simp add: grouped_def)
qed

lemma GetPredicates_grouped:
  assumes ok: "order_ok Od" and inj: "inj address"
  shows "\<exists>G. GetPredicates Od address e = Inr G \<and> grouped Od (set (predicates_of e)) G"
proof -
  let ?ins = "\<lambda>x s. fst (container_insert (address_less address) x s)"
  let ?u = "fold ?ins (predicates_of e) []"
  have set_u: "set (fold ?ins xs s) = set xs \<union> set s" if "sorted_wrt (address_less address) s" for xs s
    using that
  proof (induction xs arbitrary: s)
    case (Cons x xs)
    have "covers (address_less address) s x \<longleftrightarrow> x \<in> set s"
      by (auto simp: covers_def equivalent_def not_less inj_eq[OF inj] dest!: antisym)
    with Cons strict_weak_order.container_insert_props[OF address_order Cons.prems, of x] show ?case by auto
  qed simp
  have "group_entries Od address (set us \<union> P)
      (fold (\<lambda>p. map_change (Relation Od) p [] (?ins p)) us m)" if "group_entries Od address P m" for us P m
    using that
  proof (induction us arbitrary: P m)
    case (Cons p us)
    from Cons.IH[OF group_entries_change[OF ok inj Cons.prems, of p]] show ?case by simp
  qed simp
  from this[of "{}" "[]" ?u] have "grouped Od (set ?u) (map snd (fold (\<lambda>p. map_change (Relation Od) p [] (?ins p)) ?u []))"
    using group_entries_grouped[OF ok] by (simp add: group_entries_def)
  then show ?thesis
    using set_u[of "[]" "predicates_of e"] by (simp add: GetPredicates_def walk_predicates)
qed

section \<open>Well-formed tables\<close>

text \<open>Each axis has a non-empty set of equal predicates, and different axes have different predicates.\<close>

definition axes_ok :: "order_ops \<Rightarrow> Expression list list \<Rightarrow> bool" where
  "axes_ok Od preds \<longleftrightarrow>
     (\<forall>S \<in> set preds. S \<noteq> [] \<and> (\<forall>p \<in> set S. \<forall>q \<in> set S. equivalent (Relation Od) p q))
   \<and> (\<forall>i < length preds. \<forall>j < length preds. i \<noteq> j \<longrightarrow> \<not> equivalent (Relation Od) (hd (preds ! i)) (hd (preds ! j)))"

text \<open>The index finds the axis of each predicate.\<close>

definition index_ok :: "order_ops \<Rightarrow> truth_table_with_predicates \<Rightarrow> bool" where
  "index_ok Od w \<longleftrightarrow> sorted_keys (Relation Od) (pred_to_index w)
     \<and> (\<forall>p i. map_find (Relation Od) p (pred_to_index w) = Some i
          \<longleftrightarrow> i < length (predicates w) \<and> equivalent (Relation Od) (hd (predicates w ! i)) p)"

definition ttwp_ok :: "order_ops \<Rightarrow> truth_table_with_predicates \<Rightarrow> bool" where
  "ttwp_ok Od w \<longleftrightarrow> tt_ok (table w) \<and> degree (table w) = length (predicates w)
     \<and> length (pred_labels w) = length (predicates w) \<and> axes_ok Od (predicates w) \<and> index_ok Od w"

lemma grouped_axes_ok:
  assumes ok: "order_ok Od" and G: "grouped Od P G"
  shows "axes_ok Od G"
proof -
  note swo = Relation_order[OF ok]
  have ne: "\<not> equivalent (Relation Od) (hd (G ! i)) (hd (G ! j))" if "i < j" "j < length G" for i j
  proof -
    have "G ! i \<noteq> []" "G ! j \<noteq> []" using G that by (auto simp: grouped_def)
    moreover have "\<forall>p \<in> set (G ! i). \<forall>q \<in> set (G ! j). Relation Od p q"
      using G that sorted_wrt_nth_less by (fastforce simp: grouped_def)
    ultimately show ?thesis by (auto simp: equivalent_def)
  qed
  then have "\<not> equivalent (Relation Od) (hd (G ! i)) (hd (G ! j))" if "i < length G" "j < length G" "i \<noteq> j" for i j
    using that ne[of i j] ne[of j i] strict_weak_order.equivalent_sym[OF swo] by (cases "i < j") auto
  moreover have "\<forall>S \<in> set G. S \<noteq> [] \<and> (\<forall>p \<in> set S. \<forall>q \<in> set S. equivalent (Relation Od) p q)"
    using G unfolding grouped_def by (elim conjE)
  ultimately show ?thesis unfolding axes_ok_def by blast
qed

lemma axes_ok_at:
  assumes "axes_ok Od preds" "i < length preds"
  shows "preds ! i \<noteq> []" "hd (preds ! i) \<in> set (preds ! i)"
    "p \<in> set (preds ! i) \<Longrightarrow> q \<in> set (preds ! i) \<Longrightarrow> equivalent (Relation Od) p q"
proof -
  have "preds ! i \<noteq> [] \<and> (\<forall>p \<in> set (preds ! i). \<forall>q \<in> set (preds ! i). equivalent (Relation Od) p q)"
    using assms(1) nth_mem[OF assms(2)] unfolding axes_ok_def by blast
  then show "preds ! i \<noteq> []" "hd (preds ! i) \<in> set (preds ! i)"
    "p \<in> set (preds ! i) \<Longrightarrow> q \<in> set (preds ! i) \<Longrightarrow> equivalent (Relation Od) p q" by auto
qed

lemma GetDegree_ok: "degree (table w) = length (predicates w) \<Longrightarrow> GetDegree w = Inr (length (predicates w))"
  by (simp add: GetDegree_def)

lemma GetFrontPredicate_ok:
  "axes_ok Od (predicates w) \<Longrightarrow> i < length (predicates w) \<Longrightarrow> GetFrontPredicate w i = Inr (hd (predicates w ! i))"
  using axes_ok_at(1)[of Od "predicates w" i] by (simp add: GetFrontPredicate_def vec_at_def FrontOf_def)

lemma UpdatePredToIndex_ok:
  assumes ok: "order_ok Od" and axes: "axes_ok Od (predicates w)" and deg: "degree (table w) = length (predicates w)"
  shows "\<exists>m. UpdatePredToIndex Od w = Inr (w\<lparr>pred_to_index := m\<rparr>) \<and> index_ok Od (w\<lparr>pred_to_index := m\<rparr>)"
proof -
  note swo = Relation_order[OF ok]
  let ?f = "\<lambda>i m. bindE (GetFrontPredicate w i) (\<lambda>p. Inr (map_assign (Relation Od) p i m))"
  have "\<exists>m. foldE ?f [0..<d] [] = Inr m \<and> sorted_keys (Relation Od) m
      \<and> (\<forall>p i. map_find (Relation Od) p m = Some i \<longleftrightarrow> i < d \<and> equivalent (Relation Od) (hd (predicates w ! i)) p)"
    if "d \<le> length (predicates w)" for d
    using that
  proof (induction d)
    case (Suc d)
    obtain m where m: "foldE ?f [0..<d] [] = Inr m" "sorted_keys (Relation Od) m"
      "\<forall>p i. map_find (Relation Od) p m = Some i \<longleftrightarrow> i < d \<and> equivalent (Relation Od) (hd (predicates w ! i)) p"
      using Suc.IH[OF Suc_leD[OF Suc.prems]] by (elim exE conjE) (rule that)
    have "\<not> equivalent (Relation Od) (hd (predicates w ! i)) p" if "i < d" "equivalent (Relation Od) (hd (predicates w ! d)) p" for i p
    proof
      assume "equivalent (Relation Od) (hd (predicates w ! i)) p"
      then have "equivalent (Relation Od) (hd (predicates w ! i)) (hd (predicates w ! d))"
        using that(2) strict_weak_order.equivalent_sym[OF swo] strict_weak_order.equivalent_trans[OF swo] by blast
      with axes Suc.prems that(1) show False by (auto simp: axes_ok_def)
    qed
    then have "\<forall>p i. map_find (Relation Od) p (map_assign (Relation Od) (hd (predicates w ! d)) d m) = Some i
        \<longleftrightarrow> i < Suc d \<and> equivalent (Relation Od) (hd (predicates w ! i)) p"
      using m(3) by (auto simp: strict_weak_order.map_find_assign[OF swo m(2)] less_Suc_eq)
    moreover have "foldE ?f [0..<Suc d] [] = Inr (map_assign (Relation Od) (hd (predicates w ! d)) d m)"
      using m(1) Suc.prems GetFrontPredicate_ok[OF axes, of d] by (simp add: foldE_append)
    ultimately show ?case using strict_weak_order.sorted_map_assign[OF swo m(2)] by blast
  qed simp
  from this[OF order.refl] deg show ?thesis by (auto simp: UpdatePredToIndex_def GetDegree_ok index_ok_def)
qed

lemma make_ttwp_ok:
  assumes "order_ok Od" "axes_ok Od preds" "tt_ok tt" "degree tt = length preds" "length labels = length preds"
  shows "\<exists>w. make_ttwp Od name preds tt labels next = Inr w \<and> ttwp_ok Od w \<and> predicates w = preds \<and> table w = tt"
  using UpdatePredToIndex_ok[of Od "\<lparr>label_var_name = name, predicates = preds, table = tt, pred_to_index = [],
       pred_labels = labels, next_pred_num = next\<rparr>"] assms
  by (auto simp: make_ttwp_def ttwp_ok_def)

lemma new_ttwp_ok:
  assumes "order_ok Od" "axes_ok Od preds"
  shows "\<exists>w. new_ttwp Od preds v name n = Inr w \<and> ttwp_ok Od w \<and> predicates w = preds
    \<and> table w = new_truth_table (length preds) v"
  using UpdatePredToIndex_ok[of Od "\<lparr>label_var_name = name, predicates = preds, table = new_truth_table (length preds) v,
       pred_to_index = [], pred_labels = [], next_pred_num = n\<rparr>"] assms
  by (auto simp: new_ttwp_def ttwp_ok_def GetDegree_def index_ok_def)

lemma Extend_ttwp_ok:
  assumes "order_ok Od" "ttwp_ok Od w" "axes_ok Od (predicates w @ new)"
  shows "\<exists>w'. Extend_ttwp Od w new = Inr w' \<and> ttwp_ok Od w' \<and> predicates w' = predicates w @ new
    \<and> table w' = Extend (table w) (length (predicates w) + length new)"
proof -
  let ?w = "w\<lparr>table := Extend (table w) (length (predicates w) + length new), predicates := predicates w @ new\<rparr>"
  have w: "tt_ok (table w)" "degree (table w) = length (predicates w)" "length (pred_labels w) = length (predicates w)"
    using assms(2) by (simp_all add: ttwp_ok_def)
  then have t: "tt_ok (table ?w)" "degree (table ?w) = length (predicates ?w)"
    using Extend_spec(1,2)[of "table w" "length (predicates w) + length new"] by simp_all
  obtain m where m: "UpdatePredToIndex Od ?w = Inr (?w\<lparr>pred_to_index := m\<rparr>)" "index_ok Od (?w\<lparr>pred_to_index := m\<rparr>)"
    using UpdatePredToIndex_ok[OF assms(1), of ?w] assms(3) t(2) by auto
  then show ?thesis
    using w t assms(3) by (auto simp: Extend_ttwp_def GetDegree_ok ttwp_ok_def index_ok_def)
qed

lemma axes_ok_filter:
  assumes "axes_ok Od preds" "distinct axes" "\<forall>a \<in> set axes. a < length preds"
  shows "axes_ok Od (map ((!) preds) axes)"
proof -
  have "S \<noteq> [] \<and> (\<forall>p \<in> set S. \<forall>q \<in> set S. equivalent (Relation Od) p q)" if S: "S \<in> set (map ((!) preds) axes)" for S
  proof -
    obtain a where a: "a < length preds" "S = preds ! a" using S assms(3) by auto
    then show ?thesis using axes_ok_at(1,3)[OF assms(1) a(1)] by simp
  qed
  moreover have "\<not> equivalent (Relation Od) (hd (preds ! (axes ! i))) (hd (preds ! (axes ! j)))"
    if "i < length axes" "j < length axes" "i \<noteq> j" for i j
  proof -
    have "axes ! i \<noteq> axes ! j" using that assms(2) by (simp add: nth_eq_iff_index_eq)
    with assms(1,3) that show ?thesis unfolding axes_ok_def by simp
  qed
  ultimately show ?thesis unfolding axes_ok_def by simp
qed

lemma mapE_vec_at: "\<forall>a \<in> set axes. a < length xs \<Longrightarrow> mapE (vec_at xs) axes = Inr (map ((!) xs) axes)"
  by (rule mapE_Inr) (simp add: vec_at_def)

lemma GetFolded_ttwp_ok:
  assumes "order_ok Od" "ttwp_ok Od w" "sorted_set axes" "\<forall>a \<in> set axes. a < length (predicates w)"
  shows "\<exists>w' u. GetFolded_ttwp Od w axes = Inr w' \<and> ttwp_ok Od w' \<and> table w' = u \<and> GetFolded (table w) axes = Inr u
    \<and> predicates w' = map ((!) (predicates w)) (fold_dest_axes (length (predicates w)) axes)"
proof -
  let ?d = "length (predicates w)" and ?rest = "fold_dest_axes (length (predicates w)) axes"
  have w: "tt_ok (table w)" "degree (table w) = ?d" "length (pred_labels w) = ?d" "axes_ok Od (predicates w)"
    using assms(2) by (simp_all add: ttwp_ok_def)
  obtain u where u: "GetFolded (table w) axes = Inr u" "tt_ok u" "degree u = length ?rest"
    using GetFolded_spec[OF w(1) assms(3), of thesis] assms(4) w(2) length_fold_dest_axes[OF assms(3,4)] by auto
  have rest: "\<forall>a \<in> set ?rest. a < ?d" "distinct ?rest" by (simp_all add: fold_dest_axes_def)
  have "\<exists>w'. make_ttwp Od (label_var_name w) (map ((!) (predicates w)) ?rest) u (map ((!) (pred_labels w)) ?rest) (next_pred_num w) = Inr w'
      \<and> ttwp_ok Od w' \<and> predicates w' = map ((!) (predicates w)) ?rest \<and> table w' = u"
    using make_ttwp_ok[OF assms(1) axes_ok_filter[OF w(4) rest(2,1)] u(2)] u(3) by simp
  then show ?thesis
    using u(1) rest(1) w(2,3) mapE_vec_at[of ?rest "predicates w"] mapE_vec_at[of ?rest "pred_labels w"]
    by (auto simp: GetFolded_ttwp_def GetDegree_ok fold_dest_axes_def[symmetric])
qed

lemma GetSlice_ttwp_ok:
  assumes "order_ok Od" "ttwp_ok Od w" "slice_ok (length (predicates w)) sl"
  shows "\<exists>w' u. GetSlice_ttwp Od w sl = Inr w' \<and> ttwp_ok Od w' \<and> table w' = u \<and> GetSlice (table w) sl = Inr u
    \<and> predicates w' = map ((!) (predicates w)) (free_axes (length (predicates w)) sl)"
proof -
  let ?d = "length (predicates w)" and ?rest = "free_axes (length (predicates w)) sl"
  have w: "tt_ok (table w)" "degree (table w) = ?d" "length (pred_labels w) = ?d" "axes_ok Od (predicates w)"
    using assms(2) by (simp_all add: ttwp_ok_def)
  obtain u where u: "GetSlice (table w) sl = Inr u" "tt_ok u" "degree u = length ?rest"
    using GetSlice_spec[of "table w" sl] w(1,2) assms(3) by auto
  have rest: "\<forall>a \<in> set ?rest. a < ?d" "distinct ?rest" by (simp_all add: free_axes_def)
  have "\<exists>w'. make_ttwp Od (label_var_name w) (map ((!) (predicates w)) ?rest) u (map ((!) (pred_labels w)) ?rest) (next_pred_num w) = Inr w'
      \<and> ttwp_ok Od w' \<and> predicates w' = map ((!) (predicates w)) ?rest \<and> table w' = u"
    using make_ttwp_ok[OF assms(1) axes_ok_filter[OF w(4) rest(2,1)] u(2)] u(3) by simp
  then show ?thesis
    using u(1) rest(1) w(2,3) mapE_vec_at[of ?rest "predicates w"] mapE_vec_at[of ?rest "pred_labels w"]
    by (auto simp: GetSlice_ttwp_def GetDegree_ok free_axes_def[symmetric])
qed

lemma PredExists_iff:
  assumes "order_ok Od" "ttwp_ok Od w"
  shows "PredExists Od w p \<longleftrightarrow> (\<exists>i < length (predicates w). equivalent (Relation Od) (hd (predicates w ! i)) p)"
proof -
  have "index_ok Od w" using assms(2) by (simp add: ttwp_ok_def)
  then have s: "sorted_keys (Relation Od) (pred_to_index w)"
    and f: "\<And>i. map_find (Relation Od) p (pred_to_index w) = Some i \<longleftrightarrow>
      i < length (predicates w) \<and> equivalent (Relation Od) (hd (predicates w ! i)) p" by (simp_all add: index_ok_def)
  have "PredExists Od w p \<longleftrightarrow> (\<exists>i. map_find (Relation Od) p (pred_to_index w) = Some i)"
    using strict_weak_order.map_count_find[OF Relation_order[OF assms(1)] s, of p]
    by (auto simp: PredExists_def split: option.splits)
  with f show ?thesis by auto
qed

lemma PredToIndex_eq:
  assumes "order_ok Od" "ttwp_ok Od w"
  shows "PredToIndex Od w p = Inr k \<longleftrightarrow> k < length (predicates w) \<and> equivalent (Relation Od) (hd (predicates w ! k)) p"
proof -
  have f: "map_find (Relation Od) p (pred_to_index w) = Some k \<longleftrightarrow>
      k < length (predicates w) \<and> equivalent (Relation Od) (hd (predicates w ! k)) p"
    using assms(2) by (simp add: ttwp_ok_def index_ok_def)
  show ?thesis
    using f PredExists_iff[OF assms, of p]
    by (auto simp: PredToIndex_def map_at_def split: option.splits)
qed

section \<open>Properties\<close>

text \<open>The check that a constraint must pass before it is solved accepts a well-typed boolean
  expression exactly when no predicate has another predicate below it (as the control of a conditional
  operand would be), and fails its assertion otherwise. What it accepts has all its predicates at the
  positions the truth table analysis finds, so forcing those decides every evaluation.\<close>

theorem CheckRegularPredicateForm_correct:
  assumes "well_typed e" "IsBoolean e"
  shows "CheckRegularPredicateForm e =
    (if \<forall>p \<in> set (predicates_of e). \<forall>x \<in> set (tl (ForTreeDepthFirstWalk p)). \<not> IsPredicate x
     then Inr () else Inl AssertFail)"
  using CheckRegularPredicateForm_eq[OF assms] by (simp add: below_all_def list_all_iff guardE_def)

lemma CheckRegularPredicateForm_correct_witness:
  "CheckRegularPredicateForm (NotOperator (IsEqualOperator (SymbolVariable 1)
      (ConditionalOperator example_clause (SymbolVariable 2) None))) = Inl AssertFail"
proof -
  let ?p = "IsEqualOperator (SymbolVariable 1) (ConditionalOperator example_clause (SymbolVariable 2) None)"
  have "well_typed (NotOperator ?p)"
    by (simp add: well_typed.simps[of "NotOperator x" for x] well_typed.simps[of "IsEqualOperator x y" for x y]
        well_typed.simps[of "ConditionalOperator c x y" for c x y] well_typed.simps[of "SymbolVariable x" for x] IsSymbol_def)
  moreover have "predicates_of (NotOperator ?p) = [?p]"
    by (simp add: predicates_of.simps[of "NotOperator x" for x])
  moreover have "example_clause \<in> set (tl (ForTreeDepthFirstWalk ?p))"
    by (simp add: ForTreeDepthFirstWalk.simps[of "IsEqualOperator x y" for x y] ForTreeDepthFirstWalk.simps[of "ConditionalOperator c x y" for c x y]
        ForTreeDepthFirstWalk.simps[of "SymbolVariable x" for x] ForTreeDepthFirstWalk.simps[of example_clause])
  ultimately show ?thesis
    using CheckRegularPredicateForm_correct[of "NotOperator ?p"] by (auto intro!: bexI[of _ example_clause])
qed

text \<open>C35: The predicates that the truth table is built on are those of the expression, each in exactly one
  axis: the groups are non-empty, the members of a group compare equal, and the groups come in the
  order of expressions, so members of different groups compare different. The table made of them is
  well formed and its index sends every predicate of the expression to its own axis.\<close>

theorem GetPredicates_labels_table:
  assumes "order_ok Od" "inj address"
  shows "\<exists>G w. GetPredicates Od address e = Inr G \<and> (\<Union>S \<in> set G. set S) = set (predicates_of e)
    \<and> sorted_wrt (\<lambda>S S'. \<forall>p \<in> set S. \<forall>q \<in> set S'. Relation Od p q) G
    \<and> new_ttwp Od G TRUE ''p'' 0 = Inr w \<and> GetDegree w = Inr (length G)
    \<and> (\<forall>i < length G. \<forall>p \<in> set (G ! i). PredToIndex Od w p = Inr i \<and> GetFrontPredicate w i = Inr (hd (G ! i)))"
proof -
  obtain G where G: "GetPredicates Od address e = Inr G" "grouped Od (set (predicates_of e)) G"
    using GetPredicates_grouped[OF assms] by auto
  have ax: "axes_ok Od G" by (rule grouped_axes_ok[OF assms(1) G(2)])
  obtain w where w: "new_ttwp Od G TRUE ''p'' 0 = Inr w" "ttwp_ok Od w" "predicates w = G"
    using new_ttwp_ok[OF assms(1) ax, of TRUE "''p''" 0] by auto
  have "PredToIndex Od w p = Inr i \<and> GetFrontPredicate w i = Inr (hd (G ! i))" if "i < length G" "p \<in> set (G ! i)" for i p
    using PredToIndex_eq[OF assms(1) w(2), of p i] GetFrontPredicate_ok[of Od w i] axes_ok_at[OF ax that(1)] that ax w(3) by simp
  moreover have "GetDegree w = Inr (length G)" using w(2,3) by (simp add: ttwp_ok_def GetDegree_ok)
  ultimately show ?thesis
    using G(1) w(1) G(2)[unfolded grouped_def] by (intro exI[of _ G] exI[of _ w]) simp
qed

instance BoundingRole :: countable by countable_datatype

instance Expression :: countable by countable_datatype

lemma GetPredicates_labels_table_witness:
  "\<exists>G. GetPredicates example_order to_nat (AndOperator [example_clause, NotOperator example_clause]) = Inr G
    \<and> (\<Union>S \<in> set G. set S) = {example_clause}"
  using GetPredicates_labels_table[of example_order to_nat "AndOperator [example_clause, NotOperator example_clause]"]
  by (auto simp: predicates_of.simps[of "AndOperator xs" for xs] predicates_of.simps[of "NotOperator x" for x])

end
