(* ===== verification/Predicates.thy ===== *)
theory Predicates
  imports ExpressionOrder
begin

text \<open>
  What the truth table solver asks of predicates (\<^verbatim>\<open>vn/sym/predicate_operators.cpp\<close>,
  \<^verbatim>\<open>symbol_operators.cpp\<close>): substitution of an operand, the relationships and transitivities
  between classes of predicates, and solving a predicate for a variable.

  \<^verbatim>\<open>Clone\<close> copies an object; values need no copying. A dynamic cast of another predicate is a test
  of its class. The lacing, which numbers the categories, is a parameter.
\<close>

section \<open>Substitution\<close>

text \<open>Writing through a pointer to an operand.\<close>

fun set_operand :: "Expression \<Rightarrow> nat \<Rightarrow> Expression \<Rightarrow> Expression" where
  "set_operand (IsEqualOperator a b) i w = IsEqualOperator (if i = 0 then w else a) (if i = 1 then w else b)"
| "set_operand (DepthFirstComparisonOperator c a b) i w =
     DepthFirstComparisonOperator c (if i = 0 then w else a) (if i = 1 then w else b)"
| "set_operand (IsAllDiffOperator sa) i w = IsAllDiffOperator (sa[i := w])"
| "set_operand (IsInCategoryOperator arch a) i w = IsInCategoryOperator arch (if i = 0 then w else a)"
| "set_operand (IsChildCollectionSizedOperator arch j a n) i w =
     IsChildCollectionSizedOperator arch j (if i = 0 then w else a) n"
| "set_operand (IsSimpleCompareEquivalentOperator a b) i w =
     IsSimpleCompareEquivalentOperator (if i = 0 then w else a) (if i = 1 then w else b)"
| "set_operand (IsLocalMatchOperator pat a) i w = IsLocalMatchOperator pat (if i = 0 then w else a)"
| "set_operand e i w = e"

text \<open>The position of the first operand that is equal to \<open>over\<close>.\<close>

fun find_operand :: "order_ops \<Rightarrow> Expression \<Rightarrow> nat \<Rightarrow> Expression list \<Rightarrow> nat option" where
  "find_operand Od over i [] = None"
| "find_operand Od over i (s # sop) =
     (if OrderCompare3Way Od over s = 0 then Some i else find_operand Od over (Suc i) sop)"

definition TrySubstitute :: "order_ops \<Rightarrow> Expression \<Rightarrow> Expression \<Rightarrow> Expression \<Rightarrow> Expression option" where
  "TrySubstitute Od p over w =
     (case find_operand Od over 0 (GetOperands p) of None \<Rightarrow> None | Some i \<Rightarrow> Some (set_operand p i w))"

definition IsCanSubstituteFrom :: "Expression \<Rightarrow> bool" where
  "IsCanSubstituteFrom p \<longleftrightarrow> type_id p = T_IsEqual"

section \<open>Relationships\<close>

datatype Relationship = NO_RELATIONSHIP | CONTRADICTS | IMPLIES

datatype Transitivity = NO_TRANSITIVITY | FORWARD | REVERSE | BIDIRECTIONAL

definition IsEqual_GetRelationshipWith :: "Expression \<Rightarrow> Relationship" where
  "IsEqual_GetRelationshipWith other =
     (if type_id other = T_Comparison IsGreaterOrEqual \<or> type_id other = T_Comparison IsLessOrEqual
         \<or> type_id other = T_IsSimpleCompareEquivalent
      then IMPLIES else NO_RELATIONSHIP)"

definition IsGreater_GetRelationshipWith :: "Expression \<Rightarrow> Relationship" where
  "IsGreater_GetRelationshipWith other =
     (if type_id other = T_Comparison IsGreaterOrEqual then IMPLIES
      else if type_id other = T_IsEqual \<or> type_id other = T_Comparison IsLess
         \<or> type_id other = T_Comparison IsLessOrEqual
      then CONTRADICTS else NO_RELATIONSHIP)"

definition IsLess_GetRelationshipWith :: "Expression \<Rightarrow> Relationship" where
  "IsLess_GetRelationshipWith other =
     (if type_id other = T_Comparison IsLessOrEqual then IMPLIES
      else if type_id other = T_IsEqual \<or> type_id other = T_Comparison IsGreater
         \<or> type_id other = T_Comparison IsGreaterOrEqual
      then CONTRADICTS else NO_RELATIONSHIP)"

definition IsGreaterOrEqual_GetRelationshipWith :: "Expression \<Rightarrow> Relationship" where
  "IsGreaterOrEqual_GetRelationshipWith other =
     (if type_id other = T_Comparison IsLess then CONTRADICTS else NO_RELATIONSHIP)"

definition IsLessOrEqual_GetRelationshipWith :: "Expression \<Rightarrow> Relationship" where
  "IsLessOrEqual_GetRelationshipWith other =
     (if type_id other = T_Comparison IsGreater then CONTRADICTS else NO_RELATIONSHIP)"

definition IsAllDiff_GetRelationshipWith :: "Expression \<Rightarrow> Relationship" where
  "IsAllDiff_GetRelationshipWith other =
     (if type_id other = T_IsEqual then CONTRADICTS else NO_RELATIONSHIP)"

definition IsInCategory_GetRelationshipWith :: "tree_ops \<Rightarrow> Archetype \<Rightarrow> Expression \<Rightarrow> Relationship" where
  "IsInCategory_GetRelationshipWith T arch other =
     (case other of
        IsInCategoryOperator arch' b \<Rightarrow>
          if ArchetypeIsSubcategory T arch' arch then IMPLIES else NO_RELATIONSHIP
      | _ \<Rightarrow> NO_RELATIONSHIP)"

fun comparison_GetRelationshipWith :: "Comparison \<Rightarrow> Expression \<Rightarrow> Relationship" where
  "comparison_GetRelationshipWith IsGreater = IsGreater_GetRelationshipWith"
| "comparison_GetRelationshipWith IsLess = IsLess_GetRelationshipWith"
| "comparison_GetRelationshipWith IsGreaterOrEqual = IsGreaterOrEqual_GetRelationshipWith"
| "comparison_GetRelationshipWith IsLessOrEqual = IsLessOrEqual_GetRelationshipWith"

definition GetRelationshipWith :: "tree_ops \<Rightarrow> Expression \<Rightarrow> Expression \<Rightarrow> Relationship" where
  "GetRelationshipWith T p other =
     (case p of
        IsEqualOperator a b \<Rightarrow> IsEqual_GetRelationshipWith other
      | DepthFirstComparisonOperator c a b \<Rightarrow> comparison_GetRelationshipWith c other
      | IsAllDiffOperator sa \<Rightarrow> IsAllDiff_GetRelationshipWith other
      | IsInCategoryOperator arch a \<Rightarrow> IsInCategory_GetRelationshipWith T arch other
      | _ \<Rightarrow> NO_RELATIONSHIP)"

definition IsGreater_GetTransitivityWith :: "Expression \<Rightarrow> Transitivity" where
  "IsGreater_GetTransitivityWith other =
     (if type_id other = T_Comparison IsGreaterOrEqual \<or> type_id other = T_Comparison IsGreater then FORWARD
      else if type_id other = T_Comparison IsLessOrEqual \<or> type_id other = T_Comparison IsLess then REVERSE
      else NO_TRANSITIVITY)"

definition IsLess_GetTransitivityWith :: "Expression \<Rightarrow> Transitivity" where
  "IsLess_GetTransitivityWith other =
     (if type_id other = T_Comparison IsLessOrEqual \<or> type_id other = T_Comparison IsLess then FORWARD
      else if type_id other = T_Comparison IsGreaterOrEqual \<or> type_id other = T_Comparison IsGreater then REVERSE
      else NO_TRANSITIVITY)"

definition IsGreaterOrEqual_GetTransitivityWith :: "Expression \<Rightarrow> Transitivity" where
  "IsGreaterOrEqual_GetTransitivityWith other =
     (if type_id other = T_Comparison IsGreaterOrEqual then FORWARD
      else if type_id other = T_Comparison IsLessOrEqual then REVERSE
      else NO_TRANSITIVITY)"

definition IsLessOrEqual_GetTransitivityWith :: "Expression \<Rightarrow> Transitivity" where
  "IsLessOrEqual_GetTransitivityWith other =
     (if type_id other = T_Comparison IsLessOrEqual then FORWARD
      else if type_id other = T_Comparison IsGreaterOrEqual then REVERSE
      else NO_TRANSITIVITY)"

definition IsSimpleCompareEquivalent_GetTransitivityWith :: "Expression \<Rightarrow> Transitivity" where
  "IsSimpleCompareEquivalent_GetTransitivityWith other =
     (if type_id other = T_IsSimpleCompareEquivalent then BIDIRECTIONAL else NO_TRANSITIVITY)"

fun comparison_GetTransitivityWith :: "Comparison \<Rightarrow> Expression \<Rightarrow> Transitivity" where
  "comparison_GetTransitivityWith IsGreater = IsGreater_GetTransitivityWith"
| "comparison_GetTransitivityWith IsLess = IsLess_GetTransitivityWith"
| "comparison_GetTransitivityWith IsGreaterOrEqual = IsGreaterOrEqual_GetTransitivityWith"
| "comparison_GetTransitivityWith IsLessOrEqual = IsLessOrEqual_GetTransitivityWith"

definition GetTransitivityWith :: "Expression \<Rightarrow> Expression \<Rightarrow> Transitivity" where
  "GetTransitivityWith p other =
     (case p of
        DepthFirstComparisonOperator c a b \<Rightarrow> comparison_GetTransitivityWith c other
      | IsSimpleCompareEquivalentOperator a b \<Rightarrow> IsSimpleCompareEquivalent_GetTransitivityWith other
      | _ \<Rightarrow> NO_TRANSITIVITY)"

section \<open>Solving\<close>

record SolveKit =
  GetRangeListForCategory :: "Archetype \<Rightarrow> (int \<times> int) list"

text \<open>What the operand of a symbol expression must equal for the expression to equal \<open>to_equal\<close>.\<close>

definition Child_a_to_equal :: "Expression \<Rightarrow> Expression" where
  "Child_a_to_equal to_equal = XTreeDbToSymbolOperator Parent to_equal"

definition Parent_a_to_equal :: "Expression \<Rightarrow> Expression" where
  "Parent_a_to_equal to_equal = AllChildrenOperator to_equal"

definition MySequenceSuccessor_a_to_equal :: "Expression \<Rightarrow> Expression" where
  "MySequenceSuccessor_a_to_equal to_equal = XTreeDbToSymbolOperator MySequencePredecessor to_equal"

definition MySequencePredecessor_a_to_equal :: "Expression \<Rightarrow> Expression" where
  "MySequencePredecessor_a_to_equal to_equal = XTreeDbToSymbolOperator MySequenceSuccessor to_equal"

definition AllChildren_a_to_equal :: "Expression \<Rightarrow> Expression" where
  "AllChildren_a_to_equal to_equal = XTreeDbToSymbolOperator Parent to_equal"

definition SymbolVariable_TrySolveForToEqual ::
    "order_ops \<Rightarrow> VariableId \<Rightarrow> Expression \<Rightarrow> Expression \<Rightarrow> Expression option" where
  "SymbolVariable_TrySolveForToEqual Od v target to_equal =
     (if OrderCompare3Way Od (SymbolVariable v) target \<noteq> 0 then None
      else if OrderCompare3Way Od (SymbolVariable v) to_equal = 0 then None
      else if \<not> IsIndependentOf Od to_equal target then None
      else Some to_equal)"

function TrySolveForToEqual :: "order_ops \<Rightarrow> Expression \<Rightarrow> Expression \<Rightarrow> Expression \<Rightarrow> Expression option" where
  "TrySolveForToEqual Od e target to_equal =
     (case e of
        SymbolVariable v \<Rightarrow> SymbolVariable_TrySolveForToEqual Od v target to_equal
      | ChildOperator k arch i a \<Rightarrow> TrySolveForToEqual Od a target (Child_a_to_equal to_equal)
      | XTreeDbToSymbolOperator k a \<Rightarrow>
          (if k = Parent then TrySolveForToEqual Od a target (Parent_a_to_equal to_equal)
           else if k = MySequenceSuccessor then TrySolveForToEqual Od a target (MySequenceSuccessor_a_to_equal to_equal)
           else if k = MySequencePredecessor then TrySolveForToEqual Od a target (MySequencePredecessor_a_to_equal to_equal)
           else None)
      | AllChildrenOperator a \<Rightarrow> TrySolveForToEqual Od a target (AllChildren_a_to_equal to_equal)
      | _ \<Rightarrow> None)"
  by pat_completeness auto

termination TrySolveForToEqual
  by (relation "measure (\<lambda>(Od, e, t, q). size e)") auto

declare TrySolveForToEqual.simps [simp del]

definition IsEqual_TrySolveFor :: "order_ops \<Rightarrow> Expression \<Rightarrow> Expression \<Rightarrow> Expression \<Rightarrow> Expression option result" where
  "IsEqual_TrySolveFor Od a b target =
     ForAllDistinctPairs [a, b]
       (\<lambda>first second solution.
          let solution = TrySolveForToEqual Od first target second
          in if solution \<noteq> None then LLBreak solution else Next solution)
       None"

definition IsGreater_GetRanges :: "Expression \<Rightarrow> Expression \<Rightarrow> Expression list" where
  "IsGreater_GetRanges a b = [DepthFirstRangeOperator AllGreater b, DepthFirstRangeOperator AllLess a]"

definition IsLess_GetRanges :: "Expression \<Rightarrow> Expression \<Rightarrow> Expression list" where
  "IsLess_GetRanges a b = [DepthFirstRangeOperator AllLess b, DepthFirstRangeOperator AllGreater a]"

definition IsGreaterOrEqual_GetRanges :: "Expression \<Rightarrow> Expression \<Rightarrow> Expression list" where
  "IsGreaterOrEqual_GetRanges a b =
     [DepthFirstRangeOperator AllGreaterOrEqual b, DepthFirstRangeOperator AllLessOrEqual a]"

definition IsLessOrEqual_GetRanges :: "Expression \<Rightarrow> Expression \<Rightarrow> Expression list" where
  "IsLessOrEqual_GetRanges a b =
     [DepthFirstRangeOperator AllLessOrEqual b, DepthFirstRangeOperator AllGreaterOrEqual a]"

fun GetRanges :: "Comparison \<Rightarrow> Expression \<Rightarrow> Expression \<Rightarrow> Expression list" where
  "GetRanges IsGreater = IsGreater_GetRanges"
| "GetRanges IsLess = IsLess_GetRanges"
| "GetRanges IsGreaterOrEqual = IsGreaterOrEqual_GetRanges"
| "GetRanges IsLessOrEqual = IsLessOrEqual_GetRanges"

text \<open>The first solution that \<open>solve\<close> finds.\<close>

fun first_solution :: "('a \<Rightarrow> Expression option) \<Rightarrow> 'a list \<Rightarrow> Expression option" where
  "first_solution solve [] = None"
| "first_solution solve (p # ps) = (case solve p of Some s \<Rightarrow> Some s | None \<Rightarrow> first_solution solve ps)"

definition Comparison_TrySolveFor ::
    "order_ops \<Rightarrow> Comparison \<Rightarrow> Expression \<Rightarrow> Expression \<Rightarrow> Expression \<Rightarrow> Expression option result" where
  "Comparison_TrySolveFor Od c a b target =
     bindE (Zip [a, b] (GetRanges c a b)) (\<lambda>ps.
       Inr (first_solution (\<lambda>(e, range). TrySolveForToEqual Od e target range) ps))"

fun all_diff_loop ::
    "order_ops \<Rightarrow> Expression \<Rightarrow> Expression list \<Rightarrow> Expression list \<Rightarrow> Expression option" where
  "all_diff_loop Od target [] e_others = None"
| "all_diff_loop Od target (e0 # sa) e_others =
     (let e_others = tl e_others;
          r = ComplementOperator (UnionOperator e_others)
      in case TrySolveForToEqual Od e0 target r of
           Some solution \<Rightarrow> Some solution
         | None \<Rightarrow> all_diff_loop Od target sa (e_others @ [e0]))"

definition IsAllDiff_TrySolveFor :: "order_ops \<Rightarrow> Expression list \<Rightarrow> Expression \<Rightarrow> Expression option result" where
  "IsAllDiff_TrySolveFor Od sa target = Inr (all_diff_loop Od target sa sa)"

definition category_bounds :: "tree_ops \<Rightarrow> (int \<times> int) list \<Rightarrow> (Expression \<times> Expression) list" where
  "category_bounds T int_range_list =
     map (\<lambda>int_range. (SymbolConstant (CreateFrom T (MinimusNode (fst int_range))),
                       SymbolConstant (CreateFrom T (MinimusNode (snd int_range))))) int_range_list"

definition IsInCategory_TrySolveFor ::
    "order_ops \<Rightarrow> tree_ops \<Rightarrow> SolveKit \<Rightarrow> Archetype \<Rightarrow> Expression \<Rightarrow> Expression \<Rightarrow> Expression option result" where
  "IsInCategory_TrySolveFor Od T kit arch a target =
     (let r = AllInCategoryRangeOperator (category_bounds T (GetRangeListForCategory kit arch)) True False
      in Inr (TrySolveForToEqual Od a target r))"

text \<open>The solution that the loop finds is not returned.\<close>

definition IsSimpleCompareEquivalent_TrySolveFor ::
    "order_ops \<Rightarrow> Expression \<Rightarrow> Expression \<Rightarrow> Expression \<Rightarrow> Expression option result" where
  "IsSimpleCompareEquivalent_TrySolveFor Od a b target =
     bindE (ForAllDistinctPairs [a, b]
       (\<lambda>first second solution.
          let r = AllInSimpleCompareRangeOperator second MINIMUS True second MAXIMUS True;
              solution = TrySolveForToEqual Od first target r
          in if solution \<noteq> None then LLBreak solution else Next solution)
       (None :: Expression option)) (\<lambda>solution. Inr None)"

definition TrySolveFor ::
    "order_ops \<Rightarrow> tree_ops \<Rightarrow> SolveKit \<Rightarrow> Expression \<Rightarrow> Expression \<Rightarrow> Expression option result" where
  "TrySolveFor Od T kit p target =
     (case p of
        IsEqualOperator a b \<Rightarrow> IsEqual_TrySolveFor Od a b target
      | DepthFirstComparisonOperator c a b \<Rightarrow> Comparison_TrySolveFor Od c a b target
      | IsAllDiffOperator sa \<Rightarrow> IsAllDiff_TrySolveFor Od sa target
      | IsInCategoryOperator arch a \<Rightarrow> IsInCategory_TrySolveFor Od T kit arch a target
      | IsSimpleCompareEquivalentOperator a b \<Rightarrow> IsSimpleCompareEquivalent_TrySolveFor Od a b target
      | _ \<Rightarrow> Inr None)"

section \<open>What a predicate says of its operands\<close>

text \<open>The links that the results of operands stand for, when all are defined and unique.\<close>

fun result_link :: "EvalResult \<Rightarrow> XValue option" where
  "result_link (Simple r) =
     (if IsDefinedAndUnique r then (case GetOnlyXLink r of Inr x \<Rightarrow> Some x | Inl _ \<Rightarrow> None) else None)"
| "result_link _ = None"

definition linked :: "tree_ops \<Rightarrow> EvalKit \<Rightarrow> Expression \<Rightarrow> XValue \<Rightarrow> bool" where
  "linked T kit e x \<longleftrightarrow> (\<exists>r. EvaluateSymbol T kit e = Inr r \<and> result_link r = Some x)"

text \<open>What a predicate says of the links of its operands.\<close>

fun says :: "tree_ops \<Rightarrow> x_tree_db option \<Rightarrow> Expression \<Rightarrow> XValue list \<Rightarrow> bool result" where
  "says T pdb (IsEqualOperator a b) xs = guardE (length xs = 2) (Inr (hd xs = last xs))"
| "says T pdb (DepthFirstComparisonOperator c a b) xs =
     guardE (length xs = 2)
       (bindE (deref pdb) (\<lambda>db. Inr (EvalBoolFromDiff c (DepthFirst_Compare3Way db (hd xs) (last xs)))))"
| "says T pdb (IsAllDiffOperator sa) xs = Inr (distinct xs)"
| "says T pdb (IsInCategoryOperator arch a) xs =
     guardE (length xs = 1) (Inr (IsSubcategory T arch (GetChildTreePtr T (hd xs))))"
| "says T pdb (IsChildCollectionSizedOperator arch i a n) xs =
     guardE (length xs = 1)
       (let node = GetChildTreePtr T (hd xs) in
        if \<not> IsSubcategory T arch node then Inr False
        else (let items = Itemise T arch node in
          guardE (i < length items)
            (case items ! i of CollectionItem ys \<Rightarrow> Inr (int (length ys) = n) | _ \<Rightarrow> Inl AssertFail)))"
| "says T pdb (IsSimpleCompareEquivalentOperator a b) xs =
     guardE (length xs = 2) (Inr (simple_compare T (GetChildTreePtr T (hd xs)) (GetChildTreePtr T (last xs)) = 0))"
| "says T pdb (IsLocalMatchOperator pat a) xs =
     guardE (length xs = 1) (Inr (IsLocalMatch T pat (GetChildTreePtr T (hd xs))))"
| "says T pdb e xs = Inl AssertFail"

lemma result_link_Some:
  "result_link r = Some x \<Longrightarrow> Eval_IsDefinedAndUnique r = Inr True \<and> Eval_GetOnlyXLink r = Inr x"
  by (cases r) (auto split: if_splits sum.splits)

lemma all_unique_links: "list_all2 (\<lambda>r x. result_link r = Some x) rs xs \<Longrightarrow> all_unique rs = Inr True"
  by (induction rule: list_all2_induct) (auto dest: result_link_Some)

lemma all_diff_pairs:
  "catch_break (run_loop (\<lambda>(ra, rb) m. case same_xlink ra rb of
        Inl e \<Rightarrow> Fail e | Inr True \<Rightarrow> LLBreak False | Inr False \<Rightarrow> Next m) ps True)
     = Inr (\<forall>(a, b) \<in> set qs. a \<noteq> b)"
  if "list_all2 (\<lambda>(ra, rb) (a, b). result_link ra = Some a \<and> result_link rb = Some b) ps qs"
  using that
proof (induction rule: list_all2_induct)
  case (Cons p ps q qs)
  obtain ra rb a b where pq: "p = (ra, rb)" "q = (a, b)" by (cases p; cases q)
  then have "same_xlink ra rb = Inr (a = b)"
    using Cons(1) by (auto simp: same_xlink_def dest!: result_link_Some)
  with Cons pq show ?case by (cases "a = b") simp_all
qed simp

lemma unordered_pairs_all2:
  assumes "list_all2 R rs xs"
  shows "list_all2 (\<lambda>(r, q) (x, y). R r x \<and> R q y) (unordered_pairs rs) (unordered_pairs xs)"
proof -
  have len: "length rs = length xs" using assms by (rule list_all2_lengthD)
  have nth: "R (rs ! i) (xs ! i)" if "i < length xs" for i using list_all2_nthD2[OF assms that] .
  have "list_all2 (\<lambda>(r, q) (x, y). R r x \<and> R q y)
      (concat (map (\<lambda>i. map (\<lambda>j. (rs ! j, rs ! i)) [Suc i..<length xs]) is))
      (concat (map (\<lambda>i. map (\<lambda>j. (xs ! j, xs ! i)) [Suc i..<length xs]) is))" if "\<forall>i \<in> set is. i < length xs" for "is"
    using that
  proof (induction "is")
    case (Cons i "is")
    have "list_all2 (\<lambda>(r, q) (x, y). R r x \<and> R q y)
        (map (\<lambda>j. (rs ! j, rs ! i)) [Suc i..<length xs]) (map (\<lambda>j. (xs ! j, xs ! i)) [Suc i..<length xs])"
      using Cons.prems nth by (auto simp: list_all2_conv_all_nth)
    then show ?case using Cons by (auto intro: list_all2_appendI)
  qed simp
  from this[of "[0..<length xs]"] show ?thesis by (simp add: unordered_pairs_def len)
qed

lemma unordered_pairs_distinct: "(\<forall>(a, b) \<in> set (unordered_pairs xs). a \<noteq> b) \<longleftrightarrow> distinct xs"
proof -
  have "(\<forall>(a, b) \<in> set (unordered_pairs xs). a \<noteq> b) \<longleftrightarrow> (\<forall>i < length xs. \<forall>j < length xs. i < j \<longrightarrow> xs ! j \<noteq> xs ! i)"
    by (fastforce simp: unordered_pairs_def)
  also have "\<dots> \<longleftrightarrow> distinct xs"
    unfolding distinct_conv_nth by (intro iffI allI impI) (metis linorder_less_linear less_irrefl)+
  finally show ?thesis .
qed

text \<open>A predicate combines results that are all defined and unique into what it says of their links.\<close>

lemma Predicate_combine_links:
  assumes "list_all2 (\<lambda>r x. result_link r = Some x) rs xs" "IsPredicate p"
    "length rs = length (GetOperands p)"
  shows "Predicate_combine T pdb p rs = bindE (says T pdb p xs) (\<lambda>b. Inr (BooleanResult b))"
proof -
  have len: "length rs = length xs" using assms(1) by (rule list_all2_lengthD)
  have au: "all_unique rs = Inr True" by (rule all_unique_links[OF assms(1)])
  have ends: "result_link (hd rs) = Some (hd xs)" "result_link (last rs) = Some (last xs)" if "rs \<noteq> []"
  proof -
    have "xs \<noteq> []" using that len by auto
    with that len list_all2_nthD2[OF assms(1), of 0] list_all2_nthD2[OF assms(1), of "length xs - 1"]
    show "result_link (hd rs) = Some (hd xs)" "result_link (last rs) = Some (last xs)"
      by (simp_all add: hd_conv_nth last_conv_nth)
  qed
  have x: "Eval_GetOnlyXLink (hd rs) = Inr (hd xs)" "Eval_GetOnlyXLink (last rs) = Inr (last xs)" if "rs \<noteq> []"
    using ends[OF that] by (auto dest: result_link_Some)
  show ?thesis
  proof (cases p)
    case (IsAllDiffOperator sa)
    have "ForAllUnorderedPairs rs (\<lambda>ra rb m. case same_xlink ra rb of
        Inl e \<Rightarrow> Fail e | Inr True \<Rightarrow> LLBreak False | Inr False \<Rightarrow> Next m) True = Inr (distinct xs)"
      unfolding ForAllUnorderedPairs_eq
      using all_diff_pairs[OF unordered_pairs_all2[OF assms(1)]] by (simp add: unordered_pairs_distinct)
    with IsAllDiffOperator au show ?thesis
      by (simp add: IsAllDiffOperator_Evaluate_def if_all_unique_def)
  next
    case (IsEqualOperator a b)
    with assms(3) have "rs \<noteq> []" by auto
    with IsEqualOperator au x assms(3) len show ?thesis
      by (simp add: IsEqualOperator_Evaluate_def if_all_unique_def same_xlink_def)
  next
    case (DepthFirstComparisonOperator c a b)
    with assms(3) have "rs \<noteq> []" by auto
    with DepthFirstComparisonOperator au x assms(3) len show ?thesis
      by (simp add: DepthFirstComparison_Evaluate_def if_all_unique_def bindE_assoc)
  next
    case (IsInCategoryOperator arch a)
    with assms(3) have "rs \<noteq> []" by auto
    with IsInCategoryOperator au x assms(3) len show ?thesis
      by (simp add: IsInCategoryOperator_Evaluate_def if_all_unique_def)
  next
    case (IsChildCollectionSizedOperator arch i a n)
    with assms(3) have "rs \<noteq> []" by auto
    with IsChildCollectionSizedOperator au x assms(3) len show ?thesis
      by (simp add: IsChildCollectionSizedOperator_Evaluate_def if_all_unique_def)
  next
    case (IsSimpleCompareEquivalentOperator a b)
    with assms(3) have "rs \<noteq> []" by auto
    with IsSimpleCompareEquivalentOperator au x assms(3) len show ?thesis
      by (simp add: IsSimpleCompareEquivalentOperator_Evaluate_def if_all_unique_def)
  next
    case (IsLocalMatchOperator pat a)
    with assms(3) have "rs \<noteq> []" by auto
    with IsLocalMatchOperator au x assms(3) len show ?thesis
      by (simp add: IsLocalMatchOperator_Evaluate_def if_all_unique_def)
  qed (use assms(2) in simp_all)
qed

definition unforced :: "EvalKit \<Rightarrow> bool" where
  "unforced kit \<longleftrightarrow> (\<forall>e. force_expression kit e = None)"

lemma mapE_all2: "mapE f xs = Inr ys \<longleftrightarrow> list_all2 (\<lambda>x y. f x = Inr y) xs ys"
  by (induction xs arbitrary: ys) (auto simp: list_all2_Cons1)

lemma predicate_of_links:
  assumes "unforced kit" "IsPredicate p" "list_all2 (linked T kit) (GetOperands p) xs"
  shows "EvaluateBoolean T kit p = bindE (says T (kit_db kit) p xs) (\<lambda>b. Inr (BooleanResult b))"
proof -
  have "linked T kit = (\<lambda>e r. EvaluateSymbol T kit e = Inr r) OO (\<lambda>r x. result_link r = Some x)"
    by (auto simp: linked_def fun_eq_iff OO_def)
  then obtain rs where rs: "list_all2 (\<lambda>e r. EvaluateSymbol T kit e = Inr r) (GetOperands p) rs"
    "list_all2 (\<lambda>r x. result_link r = Some x) rs xs"
    using assms(3) by (auto simp: list.rel_compp)
  then have "length rs = length (GetOperands p)" by (auto dest: list_all2_lengthD)
  from Predicate_combine_links[OF rs(2) assms(2) this] show ?thesis
    using assms(1,2) rs(1) by (simp add: EvaluateBoolean_predicate unforced_def mapE_all2[symmetric])
qed

text \<open>A true predicate has operands with links, and says what it says of them.\<close>

lemma all_unique_iff:
  "all_unique rs = Inr True \<longleftrightarrow> (\<forall>r \<in> set rs. Eval_IsDefinedAndUnique r = Inr True)"
  by (induction rs) (auto split: if_splits)

lemma unordered_pairs_cover:
  assumes "2 \<le> length xs" "x \<in> set xs"
  shows "\<exists>y. (x, y) \<in> set (unordered_pairs xs) \<or> (y, x) \<in> set (unordered_pairs xs)"
proof -
  obtain i where i: "i < length xs" "x = xs ! i" using assms(2) by (auto simp: in_set_conv_nth)
  have pair: "(xs ! j, xs ! k) \<in> set (unordered_pairs xs)" if "k < j" "j < length xs" for j k
    using that by (force simp: unordered_pairs_def)
  show ?thesis
  proof (cases i)
    case 0
    with i assms(1) pair[of 0 1] show ?thesis by auto
  next
    case (Suc k)
    with i pair[of 0 i] show ?thesis by auto
  qed
qed

lemma all_diff_true:
  "catch_break (run_loop (\<lambda>(ra, rb) m. case same_xlink ra rb of
        Inl e \<Rightarrow> Fail e | Inr True \<Rightarrow> LLBreak False | Inr False \<Rightarrow> Next m) ps True) = Inr True
   \<Longrightarrow> \<forall>(ra, rb) \<in> set ps. \<exists>b. same_xlink ra rb = Inr b"
proof (induction ps)
  case (Cons p ps)
  obtain ra rb where p: "p = (ra, rb)" by (cases p)
  with Cons show ?case by (cases "same_xlink ra rb") (auto split: bool.splits)
qed simp

lemma true_operands_unique:
  assumes "Predicate_combine T pdb p rs = Inr (BooleanResult True)" "IsPredicate p" "well_typed p"
    "length rs = length (GetOperands p)" "r \<in> set rs"
  shows "\<exists>x. result_link r = Some x"
proof -
  have c: "\<exists>q. if_all_unique rs q = Inr (BooleanResult True)"
    using assms(1,2)
    by (cases p) (auto simp: IsEqualOperator_Evaluate_def DepthFirstComparison_Evaluate_def IsAllDiffOperator_Evaluate_def
        IsInCategoryOperator_Evaluate_def IsChildCollectionSizedOperator_Evaluate_def
        IsSimpleCompareEquivalentOperator_Evaluate_def IsLocalMatchOperator_Evaluate_def)
  then have "all_unique rs = Inr True" by (auto simp: if_all_unique_def split: if_splits)
  then have u: "Eval_IsDefinedAndUnique r = Inr True" and au: "all_unique rs = Inr True"
    using assms(5) by (simp_all add: all_unique_iff)
  have two: "r = hd rs \<or> r = last rs" if "length rs = 2"
    using that assms(5) by (cases rs rule: list.exhaust; cases "tl rs"; auto)
  have one: "r = hd rs" if "length rs = 1"
    using that assms(5) by (cases rs rule: list.exhaust; auto)
  have "\<exists>x. Eval_GetOnlyXLink r = Inr x"
  proof (cases p)
    case (IsAllDiffOperator sa)
    then have l: "2 \<le> length rs" using assms(3,4) well_typed.simps[of p] by simp
    have "ForAllUnorderedPairs rs (\<lambda>ra rb m. case same_xlink ra rb of
        Inl e \<Rightarrow> Fail e | Inr True \<Rightarrow> LLBreak False | Inr False \<Rightarrow> Next m) True = Inr True"
      using assms(1) IsAllDiffOperator au
      by (auto simp: IsAllDiffOperator_Evaluate_def if_all_unique_def)
    then have "\<forall>(ra, rb) \<in> set (unordered_pairs rs). \<exists>b. same_xlink ra rb = Inr b"
      by (intro all_diff_true) (simp add: ForAllUnorderedPairs_eq)
    with unordered_pairs_cover[OF l assms(5)] show ?thesis by (fastforce simp: same_xlink_def)
  qed (use assms(1,2,4) au two one in \<open>auto simp: if_all_unique_def same_xlink_def IsEqualOperator_Evaluate_def
      DepthFirstComparison_Evaluate_def IsInCategoryOperator_Evaluate_def IsChildCollectionSizedOperator_Evaluate_def
      IsSimpleCompareEquivalentOperator_Evaluate_def IsLocalMatchOperator_Evaluate_def\<close>)
  with u show ?thesis by (cases r) auto
qed

lemma links_of_true:
  assumes "unforced kit" "IsPredicate p" "well_typed p" "EvaluateBoolean T kit p = Inr (BooleanResult True)"
  obtains xs where "list_all2 (linked T kit) (GetOperands p) xs" "says T (kit_db kit) p xs = Inr True"
proof -
  obtain rs where rs: "mapE (EvaluateSymbol T kit) (GetOperands p) = Inr rs"
    "Predicate_combine T (kit_db kit) p rs = Inr (BooleanResult True)"
    using assms by (auto simp: EvaluateBoolean_predicate unforced_def)
  have l: "length rs = length (GetOperands p)" using mapE_eq_Inr_length[OF rs(1)] .
  let ?xs = "map (\<lambda>r. the (result_link r)) rs"
  have all: "list_all2 (\<lambda>r x. result_link r = Some x) rs ?xs"
    using true_operands_unique[OF rs(2) assms(2,3) l] by (fastforce simp: list_all2_conv_all_nth)
  have "list_all2 (linked T kit) (GetOperands p) ?xs"
    using rs(1) all l unfolding mapE_all2 linked_def by (fastforce simp: list_all2_conv_all_nth)
  moreover have "says T (kit_db kit) p ?xs = Inr True"
    using Predicate_combine_links[OF all assms(2) l, of T "kit_db kit"] rs(2)
    by (cases "says T (kit_db kit) p ?xs") simp_all
  ultimately show ?thesis by (rule that)
qed

end
