(* ===== verification/Derivation.thy ===== *)
theory Derivation
  imports Predicates
begin

text \<open>
  What the truth table solver derives from a pair of predicates (\<^verbatim>\<open>TryDeriveRelationship\<close>,
  \<^verbatim>\<open>TryDerivePredicate\<close> and \<^verbatim>\<open>Substitute\<close> of \<^verbatim>\<open>vn/sym/sym_solver.cpp\<close>), and that these
  derivations are sound for predicates without repeated operands.
\<close>

section \<open>Derivations\<close>

fun as_variable :: "Expression \<Rightarrow> VariableId option" where
  "as_variable (SymbolVariable v) = Some v"
| "as_variable _ = None"

definition check_same_operand :: "order_ops \<Rightarrow> Expression list \<Rightarrow> Expression list \<Rightarrow> 'a result \<Rightarrow> 'a result" where
  "check_same_operand Od ops_i ops_j r =
     (if length ops_i = 1 \<and> length ops_j = 1
      then guardE (OrderCompare3Way Od (hd ops_i) (hd ops_j) = 0)
        (case as_variable (hd ops_i) of
           Some vi \<Rightarrow> (case as_variable (hd ops_j) of Some vj \<Rightarrow> guardE (vi = vj) r | None \<Rightarrow> r)
         | None \<Rightarrow> r)
      else r)"

definition TryDeriveRelationship ::
    "order_ops \<Rightarrow> tree_ops \<Rightarrow> Expression \<Rightarrow> Expression \<Rightarrow> Relationship result" where
  "TryDeriveRelationship Od T pi pj =
     guardE (OrderCompare3Way Od pi pj \<noteq> 0)
      (let ops_i = GetOperands pi; ops_j = GetOperands pj in
       if IsCommutative pi \<or> IsCommutative pj
       then (let set_ops_i = ToSet (Relation Od) ops_i;
                 set_ops_j = ToSet (Relation Od) ops_j;
                 set_ops_common = IntersectionOf (Relation Od) set_ops_i set_ops_j
             in if length set_ops_common < min (length set_ops_i) (length set_ops_j)
                then Inr NO_RELATIONSHIP else Inr (GetRelationshipWith T pi pj))
       else if LexicographicalCompare (Relation Od) ops_i ops_j \<noteq> 0 then Inr NO_RELATIONSHIP
       else check_same_operand Od ops_i ops_j (Inr (GetRelationshipWith T pi pj)))"

definition Substitute :: "order_ops \<Rightarrow> Expression \<Rightarrow> Expression \<Rightarrow> Expression \<Rightarrow> Expression option result" where
  "Substitute Od pred over w =
     (case TrySubstitute Od pred over w of None \<Rightarrow> Inl AssertFail | Some new_pred \<Rightarrow> Inr (Some new_pred))"

definition TryDerivePredicate :: "order_ops \<Rightarrow> Expression \<Rightarrow> Expression \<Rightarrow> Expression option result" where
  "TryDerivePredicate Od pi pj =
     guardE (OrderCompare3Way Od pi pj \<noteq> 0)
      (if IsCanSubstituteFrom pi
       then bindE (ToPair (GetOperands pi)) (\<lambda>(first_i, second_i).
              case TrySubstitute Od pj first_i second_i of
                Some pk \<Rightarrow> Inr (Some pk)
              | None \<Rightarrow> Inr (TrySubstitute Od pj second_i first_i))
       else
        (let tij = GetTransitivityWith pi pj;
             forward = (tij = FORWARD \<or> tij = BIDIRECTIONAL);
             reverse = (tij = REVERSE \<or> tij = BIDIRECTIONAL)
         in if tij \<noteq> NO_TRANSITIVITY
            then bindE (ToPair (GetOperands pi)) (\<lambda>(first_i, second_i).
                 bindE (ToPair (GetOperands pj)) (\<lambda>(first_j, second_j).
                   if forward \<and> OrderCompare3Way Od second_i first_j = 0
                   then Substitute Od pi second_i second_j
                   else if forward \<and> OrderCompare3Way Od first_i second_j = 0
                   then Substitute Od pi first_i first_j
                   else if reverse \<and> OrderCompare3Way Od second_i second_j = 0
                   then Substitute Od pi second_i first_j
                   else if reverse \<and> OrderCompare3Way Od first_i first_j = 0
                   then Substitute Od pi first_i second_j
                   else Inr None))
            else Inr None))"

section \<open>What predicates hold\<close>

definition holds :: "tree_ops \<Rightarrow> EvalKit \<Rightarrow> Expression \<Rightarrow> bool" where
  "holds T kit p \<longleftrightarrow> (\<exists>xs. list_all2 (linked T kit) (GetOperands p) xs \<and> says T (kit_db kit) p xs = Inr True)"

lemma holds_iff:
  assumes "unforced kit" "IsPredicate p" "well_typed p" "EvaluateBoolean T kit p = Inr (BooleanResult b)"
  shows "b = holds T kit p"
proof
  assume b
  with links_of_true[OF assms(1-3)] assms(4) show "holds T kit p" unfolding holds_def by (metis (full_types))
next
  assume "holds T kit p"
  then obtain xs where "list_all2 (linked T kit) (GetOperands p) xs" "says T (kit_db kit) p xs = Inr True"
    by (auto simp: holds_def)
  with predicate_of_links[OF assms(1,2)] assms(4) show b by simp
qed

lemma linked_unique: "linked T kit e x \<Longrightarrow> linked T kit e y \<Longrightarrow> x = y"
  by (auto simp: linked_def)

lemma linked_iff: "linked T kit e x \<Longrightarrow> linked T kit e y \<longleftrightarrow> y = x"
  using linked_unique by blast

definition pred_ok :: "Expression \<Rightarrow> bool" where
  "pred_ok p \<longleftrightarrow> IsPredicate p \<and> well_typed p \<and> list_all plain (GetOperands p) \<and> distinct (GetOperands p)"

text \<open>What the solver relies on: the comparisons of the tree and its database are three-way comparisons
  and categories are transitive.\<close>

definition tree_laws :: "tree_ops \<Rightarrow> x_tree_db option \<Rightarrow> bool" where
  "tree_laws T pdb \<longleftrightarrow> three_way (simple_compare T)
     \<and> (\<exists>db. pdb = Some db \<and> three_way (DepthFirst_Compare3Way db))
     \<and> (\<forall>a b n. ArchetypeIsSubcategory T a b \<longrightarrow> IsSubcategory T b n \<longrightarrow> IsSubcategory T a n)"

lemma list_all2_two: "(\<exists>xs. list_all2 R [a, b] xs \<and> P xs) \<longleftrightarrow> (\<exists>x y. R a x \<and> R b y \<and> P [x, y])"
  by (auto simp: list_all2_Cons1)

lemma list_all2_one: "(\<exists>xs. list_all2 R [a] xs \<and> P xs) \<longleftrightarrow> (\<exists>x. R a x \<and> P [x])"
  by (auto simp: list_all2_Cons1)

lemma holds_simps:
  assumes "tree_laws T (kit_db kit)"
  shows "holds T kit (IsEqualOperator a b) \<longleftrightarrow> (\<exists>x. linked T kit a x \<and> linked T kit b x)"
    "holds T kit (DepthFirstComparisonOperator c a b) \<longleftrightarrow>
       (\<exists>x y. linked T kit a x \<and> linked T kit b y
          \<and> EvalBoolFromDiff c (DepthFirst_Compare3Way (the (kit_db kit)) x y))"
    "holds T kit (IsSimpleCompareEquivalentOperator a b) \<longleftrightarrow>
       (\<exists>x y. linked T kit a x \<and> linked T kit b y \<and> simple_compare T (GetChildTreePtr T x) (GetChildTreePtr T y) = 0)"
    "holds T kit (IsInCategoryOperator arch a) \<longleftrightarrow>
       (\<exists>x. linked T kit a x \<and> IsSubcategory T arch (GetChildTreePtr T x))"
    "holds T kit (IsAllDiffOperator sa) \<longleftrightarrow> (\<exists>xs. list_all2 (linked T kit) sa xs \<and> distinct xs)"
proof -
  obtain db where db: "kit_db kit = Some db" using assms by (auto simp: tree_laws_def)
  show "holds T kit (IsEqualOperator a b) \<longleftrightarrow> (\<exists>x. linked T kit a x \<and> linked T kit b x)"
    by (auto simp: holds_def list_all2_two)
  show "holds T kit (DepthFirstComparisonOperator c a b) \<longleftrightarrow>
       (\<exists>x y. linked T kit a x \<and> linked T kit b y
          \<and> EvalBoolFromDiff c (DepthFirst_Compare3Way (the (kit_db kit)) x y))"
    by (auto simp: holds_def list_all2_two db deref_def)
  show "holds T kit (IsSimpleCompareEquivalentOperator a b) \<longleftrightarrow>
       (\<exists>x y. linked T kit a x \<and> linked T kit b y \<and> simple_compare T (GetChildTreePtr T x) (GetChildTreePtr T y) = 0)"
    by (auto simp: holds_def list_all2_two)
  show "holds T kit (IsInCategoryOperator arch a) \<longleftrightarrow>
       (\<exists>x. linked T kit a x \<and> IsSubcategory T arch (GetChildTreePtr T x))"
    by (auto simp: holds_def list_all2_one)
  show "holds T kit (IsAllDiffOperator sa) \<longleftrightarrow> (\<exists>xs. list_all2 (linked T kit) sa xs \<and> distinct xs)"
    by (auto simp: holds_def)
qed

text \<open>Two operands of an \<open>AllDiff\<close> that holds have different links.\<close>

lemma AllDiff_operands:
  assumes "list_all2 (linked T kit) sa xs" "distinct xs" "a \<in> set sa" "b \<in> set sa" "a \<noteq> b"
    "linked T kit a x" "linked T kit b y"
  shows "x \<noteq> y"
proof -
  obtain i j where ij: "i < length sa" "j < length sa" "a = sa ! i" "b = sa ! j"
    using assms(3,4) by (auto simp: in_set_conv_nth)
  have len: "length sa = length xs" using assms(1) by (rule list_all2_lengthD)
  have "linked T kit a (xs ! i)" "linked T kit b (xs ! j)"
    using list_all2_nthD[OF assms(1)] ij by simp_all
  then have "x = xs ! i" "y = xs ! j" using assms(6,7) linked_unique by metis+
  moreover have "i \<noteq> j" using assms(5) ij by auto
  ultimately show ?thesis using assms(2) ij len by (simp add: nth_eq_iff_index_eq)
qed

section \<open>Soundness of relationships\<close>

lemma common_operands:
  assumes "nodes_distinct Od" "list_all plain xs" "list_all plain ys"
    "\<not> length (IntersectionOf (Relation Od) (ToSet (Relation Od) xs) (ToSet (Relation Od) ys))
        < min (length (ToSet (Relation Od) xs)) (length (ToSet (Relation Od) ys))"
  shows "set xs \<subseteq> set ys \<or> set ys \<subseteq> set xs"
proof -
  have ok: "order_ok Od" using assms(1) by (simp add: nodes_distinct_def)
  note swo = Relation_order[OF ok]
  let ?X = "ToSet (Relation Od) xs" and ?Y = "ToSet (Relation Od) ys"
  note sX = strict_weak_order.sorted_insert_range[OF swo, of xs]
    and sY = strict_weak_order.sorted_insert_range[OF swo, of ys]
  have X: "set ?X = set xs" and Y: "set ?Y = set ys"
    using ToSet_plain[OF assms(1)] assms(2,3) by simp_all
  have dist: "distinct zs" if "sorted_wrt (Relation Od) zs" for zs
    using that strict_weak_order.irrefl[OF swo] by (induction zs) auto
  let ?C = "set_intersection (Relation Od) ?X ?Y"
  have C: "IntersectionOf (Relation Od) ?X ?Y = ?C"
    by (rule strict_weak_order.helpers_eq(2)[OF swo sX sY])
  have cov: "covers (Relation Od) ?Y z \<longleftrightarrow> z \<in> set ys" if "plain z" for z
    using plain_equal[OF assms(1)] that assms(3) Y strict_weak_order.covers_self[OF swo, of z ?Y]
    by (auto simp: covers_def Compare3Way_zero[OF ok, symmetric] list_all_iff)
  have setC: "set ?C = set xs \<inter> set ys"
    using strict_weak_order.mem_set_intersection[OF swo sX sY] cov X assms(2) by (auto simp: list_all_iff)
  have "sorted_wrt (Relation Od) ?C" using strict_weak_order.sorted_set_intersection[OF swo sX sY] by blast
  then have "length ?C = card (set xs \<inter> set ys)"
    using dist[of ?C] setC distinct_card[of ?C] by simp
  moreover have "length ?X = card (set xs)" "length ?Y = card (set ys)"
    using dist[OF sX] dist[OF sY] X Y distinct_card[of ?X] distinct_card[of ?Y] by simp_all
  ultimately have "card (set xs) \<le> card (set xs \<inter> set ys) \<or> card (set ys) \<le> card (set xs \<inter> set ys)"
    using assms(4) C by auto
  then show ?thesis
    by (metis Int_lower1 Int_lower2 List.finite_set card_seteq inf.order_iff)
qed

lemma same_operands:
  assumes "nodes_distinct Od" "list_all plain xs" "LexicographicalCompare (Relation Od) xs ys = 0"
  shows "xs = ys"
proof -
  have ok: "order_ok Od" using assms(1) by (simp add: nodes_distinct_def)
  have "list_all2 (equivalent (Relation Od)) xs ys"
    using assms(3) strict_weak_order.LexicographicalCompare_zero[OF Relation_order[OF ok]] by simp
  then have "list_all2 (=) xs ys"
    using plain_equal[OF assms(1)] assms(2)
    by (auto simp: list_all2_conv_all_nth Compare3Way_zero[OF ok, symmetric] list_all_length)
  then show ?thesis by (simp add: list_all2_eq)
qed

text \<open>The operands of the pairs that the solver asks about.\<close>

definition operands_match :: "Expression \<Rightarrow> Expression \<Rightarrow> bool" where
  "operands_match pi pj \<longleftrightarrow>
     (if IsCommutative pi \<or> IsCommutative pj
      then set (GetOperands pi) \<subseteq> set (GetOperands pj) \<or> set (GetOperands pj) \<subseteq> set (GetOperands pi)
      else GetOperands pi = GetOperands pj)"

lemma TryDeriveRelationship_match:
  assumes "nodes_distinct Od" "pred_ok pi" "pred_ok pj" "TryDeriveRelationship Od T pi pj = Inr r"
    "r \<noteq> NO_RELATIONSHIP"
  shows "r = GetRelationshipWith T pi pj \<and> operands_match pi pj"
proof -
  have plain: "list_all plain (GetOperands pi)" "list_all plain (GetOperands pj)"
    using assms(2,3) by (simp_all add: pred_ok_def)
  show ?thesis
    using assms(4,5) common_operands[OF assms(1) plain] same_operands[OF assms(1) plain(1), of "GetOperands pj"]
    by (auto simp: TryDeriveRelationship_def operands_match_def check_same_operand_def Let_def
        split: if_splits option.splits)
qed

lemma type_id_shapes:
  "type_id p = T_IsEqual \<longleftrightarrow> (\<exists>a b. p = IsEqualOperator a b)"
  "type_id p = T_Comparison c \<longleftrightarrow> (\<exists>a b. p = DepthFirstComparisonOperator c a b)"
  "type_id p = T_IsSimpleCompareEquivalent \<longleftrightarrow> (\<exists>a b. p = IsSimpleCompareEquivalentOperator a b)"
  by (cases p; auto)+

lemmas relationship_defs = GetRelationshipWith_def IsEqual_GetRelationshipWith_def IsGreater_GetRelationshipWith_def
  IsLess_GetRelationshipWith_def IsGreaterOrEqual_GetRelationshipWith_def IsLessOrEqual_GetRelationshipWith_def
  IsAllDiff_GetRelationshipWith_def IsInCategory_GetRelationshipWith_def

lemma two_operands:
  "a \<noteq> b \<Longrightarrow> c \<noteq> d \<Longrightarrow> {a, b} \<subseteq> {c, d} \<or> {c, d} \<subseteq> {a, b} \<Longrightarrow> c = a \<and> d = b \<or> c = b \<and> d = a"
  by auto

lemma relationship_sound:
  assumes laws: "tree_laws T (kit_db kit)" and ok: "pred_ok pi" "pred_ok pj"
    and m: "operands_match pi pj" and h: "holds T kit pi" and rel: "GetRelationshipWith T pi pj \<noteq> NO_RELATIONSHIP"
  shows "holds T kit pj \<longleftrightarrow> GetRelationshipWith T pi pj = IMPLIES"
proof -
  obtain db where db: "kit_db kit = Some db" "three_way (DepthFirst_Compare3Way db)" "three_way (simple_compare T)"
    using laws by (auto simp: tree_laws_def)
  note df = three_wayD[OF db(2)] and sc = three_wayD[OF db(3)]
  note hs = holds_simps[OF laws]
  show ?thesis
  proof (cases pi)
    case (IsEqualOperator a b)
    then have "type_id pj = T_Comparison IsGreaterOrEqual \<or> type_id pj = T_Comparison IsLessOrEqual
        \<or> type_id pj = T_IsSimpleCompareEquivalent" and i: "GetRelationshipWith T pi pj = IMPLIES"
      using rel by (auto simp: relationship_defs split: if_splits)
    then obtain c d where cd: "GetOperands pj = [c, d]" and pj: "pj = DepthFirstComparisonOperator IsGreaterOrEqual c d
        \<or> pj = DepthFirstComparisonOperator IsLessOrEqual c d \<or> pj = IsSimpleCompareEquivalentOperator c d"
      unfolding type_id_shapes by auto
    have "c = a \<and> d = b \<or> c = b \<and> d = a"
      using two_operands[of a b c d] ok m IsEqualOperator cd by (simp add: operands_match_def pred_ok_def)
    moreover obtain x where "linked T kit a x" "linked T kit b x" using h IsEqualOperator hs by auto
    ultimately have "linked T kit c x \<and> linked T kit d x" by auto
    with pj have "holds T kit pj" by (auto simp: hs db(1) df(1) sc(1) intro!: exI[of _ x])
    with i show ?thesis by simp
  next
    case (DepthFirstComparisonOperator cmp a b)
    obtain x y where xy: "linked T kit a x" "linked T kit b y" "EvalBoolFromDiff cmp (DepthFirst_Compare3Way db x y)"
      using h DepthFirstComparisonOperator hs db(1) by auto
    show ?thesis
    proof (cases "type_id pj = T_IsEqual")
      case True
      then obtain c d where pj: "pj = IsEqualOperator c d" unfolding type_id_shapes by auto
      then have "c = a \<and> d = b \<or> c = b \<and> d = a"
        using two_operands[of a b c d] ok m DepthFirstComparisonOperator by (simp add: operands_match_def pred_ok_def)
      moreover have "cmp = IsGreater \<or> cmp = IsLess" "GetRelationshipWith T pi pj = CONTRADICTS"
        using rel pj DepthFirstComparisonOperator by (cases cmp; simp add: relationship_defs)+
      moreover have "x \<noteq> y" using xy(3) df(1)[of x] calculation(2) by auto
      ultimately show ?thesis
        using pj linked_iff[OF xy(1)] linked_iff[OF xy(2)] by (auto simp: hs)
    next
      case False
      then obtain cmp' c d where pj: "pj = DepthFirstComparisonOperator cmp' c d"
        using rel DepthFirstComparisonOperator type_id_shapes(2)[of pj]
        by (cases cmp) (auto simp: relationship_defs split: if_splits)
      then have cd: "c = a" "d = b" using m DepthFirstComparisonOperator by (simp_all add: operands_match_def)
      have "holds T kit pj \<longleftrightarrow> EvalBoolFromDiff cmp' (DepthFirst_Compare3Way db x y)"
        using pj cd linked_iff[OF xy(1)] linked_iff[OF xy(2)] by (simp add: hs db(1))
      then show ?thesis
        using rel xy(3) pj DepthFirstComparisonOperator
        by (cases cmp; cases cmp') (auto simp: relationship_defs)
    qed
  next
    case (IsAllDiffOperator sa)
    then obtain c d where pj: "pj = IsEqualOperator c d"
      using rel by (auto simp: relationship_defs type_id_shapes split: if_splits)
    have "set sa \<subseteq> {c, d} \<or> {c, d} \<subseteq> set sa" "c \<noteq> d" "distinct sa" "2 \<le> length sa"
      using m ok IsAllDiffOperator pj well_typed.simps[of pi] by (simp_all add: operands_match_def pred_ok_def)
    moreover have "{c, d} \<subseteq> set sa" if "set sa \<subseteq> {c, d}"
    proof -
      have "card {c, d} \<le> card (set sa)" using calculation(2-4) by (simp add: distinct_card)
      with that show ?thesis using card_seteq[of "{c, d}" "set sa"] by simp
    qed
    ultimately have "c \<in> set sa" "d \<in> set sa" "c \<noteq> d" by auto
    moreover obtain xs where "list_all2 (linked T kit) sa xs" "distinct xs" using h IsAllDiffOperator by (auto simp: hs)
    ultimately have "\<not> holds T kit pj" using AllDiff_operands[of T kit sa xs c d] pj by (auto simp: hs)
    then show ?thesis using IsAllDiffOperator pj by (simp add: relationship_defs)
  next
    case (IsInCategoryOperator arch a)
    then obtain arch' b where pj: "pj = IsInCategoryOperator arch' b" "ArchetypeIsSubcategory T arch' arch"
      using rel by (cases pj) (auto simp: relationship_defs split: if_splits)
    then have "b = a" using m IsInCategoryOperator by (simp add: operands_match_def)
    then show ?thesis
      using h pj IsInCategoryOperator laws by (auto simp: hs relationship_defs tree_laws_def)
  qed (use rel in \<open>simp_all add: relationship_defs\<close>)
qed

section \<open>Soundness of derived predicates\<close>

lemma find_operand_Some:
  "nodes_distinct Od \<Longrightarrow> plain over \<Longrightarrow> find_operand Od over i ops = Some j
     \<Longrightarrow> i \<le> j \<and> j - i < length ops \<and> ops ! (j - i) = over"
proof (induction ops arbitrary: i)
  case (Cons s ops)
  show ?case
  proof (cases "over = s")
    case False
    with Cons.prems have "find_operand Od over (Suc i) ops = Some j"
      using plain_equal[OF Cons.prems(1,2), of s] by simp
    from Cons.IH[OF Cons.prems(1,2) this] show ?thesis by (auto simp: nth_Cons' Suc_diff_le split: if_splits)
  qed (use Cons.prems plain_equal[OF Cons.prems(1,2), of s] in simp)
qed simp

lemma find_operand_None:
  "nodes_distinct Od \<Longrightarrow> plain over \<Longrightarrow> find_operand Od over i ops = None \<longleftrightarrow> over \<notin> set ops"
  by (induction ops arbitrary: i) (auto simp: plain_equal)

lemma set_operand_simps:
  assumes "IsPredicate p" "i < length (GetOperands p)"
  shows "GetOperands (set_operand p i w) = (GetOperands p)[i := w]" "IsPredicate (set_operand p i w)"
    "says T pdb (set_operand p i w) xs = says T pdb p xs" "type_id (set_operand p i w) = type_id p"
    "IsCommutative (set_operand p i w) = IsCommutative p"
  using assms by (cases p; auto simp: less_2_cases_iff less_Suc_eq)+

lemma set_operand_typed:
  assumes "IsPredicate p" "well_typed p" "i < length (GetOperands p)" "IsSymbol w" "well_typed w"
  shows "well_typed (set_operand p i w)"
proof -
  have "operands_typed (set_operand p i w)" "list_all well_typed (GetOperands (set_operand p i w))"
    using assms well_typed.simps[of p] set_operand_simps(1)[OF assms(1,3)]
    by (cases p; auto simp: less_2_cases_iff less_Suc_eq list_all_iff dest!: set_update_subset_insert[THEN subsetD])+
  then show ?thesis by (simp add: well_typed.simps[of "set_operand p i w"])
qed

lemma TrySubstitute_spec:
  assumes "nodes_distinct Od" "IsPredicate p" "well_typed p" "plain over"
    "TrySubstitute Od p over w = Some pk" "IsSymbol w" "well_typed w"
  shows "\<exists>i. i < length (GetOperands p) \<and> GetOperands p ! i = over \<and> pk = set_operand p i w
    \<and> GetOperands pk = (GetOperands p)[i := w] \<and> IsPredicate pk \<and> well_typed pk"
proof -
  obtain i where "find_operand Od over 0 (GetOperands p) = Some i" "pk = set_operand p i w"
    using assms(5) by (auto simp: TrySubstitute_def split: option.splits)
  with find_operand_Some[OF assms(1,4) this(1)] set_operand_simps(1,2)[OF assms(2)]
    set_operand_typed[OF assms(2,3) _ assms(6,7)]
  show ?thesis by auto
qed

text \<open>Replacing an operand by one with the same link keeps what a predicate says.\<close>

lemma set_operand_holds:
  assumes "IsPredicate p" "i < length (GetOperands p)" "holds T kit p"
    "linked T kit (GetOperands p ! i) x" "linked T kit w x"
  shows "holds T kit (set_operand p i w)"
proof -
  obtain xs where xs: "list_all2 (linked T kit) (GetOperands p) xs" "says T (kit_db kit) p xs = Inr True"
    using assms(3) by (auto simp: holds_def)
  have "xs ! i = x" using list_all2_nthD[OF xs(1) assms(2)] assms(4) linked_unique by metis
  then have "list_all2 (linked T kit) ((GetOperands p)[i := w]) xs"
    using list_all2_update_cong[OF xs(1) assms(5), of i] by (metis list_update_id)
  with xs(2) show ?thesis
    using set_operand_simps[OF assms(1,2)] by (auto simp: holds_def)
qed

lemma operand_linked: "holds T kit p \<Longrightarrow> e \<in> set (GetOperands p) \<Longrightarrow> \<exists>x. linked T kit e x"
  by (fastforce simp: holds_def list_all2_conv_all_nth in_set_conv_nth)

lemma equal_same_set:
  assumes "nodes_distinct Od" "OrderCompare3Way Od l r = 0" "list_all plain (GetOperands l)" "list_all plain (GetOperands r)"
  shows "set (GetOperands l) = set (GetOperands r)"
proof (cases "IsCommutative l")
  case True
  from commutative_equal[OF assms(1) this assms(3,2,4)] show ?thesis .
next
  case False
  have ok: "order_ok Od" using assms(1) by (simp add: nodes_distinct_def)
  have "list_all2 (equivalent (Relation Od)) (GetOperands l) (GetOperands r)"
    using assms(2) False by (simp add: Compare3Way_zero_unfold[OF ok])
  then have "LexicographicalCompare (Relation Od) (GetOperands l) (GetOperands r) = 0"
    using strict_weak_order.LexicographicalCompare_zero[OF Relation_order[OF ok]] by simp
  from same_operands[OF assms(1,3) this] show ?thesis by simp
qed

text \<open>A derived predicate is well formed but for repeated operands, and lacks an operand that both
  predicates it is derived from have: it is neither of them.\<close>

definition derived_from :: "Expression \<Rightarrow> Expression \<Rightarrow> Expression \<Rightarrow> bool" where
  "derived_from pk pi pj \<longleftrightarrow> IsPredicate pk \<and> well_typed pk \<and> list_all plain (GetOperands pk)
     \<and> (\<exists>over \<in> set (GetOperands pi) \<inter> set (GetOperands pj). over \<notin> set (GetOperands pk))"

lemma derived_substitute:
  assumes "nodes_distinct Od" "pred_ok p" "TrySubstitute Od p over w = Some pk" "plain over" "plain w" "IsSymbol w" "well_typed w"
    "over \<noteq> w"
  shows "\<exists>i. i < length (GetOperands p) \<and> GetOperands p ! i = over \<and> pk = set_operand p i w
    \<and> IsPredicate pk \<and> well_typed pk \<and> list_all plain (GetOperands pk) \<and> over \<notin> set (GetOperands pk)
    \<and> over \<in> set (GetOperands p)"
proof -
  have p: "IsPredicate p" "well_typed p" "list_all plain (GetOperands p)" "distinct (GetOperands p)"
    using assms(2) by (simp_all add: pred_ok_def)
  from TrySubstitute_spec[OF assms(1) p(1,2) assms(4,3,6,7)] obtain i where
    i: "i < length (GetOperands p)" "GetOperands p ! i = over" "pk = set_operand p i w"
    "GetOperands pk = (GetOperands p)[i := w]" "IsPredicate pk" "well_typed pk" by auto
  have "over \<notin> set ((GetOperands p)[i := w])"
    using i(1,2) p(4) assms(8) by (auto simp: in_set_conv_nth nth_list_update nth_eq_iff_index_eq)
  moreover have "list_all plain ((GetOperands p)[i := w])"
    using p(3) assms(5) by (auto simp: list_all_iff dest!: set_update_subset_insert[THEN subsetD])
  ultimately show ?thesis using i nth_mem[OF i(1)] by auto
qed

lemma ToPair_Inr: "ToPair c = Inr (a, b) \<longleftrightarrow> c = [a, b]"
  by (auto simp: ToPair_def length_Suc_conv numeral_2_eq_2)

lemma transitive_defs:
  "GetTransitivityWith pi pj \<noteq> NO_TRANSITIVITY \<Longrightarrow> IsPredicate pi \<Longrightarrow>
     (\<exists>c a b. pi = DepthFirstComparisonOperator c a b) \<or> (\<exists>a b. pi = IsSimpleCompareEquivalentOperator a b)"
  by (cases pi) (simp_all add: GetTransitivityWith_def)

lemmas transitivity_defs = GetTransitivityWith_def IsGreater_GetTransitivityWith_def IsLess_GetTransitivityWith_def
  IsGreaterOrEqual_GetTransitivityWith_def IsLessOrEqual_GetTransitivityWith_def
  IsSimpleCompareEquivalent_GetTransitivityWith_def

text \<open>What transitivity says: with an operand in common, in the position that the kind of transitivity
  asks for, the first predicate holds of the two others.\<close>

definition chains :: "(XValue \<Rightarrow> XValue \<Rightarrow> bool) \<Rightarrow> (XValue \<Rightarrow> XValue \<Rightarrow> bool) \<Rightarrow> Transitivity \<Rightarrow> bool" where
  "chains P Q t \<longleftrightarrow>
     ((t = FORWARD \<or> t = BIDIRECTIONAL) \<longrightarrow>
        (\<forall>x y z. P x y \<longrightarrow> Q y z \<longrightarrow> P x z) \<and> (\<forall>x y z. P x y \<longrightarrow> Q z x \<longrightarrow> P z y))
   \<and> ((t = REVERSE \<or> t = BIDIRECTIONAL) \<longrightarrow>
        (\<forall>x y z. P x y \<longrightarrow> Q z y \<longrightarrow> P x z) \<and> (\<forall>x y z. P x y \<longrightarrow> Q x z \<longrightarrow> P z y))"

lemma comparison_chains:
  assumes "three_way c" "comparison_GetTransitivityWith cmp (DepthFirstComparisonOperator cmp' a b) = t"
  shows "chains (\<lambda>x y. EvalBoolFromDiff cmp (c x y)) (\<lambda>x y. EvalBoolFromDiff cmp' (c x y)) t"
proof -
  note d = three_wayD[OF assms(1)]
  have ge: "c x y \<ge> 0 \<longleftrightarrow> c y x \<le> 0" "c x y > 0 \<longleftrightarrow> c y x < 0" for x y
    using d(2)[of x y] d(2)[of y x] by linarith+
  show ?thesis
    using assms(2) unfolding ge chains_def
    by (cases cmp; cases cmp'; simp add: transitivity_defs ge; meson d(4-6) le_less)
qed

lemma transitive_chains:
  assumes "tree_laws T pdb" "IsPredicate pi" "GetTransitivityWith pi pj = t" "t \<noteq> NO_TRANSITIVITY"
  shows "chains (\<lambda>x y. says T pdb pi [x, y] = Inr True) (\<lambda>x y. says T pdb pj [x, y] = Inr True) t"
proof -
  obtain db where db: "pdb = Some db" "three_way (DepthFirst_Compare3Way db)" "three_way (simple_compare T)"
    using assms(1) by (auto simp: tree_laws_def)
  from transitive_defs[of pi pj] assms(2-4)
  consider c a b where "pi = DepthFirstComparisonOperator c a b" | a b where "pi = IsSimpleCompareEquivalentOperator a b"
    by auto
  then show ?thesis
  proof cases
    case 1
    then obtain c' d e where pj: "pj = DepthFirstComparisonOperator c' d e"
      using assms(3,4) type_id_shapes(2)[of pj] by (cases c) (auto simp: transitivity_defs split: if_splits)
    have "comparison_GetTransitivityWith c (DepthFirstComparisonOperator c' d e) = t"
      using assms(3) 1 pj by (simp add: GetTransitivityWith_def)
    from comparison_chains[OF db(2) this] show ?thesis using 1 pj db(1) by (simp add: deref_def)
  next
    case 2
    then obtain d e where pj: "pj = IsSimpleCompareEquivalentOperator d e"
      using assms(3,4) type_id_shapes(3)[of pj] by (auto simp: transitivity_defs split: if_splits)
    have sym: "simple_compare T x y = 0 \<longleftrightarrow> simple_compare T y x = 0" for x y
      by (rule three_wayD(3)[OF db(3)])
    have trans: "simple_compare T x z = 0" if "simple_compare T x y = 0" "simple_compare T y z = 0" for x y z
    proof -
      have "simple_compare T x z \<le> 0" using three_wayD(4)[OF db(3), of x y z] that by simp
      moreover have "simple_compare T z x \<le> 0" using three_wayD(4)[OF db(3), of z y x] that sym[of x y] sym[of y z] by simp
      ultimately show ?thesis using three_wayD(2)[OF db(3), of x z] by linarith
    qed
    have "t = BIDIRECTIONAL" using assms(3) 2 pj by (simp add: transitivity_defs)
    then show ?thesis
      using 2 pj unfolding chains_def by simp (meson sym trans)
  qed
qed

lemma holds_two:
  "GetOperands p = [a, b] \<Longrightarrow> holds T kit p \<longleftrightarrow>
     (\<exists>x y. linked T kit a x \<and> linked T kit b y \<and> says T (kit_db kit) p [x, y] = Inr True)"
  by (simp add: holds_def list_all2_two)

text \<open>One of the four cases of transitivity: operand \<open>i\<close> of \<open>pi\<close> is replaced by operand \<open>1 - j\<close> of \<open>pj\<close>
  when it is operand \<open>j\<close> of \<open>pj\<close>.\<close>

lemma transitive_case:
  assumes nd: "nodes_distinct Od" and ok: "pred_ok pi" "pred_ok pj"
    and ops: "GetOperands pi = [a, b]" "GetOperands pj = [c, d]"
    and sub: "Substitute Od pi over w = Inr (Some pk)"
    and over: "over = (if i then b else a)" "over = (if j then d else c)" "w = (if j then c else d)"
    and step: "\<And>x y z. says T (kit_db kit) pi [x, y] = Inr True \<Longrightarrow>
        says T (kit_db kit) pj (if j then [z, if i then y else x] else [if i then y else x, z]) = Inr True \<Longrightarrow>
        says T (kit_db kit) pi (if i then [x, z] else [z, y]) = Inr True"
  shows "derived_from pk pi pj \<and> (holds T kit pi \<longrightarrow> holds T kit pj \<longrightarrow> holds T kit pk)"
proof -
  have pi: "IsPredicate pi" "a \<noteq> b" "plain a" "plain b"
    and pj: "IsPredicate pj" "well_typed pj" "c \<noteq> d" "plain c" "plain d"
    using ok ops by (simp_all add: pred_ok_def)
  have w: "IsSymbol w" "well_typed w" "plain w"
    using pj ops(2) over(3) well_typed_operand[OF pj(2), of w]
      predicate_operands_symbols[OF pj(2,1), of w] by auto
  have "TrySubstitute Od pi over w = Some pk" using sub by (simp add: Substitute_def split: option.splits)
  moreover have "plain over" "over \<noteq> w" using pi pj over by (auto split: if_splits)
  ultimately obtain k where k: "k < length (GetOperands pi)" "GetOperands pi ! k = over" "pk = set_operand pi k w"
    "IsPredicate pk" "well_typed pk" "list_all plain (GetOperands pk)" "over \<notin> set (GetOperands pk)" "over \<in> set (GetOperands pi)"
    using derived_substitute[OF nd ok(1)] w by blast
  have "over \<in> set (GetOperands pj)" using ops(2) over(2) by auto
  then have "derived_from pk pi pj" using k by (auto simp: derived_from_def)
  moreover have "holds T kit pk" if h: "holds T kit pi" "holds T kit pj"
  proof -
    have "k = (if i then 1 else 0)"
      using k(1,2) ops(1) pi(2) over(1) by (cases k) (auto simp: less_Suc_eq split: if_splits)
    then have pk: "GetOperands pk = (if i then [a, w] else [w, b])" "says T pdb pk xs = says T pdb pi xs" for pdb xs
      using k(1,3) set_operand_simps(1,3)[OF pi(1) k(1)] ops(1) by simp_all
    obtain x y where xy: "linked T kit a x" "linked T kit b y" "says T (kit_db kit) pi [x, y] = Inr True"
      using h(1) holds_two[OF ops(1)] by auto
    obtain u v where uv: "linked T kit c u" "linked T kit d v" "says T (kit_db kit) pj [u, v] = Inr True"
      using h(2) holds_two[OF ops(2)] by auto
    have "linked T kit over (if i then y else x)" "linked T kit over (if j then v else u)"
      using xy(1,2) uv(1,2) over(1,2) by (auto split: if_splits)
    then have same: "(if j then v else u) = (if i then y else x)" by (rule linked_unique[rotated])
    have wz: "linked T kit w (if j then u else v)" using uv over(3) by simp
    have "says T (kit_db kit) pi (if i then [x, if j then u else v] else [if j then u else v, y]) = Inr True"
      by (rule step[OF xy(3)]) (use uv(3) same in \<open>auto split: if_splits\<close>)
    with pk xy wz show ?thesis
      by (cases i) (auto simp: holds_two[of pk])
  qed
  ultimately show ?thesis by blast
qed

lemma first_of_four:
  assumes "(if A then x else if B then y else if C then z else if D then w else Inr None) = (Inr (Some k) :: 'a option result)"
  obtains "A" "x = Inr (Some k)" | "B" "y = Inr (Some k)" | "C" "z = Inr (Some k)" | "D" "w = Inr (Some k)"
  using assms by (auto split: if_splits)

lemma derivation_sound:
  assumes nd: "nodes_distinct Od" and laws: "tree_laws T (kit_db kit)" and ok: "pred_ok pi" "pred_ok pj"
    and der: "TryDerivePredicate Od pi pj = Inr (Some pk)"
  shows "derived_from pk pi pj \<and> (holds T kit pi \<longrightarrow> holds T kit pj \<longrightarrow> holds T kit pk)"
proof (cases "IsCanSubstituteFrom pi")
  case True
  then obtain a b where pi: "pi = IsEqualOperator a b"
    by (auto simp: IsCanSubstituteFrom_def type_id_shapes)
  have ab: "a \<noteq> b" "plain a" "plain b" "well_typed a" "well_typed b" "IsSymbol a" "IsSymbol b"
    using ok(1) pi well_typed.simps[of pi] by (simp_all add: pred_ok_def)
  consider "TrySubstitute Od pj a b = Some pk" | "TrySubstitute Od pj b a = Some pk"
    using der True pi by (auto simp: TryDerivePredicate_def ToPair_Inr split: option.splits)
  then obtain over w where sub: "TrySubstitute Od pj over w = Some pk" and ow: "over = a \<and> w = b \<or> over = b \<and> w = a"
    by metis
  have "\<exists>i. i < length (GetOperands pj) \<and> GetOperands pj ! i = over \<and> pk = set_operand pj i w
    \<and> IsPredicate pk \<and> well_typed pk \<and> list_all plain (GetOperands pk) \<and> over \<notin> set (GetOperands pk)
    \<and> over \<in> set (GetOperands pj)"
    by (rule derived_substitute[OF nd ok(2) sub]) (use ow ab in auto)
  then obtain i where i: "i < length (GetOperands pj)" "GetOperands pj ! i = over" "pk = set_operand pj i w"
    "IsPredicate pk" "well_typed pk" "list_all plain (GetOperands pk)" "over \<notin> set (GetOperands pk)"
    "over \<in> set (GetOperands pj)" by blast
  have "holds T kit pk" if h: "holds T kit pi" "holds T kit pj"
  proof -
    obtain x where "linked T kit a x" "linked T kit b x" using h(1) pi holds_simps(1)[OF laws] by auto
    then have "linked T kit (GetOperands pj ! i) x" "linked T kit w x" using ow i(2) by auto
    with set_operand_holds[OF _ i(1) h(2)] ok(2) i(3) show ?thesis by (auto simp: pred_ok_def)
  qed
  moreover have "derived_from pk pi pj" using i ow pi by (auto simp: derived_from_def)
  ultimately show ?thesis by blast
next
  case False
  let ?t = "GetTransitivityWith pi pj"
  have t: "?t \<noteq> NO_TRANSITIVITY" using der False by (auto simp: TryDerivePredicate_def Let_def split: if_splits)
  obtain a b c d where ops: "GetOperands pi = [a, b]" "GetOperands pj = [c, d]"
    using der False t by (auto simp: TryDerivePredicate_def Let_def ToPair_Inr)
  have plain: "plain a" "plain b" using ok(1) ops(1) by (simp_all add: pred_ok_def)
  have "IsPredicate pi" using ok(1) by (simp add: pred_ok_def)
  note step = transitive_chains[OF laws this refl t, unfolded chains_def]
  have eq: "OrderCompare3Way Od a e = 0 \<longleftrightarrow> a = e" "OrderCompare3Way Od b e = 0 \<longleftrightarrow> b = e" for e
    using plain_equal[OF nd] plain by simp_all
  let ?fw = "?t = FORWARD \<or> ?t = BIDIRECTIONAL" and ?rv = "?t = REVERSE \<or> ?t = BIDIRECTIONAL"
  have pair: "ToPair [x, y] = Inr (x, y)" for x y :: Expression by (simp add: ToPair_Inr)
  have der': "(if ?fw \<and> b = c then Substitute Od pi b d else if ?fw \<and> a = d then Substitute Od pi a c
      else if ?rv \<and> b = d then Substitute Od pi b c else if ?rv \<and> a = c then Substitute Od pi a d
      else Inr None) = Inr (Some pk)"
    using der t by (simp only: TryDerivePredicate_def guardE_eq_Inr Let_def False if_False ops pair bindE_simps
        prod.case eq not_False_eq_True if_True)
  from der' show ?thesis
  proof (rule first_of_four)
    assume h: "?fw \<and> b = c" and sub: "Substitute Od pi b d = Inr (Some pk)"
    show ?thesis
      by (rule transitive_case[OF nd ok ops sub, of True False]) (use h in simp_all, use h step in blast)
  next
    assume h: "?fw \<and> a = d" and sub: "Substitute Od pi a c = Inr (Some pk)"
    show ?thesis
      by (rule transitive_case[OF nd ok ops sub, of False True]) (use h in simp_all, use h step in blast)
  next
    assume h: "?rv \<and> b = d" and sub: "Substitute Od pi b c = Inr (Some pk)"
    show ?thesis
      by (rule transitive_case[OF nd ok ops sub, of True True]) (use h in simp_all, use h step in blast)
  next
    assume h: "?rv \<and> a = c" and sub: "Substitute Od pi a d = Inr (Some pk)"
    show ?thesis
      by (rule transitive_case[OF nd ok ops sub, of False False]) (use h in simp_all, use h step in blast)
  qed
qed

section \<open>Properties\<close>

lemma holds_evaluates:
  assumes "unforced kit" "IsPredicate p" "well_typed p"
  shows "holds T kit p \<longleftrightarrow> EvaluateBoolean T kit p = Inr (BooleanResult True)"
proof
  assume "holds T kit p"
  then obtain xs where "list_all2 (linked T kit) (GetOperands p) xs" "says T (kit_db kit) p xs = Inr True"
    by (auto simp: holds_def)
  with predicate_of_links[OF assms(1,2)] show "EvaluateBoolean T kit p = Inr (BooleanResult True)" by simp
next
  assume "EvaluateBoolean T kit p = Inr (BooleanResult True)"
  with holds_iff[OF assms] show "holds T kit p" by simp
qed

lemma pred_okD: "pred_ok p \<Longrightarrow> IsPredicate p \<and> well_typed p"
  by (simp add: pred_ok_def)

lemma derived_differs:
  assumes "nodes_distinct Od" "derived_from pk pi pj" "list_all plain (GetOperands pi)" "list_all plain (GetOperands pj)"
  shows "OrderCompare3Way Od pk pi \<noteq> 0 \<and> OrderCompare3Way Od pk pj \<noteq> 0"
  using assms equal_same_set[OF assms(1), of pk pi] equal_same_set[OF assms(1), of pk pj]
  by (auto simp: derived_from_def)

text \<open>A tree database whose links are ordered by number, for concrete evaluations.\<close>

definition numbered_db :: x_tree_db where
  "numbered_db = \<lparr>TryGetRow = (\<lambda>x. None), TryGetParentXLink = (\<lambda>x. null_link), incoming_xlinks = (\<lambda>n. []),
     depth_first_ordering = [], simple_compare_ordering = [], category_ordering = [],
     DepthFirst_Compare3Way = (\<lambda>a b. int a - int b), SimpleCompare_Compare3Way = (\<lambda>a b. 0),
     Category_Compare3Way = (\<lambda>a b. 0)\<rparr>"

definition numbered_kit :: "Assignments \<Rightarrow> EvalKit" where
  "numbered_kit links = \<lparr>hypothesis_links = Some links, kit_db = Some numbered_db, force_expression = (\<lambda>e. None)\<rparr>"

definition flat_tree :: tree_ops where
  "flat_tree = example_tree\<lparr>IsSubcategory := (\<lambda>a n. a = 7), simple_compare := (\<lambda>m n. 0)\<rparr>"

lemma numbered_facts [simp]:
  "tree_laws flat_tree (kit_db (numbered_kit links))" "unforced (numbered_kit links)"
  by (simp_all add: tree_laws_def flat_tree_def example_tree_def numbered_kit_def numbered_db_def three_way_def unforced_def)

definition link_at_least :: "VariableId \<Rightarrow> VariableId \<Rightarrow> Expression" where
  "link_at_least v w = DepthFirstComparisonOperator IsGreaterOrEqual (SymbolVariable v) (SymbolVariable w)"

lemma link_at_least_facts [simp]:
  "v \<noteq> w \<Longrightarrow> pred_ok (link_at_least v w)"
  "map_of links v = Some x \<Longrightarrow> map_of links w = Some y \<Longrightarrow> x \<noteq> null_link \<Longrightarrow> y \<noteq> null_link \<Longrightarrow>
     EvaluateBoolean T (numbered_kit links) (link_at_least v w) = Inr (BooleanResult (y \<le> x))"
  by (auto simp: link_at_least_def pred_ok_def well_typed.simps IsSymbol_def plain.simps EvaluateBoolean_predicate
      EvaluateSymbol.simps numbered_kit_def numbered_db_def make_UniqueResult_def new_UniqueResult_def deref_def
      DepthFirstComparison_Evaluate_def if_all_unique_def)

lemma variable_order:
  "OrderCompare3Way Od (SymbolVariable v) (SymbolVariable w) = of_bool (v > w) - of_bool (v < w)"
  by (simp add: OrderCompare3Way.simps[of _ "SymbolVariable v" "SymbolVariable w"] OrderCompare3WayCovariant_def
      SymbolVariable_Covariant_def OrderCompare3WayChildren_def LexicographicalCompare_def)

text \<open>C20: Between two predicates without repeated operands, a relationship that the solver derives is real:
  when the first predicate evaluates to true, an implied one evaluates to true, without failing, and a
  contradicted one does not evaluate to true. The truth table cells that \<open>ConstrainUsingDerived\<close> marks as
  impossible on the strength of a relationship are therefore impossible.\<close>

theorem TryDeriveRelationship_sound:
  assumes "nodes_distinct Od" "tree_laws T (kit_db kit)" "unforced kit" "pred_ok pi" "pred_ok pj"
    "TryDeriveRelationship Od T pi pj = Inr r" "r \<noteq> NO_RELATIONSHIP"
    "EvaluateBoolean T kit pi = Inr (BooleanResult True)"
  shows "EvaluateBoolean T kit pj = Inr (BooleanResult True) \<longleftrightarrow> r = IMPLIES"
proof -
  have ok: "IsPredicate pi" "well_typed pi" "IsPredicate pj" "well_typed pj"
    using assms(4,5) pred_okD by auto
  have m: "r = GetRelationshipWith T pi pj" "operands_match pi pj"
    using TryDeriveRelationship_match[OF assms(1,4-7)] by simp_all
  have "holds T kit pi" using assms(8) holds_evaluates[OF assms(3) ok(1,2)] by simp
  from relationship_sound[OF assms(2,4,5) m(2) this] show ?thesis
    using m(1) assms(7) holds_evaluates[OF assms(3) ok(3,4)] by simp
qed

lemma TryDeriveRelationship_sound_witness:
  "EvaluateBoolean flat_tree (numbered_kit [(1, 5), (2, 5)]) (link_at_least 2 1) = Inr (BooleanResult True)"
proof -
  let ?eq = "IsEqualOperator (SymbolVariable 1) (SymbolVariable 2)" and ?kit = "numbered_kit [(1, 5), (2, 5)]"
  have ok: "pred_ok ?eq" by (simp add: pred_ok_def well_typed.simps IsSymbol_def plain.simps)
  have "OrderCompare3Way example_order ?eq (link_at_least 2 1) \<noteq> 0"
    by (simp add: Compare3Way_zero_unfold link_at_least_def)
  then have "TryDeriveRelationship example_order flat_tree ?eq (link_at_least 2 1) = Inr IMPLIES"
    by (simp add: TryDeriveRelationship_def link_at_least_def relationship_defs Let_def insert_range_def
        IntersectionOf_def Relation_def variable_order)
  moreover have "EvaluateBoolean flat_tree ?kit ?eq = Inr (BooleanResult True)"
    by (simp add: EvaluateBoolean_predicate EvaluateSymbol.simps numbered_kit_def make_UniqueResult_def
        new_UniqueResult_def deref_def IsEqualOperator_Evaluate_def if_all_unique_def same_xlink_def)
  ultimately show ?thesis
    using TryDeriveRelationship_sound[of example_order flat_tree ?kit ?eq "link_at_least 2 1" IMPLIES] ok by simp
qed

text \<open>C19: A predicate that the solver derives from two predicates without repeated operands follows from
  them: when both evaluate to true so does the derived one, without failing. It is well typed, compares
  different from both, and lacks an operand that both have: what extrapolation adds to the set of
  predicates is neither of its sources.\<close>

theorem TryDerivePredicate_sound:
  assumes "nodes_distinct Od" "tree_laws T (kit_db kit)" "unforced kit" "pred_ok pi" "pred_ok pj"
    "TryDerivePredicate Od pi pj = Inr (Some pk)"
  shows "IsPredicate pk \<and> well_typed pk
    \<and> OrderCompare3Way Od pk pi \<noteq> 0 \<and> OrderCompare3Way Od pk pj \<noteq> 0
    \<and> (EvaluateBoolean T kit pi = Inr (BooleanResult True) \<longrightarrow> EvaluateBoolean T kit pj = Inr (BooleanResult True)
        \<longrightarrow> EvaluateBoolean T kit pk = Inr (BooleanResult True))"
proof -
  have ok: "IsPredicate pi" "well_typed pi" "IsPredicate pj" "well_typed pj"
    using assms(4,5) pred_okD by auto
  note s = derivation_sound[OF assms(1,2,4-6)]
  then have pk: "IsPredicate pk" "well_typed pk" by (simp_all add: derived_from_def)
  have "OrderCompare3Way Od pk pi \<noteq> 0 \<and> OrderCompare3Way Od pk pj \<noteq> 0"
    using derived_differs[OF assms(1), of pk pi pj] s assms(4,5) by (simp add: pred_ok_def)
  then show ?thesis
    using s pk holds_evaluates[OF assms(3) ok(1,2)] holds_evaluates[OF assms(3) ok(3,4)]
      holds_evaluates[OF assms(3) pk] by simp
qed

lemma TryDerivePredicate_sound_witness:
  "EvaluateBoolean flat_tree (numbered_kit [(1, 5), (2, 4), (3, 3)]) (link_at_least 1 3) = Inr (BooleanResult True)"
proof -
  let ?kit = "numbered_kit [(1, 5), (2, 4), (3, 3)]"
  have "OrderCompare3Way example_order (link_at_least 1 2) (link_at_least 2 3) \<noteq> 0"
    by (simp add: Compare3Way_zero_unfold link_at_least_def Compare3Way_zero[symmetric] variable_order)
  then have "TryDerivePredicate example_order (link_at_least 1 2) (link_at_least 2 3) = Inr (Some (link_at_least 1 3))"
    by (simp add: TryDerivePredicate_def link_at_least_def IsCanSubstituteFrom_def transitivity_defs Let_def ToPair_def
        Substitute_def TrySubstitute_def variable_order)
  from TryDerivePredicate_sound[OF _ _ _ _ _ this, of flat_tree ?kit]
  show ?thesis by simp
qed

text \<open>With a repeated operand the derivation of relationships is unsound: of \<open>a = a\<close>, which always
  holds, the solver says that it implies \<open>a \<ge> b\<close>, since the operand set \<open>{a}\<close> is within \<open>{a, b}\<close>.\<close>

theorem repeated_operand_relationship:
  assumes "nodes_distinct Od" "tree_laws T (kit_db kit)" "unforced kit" "plain a" "plain b"
    "linked T kit a x" "linked T kit b y" "DepthFirst_Compare3Way (the (kit_db kit)) x y < 0"
  shows "TryDeriveRelationship Od T (IsEqualOperator a a) (DepthFirstComparisonOperator IsGreaterOrEqual a b) = Inr IMPLIES
    \<and> EvaluateBoolean T kit (IsEqualOperator a a) = Inr (BooleanResult True)
    \<and> EvaluateBoolean T kit (DepthFirstComparisonOperator IsGreaterOrEqual a b) = Inr (BooleanResult False)"
proof -
  have ok: "order_ok Od" using assms(1) by (simp add: nodes_distinct_def)
  obtain db where db: "kit_db kit = Some db" "three_way (DepthFirst_Compare3Way db)"
    using assms(2) by (auto simp: tree_laws_def)
  have "a \<noteq> b" using linked_unique[of T kit a x y] assms(6-8) db three_wayD(1)[OF db(2), of x] by auto
  have irr: "\<not> Relation Od e e" for e using strict_weak_order.irrefl[OF Relation_order[OF ok]] .
  have "Relation Od a b \<noteq> Relation Od b a"
    using plain_equal[OF assms(1,4), of b] \<open>a \<noteq> b\<close> Compare3Way_zero[OF ok, of a b]
      strict_weak_order.trans[OF Relation_order[OF ok], of a b a] irr by (auto simp: equivalent_def)
  then have "TryDeriveRelationship Od T (IsEqualOperator a a) (DepthFirstComparisonOperator IsGreaterOrEqual a b)
    = Inr IMPLIES"
    using irr by (auto simp: TryDeriveRelationship_def Compare3Way_zero_unfold[OF ok] relationship_defs Let_def insert_range_def
        IntersectionOf_def)
  moreover have "EvaluateBoolean T kit (IsEqualOperator a a) = Inr (BooleanResult True)"
    by (subst predicate_of_links[OF assms(3), of _ _ "[x, x]"]) (use assms(6) in simp_all)
  moreover have "EvaluateBoolean T kit (DepthFirstComparisonOperator IsGreaterOrEqual a b) = Inr (BooleanResult False)"
    by (subst predicate_of_links[OF assms(3), of _ _ "[x, y]"]) (use assms(6-8) db in \<open>simp_all add: deref_def\<close>)
  ultimately show ?thesis by blast
qed

lemma repeated_operand_relationship_witness:
  "TryDeriveRelationship example_order flat_tree (IsEqualOperator (SymbolVariable 1) (SymbolVariable 1)) (link_at_least 1 2)
     = Inr IMPLIES"
proof -
  let ?kit = "numbered_kit [(1, 5), (2, 6)]"
  have "linked flat_tree ?kit (SymbolVariable 1) 5" "linked flat_tree ?kit (SymbolVariable 2) 6"
    "DepthFirst_Compare3Way (the (kit_db ?kit)) 5 6 < 0"
    by (simp_all add: linked_def EvaluateSymbol.simps numbered_kit_def numbered_db_def make_UniqueResult_def
        new_UniqueResult_def deref_def)
  from repeated_operand_relationship[OF _ _ _ _ _ this, of example_order] show ?thesis
    by (simp add: plain.simps link_at_least_def)
qed

end
