(* ===== verification/SymSolver.thy ===== *)
theory SymSolver
  imports PredicateTables Derivation Rewriters
begin

text \<open>
  \<^verbatim>\<open>SYM::TruthTableSolver\<close> (\<^verbatim>\<open>vn/sym/sym_solver.cpp\<close>): a boolean expression is analysed into a truth
  table of its predicates (\<open>PreSolve\<close>) and solved for a variable (\<open>TrySolveForGiven\<close>).

  The state that \<open>PreSolve\<close> leaves is the table, which the other operations take as an argument. The
  forces that \<open>ConstrainByEvaluating\<close> sets on predicate objects are a function from predicates to
  values; they end with the loop body that set them, as the weak pointers do. The addresses of
  objects in sets and maps of pointers are parameters.
\<close>

section \<open>Parameters\<close>

record solver_env =
  env_order :: order_ops
  env_tree :: tree_ops
  env_solve :: SolveKit
  address :: "Expression \<Rightarrow> nat"
  slice_address :: "nat \<Rightarrow> nat"

section \<open>Constraining by evaluation\<close>

text \<open>\<^verbatim>\<open>SetForceExpression\<close> on every predicate of every axis.\<close>

definition set_forces ::
    "truth_table_with_predicates \<Rightarrow> nat \<Rightarrow> bool list \<Rightarrow> (Expression \<Rightarrow> bool option) result" where
  "set_forces w d vbe =
     foldE (\<lambda>j force. bindE (GetPredicateSet w j) (\<lambda>S.
              foldE (\<lambda>pred force. bindE (unchecked_at vbe j) (\<lambda>b. Inr (force(pred \<mapsto> b)))) S force))
       [0..<d] (\<lambda>_. None)"

definition forced_kit :: "(Expression \<Rightarrow> bool option) \<Rightarrow> EvalKit" where
  "forced_kit force = \<lparr>hypothesis_links = None, kit_db = None, force_expression = force\<rparr>"

definition evaluate_cell ::
    "tree_ops \<Rightarrow> Expression \<Rightarrow> bool list \<Rightarrow> truth_table_with_predicates \<Rightarrow> truth_table_with_predicates result" where
  "evaluate_cell T initial_expression indices w =
     bindE (GetDegree w) (\<lambda>d. guardE (length indices = d)
      (bindE (Get (table w) indices) (\<lambda>c.
        if c = TRUE
        then bindE (set_forces w d indices) (\<lambda>force.
             bindE (EvaluateBoolean T (forced_kit force) initial_expression) (\<lambda>eval_result.
             if \<not> IsDefinedAndTrue eval_result
             then bindE (Set (table w) indices FALSE) (\<lambda>t. Inr (w\<lparr>table := t\<rparr>))
             else Inr w))
        else Inr w)))"

definition ConstrainByEvaluating ::
    "tree_ops \<Rightarrow> Expression \<Rightarrow> truth_table_with_predicates \<Rightarrow> truth_table_with_predicates result" where
  "ConstrainByEvaluating T initial_expression w =
     bindE (GetDegree w) (\<lambda>d.
       ForPower d index_range_bool (\<lambda>indices w. lift_flow (evaluate_cell T initial_expression indices w)) w)"

section \<open>Constraining by derivation\<close>

text \<open>The two nested loops over axes.\<close>

definition axis_pairs :: "nat \<Rightarrow> (nat \<times> nat) list" where
  "axis_pairs d = concat (map (\<lambda>i. map (\<lambda>j. (i, j)) [0..<d]) [0..<d])"

text \<open>The two maps that collect the extrapolations: for each derived predicate the sets of initial
  predicates it comes from, and the derived objects.\<close>

type_synonym extrapolations = "(Expression \<times> nat list list) list \<times> (Expression \<times> Expression list) list"

definition find_extrapolation ::
    "solver_env \<Rightarrow> truth_table_with_predicates \<Rightarrow> nat \<times> nat \<Rightarrow> extrapolations \<Rightarrow> extrapolations result" where
  "find_extrapolation env w ij maps =
     (let i = fst ij; j = snd ij; Od = env_order env in
      if i = j then Inr maps
      else bindE (GetFrontPredicate w i) (\<lambda>pi.
           bindE (GetFrontPredicate w j) (\<lambda>pj.
           bindE (TryDerivePredicate Od pi pj) (\<lambda>pk.
             case pk of
               Some pk \<Rightarrow>
                 if PredExists Od w pk then Inr maps
                 else Inr (map_change (Relation Od) pk []
                             (\<lambda>s. fst (container_insert (lexicographical_compare (<)) (insert_range (<) [i, j]) s)) (fst maps),
                           map_change (Relation Od) pk []
                             (\<lambda>s. fst (container_insert (\<lambda>a b. address env a < address env b) pk s)) (snd maps))
             | None \<Rightarrow> Inr maps))))"

definition select_derived :: "order_ops \<Rightarrow> extrapolations \<Rightarrow> Expression list list result" where
  "select_derived Od maps =
     foldE (\<lambda>p derived_preds.
              if 2 \<le> length (snd p)
              then bindE (map_at (Relation Od) (fst p) (snd maps)) (\<lambda>S. Inr (derived_preds @ [S]))
              else Inr derived_preds)
       (fst maps) []"

definition set_slice ::
    "truth_table_with_predicates \<Rightarrow> (nat \<times> bool) list \<Rightarrow> CellType \<Rightarrow> truth_table_with_predicates result" where
  "set_slice w entries v =
     bindE (SetSlice (table w) (insert_range (kc2 (<)) entries) v) (\<lambda>t. Inr (w\<lparr>table := t\<rparr>))"

definition enforce_relationship ::
    "nat \<Rightarrow> nat \<Rightarrow> Relationship \<Rightarrow> truth_table_with_predicates \<Rightarrow> truth_table_with_predicates result" where
  "enforce_relationship i j rij w =
     (case rij of
        NO_RELATIONSHIP \<Rightarrow> Inr w
      | CONTRADICTS \<Rightarrow> set_slice w [(i, True), (j, True)] DONT_CARE
      | IMPLIES \<Rightarrow> set_slice w [(i, True), (j, False)] DONT_CARE)"

definition enforce_derived ::
    "order_ops \<Rightarrow> nat \<Rightarrow> nat \<Rightarrow> Expression option \<Rightarrow> truth_table_with_predicates \<Rightarrow> truth_table_with_predicates result" where
  "enforce_derived Od i j pk w =
     (case pk of
        Some pk \<Rightarrow>
          if PredExists Od w pk
          then bindE (PredToIndex Od w pk) (\<lambda>k. set_slice w [(i, True), (j, True), (k, False)] DONT_CARE)
          else Inr w
      | None \<Rightarrow> Inr w)"

definition enforce_interpolation ::
    "solver_env \<Rightarrow> nat \<times> nat \<Rightarrow> truth_table_with_predicates \<Rightarrow> truth_table_with_predicates result" where
  "enforce_interpolation env ij w =
     (let i = fst ij; j = snd ij; Od = env_order env in
      if i = j then Inr w
      else bindE (GetFrontPredicate w i) (\<lambda>pi.
           bindE (GetFrontPredicate w j) (\<lambda>pj.
           bindE (TryDeriveRelationship Od (env_tree env) pi pj) (\<lambda>rij.
           bindE (enforce_relationship i j rij w) (\<lambda>w.
           bindE (TryDerivePredicate Od pi pj) (\<lambda>pk.
             enforce_derived Od i j pk w))))))"

text \<open>The greatest degree that the table is extended to.\<close>

definition max_extended_degree :: nat where
  "max_extended_degree = 10"

definition ConstrainUsingDerived ::
    "solver_env \<Rightarrow> truth_table_with_predicates \<Rightarrow> truth_table_with_predicates result" where
  "ConstrainUsingDerived env w =
     (let Od = env_order env in
      bindE (GetDegree w) (\<lambda>original_degree.
      bindE (foldE (find_extrapolation env w) (axis_pairs original_degree) ([], [])) (\<lambda>maps.
      bindE (select_derived Od maps) (\<lambda>derived_preds.
      let should_extend = 0 < length derived_preds \<and> original_degree + length derived_preds \<le> max_extended_degree in
      bindE (if should_extend then Extend_ttwp Od w derived_preds else Inr w) (\<lambda>w.
      bindE (GetDegree w) (\<lambda>d.
      bindE (foldE (enforce_interpolation env) (axis_pairs d) w) (\<lambda>w.
        if should_extend
        then GetFolded_ttwp Od w [original_degree..<original_degree + length derived_preds]
        else Inr w)))))))"

definition PreSolve :: "solver_env \<Rightarrow> Expression \<Rightarrow> truth_table_with_predicates result" where
  "PreSolve env initial_expression =
     bindE (GetPredicates (env_order env) (address env) initial_expression) (\<lambda>preds.
     bindE (new_ttwp (env_order env) preds TRUE ''p'' 0) (\<lambda>w.
     bindE (ConstrainUsingDerived env w)
       (ConstrainByEvaluating (env_tree env) initial_expression)))"

definition GetAltExpressionForTesting :: "truth_table_with_predicates \<Rightarrow> Expression result" where
  "GetAltExpressionForTesting w =
     bindE (GetDegree w) (\<lambda>d.
     bindE (mapE (GetFrontPredicate w) [0..<d]) (\<lambda>controls.
     bindE (ForPower d index_range_bool
             (\<lambda>indices options. lift_flow
                (bindE (Get (table w) indices) (\<lambda>cell_value.
                   Inr (options @ [BooleanConstant (cell_value = TRUE)])))) [])
       (\<lambda>options. Inr (Multiplexor controls options))))"

section \<open>The Karnaugh map\<close>

text \<open>The loop, with fuel: \<open>None\<close> when it has not ended by then. The set of slices is ordered by the
  address of the slice objects; \<open>slice_addr n\<close> is the address of the \<open>n\<close>-th of them.\<close>

fun karnaugh_loop ::
    "(nat \<Rightarrow> nat) \<Rightarrow> truth_table \<Rightarrow> nat \<Rightarrow> nat \<Rightarrow> truth_table \<Rightarrow> (nat \<times> SliceSpec) list
     \<Rightarrow> (nat \<times> SliceSpec) list result option" where
  "karnaugh_loop slice_addr t 0 n so_far karnaugh_map = None"
| "karnaugh_loop slice_addr t (Suc fuel) n so_far karnaugh_map =
     (case TryFindBestKarnaughSlice t TRUE True so_far of
        Inl e \<Rightarrow> Some (Inl e)
      | Inr None \<Rightarrow> Some (Inr karnaugh_map)
      | Inr (Some sl) \<Rightarrow>
          (case SetSlice so_far sl FALSE of
             Inl e \<Rightarrow> Some (Inl e)
           | Inr so_far' \<Rightarrow>
               karnaugh_loop slice_addr t fuel (Suc n) so_far'
                 (fst (container_insert (\<lambda>a b. fst a < fst b) (slice_addr n, sl) karnaugh_map))))"

definition karnaugh_clause :: "truth_table_with_predicates \<Rightarrow> nat \<times> bool \<Rightarrow> Expression result" where
  "karnaugh_clause w p =
     bindE (GetFrontPredicate w (fst p)) (\<lambda>pred.
       Inr (if snd p = False then NotOperator pred else pred))"

definition karnaugh_term :: "truth_table_with_predicates \<Rightarrow> SliceSpec \<Rightarrow> Expression result" where
  "karnaugh_term w sl = bindE (mapE (karnaugh_clause w) sl) (\<lambda>clauses. Inr (AndOperator clauses))"

definition GetExpressionViaKarnaughMap ::
    "solver_env \<Rightarrow> nat \<Rightarrow> truth_table_with_predicates \<Rightarrow> Expression result option" where
  "GetExpressionViaKarnaughMap env fuel initial_ttwp =
     (case karnaugh_loop (slice_address env) (table initial_ttwp) fuel 0 (table initial_ttwp) [] of
        None \<Rightarrow> None
      | Some r \<Rightarrow> Some (bindE r (\<lambda>karnaugh_map.
          bindE (mapE (\<lambda>p. karnaugh_term initial_ttwp (snd p)) karnaugh_map) (\<lambda>terms. Inr (OrOperator terms)))))"

section \<open>Solving\<close>

text \<open>The predicates that can be evaluated from the givens, and those that can be solved for the target
  with their solutions; both containers are ordered by address.\<close>

type_synonym categories = "Expression list \<times> (Expression \<times> Expression) list"

definition categorise_axis ::
    "solver_env \<Rightarrow> truth_table_with_predicates \<Rightarrow> VariableId \<Rightarrow> VariableId list \<Rightarrow> nat \<Rightarrow> categories \<Rightarrow> categories result" where
  "categorise_axis env w target givens_and_target axis st =
     (let lt = (\<lambda>a b. address env a < address env b) in
      bindE (GetFrontPredicate w axis) (\<lambda>pred.
        if DifferenceOf (<) (GetRequiredVariables pred) givens_and_target \<noteq> [] then Inr st
        else if IsIndependentOf (env_order env) pred (SymbolVariable target)
        then Inr (fst (container_insert lt pred (fst st)), snd st)
        else bindE (TrySolveFor (env_order env) (env_tree env) (env_solve env) pred (SymbolVariable target))
               (\<lambda>solution. case solution of
                  Some solution \<Rightarrow> Inr (fst st, map_assign lt pred solution (snd st))
                | None \<Rightarrow> Inr st)))"

definition find_dead_axes ::
    "solver_env \<Rightarrow> truth_table_with_predicates \<Rightarrow> categories \<Rightarrow> nat list \<Rightarrow> nat list result" where
  "find_dead_axes env w st axes =
     (let lt = (\<lambda>a b. address env a < address env b) in
      foldE (\<lambda>axis dead_axes.
               bindE (GetFrontPredicate w axis) (\<lambda>pred.
                 Inr (if \<not> covers lt (fst st) pred \<and> map_count lt pred (snd st) = 0
                      then fst (container_insert (<) axis dead_axes) else dead_axes)))
        axes [])"

text \<open>A clause of the map is a predicate or its negation.\<close>

fun clause_predicate :: "Expression \<Rightarrow> (bool \<times> Expression) result" where
  "clause_predicate (NotOperator a) =
     bindE (SoloElementOf [a]) (\<lambda>a. guardE (IsPredicate a) (Inr (True, a)))"
| "clause_predicate e = guardE (IsPredicate e) (Inr (False, e))"

definition solve_clause ::
    "solver_env \<Rightarrow> categories \<Rightarrow> Expression \<Rightarrow> Expression list \<times> Expression list
     \<Rightarrow> (Expression list \<times> Expression list) result" where
  "solve_clause env st clause_in out =
     (let lt = (\<lambda>a b. address env a < address env b); interands = fst out; clauses_out = snd out in
      bindE (clause_predicate clause_in) (\<lambda>(negated, pred).
        if covers lt (fst st) pred then Inr (interands, clauses_out @ [clause_in])
        else if map_count lt pred (snd st) \<noteq> 0
        then bindE (map_at lt pred (snd st)) (\<lambda>interand.
               Inr (if negated then interands @ [ComplementOperator interand] else interand # interands, clauses_out))
        else Inr out))"

text \<open>A conjunction of the map, or a failed assertion; its clauses become the part of the solution.\<close>

definition solve_term :: "solver_env \<Rightarrow> categories \<Rightarrow> Expression \<Rightarrow> Expression result" where
  "solve_term env st term_in =
     (case term_in of
        AndOperator clauses_in \<Rightarrow>
          bindE (foldE (solve_clause env st) clauses_in ([], [])) (\<lambda>(interands, clauses_out).
            let part = IntersectionOperator interands in
            Inr (if clauses_out = [] then part
                 else ConditionalOperator (TidiedAnd clauses_out) part None))
      | _ \<Rightarrow> Inl AssertFail)"

definition solve_terms :: "solver_env \<Rightarrow> categories \<Rightarrow> Expression \<Rightarrow> Expression result" where
  "solve_terms env st folded_expr =
     (case folded_expr of
        OrOperator terms_in \<Rightarrow>
          bindE (mapE (solve_term env st) terms_in) (\<lambda>uniands. Inr (UnionOperator uniands))
      | _ \<Rightarrow> Inl AssertFail)"

text \<open>The assertions in front, and what comes before the Karnaugh map.\<close>

definition prepare_solve ::
    "solver_env \<Rightarrow> Expression \<Rightarrow> truth_table_with_predicates \<Rightarrow> VariableId \<Rightarrow> VariableId list
     \<Rightarrow> (categories \<times> truth_table_with_predicates) result" where
  "prepare_solve env initial_expression w target givens =
     (let target_vars = GetRequiredVariables (SymbolVariable target); all_vars = GetRequiredVariables initial_expression in
      guardE (DifferenceOf (<) givens all_vars = [])
     (guardE (DifferenceOf (<) target_vars all_vars = [])
     (guardE (IntersectionOf (<) target_vars givens = [])
      (bindE (GetDegree w) (\<lambda>d.
       bindE (foldE (categorise_axis env w target (UnionOf (<) givens target_vars)) [0..<d] ([], [])) (\<lambda>st.
       bindE (find_dead_axes env w st [0..<d]) (\<lambda>dead_axes.
       bindE (GetFolded_ttwp (env_order env) w dead_axes) (\<lambda>folded_ttwp.
         Inr (st, folded_ttwp)))))))))"

definition TrySolveForGiven ::
    "solver_env \<Rightarrow> nat \<Rightarrow> Expression \<Rightarrow> truth_table_with_predicates \<Rightarrow> VariableId \<Rightarrow> VariableId list
     \<Rightarrow> Expression result option" where
  "TrySolveForGiven env fuel initial_expression w target givens =
     (case prepare_solve env initial_expression w target givens of
        Inl e \<Rightarrow> Some (Inl e)
      | Inr (st, folded_ttwp) \<Rightarrow>
          (case GetExpressionViaKarnaughMap env fuel folded_ttwp of
             None \<Rightarrow> None
           | Some r \<Rightarrow> Some (bindE r (solve_terms env st))))"

end
