(* ===== verification/PreSolving.thy ===== *)
theory PreSolving
  imports SymSolver
begin

text \<open>
  What \<open>PreSolve\<close> establishes: it does not fail, and the table it leaves decides the expression for
  every combination of predicate values that can occur.
\<close>

section \<open>Equal predicates hold alike\<close>

text \<open>An \<open>AllDiff\<close> without repeated operands says that different operands have different links, in
  whatever order the operands come.\<close>

lemma AllDiff_links:
  assumes "tree_laws T (kit_db kit)" "holds T kit (IsAllDiffOperator sa)"
  shows "\<exists>f. inj_on f (set sa) \<and> (\<forall>a \<in> set sa. linked T kit a (f a))"
proof -
  obtain xs where xs: "list_all2 (linked T kit) sa xs" "distinct xs" using assms holds_simps(5)[OF assms(1)] by auto
  have "\<forall>a \<in> set sa. \<exists>x. linked T kit a x" using operand_linked[OF assms(2)] by simp
  then obtain f where f: "\<forall>a \<in> set sa. linked T kit a (f a)" by metis
  moreover have "inj_on f (set sa)"
    using AllDiff_operands[OF xs] f by (intro inj_onI) blast
  ultimately show ?thesis by blast
qed

lemma AllDiff_of_links:
  assumes "tree_laws T (kit_db kit)" "distinct sa" "inj_on f (set sa)" "\<forall>a \<in> set sa. linked T kit a (f a)"
  shows "holds T kit (IsAllDiffOperator sa)"
proof -
  have "list_all2 (linked T kit) sa (map f sa)" "distinct (map f sa)"
    using assms by (auto simp: list_all2_conv_all_nth distinct_map)
  then show ?thesis using holds_simps(5)[OF assms(1)] by blast
qed

lemma same_predicate:
  assumes "nodes_distinct Od" "IsPredicate p" "\<not> IsCommutative p" "type_id p = type_id q"
    "OrderCompare3WayCovariant Od p q = 0" "GetOperands p = GetOperands q"
  shows "p = q"
proof -
  have nc: "node_compare Od a b = 0 \<Longrightarrow> a = b" for a b
    using assms(1) by (simp add: nodes_distinct_def)
  show ?thesis
  proof (cases p)
    case (IsInCategoryOperator arch a)
    with assms(4-6) show ?thesis
      by (cases q) (auto simp: OrderCompare3WayCovariant_def IsInCategory_Covariant_def dest: nc)
  next
    case (IsChildCollectionSizedOperator arch i a n)
    with assms(4-6) show ?thesis
      by (cases q) (auto simp: OrderCompare3WayCovariant_def IsChildCollectionSized_Covariant_def Let_def dest: nc split: if_splits)
  next
    case (IsLocalMatchOperator pat a)
    with assms(4-6) show ?thesis
      by (cases q) (auto simp: OrderCompare3WayCovariant_def IsLocalMatch_Covariant_def dest: nc)
  next
    case (DepthFirstComparisonOperator c a b)
    with assms(4-6) show ?thesis by (cases q) simp_all
  qed (use assms(2,3) in simp_all)
qed

text \<open>A predicate that compares equal to one without repeated operands implies it, though it may have
  repeated operands itself, which only \<open>AllDiff\<close> can.\<close>

lemma equal_implies:
  assumes nd: "nodes_distinct Od" and laws: "tree_laws T (kit_db kit)" and ok: "pred_ok p"
    and q: "list_all plain (GetOperands q)" and eq: "OrderCompare3Way Od p q = 0" and h: "holds T kit q"
  shows "holds T kit p"
proof -
  have oo: "order_ok Od" using nd by (simp add: nodes_distinct_def)
  have plain: "list_all plain (GetOperands p)" and dist: "distinct (GetOperands p)"
    and pred: "IsPredicate p" using ok by (simp_all add: pred_ok_def)
  have t: "type_id p = type_id q" "OrderCompare3WayCovariant Od p q = 0"
    using eq by (simp_all add: Compare3Way_zero_unfold[OF oo])
  show ?thesis
  proof (cases "IsCommutative p")
    case False
    have "list_all2 (equivalent (Relation Od)) (GetOperands p) (GetOperands q)"
      using eq False by (simp add: Compare3Way_zero_unfold[OF oo])
    then have "LexicographicalCompare (Relation Od) (GetOperands p) (GetOperands q) = 0"
      using strict_weak_order.LexicographicalCompare_zero[OF Relation_order[OF oo]] by simp
    from same_predicate[OF nd pred False t same_operands[OF nd plain this]] h show ?thesis by simp
  next
    case True
    note ops = commutative_equal[OF nd True plain eq q]
    have "type_id p = T_IsEqual \<or> type_id p = T_IsSimpleCompareEquivalent \<or> type_id p = T_IsAllDiff"
      using True pred by (cases p) simp_all
    then consider (eq) a b c d where "p = IsEqualOperator a b" "q = IsEqualOperator c d"
      | (sc) a b c d where "p = IsSimpleCompareEquivalentOperator a b" "q = IsSimpleCompareEquivalentOperator c d"
      | (ad) sa sb where "p = IsAllDiffOperator sa" "q = IsAllDiffOperator sb"
      using t(1) by (cases p; cases q) simp_all
    then show ?thesis
    proof cases
      case eq
      then have "c = a \<and> d = b \<or> c = b \<and> d = a" using ops dist by auto
      then show ?thesis using eq h by (auto simp: holds_simps[OF laws])
    next
      case sc
      then have "c = a \<and> d = b \<or> c = b \<and> d = a" using ops dist by auto
      moreover have "three_way (simple_compare T)" using laws by (auto simp: tree_laws_def)
      ultimately show ?thesis using sc h three_wayD(3)[of "simple_compare T"] by (auto simp: holds_simps[OF laws])
    next
      case ad
      then show ?thesis
        using ops dist AllDiff_links[OF laws h[unfolded ad]] AllDiff_of_links[OF laws, of sa] by auto
    qed
  qed
qed

lemma equal_holds:
  assumes "nodes_distinct Od" "tree_laws T (kit_db kit)" "pred_ok p" "pred_ok q" "OrderCompare3Way Od p q = 0"
  shows "holds T kit p \<longleftrightarrow> holds T kit q"
proof -
  have "order_ok Od" using assms(1) by (simp add: nodes_distinct_def)
  then have "OrderCompare3Way Od q p = 0"
    using assms(5) Compare3Way_zero strict_weak_order.equivalent_sym[OF Relation_order] by metis
  then show ?thesis using equal_implies[OF assms(1,2)] assms(3-5) by (auto simp: pred_ok_def)
qed

section \<open>Derivations do not fail\<close>

lemma TryDeriveRelationship_total:
  assumes "nodes_distinct Od" "pred_ok pi" "pred_ok pj" "OrderCompare3Way Od pi pj \<noteq> 0"
  shows "\<exists>r. TryDeriveRelationship Od T pi pj = Inr r"
proof -
  have plain: "list_all plain (GetOperands pi)" using assms(2) by (simp add: pred_ok_def)
  show ?thesis
  proof (cases "(IsCommutative pi \<or> IsCommutative pj) \<or> LexicographicalCompare (Relation Od) (GetOperands pi) (GetOperands pj) \<noteq> 0")
    case True
    then show ?thesis using assms(4) by (auto simp: TryDeriveRelationship_def Let_def)
  next
    case False
    then have same: "GetOperands pi = GetOperands pj" using same_operands[OF assms(1) plain] by simp
    have "OrderCompare3Way Od a a = 0" if "plain a" for a using plain_equal[OF assms(1) that] by simp
    moreover have "plain (hd (GetOperands pj))" if "length (GetOperands pj) = 1"
      using that plain same by (cases "GetOperands pj") auto
    ultimately show ?thesis
      using False assms(4) same
      by (auto simp: TryDeriveRelationship_def Let_def check_same_operand_def split: option.splits)
  qed
qed

lemma two_operand_types:
  "IsPredicate p \<Longrightarrow> GetTransitivityWith p q \<noteq> NO_TRANSITIVITY \<Longrightarrow>
     \<exists>a b c d. GetOperands p = [a, b] \<and> GetOperands q = [c, d]"
proof -
  assume p: "IsPredicate p" and t: "GetTransitivityWith p q \<noteq> NO_TRANSITIVITY"
  have "(\<exists>c. type_id q = T_Comparison c) \<or> type_id q = T_IsSimpleCompareEquivalent"
    using transitive_defs[OF t p] t
  proof (elim disjE exE)
    fix c a b assume "p = DepthFirstComparisonOperator c a b"
    with t show ?thesis by (cases c) (auto simp: transitivity_defs split: if_splits)
  next
    fix a b assume "p = IsSimpleCompareEquivalentOperator a b"
    with t show ?thesis by (auto simp: transitivity_defs split: if_splits)
  qed
  then have "\<exists>c d. GetOperands q = [c, d]" by (auto simp: type_id_shapes)
  moreover have "\<exists>a b. GetOperands p = [a, b]" using transitive_defs[OF t p] by auto
  ultimately show ?thesis by blast
qed

lemma TryDerivePredicate_total:
  assumes nd: "nodes_distinct Od" and ok: "pred_ok pi" and ne: "OrderCompare3Way Od pi pj \<noteq> 0"
  shows "\<exists>pk. TryDerivePredicate Od pi pj = Inr pk"
proof (cases "IsCanSubstituteFrom pi")
  case True
  then obtain a b where "pi = IsEqualOperator a b" by (auto simp: IsCanSubstituteFrom_def type_id_shapes)
  with True ne show ?thesis by (auto simp: TryDerivePredicate_def ToPair_def split: option.splits)
next
  case False
  show ?thesis
  proof (cases "GetTransitivityWith pi pj = NO_TRANSITIVITY")
    case True
    with False ne show ?thesis by (simp add: TryDerivePredicate_def Let_def)
  next
    case t: False
    have "IsPredicate pi" using ok by (simp add: pred_ok_def)
    from two_operand_types[OF this t] obtain a b c d where
      ops: "GetOperands pi = [a, b]" "GetOperands pj = [c, d]" by (elim exE conjE) (rule that)
    have plain: "plain a" "plain b" using ok ops(1) by (simp_all add: pred_ok_def)
    have sub: "\<exists>pk. Substitute Od pi over w = Inr pk" if "over = a \<or> over = b" for over w
    proof -
      have "plain over" "over \<in> set (GetOperands pi)" using that plain ops(1) by auto
      then show ?thesis
        using find_operand_None[OF nd, of over 0 "GetOperands pi"]
        by (auto simp: Substitute_def TrySubstitute_def split: option.splits)
    qed
    show ?thesis
      unfolding TryDerivePredicate_def Let_def using ne False t ops sub
      by (simp add: ToPair_def)
  qed
qed

section \<open>Excluding impossible combinations\<close>

lemma insert_range_keys:
  assumes "distinct (map fst (entries :: (nat \<times> bool) list))"
  shows "set (insert_range (kc2 (<)) entries) = set entries"
proof -
  have "set (fold (\<lambda>x r. fst (container_insert (kc2 (<)) x r)) es r) = set es \<union> set r"
    if "sorted_map r" "distinct (map fst es)" "fst ` set es \<inter> fst ` set r = {}" for es r
    using that
  proof (induction es arbitrary: r)
    case (Cons e es)
    have nc: "\<not> covers (kc2 (<)) r e" using Cons.prems(3) by auto
    note ins = strict_weak_order.container_insert_props[OF strict_weak_order.keyed[OF lin.strict_weak_order_axioms] Cons.prems(1), of e]
    have "set (fst (container_insert (kc2 (<)) e r)) = insert e (set r)" using ins nc by simp
    moreover have "fst ` set es \<inter> fst ` insert e (set r) = {}" using Cons.prems by auto
    ultimately show ?case using Cons.IH[of "fst (container_insert (kc2 (<)) e r)"] ins Cons.prems(2) by simp
  qed simp
  from this[of "[]" entries] assms show ?thesis by (simp add: insert_range_def)
qed

lemma set_slice_ok:
  assumes "ttwp_ok Od w" "distinct (map fst entries)" "\<forall>e \<in> set entries. fst e < length (predicates w)"
  shows "\<exists>w'. set_slice w entries v = Inr w' \<and> ttwp_ok Od w' \<and> predicates w' = predicates w
    \<and> (\<forall>bs. length bs = length (predicates w) \<longrightarrow>
        cell (table w') bs = (if \<forall>(i, b) \<in> set entries. bs ! i = b then v else cell (table w) bs))"
proof -
  let ?sl = "insert_range (kc2 (<)) entries"
  have w: "tt_ok (table w)" "degree (table w) = length (predicates w)" using assms(1) by (simp_all add: ttwp_ok_def)
  have set: "set ?sl = set entries" by (rule insert_range_keys[OF assms(2)])
  have "slice_ok (degree (table w)) ?sl"
    using strict_weak_order.sorted_insert_range[OF strict_weak_order.keyed[OF lin.strict_weak_order_axioms]]
      set assms(3) w(2) by (auto simp: slice_ok_def)
  from SetSlice_spec[OF w(1) this, of v] obtain t where t: "SetSlice (table w) ?sl v = Inr t" "tt_ok t" "degree t = degree (table w)"
    "\<And>bs. length bs = degree (table w) \<Longrightarrow> cell t bs = (if matches ?sl bs then v else cell (table w) bs)" by metis
  then show ?thesis
    using assms(1) w by (auto simp: set_slice_def ttwp_ok_def index_ok_def matches_def set)
qed

text \<open>The index of the combination of values that the predicates have.\<close>

definition actual :: "tree_ops \<Rightarrow> EvalKit \<Rightarrow> Expression list list \<Rightarrow> bool list" where
  "actual T kit preds = map (\<lambda>S. holds T kit (hd S)) preds"

lemma length_actual [simp]: "length (actual T kit preds) = length preds"
  by (simp add: actual_def)

text \<open>A table in progress: every cell is still \<open>TRUE\<close> or has been excluded, and the combination that
  the predicates have is not excluded, whatever the kit.\<close>

definition sound_table ::
    "order_ops \<Rightarrow> tree_ops \<Rightarrow> truth_table_with_predicates \<Rightarrow> bool" where
  "sound_table Od T w \<longleftrightarrow> ttwp_ok Od w
     \<and> (\<forall>bs. length bs = length (predicates w) \<longrightarrow> cell (table w) bs = TRUE \<or> cell (table w) bs = DONT_CARE)
     \<and> (\<forall>kit. tree_laws T (kit_db kit) \<longrightarrow> cell (table w) (actual T kit (predicates w)) = TRUE)"

definition preds_ok :: "Expression list list \<Rightarrow> bool" where
  "preds_ok preds \<longleftrightarrow> (\<forall>S \<in> set preds. \<forall>p \<in> set S. pred_ok p)"

lemma preds_ok_front: "preds_ok preds \<Longrightarrow> axes_ok Od preds \<Longrightarrow> i < length preds \<Longrightarrow> pred_ok (hd (preds ! i))"
  using axes_ok_at(2) nth_mem[of i preds] unfolding preds_ok_def by blast

lemma exclude_ok:
  assumes "sound_table Od T w" "distinct (map fst entries)" "\<forall>e \<in> set entries. fst e < length (predicates w)"
    "\<And>kit. tree_laws T (kit_db kit) \<Longrightarrow> \<exists>(i, b) \<in> set entries. holds T kit (hd (predicates w ! i)) \<noteq> b"
  shows "\<exists>w'. set_slice w entries DONT_CARE = Inr w' \<and> sound_table Od T w' \<and> predicates w' = predicates w"
proof -
  have "ttwp_ok Od w" using assms(1) by (simp add: sound_table_def)
  from set_slice_ok[OF this assms(2,3), of DONT_CARE] obtain w' where
    w': "set_slice w entries DONT_CARE = Inr w'" "ttwp_ok Od w'" "predicates w' = predicates w"
    "\<forall>bs. length bs = length (predicates w) \<longrightarrow>
        cell (table w') bs = (if \<forall>(i, b) \<in> set entries. bs ! i = b then DONT_CARE else cell (table w) bs)"
    by (elim exE conjE) (rule that)
  have "cell (table w') (actual T kit (predicates w)) = TRUE" if "tree_laws T (kit_db kit)" for kit
  proof -
    have "\<not> (\<forall>(i, b) \<in> set entries. actual T kit (predicates w) ! i = b)"
      using assms(3) assms(4)[OF that] by (fastforce simp: actual_def)
    then show ?thesis using w'(4) assms(1) that by (simp add: sound_table_def)
  qed
  with w' assms(1) show ?thesis by (auto simp: sound_table_def)
qed

lemma front_compare:
  assumes "order_ok Od" "axes_ok Od preds" "i < length preds" "j < length preds" "i \<noteq> j"
  shows "OrderCompare3Way Od (hd (preds ! i)) (hd (preds ! j)) \<noteq> 0"
  using assms by (simp add: axes_ok_def Compare3Way_zero)

lemma enforce_relationship_ok:
  assumes nd: "nodes_distinct Od" and w: "sound_table Od T w" and ok: "preds_ok (predicates w)"
    and ij: "i < length (predicates w)" "j < length (predicates w)" "i \<noteq> j"
    and r: "TryDeriveRelationship Od T (hd (predicates w ! i)) (hd (predicates w ! j)) = Inr r"
  shows "\<exists>w'. enforce_relationship i j r w = Inr w' \<and> sound_table Od T w' \<and> predicates w' = predicates w"
proof -
  let ?p = "hd (predicates w ! i)" and ?q = "hd (predicates w ! j)"
  have ax: "axes_ok Od (predicates w)" using w by (simp add: sound_table_def ttwp_ok_def)
  note pq = preds_ok_front[OF ok ax ij(1)] preds_ok_front[OF ok ax ij(2)]
  have sound: "holds T kit ?p \<Longrightarrow> holds T kit ?q \<longleftrightarrow> r = IMPLIES"
    if "r \<noteq> NO_RELATIONSHIP" "tree_laws T (kit_db kit)" for kit
    using TryDeriveRelationship_match[OF nd pq r that(1)] relationship_sound[OF that(2) pq, of] that(1) by simp
  show ?thesis
  proof (cases r)
    case NO_RELATIONSHIP
    with w show ?thesis by (simp add: enforce_relationship_def)
  next
    case CONTRADICTS
    have "\<exists>w'. set_slice w [(i, True), (j, True)] DONT_CARE = Inr w' \<and> sound_table Od T w' \<and> predicates w' = predicates w"
      by (rule exclude_ok[OF w]) (use ij sound CONTRADICTS in auto)
    with CONTRADICTS show ?thesis by (simp add: enforce_relationship_def)
  next
    case IMPLIES
    have "\<exists>w'. set_slice w [(i, True), (j, False)] DONT_CARE = Inr w' \<and> sound_table Od T w' \<and> predicates w' = predicates w"
      by (rule exclude_ok[OF w]) (use ij sound IMPLIES in auto)
    with IMPLIES show ?thesis by (simp add: enforce_relationship_def)
  qed
qed

lemma enforce_derived_ok:
  assumes nd: "nodes_distinct Od" and w: "sound_table Od T w" and ok: "preds_ok (predicates w)"
    and ij: "i < length (predicates w)" "j < length (predicates w)" "i \<noteq> j"
    and pk: "TryDerivePredicate Od (hd (predicates w ! i)) (hd (predicates w ! j)) = Inr pk"
  shows "\<exists>w'. enforce_derived Od i j pk w = Inr w' \<and> sound_table Od T w' \<and> predicates w' = predicates w"
proof (cases "\<exists>p. pk = Some p \<and> PredExists Od w p")
  case False
  with w show ?thesis by (auto simp: enforce_derived_def split: option.splits)
next
  case True
  then obtain p where p: "pk = Some p" "PredExists Od w p" by auto
  have oo: "order_ok Od" using nd by (simp add: nodes_distinct_def)
  have tw: "ttwp_ok Od w" using w by (simp add: sound_table_def)
  then have ax: "axes_ok Od (predicates w)" by (simp add: ttwp_ok_def)
  note pq = preds_ok_front[OF ok ax ij(1)] preds_ok_front[OF ok ax ij(2)]
  obtain k where k: "k < length (predicates w)" "equivalent (Relation Od) (hd (predicates w ! k)) p"
    using p(2) PredExists_iff[OF oo tw] by auto
  then have idx: "PredToIndex Od w p = Inr k" using PredToIndex_eq[OF oo tw] by simp
  note kp = preds_ok_front[OF ok ax k(1)]
  note der = derivation_sound[OF nd _ pq pk[unfolded p(1)]]
  have df: "derived_from p (hd (predicates w ! i)) (hd (predicates w ! j))"
    using der[OF numbered_facts(1)] by simp
  then have pp: "list_all plain (GetOperands p)" by (simp add: derived_from_def)
  have eq: "OrderCompare3Way Od (hd (predicates w ! k)) p = 0" using k(2) by (simp add: Compare3Way_zero[OF oo])
  then have "OrderCompare3Way Od p (hd (predicates w ! k)) = 0"
    using Compare3Way_sign[OF oo] by (metis linorder_neqE_linordered_idom less_irrefl)
  then have ki: "k \<noteq> i" "k \<noteq> j"
    using derived_differs[OF nd df] pq by (auto simp: pred_ok_def)
  have "\<exists>w'. set_slice w [(i, True), (j, True), (k, False)] DONT_CARE = Inr w' \<and> sound_table Od T w' \<and> predicates w' = predicates w"
  proof (rule exclude_ok[OF w])
    fix kit :: EvalKit assume laws: "tree_laws T (kit_db kit)"
    show "\<exists>(i, b) \<in> set [(i, True), (j, True), (k, False)]. holds T kit (hd (predicates w ! i)) \<noteq> b"
      using der[OF laws] equal_implies[OF nd laws preds_ok_front[OF ok ax k(1)] pp eq] by auto
  qed (use ij k ki in auto)
  with p idx show ?thesis by (simp add: enforce_derived_def)
qed

lemma enforce_interpolation_ok:
  assumes nd: "nodes_distinct (env_order env)" and w: "sound_table (env_order env) (env_tree env) w" and ok: "preds_ok (predicates w)"
    and ij: "i < length (predicates w)" "j < length (predicates w)"
  shows "\<exists>w'. enforce_interpolation env (i, j) w = Inr w' \<and> sound_table (env_order env) (env_tree env) w' \<and> predicates w' = predicates w"
proof (cases "i = j")
  case True
  with w show ?thesis by (simp add: enforce_interpolation_def)
next
  case False
  let ?p = "hd (predicates w ! i)" and ?q = "hd (predicates w ! j)"
  have oo: "order_ok (env_order env)" using nd by (simp add: nodes_distinct_def)
  have ax: "axes_ok (env_order env) (predicates w)" using w by (simp add: sound_table_def ttwp_ok_def)
  note pq = preds_ok_front[OF ok ax ij(1)] preds_ok_front[OF ok ax ij(2)]
  note ne = front_compare[OF oo ax ij False]
  obtain r where r: "TryDeriveRelationship (env_order env) (env_tree env) ?p ?q = Inr r"
    using TryDeriveRelationship_total[OF nd pq ne] by blast
  obtain pk where pk: "TryDerivePredicate (env_order env) ?p ?q = Inr pk"
    using TryDerivePredicate_total[OF nd pq(1) ne] by blast
  obtain w1 where w1: "enforce_relationship i j r w = Inr w1" "sound_table (env_order env) (env_tree env) w1" "predicates w1 = predicates w"
    using enforce_relationship_ok[OF nd w ok ij False r] by blast
  obtain w2 where "enforce_derived (env_order env) i j pk w1 = Inr w2" "sound_table (env_order env) (env_tree env) w2" "predicates w2 = predicates w"
    using enforce_derived_ok[OF nd w1(2), of i j pk] w1(3) ok ij False pk by auto
  with r pk w1 GetFrontPredicate_ok[OF ax ij(1)] GetFrontPredicate_ok[OF ax ij(2)] False show ?thesis
    by (simp add: enforce_interpolation_def Let_def)
qed

lemma set_axis_pairs: "set (axis_pairs d) = {(i, j). i < d \<and> j < d}"
  by (auto simp: axis_pairs_def)

lemma enforce_interpolations_ok:
  assumes "nodes_distinct (env_order env)" "sound_table (env_order env) (env_tree env) w" "preds_ok (predicates w)"
  shows "\<exists>w'. foldE (enforce_interpolation env) (axis_pairs (length (predicates w))) w = Inr w'
    \<and> sound_table (env_order env) (env_tree env) w' \<and> predicates w' = predicates w"
proof -
  have "\<exists>w'. foldE (enforce_interpolation env) ijs v = Inr w'
    \<and> sound_table (env_order env) (env_tree env) w' \<and> predicates w' = predicates w"
    if "set ijs \<subseteq> {(i, j). i < length (predicates w) \<and> j < length (predicates w)}"
      "sound_table (env_order env) (env_tree env) v" "predicates v = predicates w" for ijs v
    using that
  proof (induction ijs arbitrary: v)
    case (Cons ij ijs)
    obtain i j where ij: "ij = (i, j)" by (cases ij)
    obtain u where u: "enforce_interpolation env (i, j) v = Inr u" "sound_table (env_order env) (env_tree env) u" "predicates u = predicates w"
      using enforce_interpolation_ok[OF assms(1) Cons.prems(2), of i j] assms(3) Cons.prems ij by auto
    with Cons.IH[of u] Cons.prems(1) ij show ?case by simp
  qed simp
  from this[of "axis_pairs (length (predicates w))" w] assms(2) show ?thesis by (simp add: set_axis_pairs)
qed

section \<open>Extending by derived predicates\<close>

text \<open>The maps of extrapolations have the same keys, and the derived objects are equal to their key.\<close>

definition extrapolations_ok :: "order_ops \<Rightarrow> (Expression \<Rightarrow> bool) \<Rightarrow> extrapolations \<Rightarrow> bool" where
  "extrapolations_ok Od Q maps \<longleftrightarrow> sorted_keys (Relation Od) (fst maps) \<and> sorted_keys (Relation Od) (snd maps)
     \<and> (\<forall>x. map_find (Relation Od) x (fst maps) = None \<longleftrightarrow> map_find (Relation Od) x (snd maps) = None)
     \<and> (\<forall>x S. map_find (Relation Od) x (snd maps) = Some S \<longrightarrow> S \<noteq> [] \<and> (\<forall>p \<in> set S. equivalent (Relation Od) p x \<and> Q p))"

lemma extrapolations_ok_add:
  assumes ok: "order_ok Od" and m: "extrapolations_ok Od Q maps" and q: "Q p"
  shows "extrapolations_ok Od Q (map_change (Relation Od) p [] f (fst maps),
    map_change (Relation Od) p [] (\<lambda>s. fst (container_insert lt p s)) (snd maps))"
proof -
  note swo = Relation_order[OF ok]
  note sym = strict_weak_order.equivalent_sym[OF swo] and trans = strict_weak_order.equivalent_trans[OF swo]
    and refl = strict_weak_order.equivalent_refl[OF swo]
  have s: "sorted_keys (Relation Od) (fst maps)" "sorted_keys (Relation Od) (snd maps)"
    and keys: "map_find (Relation Od) x (fst maps) = None \<longleftrightarrow> map_find (Relation Od) x (snd maps) = None"
    and val: "map_find (Relation Od) x (snd maps) = Some S \<Longrightarrow> S \<noteq> [] \<and> (\<forall>p \<in> set S. equivalent (Relation Od) p x \<and> Q p)" for x S
    using m by (simp_all add: extrapolations_ok_def)
  note find = strict_weak_order.map_find_change[OF swo s(1)] strict_weak_order.map_find_change[OF swo s(2)]
  have ins: "set (fst (container_insert lt p S)) \<subseteq> insert p (set S)" "fst (container_insert lt p S) \<noteq> []" for S
    by (induction S) auto
  have "S \<noteq> [] \<and> (\<forall>r \<in> set S. equivalent (Relation Od) r x \<and> Q r)"
    if h: "map_find (Relation Od) x (map_change (Relation Od) p [] (\<lambda>s. fst (container_insert lt p s)) (snd maps)) = Some S" for x S
  proof (cases "equivalent (Relation Od) p x")
    case False
    then show ?thesis using h val find by simp
  next
    case True
    let ?old = "case map_find (Relation Od) p (snd maps) of None \<Rightarrow> [] | Some v \<Rightarrow> v"
    have S: "S = fst (container_insert lt p ?old)" using h True find by simp
    have "\<forall>r \<in> set ?old. equivalent (Relation Od) r p \<and> Q r"
      using val[of p] by (cases "map_find (Relation Od) p (snd maps)") auto
    then have "\<forall>r \<in> insert p (set ?old). equivalent (Relation Od) r x \<and> Q r" using True trans q by blast
    then show ?thesis using S ins(1)[of ?old] ins(2)[of ?old] by (auto simp del: option.case)
  qed
  moreover have "map_find (Relation Od) x (map_change (Relation Od) p [] f (fst maps)) = None
      \<longleftrightarrow> map_find (Relation Od) x (map_change (Relation Od) p [] (\<lambda>s. fst (container_insert lt p s)) (snd maps)) = None" for x
    using keys find by simp
  ultimately show ?thesis
    using strict_weak_order.map_change_props[OF swo s(1)] strict_weak_order.map_change_props[OF swo s(2)]
    by (simp add: extrapolations_ok_def)
qed

text \<open>The predicates of an expression give rise to no derived predicate with a repeated operand.\<close>

definition no_degenerate :: "order_ops \<Rightarrow> Expression set \<Rightarrow> bool" where
  "no_degenerate Od P \<longleftrightarrow>
     (\<forall>p \<in> P. \<forall>q \<in> P. \<forall>pk. TryDerivePredicate Od p q = Inr (Some pk) \<longrightarrow> distinct (GetOperands pk))"

definition new_predicate :: "order_ops \<Rightarrow> truth_table_with_predicates \<Rightarrow> Expression \<Rightarrow> bool" where
  "new_predicate Od w p \<longleftrightarrow> pred_ok p \<and> \<not> PredExists Od w p"

lemma find_extrapolations_ok:
  assumes nd: "nodes_distinct (env_order env)" and w: "ttwp_ok (env_order env) w" and ok: "preds_ok (predicates w)"
    and deg: "no_degenerate (env_order env) (hd ` set (predicates w))"
    and ijs: "set ijs \<subseteq> {(i, j). i < length (predicates w) \<and> j < length (predicates w)}"
    and m: "extrapolations_ok (env_order env) (new_predicate (env_order env) w) maps"
  shows "\<exists>maps'. foldE (find_extrapolation env w) ijs maps = Inr maps'
    \<and> extrapolations_ok (env_order env) (new_predicate (env_order env) w) maps'"
  using ijs m
proof (induction ijs arbitrary: maps)
  case (Cons ij ijs)
  let ?Od = "env_order env"
  obtain i j where ij: "ij = (i, j)" "i < length (predicates w)" "j < length (predicates w)" using Cons.prems(1) by auto
  have oo: "order_ok ?Od" using nd by (simp add: nodes_distinct_def)
  have ax: "axes_ok ?Od (predicates w)" using w by (simp add: ttwp_ok_def)
  have "\<exists>maps'. find_extrapolation env w (i, j) maps = Inr maps' \<and> extrapolations_ok ?Od (new_predicate ?Od w) maps'"
  proof (cases "i = j")
    case True
    with Cons.prems show ?thesis by (simp add: find_extrapolation_def)
  next
    case False
    let ?p = "hd (predicates w ! i)" and ?q = "hd (predicates w ! j)"
    note pq = preds_ok_front[OF ok ax ij(2)] preds_ok_front[OF ok ax ij(3)]
    obtain pk where pk: "TryDerivePredicate ?Od ?p ?q = Inr pk"
      using TryDerivePredicate_total[OF nd pq(1) front_compare[OF oo ax ij(2,3) False]] by blast
    have new: "new_predicate ?Od w p" if "pk = Some p" "\<not> PredExists ?Od w p" for p
    proof -
      have "derived_from p ?p ?q" using derivation_sound[OF nd numbered_facts(1) pq] pk that(1) by simp
      moreover have "distinct (GetOperands p)" 
        using deg pk that(1) nth_mem[OF ij(2)] nth_mem[OF ij(3)] unfolding no_degenerate_def by blast
      ultimately show ?thesis using that(2) by (simp add: new_predicate_def derived_from_def pred_ok_def)
    qed
    show ?thesis
      using pk Cons.prems(2) new extrapolations_ok_add[OF oo Cons.prems(2)] False
        GetFrontPredicate_ok[OF ax ij(2)] GetFrontPredicate_ok[OF ax ij(3)]
      by (cases maps) (auto simp: find_extrapolation_def Let_def split: option.splits)
  qed
  then obtain m1 where "find_extrapolation env w (i, j) maps = Inr m1" "extrapolations_ok ?Od (new_predicate ?Od w) m1" by blast
  with Cons.IH[of m1] Cons.prems(1) ij(1) show ?case by simp
qed simp

lemma select_derived_ok:
  assumes ok: "order_ok Od" and m: "extrapolations_ok Od Q maps"
  shows "\<exists>D. select_derived Od maps = Inr D \<and> axes_ok Od D \<and> (\<forall>S \<in> set D. \<forall>p \<in> set S. Q p)"
proof -
  note swo = Relation_order[OF ok]
  note sym = strict_weak_order.equivalent_sym[OF swo] and trans = strict_weak_order.equivalent_trans[OF swo]
  let ?find = "\<lambda>p. the (map_find (Relation Od) (fst p) (snd maps))"
  let ?sel = "filter (\<lambda>p. 2 \<le> length (snd p)) (fst maps)"
  have s: "sorted_keys (Relation Od) (fst maps)" using m by (simp add: extrapolations_ok_def)
  have at: "map_at (Relation Od) (fst p) (snd maps) = Inr (?find p) \<and> map_find (Relation Od) (fst p) (snd maps) = Some (?find p)"
    if "p \<in> set (fst maps)" for p
  proof -
    have "map_find (Relation Od) (fst p) (fst maps) = Some (snd p)"
      using strict_weak_order.map_find_sorted[OF swo s, of "fst p" "snd p"] that by simp
    moreover have "map_find (Relation Od) (fst p) (fst maps) = None \<longleftrightarrow> map_find (Relation Od) (fst p) (snd maps) = None"
      using m by (simp add: extrapolations_ok_def)
    ultimately have "map_find (Relation Od) (fst p) (snd maps) \<noteq> None" by simp
    then show ?thesis by (auto simp: map_at_def)
  qed
  have "foldE (\<lambda>p derived_preds. if 2 \<le> length (snd p)
              then bindE (map_at (Relation Od) (fst p) (snd maps)) (\<lambda>S. Inr (derived_preds @ [S])) else Inr derived_preds) ps acc
      = Inr (acc @ map ?find (filter (\<lambda>p. 2 \<le> length (snd p)) ps))" if "set ps \<subseteq> set (fst maps)" for ps acc
    using that at by (induction ps arbitrary: acc) auto
  then have sel: "select_derived Od maps = Inr (map ?find ?sel)" by (simp add: select_derived_def)
  have val: "?find p \<noteq> [] \<and> (\<forall>r \<in> set (?find p). equivalent (Relation Od) r (fst p) \<and> Q r)" if "p \<in> set ?sel" for p
    using at[of p] that m unfolding extrapolations_ok_def by (metis filter_is_subset subset_iff)
  have "\<not> equivalent (Relation Od) (hd (map ?find ?sel ! i)) (hd (map ?find ?sel ! j))"
    if ij: "i < length ?sel" "j < length ?sel" "i \<noteq> j" for i j
  proof
    assume eq: "equivalent (Relation Od) (hd (map ?find ?sel ! i)) (hd (map ?find ?sel ! j))"
    have h: "equivalent (Relation Od) (hd (?find (?sel ! k))) (fst (?sel ! k))" if "k < length ?sel" for k
      using val[OF nth_mem[OF that]] by auto
    have "equivalent (Relation Od) (fst (?sel ! i)) (fst (?sel ! j))"
      using trans[OF iffD1[OF sym h[OF ij(1)]] trans[OF _ h[OF ij(2)]]] eq ij(1,2) by simp
    moreover have "sorted_keys (Relation Od) ?sel" using s by (rule sorted_wrt_filter)
    then have "Relation Od (fst (?sel ! i)) (fst (?sel ! j)) \<or> Relation Od (fst (?sel ! j)) (fst (?sel ! i))"
      using ij sorted_wrt_nth_less[of _ ?sel] by (metis linorder_neqE_nat)
    ultimately show False by (auto simp: equivalent_def)
  qed
  moreover have "\<forall>S \<in> set (map ?find ?sel). S \<noteq> [] \<and> (\<forall>p \<in> set S. \<forall>q \<in> set S. equivalent (Relation Od) p q)"
  proof
    fix S assume "S \<in> set (map ?find ?sel)"
    then obtain p where p: "p \<in> set ?sel" "S = ?find p" by auto
    note v = val[OF p(1)]
    have "equivalent (Relation Od) a b" if "a \<in> set S" "b \<in> set S" for a b
      using v p(2) that sym trans[of a "fst p" b] by blast
    then show "S \<noteq> [] \<and> (\<forall>p \<in> set S. \<forall>q \<in> set S. equivalent (Relation Od) p q)" using v p(2) by simp
  qed
  moreover have "\<forall>S \<in> set (map ?find ?sel). \<forall>p \<in> set S. Q p" using val by auto
  ultimately show ?thesis using sel unfolding axes_ok_def by (intro exI[of _ "map ?find ?sel"] conjI allI impI) simp_all
qed

lemma axes_ok_append:
  assumes ok: "order_ok Od" and w: "ttwp_ok Od w" and D: "axes_ok Od D" "\<forall>S \<in> set D. \<forall>p \<in> set S. \<not> PredExists Od w p"
  shows "axes_ok Od (predicates w @ D)"
proof -
  have ax: "axes_ok Od (predicates w)" using w by (simp add: ttwp_ok_def)
  have new: "\<not> equivalent (Relation Od) (hd (predicates w ! i)) (hd (D ! j))" if "i < length (predicates w)" "j < length D" for i j
    using PredExists_iff[OF ok w, of "hd (D ! j)"] D(2) axes_ok_at(2)[OF D(1) that(2)] nth_mem[OF that(2)] that(1) by blast
  have "\<not> equivalent (Relation Od) (hd ((predicates w @ D) ! i)) (hd ((predicates w @ D) ! j))"
    if "i < length (predicates w @ D)" "j < length (predicates w @ D)" "i \<noteq> j" for i j
    using that ax D(1) new[of i "j - length (predicates w)"] new[of j "i - length (predicates w)"]
      strict_weak_order.equivalent_sym[OF Relation_order[OF ok], of "hd (predicates w ! j)"]
    by (cases "i < length (predicates w)"; cases "j < length (predicates w)")
      (auto simp: nth_append axes_ok_def)
  moreover have "\<forall>S \<in> set (predicates w @ D). S \<noteq> [] \<and> (\<forall>p \<in> set S. \<forall>q \<in> set S. equivalent (Relation Od) p q)"
    using ax D(1) unfolding axes_ok_def by auto
  ultimately show ?thesis unfolding axes_ok_def by blast
qed

lemma Extend_sound:
  assumes ok: "order_ok Od" and w: "sound_table Od T w" and D: "axes_ok Od (predicates w @ D)"
  shows "\<exists>w'. Extend_ttwp Od w D = Inr w' \<and> sound_table Od T w' \<and> predicates w' = predicates w @ D"
proof -
  have tw: "ttwp_ok Od w" using w by (simp add: sound_table_def)
  then have t: "tt_ok (table w)" "degree (table w) = length (predicates w)" by (simp_all add: ttwp_ok_def)
  obtain w' where w': "Extend_ttwp Od w D = Inr w'" "ttwp_ok Od w'" "predicates w' = predicates w @ D"
    "table w' = Extend (table w) (length (predicates w) + length D)"
    using Extend_ttwp_ok[OF ok tw D] by blast
  have c: "cell (table w') bs = cell (table w) (take (length (predicates w)) bs)" if "length bs = length (predicates w @ D)" for bs
    using Extend_spec(3)[OF t(1)] w'(4) t(2) that by simp
  have "take (length (predicates w)) (actual T kit (predicates w @ D)) = actual T kit (predicates w)" for kit
    by (simp add: actual_def)
  with w' w c show ?thesis by (auto simp: sound_table_def)
qed

lemma fold_dest_axes_tail: "d \<le> d' \<Longrightarrow> fold_dest_axes d' [d..<d'] = [0..<d]"
proof -
  assume "d \<le> d'"
  then have "[0..<d'] = [0..<d] @ [d..<d']" using upt_add_eq_append[of 0 d "d' - d"] by simp
  then have "fold_dest_axes d' [d..<d'] = filter (\<lambda>i. i \<notin> set [d..<d']) ([0..<d] @ [d..<d'])"
    unfolding fold_dest_axes_def by simp
  also have "\<dots> = [0..<d]" by (simp add: filter_id_conv)
  finally show ?thesis .
qed

text \<open>Folding takes the greatest cell, so a combination stays \<open>TRUE\<close> when one of its extensions is.\<close>

lemma folded_sound:
  assumes "length di = d" "d \<le> degree t"
    "\<And>bs. length bs = degree t \<Longrightarrow> cell t bs = TRUE \<or> cell t bs = DONT_CARE"
  shows "folded_cell t [d..<degree t] di = TRUE \<or> folded_cell t [d..<degree t] di = DONT_CARE"
    and "length bs = degree t \<Longrightarrow> take d bs = di \<Longrightarrow> cell t bs = TRUE \<Longrightarrow> folded_cell t [d..<degree t] di = TRUE"
proof -
  let ?C = "{cell t bs | bs. length bs = degree t \<and> matches (fold_slice (degree t) [d..<degree t] di) bs}"
  have m: "matches (fold_slice (degree t) [d..<degree t] di) bs \<longleftrightarrow> take d bs = di" if "length bs = degree t" for bs
    using that assms(1,2) by (simp add: fold_slice_def fold_dest_axes_tail matches_zip_upt list_eq_iff_nth_eq)
  have sub: "?C \<subseteq> {TRUE, DONT_CARE}" using assms(3) by auto
  then have fin: "finite ?C" by (rule finite_subset) simp
  have "length (di @ replicate (degree t - d) False) = degree t" using assms(1,2) by simp
  with m assms(1) have "cell t (di @ replicate (degree t - d) False) \<in> ?C" by auto
  then have "?C \<noteq> {}" by blast
  from Max_in[OF fin this] sub have mx: "Max ?C = TRUE \<or> Max ?C = DONT_CARE" by blast
  then show "folded_cell t [d..<degree t] di = TRUE \<or> folded_cell t [d..<degree t] di = DONT_CARE"
    by (simp add: folded_cell_def)
  assume "length bs = degree t" "take d bs = di" "cell t bs = TRUE"
  then have "TRUE \<in> ?C" using m by force
  from Max_ge[OF fin this] mx show "folded_cell t [d..<degree t] di = TRUE"
    by (auto simp: folded_cell_def less_eq_CellType_def)
qed

lemma GetFolded_sound:
  assumes ok: "order_ok Od" and w: "sound_table Od T w" and d: "d \<le> length (predicates w)"
  shows "\<exists>w'. GetFolded_ttwp Od w [d..<length (predicates w)] = Inr w' \<and> sound_table Od T w' \<and> predicates w' = take d (predicates w)"
proof -
  let ?n = "length (predicates w)"
  have tw: "ttwp_ok Od w" using w by (simp add: sound_table_def)
  then have t: "tt_ok (table w)" "degree (table w) = ?n" by (simp_all add: ttwp_ok_def)
  obtain w' where w': "GetFolded_ttwp Od w [d..<?n] = Inr w'" "ttwp_ok Od w'" "GetFolded (table w) [d..<?n] = Inr (table w')"
    "predicates w' = map ((!) (predicates w)) [0..<d]"
    using GetFolded_ttwp_ok[OF ok tw, of "[d..<?n]"] d by (auto simp: fold_dest_axes_tail)
  have p: "predicates w' = take d (predicates w)" using w'(4) d by (intro nth_equalityI) simp_all
  have c: "cell (table w') di = folded_cell (table w) [d..<?n] di" if "length di = d" for di
    using GetFolded_spec[OF t(1), of "[d..<?n]"] w'(3) that t(2) d by (auto simp: fold_dest_axes_tail)
  note fs = folded_sound[of _ d "table w"]
  have cells: "cell (table w) bs = TRUE \<or> cell (table w) bs = DONT_CARE" if "length bs = degree (table w)" for bs
    using w that t(2) by (simp add: sound_table_def)
  have "cell (table w') (actual T kit (predicates w')) = TRUE" if "tree_laws T (kit_db kit)" for kit
  proof -
    have l: "length (actual T kit (predicates w')) = d" using p d by simp
    have "take d (actual T kit (predicates w)) = actual T kit (predicates w')"
      using p by (simp add: actual_def take_map)
    moreover have "cell (table w) (actual T kit (predicates w)) = TRUE" using w that by (simp add: sound_table_def)
    ultimately show ?thesis
      using fs(2)[OF l, of "actual T kit (predicates w)"] d t(2) cells c[OF l] by simp
  qed
  moreover have "cell (table w') di = TRUE \<or> cell (table w') di = DONT_CARE" if "length di = length (predicates w')" for di
    using fs(1)[of di] c[of di] cells that p d t(2) by simp
  ultimately show ?thesis
    using w'(1,2) p unfolding sound_table_def by blast
qed

lemma ConstrainUsingDerived_sound:
  assumes nd: "nodes_distinct (env_order env)" and w: "sound_table (env_order env) (env_tree env) w" and ok: "preds_ok (predicates w)"
    and deg: "no_degenerate (env_order env) (hd ` set (predicates w))"
  shows "\<exists>w'. ConstrainUsingDerived env w = Inr w' \<and> sound_table (env_order env) (env_tree env) w' \<and> predicates w' = predicates w"
proof -
  let ?Od = "env_order env" and ?n = "length (predicates w)"
  have oo: "order_ok ?Od" using nd by (simp add: nodes_distinct_def)
  have tw: "ttwp_ok ?Od w" using w by (simp add: sound_table_def)
  then have d: "GetDegree w = Inr ?n" by (simp add: GetDegree_ok ttwp_ok_def)
  have "extrapolations_ok ?Od (new_predicate ?Od w) ([], [])" by (simp add: extrapolations_ok_def)
  then obtain maps where maps: "foldE (find_extrapolation env w) (axis_pairs ?n) ([], []) = Inr maps"
    "extrapolations_ok ?Od (new_predicate ?Od w) maps"
    using find_extrapolations_ok[OF nd tw ok deg, of "axis_pairs ?n" "([], [])"] by (auto simp: set_axis_pairs)
  obtain D where D: "select_derived ?Od maps = Inr D" "axes_ok ?Od D" "\<forall>S \<in> set D. \<forall>p \<in> set S. new_predicate ?Od w p"
    using select_derived_ok[OF oo maps(2)] by blast
  define ext where "ext \<longleftrightarrow> 0 < length D \<and> ?n + length D \<le> max_extended_degree"
  let ?D = "if ext then D else []"
  have ax: "axes_ok ?Od (predicates w @ ?D)"
    using axes_ok_append[OF oo tw D(2)] D(3) tw by (simp add: new_predicate_def ttwp_ok_def)
  obtain w1 where w1: "(if ext then Extend_ttwp ?Od w D else Inr w) = Inr w1" "sound_table ?Od (env_tree env) w1" "predicates w1 = predicates w @ ?D"
    using Extend_sound[OF oo w, of D] ax w by (cases ext) auto
  have ok1: "preds_ok (predicates w1)" using ok D(3) w1(3) by (auto simp: preds_ok_def new_predicate_def)
  have d1: "GetDegree w1 = Inr (length (predicates w1))"
    using w1(2) by (simp add: sound_table_def ttwp_ok_def GetDegree_ok)
  obtain w2 where w2: "foldE (enforce_interpolation env) (axis_pairs (length (predicates w1))) w1 = Inr w2"
    "sound_table ?Od (env_tree env) w2" "predicates w2 = predicates w1"
    using enforce_interpolations_ok[OF nd w1(2) ok1] by blast
  have run: "ConstrainUsingDerived env w = (if ext then GetFolded_ttwp ?Od w2 [?n..<?n + length D] else Inr w2)"
    using d maps(1) D(1) w1(1) d1 w2(1) by (simp add: ConstrainUsingDerived_def Let_def ext_def)
  show ?thesis
  proof (cases ext)
    case False
    with run w2 w1 show ?thesis by simp
  next
    case True
    have "length (predicates w2) = ?n + length D" using w2(3) w1(3) True by simp
    with GetFolded_sound[OF oo w2(2), of ?n] run True w2(3) w1(3) show ?thesis by simp
  qed
qed

section \<open>Constraining by evaluation\<close>

lemma axes_disjoint:
  assumes "order_ok Od" "axes_ok Od preds" "i < length preds" "j < length preds" "p \<in> set (preds ! i)" "p \<in> set (preds ! j)"
  shows "i = j"
proof (rule ccontr)
  note sym = strict_weak_order.equivalent_sym[OF Relation_order[OF assms(1)]]
    and trans = strict_weak_order.equivalent_trans[OF Relation_order[OF assms(1)]]
  assume "i \<noteq> j"
  moreover have "equivalent (Relation Od) (hd (preds ! i)) p" "equivalent (Relation Od) p (hd (preds ! j))"
    using axes_ok_at(2,3)[OF assms(2,3)] axes_ok_at(2,3)[OF assms(2,4)] assms(5,6) by blast+
  ultimately show False using assms(2-4) trans unfolding axes_ok_def by blast
qed

text \<open>The value that an index vector gives to a predicate.\<close>

definition axis_value :: "Expression list list \<Rightarrow> bool list \<Rightarrow> Expression \<Rightarrow> bool" where
  "axis_value preds bs p \<longleftrightarrow> (\<exists>i < length preds. p \<in> set (preds ! i) \<and> bs ! i)"

lemma axis_value_at:
  assumes "order_ok Od" "axes_ok Od preds" "i < length preds" "p \<in> set (preds ! i)"
  shows "axis_value preds bs p = bs ! i"
  using axes_disjoint[OF assms(1,2)] assms(3,4) by (auto simp: axis_value_def)

lemma set_forces_ok:
  assumes ok: "order_ok Od" and ax: "axes_ok Od (predicates w)" and l: "length vbe = length (predicates w)"
  shows "\<exists>f. set_forces w (length (predicates w)) vbe = Inr f
    \<and> (\<forall>i < length (predicates w). \<forall>p \<in> set (predicates w ! i). f p = Some (vbe ! i))"
proof -
  let ?g = "\<lambda>j pred force. bindE (unchecked_at vbe j) (\<lambda>b. Inr (force(pred \<mapsto> b)))"
  have inner: "foldE (?g j) S force = Inr (\<lambda>p. if p \<in> set S then Some (vbe ! j) else force p)" if "j < length vbe" for j S force
    using that by (induction S arbitrary: force) (auto simp: unchecked_at_def fun_eq_iff)
  have "\<exists>f. foldE (\<lambda>j force. bindE (GetPredicateSet w j) (\<lambda>S. foldE (?g j) S force)) [0..<k] (\<lambda>_. None) = Inr f
      \<and> (\<forall>i < k. \<forall>p \<in> set (predicates w ! i). f p = Some (vbe ! i))" if "k \<le> length (predicates w)" for k
    using that
  proof (induction k)
    case (Suc k)
    then obtain f where f: "foldE (\<lambda>j force. bindE (GetPredicateSet w j) (\<lambda>S. foldE (?g j) S force)) [0..<k] (\<lambda>_. None) = Inr f"
      "\<forall>i < k. \<forall>p \<in> set (predicates w ! i). f p = Some (vbe ! i)" using Suc_leD by blast
    have k: "k < length vbe" "GetPredicateSet w k = Inr (predicates w ! k)"
      using Suc.prems l by (simp_all add: GetPredicateSet_def vec_at_def)
    let ?f = "\<lambda>p. if p \<in> set (predicates w ! k) then Some (vbe ! k) else f p"
    have "p \<notin> set (predicates w ! k)" if "i < k" "p \<in> set (predicates w ! i)" for i p
      using axes_disjoint[OF ok ax, of i k p] that Suc.prems by auto
    then have "\<forall>i < Suc k. \<forall>p \<in> set (predicates w ! i). ?f p = Some (vbe ! i)"
      using f(2) by (auto simp: less_Suc_eq)
    moreover have "foldE (\<lambda>j force. bindE (GetPredicateSet w j) (\<lambda>S. foldE (?g j) S force)) [0..<Suc k] (\<lambda>_. None) = Inr ?f"
      using f(1) k(2) inner[OF k(1)] by (simp add: foldE_append del: fun_upd_apply)
    ultimately show ?case by blast
  qed simp
  then show ?thesis by (simp add: set_forces_def)
qed

lemma forced_truth:
  assumes e: "well_typed e" "IsBoolean e" and f: "\<forall>p \<in> set (predicates_of e). f p = Some (\<sigma> p)"
  shows "EvaluateBoolean T (forced_kit f) e = Inr (BooleanResult (truth \<sigma> e))"
  using f by (intro Evaluate_truth[OF e]) (simp add: EvaluateBoolean_predicate forced_kit_def)

lemma truth_local:
  assumes "well_typed e" "IsBoolean e" "\<forall>p \<in> set (predicates_of e). \<sigma> p = \<tau> p"
  shows "truth \<sigma> e = truth \<tau> e"
  using forced_truth[OF assms(1,2), of "\<lambda>p. Some (\<sigma> p)" \<sigma> example_tree]
    forced_truth[OF assms(1,2), of "\<lambda>p. Some (\<sigma> p)" \<tau> example_tree] assms(3) by simp

definition covers_predicates :: "Expression list list \<Rightarrow> Expression \<Rightarrow> bool" where
  "covers_predicates preds e \<longleftrightarrow> (\<forall>p \<in> set (predicates_of e). \<exists>i < length preds. p \<in> set (preds ! i))"

lemma evaluate_cell_ok:
  assumes ok: "order_ok Od" and w: "ttwp_ok Od w" and e: "well_typed e" "IsBoolean e" "covers_predicates (predicates w) e"
    and l: "length bs = length (predicates w)"
  shows "\<exists>w'. evaluate_cell T e bs w = Inr w' \<and> ttwp_ok Od w' \<and> predicates w' = predicates w
    \<and> (\<forall>cs. length cs = length (predicates w) \<longrightarrow> cell (table w') cs =
        (if cs = bs \<and> cell (table w) bs = TRUE \<and> \<not> truth (axis_value (predicates w) bs) e then FALSE else cell (table w) cs))"
proof -
  have t: "tt_ok (table w)" "degree (table w) = length (predicates w)" "axes_ok Od (predicates w)"
    using w by (simp_all add: ttwp_ok_def)
  obtain f where f: "set_forces w (length (predicates w)) bs = Inr f"
    "\<forall>i < length (predicates w). \<forall>p \<in> set (predicates w ! i). f p = Some (bs ! i)"
    using set_forces_ok[OF ok t(3) l] by blast
  have "\<forall>p \<in> set (predicates_of e). f p = Some (axis_value (predicates w) bs p)"
  proof
    fix p assume "p \<in> set (predicates_of e)"
    then obtain i where i: "i < length (predicates w)" "p \<in> set (predicates w ! i)"
      using e(3) unfolding covers_predicates_def by blast
    then show "f p = Some (axis_value (predicates w) bs p)"
      using f(2) axis_value_at[OF ok t(3) i] by simp
  qed
  note ev = forced_truth[OF e(1,2) this, of T]
  let ?w = "w\<lparr>table := tt_update (table w) bs FALSE\<rparr>"
  have "ttwp_ok Od ?w" using w by (simp add: ttwp_ok_def index_ok_def)
  moreover have "cell (table ?w) cs = (if cs = bs then FALSE else cell (table w) cs)" if "length cs = length (predicates w)" for cs
    using that t l by (simp add: cell_tt_update)
  moreover have "evaluate_cell T e bs w =
      Inr (if cell (table w) bs = TRUE \<and> \<not> truth (axis_value (predicates w) bs) e then ?w else w)"
    using f(1) ev t l by (simp add: evaluate_cell_def GetDegree_ok Get_eq Set_eq)
  ultimately show ?thesis using w by auto
qed

lemma ConstrainByEvaluating_ok:
  assumes ok: "order_ok Od" and w: "ttwp_ok Od w" and e: "well_typed e" "IsBoolean e" "covers_predicates (predicates w) e"
  shows "\<exists>w'. ConstrainByEvaluating T e w = Inr w' \<and> ttwp_ok Od w' \<and> predicates w' = predicates w
    \<and> (\<forall>cs. length cs = length (predicates w) \<longrightarrow> cell (table w') cs =
        (if cell (table w) cs = TRUE \<and> \<not> truth (axis_value (predicates w) cs) e then FALSE else cell (table w) cs))"
proof -
  let ?n = "length (predicates w)"
  let ?v = "\<lambda>cs. if cell (table w) cs = TRUE \<and> \<not> truth (axis_value (predicates w) cs) e then FALSE else cell (table w) cs"
  have "\<exists>w'. foldE (evaluate_cell T e) bss v = Inr w' \<and> ttwp_ok Od w' \<and> predicates w' = predicates w
      \<and> (\<forall>cs. length cs = ?n \<longrightarrow> cell (table w') cs = (if cs \<in> set bss then ?v cs else cell (table v) cs))"
    if "distinct bss" "\<forall>bs \<in> set bss. length bs = ?n \<and> cell (table v) bs = cell (table w) bs"
      "ttwp_ok Od v" "predicates v = predicates w" for bss v
    using that
  proof (induction bss arbitrary: v)
    case (Cons bs bss)
    from evaluate_cell_ok[OF ok Cons.prems(3) e(1,2), of bs T] Cons.prems e(3) obtain u where
      u: "evaluate_cell T e bs v = Inr u" "ttwp_ok Od u" "predicates u = predicates w"
      "\<forall>cs. length cs = ?n \<longrightarrow> cell (table u) cs = (if cs = bs then ?v cs else cell (table v) cs)" by auto
    have "\<forall>bs \<in> set bss. length bs = ?n \<and> cell (table u) bs = cell (table w) bs"
      using Cons.prems u(4) by auto
    from Cons.IH[OF _ this u(2,3)] Cons.prems(1) obtain w' where
      "foldE (evaluate_cell T e) bss u = Inr w'" "ttwp_ok Od w'" "predicates w' = predicates w"
      "\<forall>cs. length cs = ?n \<longrightarrow> cell (table w') cs = (if cs \<in> set bss then ?v cs else cell (table u) cs)" by auto
    with u Cons.prems(1,2) show ?case by (intro exI[of _ w']) auto
  qed simp
  note run = this
  have "distinct (all_indices ?n)" by (rule distinct_tuples) (simp add: index_range_bool_def)
  from run[OF this _ w] have "\<exists>w'. foldE (evaluate_cell T e) (all_indices ?n) w = Inr w' \<and> ttwp_ok Od w'
      \<and> predicates w' = predicates w \<and> (\<forall>cs. length cs = ?n \<longrightarrow> cell (table w') cs = ?v cs)"
    by (simp add: set_all_indices)
  moreover have "index_range_bool \<noteq> []" by (simp add: index_range_bool_def)
  then have "ConstrainByEvaluating T e w = foldE (evaluate_cell T e) (all_indices ?n) w"
    using w by (simp add: ConstrainByEvaluating_def GetDegree_ok ttwp_ok_def ForPower_foldE)
  ultimately show ?thesis by simp
qed

section \<open>PreSolve\<close>

text \<open>What the solver relies on: the order tells expressions apart, and the predicates have no repeated
  operand, nor have those that can be derived from two of them.\<close>

definition solvable :: "solver_env \<Rightarrow> Expression \<Rightarrow> bool" where
  "solvable env e \<longleftrightarrow> nodes_distinct (env_order env) \<and> inj (address env) \<and> well_typed e \<and> IsBoolean e
     \<and> (\<forall>p \<in> set (predicates_of e). pred_ok p) \<and> no_degenerate (env_order env) (set (predicates_of e))"

text \<open>The table decides the expression: a cell that is \<open>TRUE\<close> or \<open>FALSE\<close> has the value of the expression
  for its combination of predicate values, and the combination that the predicates have under a kit is
  never a \<open>DONT_CARE\<close>.\<close>

definition decides :: "solver_env \<Rightarrow> Expression \<Rightarrow> truth_table_with_predicates \<Rightarrow> bool" where
  "decides env e w \<longleftrightarrow> ttwp_ok (env_order env) w \<and> grouped (env_order env) (set (predicates_of e)) (predicates w)
     \<and> (\<forall>bs. length bs = length (predicates w) \<longrightarrow> cell (table w) bs \<noteq> DONT_CARE \<longrightarrow>
          cell (table w) bs = (if truth (axis_value (predicates w) bs) e then TRUE else FALSE))
     \<and> (\<forall>kit. tree_laws (env_tree env) (kit_db kit) \<longrightarrow>
          cell (table w) (actual (env_tree env) kit (predicates w)) = (if truth (holds (env_tree env) kit) e then TRUE else FALSE))"

lemma grouped_front:
  assumes "grouped Od P G" "i < length G" "p \<in> set (G ! i)"
  shows "hd (G ! i) \<in> P" "p \<in> P" "equivalent (Relation Od) (hd (G ! i)) p"
proof -
  have "G ! i \<in> set G" using assms(2) by simp
  then show "hd (G ! i) \<in> P" "p \<in> P" "equivalent (Relation Od) (hd (G ! i)) p"
    using assms(1,3) unfolding grouped_def by (auto; metis hd_in_set)+
qed

lemma grouped_at:
  assumes "grouped Od P G" "p \<in> P" shows "\<exists>i < length G. p \<in> set (G ! i)"
proof -
  obtain S where "S \<in> set G" "p \<in> set S" using assms unfolding grouped_def by blast
  then show ?thesis by (metis in_set_conv_nth)
qed

lemma actual_value:
  assumes nd: "nodes_distinct Od" and G: "grouped Od P preds" "\<forall>p \<in> P. pred_ok p" and laws: "tree_laws T (kit_db kit)" and p: "p \<in> P"
  shows "axis_value preds (actual T kit preds) p = holds T kit p"
proof -
  have oo: "order_ok Od" using nd by (simp add: nodes_distinct_def)
  obtain i where i: "i < length preds" "p \<in> set (preds ! i)"
    using grouped_at[OF G(1) p] by blast
  note f = grouped_front[OF G(1) i]
  have "holds T kit (hd (preds ! i)) = holds T kit p"
    using equal_holds[OF nd laws] f G(2) Compare3Way_zero[OF oo] by blast
  then show ?thesis
    using axis_value_at[OF oo grouped_axes_ok[OF oo G(1)] i] i(1) by (simp add: actual_def)
qed

lemma PreSolve_ok:
  assumes "solvable env e"
  shows "\<exists>w. PreSolve env e = Inr w \<and> decides env e w"
proof -
  let ?Od = "env_order env" and ?T = "env_tree env" and ?P = "set (predicates_of e)"
  have nd: "nodes_distinct ?Od" and inj: "inj (address env)" and e: "well_typed e" "IsBoolean e"
    and ok: "\<forall>p \<in> ?P. pred_ok p" and deg: "no_degenerate ?Od ?P" using assms by (simp_all add: solvable_def)
  have oo: "order_ok ?Od" using nd by (simp add: nodes_distinct_def)
  obtain G where G: "GetPredicates ?Od (address env) e = Inr G" "grouped ?Od ?P G"
    using GetPredicates_grouped[OF oo inj] by blast
  note ax = grouped_axes_ok[OF oo G(2)]
  obtain w0 where w0: "new_ttwp ?Od G TRUE ''p'' 0 = Inr w0" "ttwp_ok ?Od w0" "predicates w0 = G" "table w0 = new_truth_table (length G) TRUE"
    using new_ttwp_ok[OF oo ax] by blast
  have s0: "sound_table ?Od ?T w0"
    using w0(2-4) by (simp add: sound_table_def cell_new_truth_table)
  have po: "preds_ok (predicates w0)" using w0(3) G(2) ok unfolding preds_ok_def grouped_def by blast
  have "hd S \<in> ?P" if "S \<in> set G" for S
  proof -
    have "S \<noteq> []" using ax that unfolding axes_ok_def by blast
    then have "hd S \<in> \<Union> (set ` set G)" using that by (intro UN_I[of S]) simp_all
    then show ?thesis using G(2) unfolding grouped_def by blast
  qed
  then have "hd ` set (predicates w0) \<subseteq> ?P" using w0(3) by blast
  then have dg: "no_degenerate ?Od (hd ` set (predicates w0))" using deg unfolding no_degenerate_def by blast
  obtain w1 where w1: "ConstrainUsingDerived env w0 = Inr w1" "sound_table ?Od ?T w1" "predicates w1 = G"
    using ConstrainUsingDerived_sound[OF nd s0 po dg] w0(3) by blast
  have tw: "ttwp_ok ?Od w1" using w1(2) by (simp add: sound_table_def)
  have cov: "covers_predicates (predicates w1) e"
    using grouped_at[OF G(2)] w1(3) by (simp add: covers_predicates_def)
  obtain w where w: "ConstrainByEvaluating ?T e w1 = Inr w" "ttwp_ok ?Od w" "predicates w = G"
    "\<forall>cs. length cs = length G \<longrightarrow> cell (table w) cs =
      (if cell (table w1) cs = TRUE \<and> \<not> truth (axis_value G cs) e then FALSE else cell (table w1) cs)"
    using ConstrainByEvaluating_ok[OF oo tw e cov, of ?T] w1(3) by auto
  have cells: "cell (table w1) cs = TRUE \<or> cell (table w1) cs = DONT_CARE" if "length cs = length G" for cs
    using w1(2,3) that by (simp add: sound_table_def)
  have act: "cell (table w) (actual ?T kit G) = (if truth (holds ?T kit) e then TRUE else FALSE)"
    if "tree_laws ?T (kit_db kit)" for kit
  proof -
    have "cell (table w1) (actual ?T kit G) = TRUE" using w1(2,3) that by (auto simp: sound_table_def)
    moreover have "truth (axis_value G (actual ?T kit G)) e = truth (holds ?T kit) e"
      using actual_value[OF nd G(2) ok that] by (intro truth_local[OF e]) blast
    ultimately show ?thesis using w(4) by simp
  qed
  have "cell (table w) bs = (if truth (axis_value G bs) e then TRUE else FALSE)"
    if "length bs = length G" "cell (table w) bs \<noteq> DONT_CARE" for bs
    using w(4) cells[OF that(1)] that by auto
  then have "decides env e w" using w(2,3) G(2) act by (simp add: decides_def)
  then show ?thesis using G(1) w0(1) w1(1) w(1) by (simp add: PreSolve_def)
qed

end
