(* ===== verification/Solving.thy ===== *)
theory Solving
  imports PreSolving
begin

text \<open>
  What \<open>SymSolver\<close> computes once the table is made: the alternative expression for testing, the Karnaugh
  map and its expression, and the solution for a variable. The properties of \<open>PreSolve\<close> stand here too.
\<close>

section \<open>Building vectors in a loop\<close>

lemma foldE_collect:
  "(\<And>x. x \<in> set xs \<Longrightarrow> f x = Inr (g x)) \<Longrightarrow>
     foldE (\<lambda>x acc. bindE (f x) (\<lambda>y. Inr (acc @ [h y]))) xs acc = Inr (acc @ map (\<lambda>x. h (g x)) xs)"
  by (induction xs arbitrary: acc) auto

lemma index_value_bits: "index_value 2 (map of_bool bs) = truth_number bs"
  by (induction bs) auto

lemma index_range_bool_facts [simp]: "length index_range_bool = 2" "index_range_bool \<noteq> []"
  by (simp_all add: index_range_bool_def)

lemma index_range_bool_nth: "index_range_bool ! of_bool b = b"
  by (cases b) (simp_all add: index_range_bool_def)

lemma all_indices_nth: "all_indices (length bs) ! truth_number bs = bs"
proof -
  have "\<forall>i \<in> set (map of_bool bs). i < length index_range_bool" by auto
  from tuples_nth[OF this] show ?thesis
    by (simp add: index_range_bool_nth index_value_bits comp_def)
qed

lemma length_all_indices: "length (all_indices n) = 2 ^ n"
  by simp

section \<open>The alternative expression\<close>

lemma GetAltExpression_eq:
  assumes "ttwp_ok Od w"
  shows "GetAltExpressionForTesting w
    = Inr (Multiplexor (map hd (predicates w)) (map (\<lambda>bs. BooleanConstant (cell (table w) bs = TRUE)) (all_indices (length (predicates w)))))"
proof -
  let ?n = "length (predicates w)"
  have w: "tt_ok (table w)" "degree (table w) = ?n" "axes_ok Od (predicates w)"
    using assms by (simp_all add: ttwp_ok_def)
  have "mapE (GetFrontPredicate w) [0..<?n] = Inr (map (\<lambda>i. hd (predicates w ! i)) [0..<?n])"
    using w(3) by (intro mapE_Inr) (simp add: GetFrontPredicate_ok)
  also have "map (\<lambda>i. hd (predicates w ! i)) [0..<?n] = map hd (predicates w)"
    by (rule nth_equalityI) simp_all
  finally have controls: "mapE (GetFrontPredicate w) [0..<?n] = Inr (map hd (predicates w))" .
  have "Get (table w) bs = Inr (cell (table w) bs)" if "bs \<in> set (all_indices ?n)" for bs
    using that w by (simp add: set_all_indices Get_eq)
  then have options: "foldE (\<lambda>bs acc. bindE (Get (table w) bs) (\<lambda>c. Inr (acc @ [BooleanConstant (c = TRUE)]))) (all_indices ?n) []
      = Inr ([] @ map (\<lambda>bs. BooleanConstant (cell (table w) bs = TRUE)) (all_indices ?n))"
    by (rule foldE_collect)
  show ?thesis
    using controls options w(2) by (simp add: GetAltExpressionForTesting_def GetDegree_ok ForPower_foldE)
qed

lemma truth_alternative:
  assumes "\<forall>p \<in> set cs. IsPredicate p"
  shows "truth \<sigma> (Multiplexor cs (map (\<lambda>bs. BooleanConstant (f bs)) (all_indices (length cs)))) = f (map \<sigma> cs)"
proof -
  have m: "map (truth \<sigma>) cs = map \<sigma> cs" using assms by (simp add: truth_predicate)
  have "truth_number (map \<sigma> cs) < 2 ^ length cs" using truth_number_bound[of "map \<sigma> cs"] by simp
  then show ?thesis
    using all_indices_nth[of "map \<sigma> cs"]
    by (simp add: truth.simps[of \<sigma> "Multiplexor x y" for x y] m unchecked_at_def length_all_indices)
qed

lemma alternative_typed:
  assumes "\<forall>p \<in> set cs. IsPredicate p \<and> well_typed p"
  shows "well_typed (Multiplexor cs (map (\<lambda>bs. BooleanConstant (f bs)) (all_indices (length cs))))"
    "set (predicates_of (Multiplexor cs (map (\<lambda>bs. BooleanConstant (f bs)) (all_indices (length cs))))) = set cs"
  using assms
  by (auto simp: well_typed.simps[of "Multiplexor x y" for x y] well_typed.simps[of "BooleanConstant x" for x]
      predicates_of.simps[of "Multiplexor x y" for x y] predicates_of.simps[of "BooleanConstant x" for x]
      list_all_iff length_all_indices)

section \<open>Pre-solving\<close>

text \<open>Under a kit that evaluates every predicate to true or false, the expression is what its predicates make it.\<close>

lemma predicates_decide:
  assumes e: "well_typed e" "IsBoolean e" and kit: "unforced kit"
    "\<forall>p \<in> set (predicates_of e). well_typed p \<and> (\<exists>b. EvaluateBoolean T kit p = Inr (BooleanResult b))"
  shows "EvaluateBoolean T kit e = Inr (BooleanResult (truth (holds T kit) e))"
  using kit holds_iff[OF kit(1)] by (intro Evaluate_truth[OF e]) fastforce

lemma decides_actual:
  assumes "solvable env e" "decides env e w" "tree_laws (env_tree env) (kit_db kit)" "unforced kit"
    "\<forall>p \<in> set (predicates_of e). \<exists>b. EvaluateBoolean (env_tree env) kit p = Inr (BooleanResult b)"
  shows "EvaluateBoolean (env_tree env) kit e
    = Inr (BooleanResult (cell (table w) (actual (env_tree env) kit (predicates w)) = TRUE))"
  using predicates_decide[of e kit "env_tree env"] assms by (simp add: solvable_def decides_def pred_ok_def)

lemma decides_fronts:
  assumes "decides env e w"
  shows "hd ` set (predicates w) \<subseteq> set (predicates_of e)"
proof -
  have G: "grouped (env_order env) (set (predicates_of e)) (predicates w)" using assms by (simp add: decides_def)
  have "hd S \<in> set (predicates_of e)" if "S \<in> set (predicates w)" for S
  proof -
    have "hd S \<in> \<Union> (set ` set (predicates w))"
      using G that unfolding grouped_def by (intro UN_I[of S]) simp_all
    then show ?thesis using G unfolding grouped_def by blast
  qed
  then show ?thesis by blast
qed

lemma decides_degree:
  assumes "order_ok (env_order env)" "decides env e w"
  shows "length (predicates w) \<le> card (set (predicates_of e))"
proof -
  let ?G = "predicates w"
  have ax: "axes_ok (env_order env) ?G" using assms(2) by (simp add: decides_def ttwp_ok_def)
  have "distinct (map hd ?G)"
    using ax strict_weak_order.equivalent_refl[OF Relation_order[OF assms(1)]]
    unfolding axes_ok_def distinct_conv_nth by (metis length_map nth_map)
  then have "length ?G = card (hd ` set ?G)" by (metis distinct_card length_map list.set_map)
  also have "\<dots> \<le> card (set (predicates_of e))" using decides_fronts[OF assms(2)] by (rule card_mono[OF finite_set])
  finally show ?thesis .
qed

section \<open>An example\<close>

definition example_solver :: solver_env where
  "example_solver = \<lparr>env_order = example_order, env_tree = flat_tree, env_solve = \<lparr>GetRangeListForCategory = \<lambda>arch. []\<rparr>,
     address = to_nat, slice_address = (\<lambda>n. n)\<rparr>"

lemma example_solver_simps [simp]:
  "env_order example_solver = example_order" "env_tree example_solver = flat_tree" "address example_solver = to_nat"
  "slice_address example_solver n = n"
  by (simp_all add: example_solver_def)

text \<open>The first link is not before the second, but the second is before the third.\<close>

definition example_pair :: Expression where
  "example_pair = AndOperator [link_at_least 1 2, NotOperator (link_at_least 2 3)]"

lemma link_at_least_predicate [simp]: "IsPredicate (link_at_least v w)"
  by (simp add: link_at_least_def)

lemma example_pair_facts [simp]:
  "well_typed example_pair" "IsBoolean example_pair" "predicates_of example_pair = [link_at_least 1 2, link_at_least 2 3]"
  using link_at_least_facts(1)[of 1 2] link_at_least_facts(1)[of 2 3]
  by (simp_all add: example_pair_def pred_ok_def well_typed.simps[of "AndOperator x" for x]
      well_typed.simps[of "NotOperator x" for x] predicates_of.simps[of "AndOperator x" for x]
      predicates_of.simps[of "NotOperator x" for x])

lemma example_derived:
  "TryDerivePredicate example_order (link_at_least 1 2) (link_at_least 2 3) = Inr (Some pk) \<Longrightarrow> distinct (GetOperands pk)"
  "TryDerivePredicate example_order (link_at_least 2 3) (link_at_least 1 2) = Inr (Some pk) \<Longrightarrow> distinct (GetOperands pk)"
  by (auto simp add: TryDerivePredicate_def link_at_least_def IsCanSubstituteFrom_def transitivity_defs Let_def ToPair_def
        Substitute_def TrySubstitute_def variable_order split: if_splits)

lemma not_derived_from_itself: "order_ok Od \<Longrightarrow> TryDerivePredicate Od p p \<noteq> Inr (Some pk)"
  by (simp add: TryDerivePredicate_def Compare3Way_zero strict_weak_order.equivalent_refl[OF Relation_order])

lemma example_solvable: "solvable example_solver example_pair"
  using example_derived not_derived_from_itself[OF example_order_ok(2)] by (auto simp: solvable_def no_degenerate_def)

lemma example_values:
  "EvaluateBoolean flat_tree (numbered_kit [(1, 5), (2, 4), (3, 6)]) (link_at_least 1 2) = Inr (BooleanResult True)"
  "EvaluateBoolean flat_tree (numbered_kit [(1, 5), (2, 4), (3, 6)]) (link_at_least 2 3) = Inr (BooleanResult False)"
  by simp_all

lemma example_pair_value:
  assumes "EvaluateBoolean T kit (link_at_least 1 2) = Inr (BooleanResult b)"
    "EvaluateBoolean T kit (link_at_least 2 3) = Inr (BooleanResult c)"
  shows "EvaluateBoolean T kit example_pair = Inr (BooleanResult (b \<and> \<not> c))"
proof -
  let ?\<sigma> = "\<lambda>p. if p = link_at_least 1 2 then b else c"
  have ne: "link_at_least 2 3 \<noteq> link_at_least 1 2" by (simp add: link_at_least_def)
  then have "truth ?\<sigma> example_pair \<longleftrightarrow> b \<and> \<not> c" by (simp add: example_pair_def truth_predicate)
  moreover have "EvaluateBoolean T kit p = Inr (BooleanResult (?\<sigma> p))" if p: "p \<in> set (predicates_of example_pair)" for p
  proof -
    consider "p = link_at_least 1 2" | "p = link_at_least 2 3" using p by auto
    then show ?thesis using assms ne by cases simp_all
  qed
  ultimately show ?thesis using Evaluate_truth[OF example_pair_facts(1,2), of T kit ?\<sigma>] by simp
qed

lemma example_evaluates:
  "\<forall>p \<in> set (predicates_of example_pair). \<exists>b.
     EvaluateBoolean flat_tree (numbered_kit [(1, 5), (2, 4), (3, 6)]) p = Inr (BooleanResult b)"
  "EvaluateBoolean flat_tree (numbered_kit [(1, 5), (2, 4), (3, 6)]) example_pair = Inr (BooleanResult True)"
  using example_values example_pair_value[OF example_values] by auto

section \<open>Properties of pre-solving\<close>

text \<open>C3: Take an expression that is solvable: neither its predicates nor any predicate that can be derived from two
  of them repeats an operand. Pre-solving it always ends with a table of one axis for each class of equal
  predicates. A cell of the table that is \<open>TRUE\<close> or \<open>FALSE\<close> has the value of the expression when the
  predicates have the truth values of the cell's index; and under every kit that evaluates the predicates,
  the expression evaluates to what the cell at the values of the predicates says, which is never a
  \<open>DONT_CARE\<close>.\<close>

theorem PreSolve_decides:
  assumes "solvable env e" "tree_laws (env_tree env) (kit_db kit)" "unforced kit"
    "\<forall>p \<in> set (predicates_of e). \<exists>b. EvaluateBoolean (env_tree env) kit p = Inr (BooleanResult b)"
  shows "\<exists>w. PreSolve env e = Inr w
    \<and> (\<forall>bs. length bs = length (predicates w) \<longrightarrow> cell (table w) bs \<noteq> DONT_CARE \<longrightarrow>
          cell (table w) bs = (if truth (axis_value (predicates w) bs) e then TRUE else FALSE))
    \<and> cell (table w) (actual (env_tree env) kit (predicates w)) \<noteq> DONT_CARE
    \<and> EvaluateBoolean (env_tree env) kit e
        = Inr (BooleanResult (cell (table w) (actual (env_tree env) kit (predicates w)) = TRUE))"
proof -
  obtain w where w: "PreSolve env e = Inr w" "decides env e w" using PreSolve_ok[OF assms(1)] by blast
  moreover have "cell (table w) (actual (env_tree env) kit (predicates w)) \<noteq> DONT_CARE"
    using w(2) assms(2) by (simp add: decides_def)
  ultimately show ?thesis
    using decides_actual[OF assms(1) w(2) assms(2-4)] by (auto simp: decides_def)
qed

theorem PreSolve_decides_witness:
  "\<exists>w. PreSolve example_solver example_pair = Inr w
    \<and> cell (table w) (actual flat_tree (numbered_kit [(1, 5), (2, 4), (3, 6)]) (predicates w)) = TRUE"
  using PreSolve_decides[OF example_solvable, of "numbered_kit [(1, 5), (2, 4), (3, 6)]"] example_evaluates by auto

text \<open>The table that pre-solving leaves has no more axes than the expression has different predicates,
  whatever was derived in between, and two to the number of axes cells.\<close>

theorem PreSolve_size:
  assumes "solvable env e"
  shows "\<exists>w. PreSolve env e = Inr w \<and> GetDegree w = Inr (length (predicates w))
    \<and> length (cells (table w)) = 2 ^ length (predicates w) \<and> length (predicates w) \<le> card (set (predicates_of e))"
proof -
  obtain w where w: "PreSolve env e = Inr w" "decides env e w" using PreSolve_ok[OF assms] by blast
  have "ttwp_ok (env_order env) w" using w(2) by (simp add: decides_def)
  moreover have "order_ok (env_order env)" using assms by (simp add: solvable_def nodes_distinct_def)
  ultimately show ?thesis
    using w decides_degree by (auto simp: ttwp_ok_def tt_ok_def GetDegree_ok)
qed

theorem PreSolve_size_witness:
  "\<exists>w. PreSolve example_solver example_pair = Inr w \<and> length (cells (table w)) \<le> 4"
proof -
  obtain w where w: "PreSolve example_solver example_pair = Inr w" "length (cells (table w)) = 2 ^ length (predicates w)"
    "length (predicates w) \<le> card (set (predicates_of example_pair))"
    using PreSolve_size[OF example_solvable] by blast
  then have "length (predicates w) \<le> 2" by (simp add: card_insert_if split: if_splits)
  then have "2 ^ length (predicates w) \<le> (2 :: nat) ^ 2" by (intro power_increasing) simp_all
  with w(1,2) show ?thesis by auto
qed

text \<open>For a solvable expression, in which no predicate and none derived from two of them repeats an operand, the
  alternative expression built from the table that pre-solving leaves, a \<open>Multiplexor\<close> of the
  first predicate of each axis over the cells, evaluates like the expression it was made from under every
  kit that evaluates the predicates.\<close>

theorem GetAltExpression_equivalent:
  assumes "solvable env e" "tree_laws (env_tree env) (kit_db kit)" "unforced kit"
    "\<forall>p \<in> set (predicates_of e). \<exists>b. EvaluateBoolean (env_tree env) kit p = Inr (BooleanResult b)"
  shows "\<exists>w alt. PreSolve env e = Inr w \<and> GetAltExpressionForTesting w = Inr alt
    \<and> EvaluateBoolean (env_tree env) kit alt = EvaluateBoolean (env_tree env) kit e"
proof -
  let ?T = "env_tree env"
  obtain w where w: "PreSolve env e = Inr w" "decides env e w" using PreSolve_ok[OF assms(1)] by blast
  let ?cs = "map hd (predicates w)"
  let ?alt = "Multiplexor ?cs (map (\<lambda>bs. BooleanConstant (cell (table w) bs = TRUE)) (all_indices (length ?cs)))"
  have "ttwp_ok (env_order env) w" using w(2) by (simp add: decides_def)
  from GetAltExpression_eq[OF this] have alt: "GetAltExpressionForTesting w = Inr ?alt" by simp
  have fronts: "set ?cs \<subseteq> set (predicates_of e)" using decides_fronts[OF w(2)] by simp
  then have ok: "\<forall>p \<in> set ?cs. IsPredicate p \<and> well_typed p" using assms(1) by (auto simp: solvable_def pred_ok_def)
  note typed = alternative_typed[OF ok, of "\<lambda>bs. cell (table w) bs = TRUE"]
  have "EvaluateBoolean ?T kit ?alt = Inr (BooleanResult (truth (holds ?T kit) ?alt))"
    using typed ok fronts assms(4) by (intro predicates_decide[OF typed(1) _ assms(3)]) (simp, blast)
  also have "truth (holds ?T kit) ?alt \<longleftrightarrow> cell (table w) (actual ?T kit (predicates w)) = TRUE"
    using truth_alternative[of ?cs "holds ?T kit" "\<lambda>bs. cell (table w) bs = TRUE"] ok by (simp add: actual_def comp_def)
  finally show ?thesis using w(1) alt decides_actual[OF assms(1) w(2) assms(2-4)] by simp
qed

theorem GetAltExpression_equivalent_witness:
  "\<exists>w alt. PreSolve example_solver example_pair = Inr w \<and> GetAltExpressionForTesting w = Inr alt
    \<and> EvaluateBoolean flat_tree (numbered_kit [(1, 5), (2, 4), (3, 6)]) alt = Inr (BooleanResult True)"
  using GetAltExpression_equivalent[OF example_solvable, of "numbered_kit [(1, 5), (2, 4), (3, 6)]"] example_evaluates
  by simp

section \<open>The Karnaugh map\<close>

text \<open>The cells still to be dealt with.\<close>

definition remaining :: "truth_table \<Rightarrow> bool list set" where
  "remaining t = {bs. length bs = degree t \<and> cell t bs = TRUE}"

lemma finite_remaining [simp]: "finite (remaining t)"
proof (rule finite_subset)
  show "remaining t \<subseteq> {bs. set bs \<subseteq> UNIV \<and> length bs = degree t}" by (auto simp: remaining_def)
qed (rule finite_lists_length_eq, simp)

lemma remaining_bound: "card (remaining t) \<le> 2 ^ degree t"
proof -
  have "card (remaining t) \<le> card {bs :: bool list. set bs \<subseteq> UNIV \<and> length bs = degree t}"
    by (rule card_mono[OF finite_lists_length_eq]) (auto simp: remaining_def)
  then show ?thesis using card_lists_length_eq[of "UNIV :: bool set" "degree t"] by simp
qed

text \<open>What the loop keeps: the slices avoid the \<open>FALSE\<close> cells, and the cells dealt with are theirs.\<close>

definition karnaugh_ok :: "truth_table \<Rightarrow> (nat \<times> SliceSpec) list \<Rightarrow> bool" where
  "karnaugh_ok t km \<longleftrightarrow> (\<forall>p \<in> set km. slice_ok (degree t) (snd p)
     \<and> (\<forall>bs. length bs = degree t \<longrightarrow> matches (snd p) bs \<longrightarrow> cell t bs \<noteq> FALSE))"

definition dealt_with :: "(nat \<times> SliceSpec) list \<Rightarrow> bool list \<Rightarrow> bool" where
  "dealt_with km bs \<longleftrightarrow> (\<exists>p \<in> set km. matches (snd p) bs)"

definition so_far_ok :: "truth_table \<Rightarrow> truth_table \<Rightarrow> (nat \<times> SliceSpec) list \<Rightarrow> bool" where
  "so_far_ok t so_far km \<longleftrightarrow> tt_ok so_far \<and> degree so_far = degree t \<and> karnaugh_ok t km \<and> sorted_map km
     \<and> (\<forall>bs. length bs = degree t \<longrightarrow> cell so_far bs = (if dealt_with km bs then FALSE else cell t bs))"

text \<open>A step deals with at least one more cell.\<close>

lemma karnaugh_round:
  assumes sf: "so_far_ok t so_far km" and sl: "slice_ok (degree t) sl" "eligible t TRUE so_far sl" and a: "a \<notin> fst ` set km"
  shows "\<exists>so_far'. SetSlice so_far sl FALSE = Inr so_far' \<and> so_far_ok t so_far' (fst (container_insert (kc2 (<)) (a, sl) km))
    \<and> set (fst (container_insert (kc2 (<)) (a, sl) km)) = insert (a, sl) (set km)
    \<and> card (remaining so_far') < card (remaining so_far)"
proof -
  have ok: "tt_ok so_far" "degree so_far = degree t" "sorted_map km" using sf by (simp_all add: so_far_ok_def)
  have sl': "slice_ok (degree so_far) sl" using sl(1) ok(2) by simp
  obtain so_far' where s: "SetSlice so_far sl FALSE = Inr so_far'" "tt_ok so_far'" "degree so_far' = degree so_far"
    "\<And>bs. length bs = degree so_far \<Longrightarrow> cell so_far' bs = (if matches sl bs then FALSE else cell so_far bs)"
    by (rule SetSlice_spec[OF ok(1) sl', of FALSE]) (auto intro: that)
  note ins = keyed.container_insert_props[OF ok(3), of "(a, sl)"]
  let ?km = "fst (container_insert (kc2 (<)) (a, sl) km)"
  have set: "set ?km = insert (a, sl) (set km)" using ins a by simp
  have "dealt_with ?km bs \<longleftrightarrow> matches sl bs \<or> dealt_with km bs" for bs by (auto simp: dealt_with_def set)
  moreover have "karnaugh_ok t ?km"
    using sf sl by (auto simp: karnaugh_ok_def so_far_ok_def set eligible_def avoid_of_def)
  ultimately have "so_far_ok t so_far' ?km"
    using sf s ins ok(2) by (simp add: so_far_ok_def)
  moreover have "remaining so_far' \<subset> remaining so_far"
  proof
    show "remaining so_far' \<subseteq> remaining so_far" using s(3,4) by (auto simp: remaining_def split: if_splits)
    obtain bs where bs: "length bs = degree so_far" "matches sl bs" "cell so_far bs = TRUE"
      using sl(2) by (auto simp: eligible_def new_cells_def)
    then have "bs \<in> remaining so_far" "bs \<notin> remaining so_far'" using s(3,4) by (auto simp: remaining_def)
    then show "remaining so_far' \<noteq> remaining so_far" by blast
  qed
  ultimately show ?thesis using s(1) set by (auto intro: psubset_card_mono)
qed

text \<open>The slice of a single cell.\<close>

definition cell_slice :: "bool list \<Rightarrow> SliceSpec" where
  "cell_slice bs = zip [0..<length bs] bs"

lemma cell_slice_ok: "slice_ok (length bs) (cell_slice bs)"
  by (auto simp: slice_ok_def cell_slice_def sorted_map_keys set_zip)

lemma matches_cell_slice: "length cs = length bs \<Longrightarrow> matches (cell_slice bs) cs \<longleftrightarrow> cs = bs"
proof -
  assume l: "length cs = length bs"
  have "matches (cell_slice bs) cs \<longleftrightarrow> (\<forall>i < length bs. cs ! i = bs ! i)"
    by (fastforce simp: matches_def cell_slice_def set_zip)
  then show ?thesis using l by (simp add: list_eq_iff_nth_eq)
qed

lemma nothing_left:
  assumes "so_far_ok t so_far km" "\<And>sl. slice_ok (degree t) sl \<Longrightarrow> \<not> eligible t TRUE so_far sl"
    "length bs = degree t" "cell t bs = TRUE"
  shows "dealt_with km bs"
proof (rule ccontr)
  assume "\<not> dealt_with km bs"
  with assms have c: "cell so_far bs = TRUE" "degree so_far = degree t" by (simp_all add: so_far_ok_def)
  with assms(3,4) have "bs \<in> new_cells so_far TRUE (cell_slice bs)" by (simp add: new_cells_def matches_cell_slice)
  then have "eligible t TRUE so_far (cell_slice bs)"
    using assms(3,4) matches_cell_slice[of _ bs] by (auto simp: eligible_def avoid_of_def)
  then show False using assms(2)[of "cell_slice bs"] cell_slice_ok[of bs] assms(3) by simp
qed

lemma kc2_lambda: "(\<lambda>a b. fst a < fst b) = kc2 (<)"
  by (intro ext) (simp add: kc2_def)

lemma karnaugh_loop_ok:
  assumes "inj addr" "tt_ok t" "so_far_ok t so_far km" "fst ` set km \<subseteq> addr ` {..<n}" "card (remaining so_far) < fuel"
  shows "\<exists>km'. karnaugh_loop addr t fuel n so_far km = Some (Inr km') \<and> karnaugh_ok t km'
    \<and> (\<forall>bs. length bs = degree t \<longrightarrow> cell t bs = TRUE \<longrightarrow> dealt_with km' bs)"
  using assms(3-5)
proof (induction fuel arbitrary: n so_far km)
  case (Suc fuel)
  have ok: "tt_ok so_far" "degree so_far = degree t" using Suc.prems(1) by (simp_all add: so_far_ok_def)
  obtain r where r: "TryFindBestKarnaughSlice t TRUE True so_far = Inr r"
    "\<And>sl'. r = None \<Longrightarrow> slice_ok (degree t) sl' \<Longrightarrow> \<not> eligible t TRUE so_far sl'"
    "\<And>sl. r = Some sl \<Longrightarrow> slice_ok (degree t) sl \<and> eligible t TRUE so_far sl"
    by (rule TryFindBestKarnaughSlice_spec[OF assms(2) ok, of TRUE True]) blast
  show ?case
  proof (cases r)
    case None
    with r Suc.prems(1) nothing_left[OF Suc.prems(1)] show ?thesis by (simp add: so_far_ok_def)
  next
    case (Some sl)
    have new: "addr n \<notin> fst ` set km" using Suc.prems(2) assms(1) by (auto dest: injD)
    let ?km = "fst (container_insert (kc2 (<)) (addr n, sl) km)"
    obtain so_far' where s: "SetSlice so_far sl FALSE = Inr so_far'" "so_far_ok t so_far' ?km"
      "set ?km = insert (addr n, sl) (set km)" "card (remaining so_far') < card (remaining so_far)"
      using karnaugh_round[OF Suc.prems(1) _ _ new] r(3)[OF Some] by blast
    have "fst ` set ?km \<subseteq> addr ` {..<Suc n}" using s(3) Suc.prems(2) by (auto simp: lessThan_Suc)
    from Suc.IH[OF s(2) this] s(4) Suc.prems(3) r(1) Some s(1) show ?thesis by (simp add: kc2_lambda)
  qed
qed simp

lemma karnaugh_from_start:
  assumes "inj addr" "tt_ok t" "2 ^ degree t < fuel"
  shows "\<exists>km. karnaugh_loop addr t fuel 0 t [] = Some (Inr km) \<and> karnaugh_ok t km
    \<and> (\<forall>bs. length bs = degree t \<longrightarrow> cell t bs = TRUE \<longrightarrow> dealt_with km bs)"
proof (rule karnaugh_loop_ok[OF assms(1,2)])
  show "so_far_ok t t []" using assms(2) by (simp add: so_far_ok_def karnaugh_ok_def dealt_with_def)
  show "card (remaining t) < fuel" using remaining_bound[of t] assms(3) by simp
qed simp

section \<open>The expression of the Karnaugh map\<close>

definition clause_of :: "truth_table_with_predicates \<Rightarrow> nat \<times> bool \<Rightarrow> Expression" where
  "clause_of w p = (if snd p then hd (predicates w ! fst p) else NotOperator (hd (predicates w ! fst p)))"

definition term_of_slice :: "truth_table_with_predicates \<Rightarrow> SliceSpec \<Rightarrow> Expression" where
  "term_of_slice w sl = AndOperator (map (clause_of w) sl)"

lemma karnaugh_term_eq:
  assumes "ttwp_ok Od w" "slice_ok (length (predicates w)) sl"
  shows "karnaugh_term w sl = Inr (term_of_slice w sl)"
proof -
  have ax: "axes_ok Od (predicates w)" using assms(1) by (simp add: ttwp_ok_def)
  have "karnaugh_clause w p = Inr (clause_of w p)" if p: "p \<in> set sl" for p
  proof -
    have "fst p < length (predicates w)" using assms(2) p by (auto simp: slice_ok_def)
    then show ?thesis by (simp add: karnaugh_clause_def clause_of_def GetFrontPredicate_ok[OF ax])
  qed
  then have "mapE (karnaugh_clause w) sl = Inr (map (clause_of w) sl)" by (rule mapE_Inr)
  then show ?thesis by (simp add: karnaugh_term_def term_of_slice_def)
qed

lemma truth_clause:
  "IsPredicate (hd (predicates w ! fst p)) \<Longrightarrow> truth \<sigma> (clause_of w p) \<longleftrightarrow> \<sigma> (hd (predicates w ! fst p)) = snd p"
  by (simp add: clause_of_def truth_predicate)

lemma truth_term:
  assumes "slice_ok (length (predicates w)) sl" "\<forall>S \<in> set (predicates w). IsPredicate (hd S)"
  shows "truth \<sigma> (term_of_slice w sl) \<longleftrightarrow> matches sl (map (\<lambda>S. \<sigma> (hd S)) (predicates w))"
proof -
  have "truth \<sigma> (clause_of w p) \<longleftrightarrow> map (\<lambda>S. \<sigma> (hd S)) (predicates w) ! fst p = snd p" if "p \<in> set sl" for p
  proof -
    have "fst p < length (predicates w)" using assms(1) that by (auto simp: slice_ok_def)
    then show ?thesis using assms(2) by (simp add: truth_clause)
  qed
  then show ?thesis by (auto simp: term_of_slice_def list_all_iff matches_def)
qed

lemma karnaugh_expression:
  assumes "inj (slice_address env)" "ttwp_ok Od w" "2 ^ length (predicates w) < fuel"
  shows "\<exists>km. GetExpressionViaKarnaughMap env fuel w = Some (Inr (OrOperator (map (\<lambda>p. term_of_slice w (snd p)) km)))
    \<and> karnaugh_ok (table w) km \<and> (\<forall>bs. length bs = length (predicates w) \<longrightarrow> cell (table w) bs = TRUE \<longrightarrow> dealt_with km bs)"
proof -
  have t: "tt_ok (table w)" "degree (table w) = length (predicates w)" using assms(2) by (simp_all add: ttwp_ok_def)
  obtain km where km: "karnaugh_loop (slice_address env) (table w) fuel 0 (table w) [] = Some (Inr km)"
    "karnaugh_ok (table w) km" "\<forall>bs. length bs = length (predicates w) \<longrightarrow> cell (table w) bs = TRUE \<longrightarrow> dealt_with km bs"
    using karnaugh_from_start[OF assms(1) t(1), of fuel] assms(3) t(2) by auto
  have "mapE (\<lambda>p. karnaugh_term w (snd p)) km = Inr (map (\<lambda>p. term_of_slice w (snd p)) km)"
    using km(2) t(2) by (intro mapE_Inr karnaugh_term_eq[OF assms(2)]) (simp add: karnaugh_ok_def)
  then show ?thesis using km by (intro exI[of _ km]) (simp add: GetExpressionViaKarnaughMap_def)
qed

text \<open>C21: The search for a Karnaugh map ends, after at most two to the number of axes rounds, and gives a
  disjunction that is true at the combinations of predicate values where the table has \<open>TRUE\<close>, false where
  it has \<open>FALSE\<close>, and free to choose where it has \<open>DONT_CARE\<close>.\<close>

theorem GetExpressionViaKarnaughMap_correct:
  assumes "inj (slice_address env)" "ttwp_ok Od w" "\<forall>S \<in> set (predicates w). IsPredicate (hd S)"
    "2 ^ length (predicates w) < fuel"
  shows "\<exists>terms. GetExpressionViaKarnaughMap env fuel w = Some (Inr (OrOperator terms))
    \<and> (\<forall>\<sigma>. case cell (table w) (map (\<lambda>S. \<sigma> (hd S)) (predicates w)) of
          TRUE \<Rightarrow> truth \<sigma> (OrOperator terms) | FALSE \<Rightarrow> \<not> truth \<sigma> (OrOperator terms) | DONT_CARE \<Rightarrow> True)"
proof -
  obtain km where km: "GetExpressionViaKarnaughMap env fuel w = Some (Inr (OrOperator (map (\<lambda>p. term_of_slice w (snd p)) km)))"
    "karnaugh_ok (table w) km" "\<forall>bs. length bs = length (predicates w) \<longrightarrow> cell (table w) bs = TRUE \<longrightarrow> dealt_with km bs"
    using karnaugh_expression[OF assms(1,2,4)] by blast
  have d: "degree (table w) = length (predicates w)" using assms(2) by (simp add: ttwp_ok_def)
  have "truth \<sigma> (OrOperator (map (\<lambda>p. term_of_slice w (snd p)) km)) \<longleftrightarrow> dealt_with km (map (\<lambda>S. \<sigma> (hd S)) (predicates w))" for \<sigma>
    using km(2) d truth_term[OF _ assms(3)] by (auto simp: list_ex_iff dealt_with_def karnaugh_ok_def)
  moreover have "\<not> dealt_with km bs" if "length bs = length (predicates w)" "cell (table w) bs = FALSE" for bs
    using km(2) that d by (auto simp: dealt_with_def karnaugh_ok_def)
  ultimately show ?thesis using km(1,3) by (intro exI conjI[OF km(1)]) (auto split: CellType.split)
qed

theorem GetExpressionViaKarnaughMap_correct_witness:
  "\<exists>w terms. PreSolve example_solver example_pair = Inr w
    \<and> GetExpressionViaKarnaughMap example_solver 20 w = Some (Inr (OrOperator terms))
    \<and> truth (holds flat_tree (numbered_kit [(1, 5), (2, 4), (3, 6)])) (OrOperator terms)"
proof -
  let ?kit = "numbered_kit [(1, 5), (2, 4), (3, 6)]"
  obtain w where w: "PreSolve example_solver example_pair = Inr w" "decides example_solver example_pair w"
    using PreSolve_ok[OF example_solvable] by blast
  have ok: "ttwp_ok example_order w" "inj (slice_address example_solver)"
    using w(2) by (simp_all add: decides_def inj_def)
  have "length (predicates w) \<le> 2" using decides_degree[OF _ w(2)] by (simp add: card_insert_if split: if_splits)
  then have "2 ^ length (predicates w) \<le> (2 :: nat) ^ 2" by (intro power_increasing) simp_all
  then have fuel: "2 ^ length (predicates w) < (20 :: nat)" by simp
  have fronts: "\<forall>S \<in> set (predicates w). IsPredicate (hd S)" using decides_fronts[OF w(2)] by auto
  have "cell (table w) (actual flat_tree ?kit (predicates w)) = TRUE"
    using decides_actual[OF example_solvable w(2), of ?kit] example_evaluates by simp
  then have "cell (table w) (map (\<lambda>S. holds flat_tree ?kit (hd S)) (predicates w)) = TRUE" by (simp add: actual_def)
  with GetExpressionViaKarnaughMap_correct[OF ok(2,1) fronts fuel] w(1) show ?thesis
    by (auto dest!: spec[of _ "holds flat_tree ?kit"])
qed

end
