(* ===== verification/Solutions.thy ===== *)
theory Solutions
  imports Solving
begin

text \<open>
  What the solutions for a variable mean: the solution of a predicate is a well-typed symbol expression
  over the other variables (\<open>TrySolveFor\<close>), and the solution of an expression contains the value of the
  variable whenever the expression holds (\<open>TrySolveForGiven\<close>), provided that the solutions of the
  predicates are exact.
\<close>

section \<open>The type of a solution\<close>

lemma a_to_equal_types:
  assumes "w \<in> {Child_a_to_equal q, Parent_a_to_equal q, MySequenceSuccessor_a_to_equal q, MySequencePredecessor_a_to_equal q, AllChildren_a_to_equal q}"
    "well_typed q" "IsSymbol q"
  shows "well_typed w \<and> IsSymbol w \<and> set (GetRequiredVariables w) = set (GetRequiredVariables q)"
  using assms
  by (auto simp: Child_a_to_equal_def Parent_a_to_equal_def MySequenceSuccessor_a_to_equal_def MySequencePredecessor_a_to_equal_def
      AllChildren_a_to_equal_def well_typed.simps[of "XTreeDbToSymbolOperator k x" for k x] well_typed.simps[of "AllChildrenOperator x" for x]
      IsSymbol_def GetRequiredVariables_set)

lemma TrySolveForToEqual_type:
  assumes "nodes_distinct Od" "TrySolveForToEqual Od e (SymbolVariable v) q = Some s" "well_typed q" "IsSymbol q"
  shows "well_typed s \<and> IsSymbol s \<and> set (GetRequiredVariables s) = set (GetRequiredVariables q) \<and> v \<notin> set (GetRequiredVariables s)"
  using assms(2-4)
proof (induction e arbitrary: q rule: expression_induct)
  case (operands e)
  note s = TrySolveForToEqual.simps[of Od e "SymbolVariable v" q]
  have below: ?case if "a \<in> set (GetOperands e)" "TrySolveForToEqual Od a (SymbolVariable v) w = Some s"
    "w \<in> {Child_a_to_equal q, Parent_a_to_equal q, MySequenceSuccessor_a_to_equal q, MySequencePredecessor_a_to_equal q, AllChildren_a_to_equal q}" for a w
    using operands(1)[OF that(1,2)] a_to_equal_types[OF that(3) operands(3,4)] by blast
  show ?case
  proof (cases e)
    case (SymbolVariable u)
    then show ?thesis
      using operands(2-4) s IsIndependentOf_variable[OF assms(1), of q v]
      by (simp add: SymbolVariable_TrySolveForToEqual_def split: if_splits)
  next
    case (ChildOperator k arch i a)
    then show ?thesis using operands(2) s by (intro below[of a "Child_a_to_equal q"]) simp_all
  next
    case (XTreeDbToSymbolOperator k a)
    then have a: "a \<in> set (GetOperands e)" by simp
    from XTreeDbToSymbolOperator operands(2) s consider
        "TrySolveForToEqual Od a (SymbolVariable v) (Parent_a_to_equal q) = Some s"
      | "TrySolveForToEqual Od a (SymbolVariable v) (MySequenceSuccessor_a_to_equal q) = Some s"
      | "TrySolveForToEqual Od a (SymbolVariable v) (MySequencePredecessor_a_to_equal q) = Some s"
      by (simp split: if_splits)
    then show ?thesis by cases (rule below[OF a], assumption, simp)+
  next
    case (AllChildrenOperator a)
    then show ?thesis using operands(2) s by (intro below[of a "AllChildren_a_to_equal q"]) simp_all
  qed (use operands(2) s in simp_all)
qed

section \<open>How predicates are solved\<close>

lemma distinct_pairs_two: "distinct_pairs [a, b] = [(b, a), (a, b)]"
  by (simp add: distinct_pairs_def)

lemma IsEqual_TrySolveFor_eq:
  "IsEqual_TrySolveFor Od a b t
    = Inr (case TrySolveForToEqual Od b t a of Some s \<Rightarrow> Some s | None \<Rightarrow> TrySolveForToEqual Od a t b)"
  by (simp add: IsEqual_TrySolveFor_def ForAllDistinctPairs_eq distinct_pairs_two Let_def split: option.split)

lemma IsSimpleCompareEquivalent_unsolved: "IsSimpleCompareEquivalent_TrySolveFor Od a b t = Inr None"
  by (simp add: IsSimpleCompareEquivalent_TrySolveFor_def ForAllDistinctPairs_eq distinct_pairs_two Let_def)

lemma Comparison_TrySolveFor_eq:
  assumes "GetRanges c a b = [ra, rb]"
  shows "Comparison_TrySolveFor Od c a b t
    = Inr (case TrySolveForToEqual Od a t ra of Some s \<Rightarrow> Some s | None \<Rightarrow> TrySolveForToEqual Od b t rb)"
  using assms by (simp add: Comparison_TrySolveFor_def Zip_def split: option.split)

text \<open>Each operand of \<open>AllDiff\<close> is solved against the rest of the operands.\<close>

lemma all_diff_loop_Some:
  "all_diff_loop Od t sa (sa @ done) = Some s \<Longrightarrow>
     \<exists>ys e0 zs. sa = ys @ e0 # zs
       \<and> TrySolveForToEqual Od e0 t (ComplementOperator (UnionOperator (zs @ done @ ys))) = Some s"
proof (induction sa arbitrary: "done")
  case (Cons e0 sa)
  show ?case
  proof (cases "TrySolveForToEqual Od e0 t (ComplementOperator (UnionOperator (sa @ done)))")
    case None
    with Cons.prems have "all_diff_loop Od t sa (sa @ (done @ [e0])) = Some s" by simp
    from Cons.IH[OF this] obtain ys e1 zs where
      "sa = ys @ e1 # zs" "TrySolveForToEqual Od e1 t (ComplementOperator (UnionOperator (zs @ (done @ [e0]) @ ys))) = Some s"
      by blast
    then show ?thesis by (intro exI[of _ "e0 # ys"] exI[of _ e1] exI[of _ zs]) simp
  next
    case (Some s')
    with Cons.prems show ?thesis by (intro exI[of _ "[]"] exI[of _ e0] exI[of _ sa]) simp
  qed
qed simp

lemma IsAllDiff_TrySolveFor_Some:
  assumes "IsAllDiff_TrySolveFor Od sa t = Inr (Some s)"
  obtains ys e0 zs where "sa = ys @ e0 # zs"
    "TrySolveForToEqual Od e0 t (ComplementOperator (UnionOperator (zs @ ys))) = Some s"
  using all_diff_loop_Some[of Od t sa "[]" s] assms by (auto simp: IsAllDiff_TrySolveFor_def)

text \<open>What an operand of a predicate must equal: a range, a complement or the other operand.\<close>

fun equals_for :: "tree_ops \<Rightarrow> SolveKit \<Rightarrow> Expression \<Rightarrow> (Expression \<times> Expression) set" where
  "equals_for T K (IsEqualOperator a b) = {(a, b), (b, a)}"
| "equals_for T K (DepthFirstComparisonOperator c a b) = {(a, GetRanges c a b ! 0), (b, GetRanges c a b ! 1)}"
| "equals_for T K (IsAllDiffOperator sa) =
     {(e0, ComplementOperator (UnionOperator (zs @ ys))) | ys e0 zs. sa = ys @ e0 # zs}"
| "equals_for T K (IsInCategoryOperator arch a) =
     {(a, AllInCategoryRangeOperator (category_bounds T (GetRangeListForCategory K arch)) True False)}"
| "equals_for T K e = {}"

lemma GetRanges_two: "\<exists>r r'. GetRanges c a b = [DepthFirstRangeOperator r b, DepthFirstRangeOperator r' a]"
  by (cases c) (simp_all add: IsGreater_GetRanges_def IsLess_GetRanges_def IsGreaterOrEqual_GetRanges_def IsLessOrEqual_GetRanges_def)

lemma TrySolveFor_Some:
  assumes "TrySolveFor Od T K p t = Inr (Some s)"
  shows "\<exists>e q. (e, q) \<in> equals_for T K p \<and> TrySolveForToEqual Od e t q = Some s"
proof (cases p)
  case (IsEqualOperator a b)
  with assms show ?thesis by (auto simp: TrySolveFor_def IsEqual_TrySolveFor_eq split: option.splits)
next
  case (DepthFirstComparisonOperator c a b)
  obtain ra rb where r: "GetRanges c a b = [ra, rb]" using GetRanges_two[of c a b] by blast
  from assms DepthFirstComparisonOperator show ?thesis
    by (auto simp: TrySolveFor_def Comparison_TrySolveFor_eq[OF r] r split: option.splits)
next
  case (IsAllDiffOperator sa)
  with assms have "IsAllDiff_TrySolveFor Od sa t = Inr (Some s)" by (simp add: TrySolveFor_def)
  then show ?thesis by (rule IsAllDiff_TrySolveFor_Some) (use IsAllDiffOperator in auto)
next
  case (IsInCategoryOperator arch a)
  with assms show ?thesis by (simp add: TrySolveFor_def IsInCategory_TrySolveFor_def)
qed (use assms in \<open>simp_all add: TrySolveFor_def IsSimpleCompareEquivalent_unsolved\<close>)

lemma TrySolveFor_total: "\<exists>r. TrySolveFor Od T K p t = Inr r"
proof (cases p)
  case (DepthFirstComparisonOperator c a b)
  obtain ra rb where r: "GetRanges c a b = [ra, rb]" using GetRanges_two[of c a b] by blast
  with DepthFirstComparisonOperator show ?thesis by (simp add: TrySolveFor_def Comparison_TrySolveFor_eq[OF r])
qed (simp_all add: TrySolveFor_def IsSimpleCompareEquivalent_unsolved IsEqual_TrySolveFor_eq IsAllDiff_TrySolveFor_def
    IsInCategory_TrySolveFor_def)

lemma category_bounds_types:
  "well_typed (AllInCategoryRangeOperator (category_bounds T rs) li ui)"
  "GetRequiredVariables (AllInCategoryRangeOperator (category_bounds T rs) li ui) = []"
proof -
  have "set (GetRequiredVariables (AllInCategoryRangeOperator (category_bounds T rs) li ui)) = {}"
    by (auto simp: GetRequiredVariables_set category_bounds_def)
  then show "GetRequiredVariables (AllInCategoryRangeOperator (category_bounds T rs) li ui) = []" by simp
  show "well_typed (AllInCategoryRangeOperator (category_bounds T rs) li ui)"
    by (auto simp: well_typed.simps[of "AllInCategoryRangeOperator x y z" for x y z] well_typed.simps[of "SymbolConstant x" for x]
        category_bounds_def list_all_iff IsSymbol_def)
qed

lemma equals_for_types:
  assumes "IsPredicate p" "well_typed p" "(e, q) \<in> equals_for T K p"
  shows "e \<in> set (GetOperands p) \<and> well_typed q \<and> IsSymbol q \<and> set (GetRequiredVariables q) \<subseteq> set (GetRequiredVariables p)"
proof -
  have ops: "\<forall>x \<in> set (GetOperands p). IsSymbol x \<and> well_typed x \<and> set (GetRequiredVariables x) \<subseteq> set (GetRequiredVariables p)"
    using predicate_operands_symbols[OF assms(2,1)] well_typed_operand[OF assms(2)] GetRequiredVariables_operand by blast
  show ?thesis
  proof (cases p)
    case (DepthFirstComparisonOperator c a b)
    obtain r r' where "GetRanges c a b = [DepthFirstRangeOperator r b, DepthFirstRangeOperator r' a]" using GetRanges_two by blast
    with DepthFirstComparisonOperator assms(3) ops show ?thesis
      by (auto simp: well_typed.simps[of "DepthFirstRangeOperator r x" for r x] IsSymbol_def GetRequiredVariables_set)
  next
    case (IsAllDiffOperator sa)
    with assms(3) ops show ?thesis
      by (auto simp: well_typed.simps[of "ComplementOperator x" for x] well_typed.simps[of "UnionOperator x" for x] IsSymbol_def
          list_all_iff GetRequiredVariables_set)
  next
    case (IsInCategoryOperator arch a)
    with assms(3) show ?thesis by (auto simp: category_bounds_types IsSymbol_def)
  qed (use assms ops in auto)
qed

text \<open>C37: What solving a well-typed predicate for a variable yields is a well-typed symbol expression that does
  not mention the variable, only other variables of the predicate.\<close>

theorem TrySolveFor_typed:
  assumes "nodes_distinct Od" "IsPredicate p" "well_typed p" "TrySolveFor Od T K p (SymbolVariable v) = Inr (Some s)"
  shows "well_typed s \<and> IsSymbol s \<and> set (GetRequiredVariables s) \<subseteq> set (GetRequiredVariables p) - {v}"
proof -
  obtain e q where q: "(e, q) \<in> equals_for T K p" "TrySolveForToEqual Od e (SymbolVariable v) q = Some s"
    using TrySolveFor_Some[OF assms(4)] by blast
  note t = equals_for_types[OF assms(2,3) q(1)]
  have "well_typed q" "IsSymbol q" using t by simp_all
  from TrySolveForToEqual_type[OF assms(1) q(2) this] t show ?thesis by blast
qed

theorem TrySolveFor_typed_witness:
  "TrySolveFor example_order flat_tree \<lparr>GetRangeListForCategory = \<lambda>arch. []\<rparr> (link_at_least 1 2) (SymbolVariable 2)
     = Inr (Some (DepthFirstRangeOperator AllLessOrEqual (SymbolVariable 1)))
   \<and> well_typed (DepthFirstRangeOperator AllLessOrEqual (SymbolVariable 1))"
proof -
  let ?s = "DepthFirstRangeOperator AllLessOrEqual (SymbolVariable 1)"
  have "OrderCompare3Way example_order (SymbolVariable 2) ?s \<noteq> 0"
    by (simp add: Compare3Way_zero_unfold)
  moreover have "IsIndependentOf example_order ?s (SymbolVariable 2)"
    by (simp add: IsIndependentOf_variable GetRequiredVariables_set)
  ultimately have s: "TrySolveFor example_order flat_tree \<lparr>GetRangeListForCategory = \<lambda>arch. []\<rparr> (link_at_least 1 2) (SymbolVariable 2) = Inr (Some ?s)"
    by (simp add: TrySolveFor_def link_at_least_def Comparison_TrySolveFor_def IsGreaterOrEqual_GetRanges_def Zip_def
        TrySolveForToEqual.simps[of example_order "SymbolVariable v" for v] SymbolVariable_TrySolveForToEqual_def variable_order)
  moreover have "well_typed (link_at_least 1 2)" using link_at_least_facts(1)[of 1 2] by (simp add: pred_ok_def)
  ultimately show ?thesis
    using TrySolveFor_typed[OF example_order_ok(1) _ _ s] by simp
qed

section \<open>The set of values that an expression evaluates to\<close>

definition has_set :: "tree_ops \<Rightarrow> EvalKit \<Rightarrow> Expression \<Rightarrow> XValue set \<Rightarrow> bool" where
  "has_set T kit e S \<longleftrightarrow>
     (\<exists>r s. EvaluateSymbol T kit e = Inr r \<and> Eval_SubsetResult r = Inr s \<and> subset_ok s \<and> denotes s = S)"

text \<open>The results of the set operators are subset results.\<close>

definition gives_subset :: "tree_ops \<Rightarrow> EvalKit \<Rightarrow> Expression \<Rightarrow> XValue set \<Rightarrow> bool" where
  "gives_subset T kit e S \<longleftrightarrow>
     (\<exists>s. EvaluateSymbol T kit e = Inr (Simple (SubsetRes s)) \<and> subset_ok s \<and> denotes s = S)"

lemma gives_subset_has_set: "gives_subset T kit e S \<Longrightarrow> has_set T kit e S"
  by (auto simp: gives_subset_def has_set_def Eval_SubsetResult_def SubsetResult_from_def)

lemma has_set_complement:
  "has_set T kit e S \<Longrightarrow> gives_subset T kit (ComplementOperator e) (- S)"
  by (auto simp: has_set_def gives_subset_def EvaluateSymbol.simps[of T kit "ComplementOperator e"] ComplementOperator_Evaluate_def
      SoloElementOf_def)

lemma has_set_operands:
  assumes "\<forall>e \<in> set es. has_set T kit e (S e)"
  shows "\<exists>rs ssrs. mapE (EvaluateSymbol T kit) es = Inr rs \<and> mapE Eval_SubsetResult rs = Inr ssrs
    \<and> (\<forall>s \<in> set ssrs. subset_ok s) \<and> map denotes ssrs = map S es"
  using assms by (induction es) (auto simp: has_set_def)

lemma map_denotes: "map denotes ssrs = map S es \<Longrightarrow> denotes ` set ssrs = S ` set es"
  by (metis list.set_map)

lemma has_set_union:
  assumes "\<forall>e \<in> set es. has_set T kit e (S e)"
  shows "gives_subset T kit (UnionOperator es) (\<Union>e \<in> set es. S e)"
proof -
  obtain rs ssrs where r: "mapE (EvaluateSymbol T kit) es = Inr rs" "mapE Eval_SubsetResult rs = Inr ssrs"
    "\<forall>s \<in> set ssrs. subset_ok s" "map denotes ssrs = map S es"
    using has_set_operands[OF assms] by blast
  obtain s where "GetUnion ssrs = Inr s" "subset_ok s" "denotes s = (\<Union>q \<in> set ssrs. denotes q)"
    by (rule GetUnion_spec[OF r(3)])
  with r map_denotes[OF r(4)] show ?thesis
    by (simp add: gives_subset_def EvaluateSymbol.simps[of T kit "UnionOperator es"] UnionOperator_Evaluate_def subset_operation_def)
qed

lemma has_set_intersection:
  assumes "\<forall>e \<in> set es. has_set T kit e (S e)"
  shows "gives_subset T kit (IntersectionOperator es) (\<Inter>e \<in> set es. S e)"
proof -
  obtain rs ssrs where r: "mapE (EvaluateSymbol T kit) es = Inr rs" "mapE Eval_SubsetResult rs = Inr ssrs"
    "\<forall>s \<in> set ssrs. subset_ok s" "map denotes ssrs = map S es"
    using has_set_operands[OF assms] by blast
  obtain s where "GetIntersection ssrs = Inr s" "subset_ok s" "denotes s = (\<Inter>q \<in> set ssrs. denotes q)"
    by (rule GetIntersection_spec[OF r(3)])
  with r map_denotes[OF r(4)] show ?thesis
    by (simp add: gives_subset_def EvaluateSymbol.simps[of T kit "IntersectionOperator es"] IntersectionOperator_Evaluate_def
        subset_operation_def)
qed

lemma has_set_conditional:
  assumes "EvaluateBoolean T kit c = Inr (BooleanResult b)" "has_set T kit t S"
  shows "has_set T kit (ConditionalOperator c t None) (if b then S else {})"
  using assms
  by (auto simp: has_set_def EvaluateSymbol.simps[of T kit "ConditionalOperator c t None"] Eval_SubsetResult_def
      SubsetResult_from_def subset_ok_def denotes_def)

lemma has_set_linked: "linked T kit e x \<Longrightarrow> has_set T kit e {x}"
proof -
  assume "linked T kit e x"
  then obtain r where r: "EvaluateSymbol T kit e = Inr r" "result_link r = Some x" by (auto simp: linked_def)
  have "\<exists>s. Eval_SubsetResult r = Inr s \<and> subset_ok s \<and> denotes s = {x}"
  proof (cases "\<exists>q. r = Simple (SubsetRes q)")
    case True
    then obtain q where q: "r = Simple (SubsetRes q)" "\<not> complement_flag q" "length (xlinks q) = 1" "SoloElementOf (xlinks q) = Inr x"
      using r(2) by (auto split: if_splits sum.splits)
    then obtain y where "xlinks q = [y]" by (auto simp: length_Suc_conv)
    with q show ?thesis by (simp add: SoloElementOf_def Eval_SubsetResult_def SubsetResult_from_def subset_ok_def denotes_def)
  next
    case False
    then show ?thesis
      using r(2) by (cases r rule: result_link.cases)
        (auto simp: Eval_SubsetResult_def SubsetResult_from_def subset_ok_def denotes_def split: if_splits sum.splits SymbolicResult.splits)
  qed
  then show ?thesis using r(1) by (simp add: has_set_def)
qed

section \<open>Categories of predicates\<close>

lemma address_equal: "inj A \<Longrightarrow> equivalent (address_less A) p q \<longleftrightarrow> p = q"
  by (auto simp: equivalent_def neq_iff dest: injD)

lemma address_covers: "inj A \<Longrightarrow> covers (address_less A) xs p \<longleftrightarrow> p \<in> set xs"
  by (auto simp: covers_def address_equal)

definition evaluatable :: "VariableId list \<Rightarrow> Expression \<Rightarrow> bool" where
  "evaluatable givens p \<longleftrightarrow> set (GetRequiredVariables p) \<subseteq> set givens"

definition within_reach :: "VariableId \<Rightarrow> VariableId list \<Rightarrow> Expression \<Rightarrow> bool" where
  "within_reach v givens p \<longleftrightarrow> set (GetRequiredVariables p) \<subseteq> insert v (set givens)"

text \<open>The solution of a predicate that has one.\<close>

definition solution_of :: "solver_env \<Rightarrow> VariableId \<Rightarrow> VariableId list \<Rightarrow> Expression \<Rightarrow> Expression option" where
  "solution_of env v givens p =
     (if within_reach v givens p \<and> \<not> evaluatable givens p
      then (case TrySolveFor (env_order env) (env_tree env) (env_solve env) p (SymbolVariable v) of Inr r \<Rightarrow> r | Inl _ \<Rightarrow> None)
      else None)"

definition categories_ok :: "solver_env \<Rightarrow> VariableId \<Rightarrow> VariableId list \<Rightarrow> Expression set \<Rightarrow> categories \<Rightarrow> bool" where
  "categories_ok env v givens P st \<longleftrightarrow>
     sorted_wrt (address_less (address env)) (fst st) \<and> set (fst st) = {p \<in> P. evaluatable givens p}
     \<and> sorted_keys (address_less (address env)) (snd st)
     \<and> (\<forall>p. map_find (address_less (address env)) p (snd st) = (if p \<in> P then solution_of env v givens p else None))"

lemma categorise_axis_ok:
  assumes nd: "nodes_distinct (env_order env)" and inj: "inj (address env)" and g: "sorted_set givens" "v \<notin> set givens"
    and front: "GetFrontPredicate w axis = Inr p" and st: "categories_ok env v givens P st"
  shows "\<exists>st'. categorise_axis env w v (UnionOf (<) givens [v]) axis st = Inr st' \<and> categories_ok env v givens (insert p P) st'"
proof -
  let ?lt = "address_less (address env)" and ?U = "UnionOf (<) givens [v]"
  note eq = address_equal[OF inj] and cov = address_covers[OF inj] and swo = address_order[of "address env"]
  have sf: "sorted_wrt ?lt (fst st)" "set (fst st) = {p \<in> P. evaluatable givens p}" "sorted_keys ?lt (snd st)"
    "\<forall>p. map_find ?lt p (snd st) = (if p \<in> P then solution_of env v givens p else None)"
    using st by (simp_all add: categories_ok_def)
  have "set (DifferenceOf (<) (GetRequiredVariables p) ?U) = set (GetRequiredVariables p) - insert v (set givens)"
    using DifferenceOf_lin(2)[of "GetRequiredVariables p" ?U] UnionOf_lin[of givens "[v]"] g(1) by simp
  then have diff: "DifferenceOf (<) (GetRequiredVariables p) ?U \<noteq> [] \<longleftrightarrow> \<not> within_reach v givens p"
    by (metis Diff_eq_empty_iff set_empty within_reach_def)
  note indep = IsIndependentOf_variable[OF nd, of p v]
  show ?thesis
  proof (cases "within_reach v givens p")
    case False
    then have "solution_of env v givens p = None" "\<not> evaluatable givens p"
      by (auto simp: solution_of_def within_reach_def evaluatable_def)
    then have "categories_ok env v givens (insert p P) st" using sf by (auto simp: categories_ok_def)
    then show ?thesis using False diff front by (simp add: categorise_axis_def Let_def)
  next
    case reach: True
    show ?thesis
    proof (cases "v \<in> set (GetRequiredVariables p)")
      case False
      with reach have ev: "evaluatable givens p" by (auto simp: within_reach_def evaluatable_def)
      then have none: "solution_of env v givens p = None" by (simp add: solution_of_def)
      note ins = strict_weak_order.container_insert_props[OF swo sf(1), of p, unfolded cov]
      have "categories_ok env v givens (insert p P) (fst (container_insert ?lt p (fst st)), snd st)"
        using ins sf ev none by (auto simp: categories_ok_def)
      then show ?thesis using False reach diff front indep by (simp add: categorise_axis_def Let_def)
    next
      case True
      with g(2) have ev: "\<not> evaluatable givens p" by (auto simp: evaluatable_def)
      obtain r where r: "TrySolveFor (env_order env) (env_tree env) (env_solve env) p (SymbolVariable v) = Inr r"
        using TrySolveFor_total by blast
      have sol: "solution_of env v givens p = r" using reach ev r by (simp add: solution_of_def)
      let ?st = "(fst st, case r of Some s \<Rightarrow> map_assign ?lt p s (snd st) | None \<Rightarrow> snd st)"
      have "categories_ok env v givens (insert p P) ?st"
        using sf ev sol strict_weak_order.sorted_map_assign[OF swo sf(3)] strict_weak_order.map_find_assign[OF swo sf(3)]
        by (auto simp: categories_ok_def eq split: option.split)
      moreover have "categorise_axis env w v ?U axis st = Inr ?st"
        using True reach diff front indep r by (cases r) (simp_all add: categorise_axis_def Let_def)
      ultimately show ?thesis by blast
    qed
  qed
qed

lemma categorise_axes_ok:
  assumes nd: "nodes_distinct (env_order env)" and inj: "inj (address env)" and g: "sorted_set givens" "v \<notin> set givens"
    and ax: "axes_ok (env_order env) (predicates w)" and k: "k \<le> length (predicates w)"
  shows "\<exists>st. foldE (categorise_axis env w v (UnionOf (<) givens [v])) [0..<k] ([], []) = Inr st
    \<and> categories_ok env v givens ((\<lambda>i. hd (predicates w ! i)) ` {..<k}) st"
  using k
proof (induction k)
  case 0
  then show ?case by (simp add: categories_ok_def)
next
  case (Suc k)
  then obtain st where st: "foldE (categorise_axis env w v (UnionOf (<) givens [v])) [0..<k] ([], []) = Inr st"
    "categories_ok env v givens ((\<lambda>i. hd (predicates w ! i)) ` {..<k}) st" by auto
  have "GetFrontPredicate w k = Inr (hd (predicates w ! k))" using Suc.prems by (simp add: GetFrontPredicate_ok[OF ax])
  from categorise_axis_ok[OF nd inj g this st(2)] st(1) show ?case
    by (auto simp: foldE_append lessThan_Suc)
qed

text \<open>An axis is live when its predicate can be evaluated or has a solution.\<close>

definition live :: "solver_env \<Rightarrow> VariableId \<Rightarrow> VariableId list \<Rightarrow> Expression \<Rightarrow> bool" where
  "live env v givens p \<longleftrightarrow> evaluatable givens p \<or> solution_of env v givens p \<noteq> None"

lemma find_dead_axes_ok:
  assumes inj: "inj (address env)" and ax: "axes_ok (env_order env) (predicates w)"
    and st: "categories_ok env v givens ((\<lambda>i. hd (predicates w ! i)) ` {..<length (predicates w)}) st"
    and k: "k \<le> length (predicates w)"
  shows "\<exists>dead. find_dead_axes env w st [0..<k] = Inr dead \<and> sorted_set dead
    \<and> set dead = {i. i < k \<and> \<not> live env v givens (hd (predicates w ! i))}"
  using k
proof (induction k)
  case 0
  then show ?case by (simp add: find_dead_axes_def)
next
  case (Suc k)
  then obtain dead where dead: "find_dead_axes env w st [0..<k] = Inr dead" "sorted_set dead"
    "set dead = {i. i < k \<and> \<not> live env v givens (hd (predicates w ! i))}" by auto
  let ?p = "hd (predicates w ! k)" and ?lt = "address_less (address env)"
  have front: "GetFrontPredicate w k = Inr ?p" using Suc.prems by (simp add: GetFrontPredicate_ok[OF ax])
  have "?p \<in> (\<lambda>i. hd (predicates w ! i)) ` {..<length (predicates w)}" using Suc.prems by auto
  then have l: "\<not> covers ?lt (fst st) ?p \<and> map_count ?lt ?p (snd st) = 0 \<longleftrightarrow> \<not> live env v givens ?p"
    using st strict_weak_order.map_count_find[OF address_order, of "address env" "snd st" ?p]
    by (auto simp: address_covers[OF inj] categories_ok_def live_def split: option.splits)
  let ?dead = "if live env v givens ?p then dead else fst (container_insert (<) k dead)"
  have "find_dead_axes env w st [0..<Suc k] = Inr ?dead"
    using dead(1) front l by (simp add: find_dead_axes_def Let_def foldE_append)
  moreover have "sorted_set ?dead \<and> set ?dead = {i. i < Suc k \<and> \<not> live env v givens (hd (predicates w ! i))}"
    using dead(2,3) lin.container_insert_props[OF dead(2), of k] by (auto simp: less_Suc_eq)
  ultimately show ?case by blast
qed

section \<open>Folding out the dead axes\<close>

lemma finite_cells: "finite (C :: CellType set)"
  by (rule finite_subset[of _ "{DONT_CARE, FALSE, TRUE}"]) (auto, metis CellType.exhaust)

lemma TRUE_greatest: "TRUE \<in> C \<Longrightarrow> Max C = TRUE"
proof -
  assume T: "TRUE \<in> C"
  have "c \<le> TRUE" for c by (cases c) (simp_all add: less_eq_CellType_def)
  then show ?thesis using T finite_cells by (intro Max_eqI) auto
qed

lemma folded_true:
  assumes ok: "order_ok Od" and w: "ttwp_ok Od w" and dead: "sorted_set dead" "\<forall>a \<in> set dead. a < length (predicates w)"
  shows "\<exists>wf. GetFolded_ttwp Od w dead = Inr wf \<and> ttwp_ok Od wf
    \<and> predicates wf = map ((!) (predicates w)) (fold_dest_axes (length (predicates w)) dead)
    \<and> (cell (table w) (map (\<lambda>S. h (hd S)) (predicates w)) = TRUE \<longrightarrow>
         cell (table wf) (map (\<lambda>S. h (hd S)) (predicates wf)) = TRUE)
    \<and> (dead = [] \<longrightarrow> predicates wf = predicates w \<and>
         cell (table wf) (map (\<lambda>S. h (hd S)) (predicates wf)) = cell (table w) (map (\<lambda>S. h (hd S)) (predicates w)))"
proof -
  let ?n = "length (predicates w)" and ?bs = "map (\<lambda>S. h (hd S)) (predicates w)"
  let ?dest = "fold_dest_axes ?n dead"
  have t: "tt_ok (table w)" "degree (table w) = ?n" using w by (simp_all add: ttwp_ok_def)
  obtain wf where wf: "GetFolded_ttwp Od w dead = Inr wf" "ttwp_ok Od wf" "GetFolded (table w) dead = Inr (table wf)"
    "predicates wf = map ((!) (predicates w)) ?dest"
    using GetFolded_ttwp_ok[OF ok w dead] by blast
  let ?di = "map (\<lambda>S. h (hd S)) (predicates wf)"
  have dest: "\<forall>i \<in> set ?dest. i < ?n" by (auto simp: fold_dest_axes_def)
  have di: "?di = map ((!) ?bs) ?dest" using wf(4) dest by simp
  obtain u where u: "GetFolded (table w) dead = Inr u" "degree u = length ?dest"
    "\<And>di. length di = degree u \<Longrightarrow> cell u di = folded_cell (table w) dead di"
    using GetFolded_spec[OF t(1) dead(1), of thesis] dead(2) t(2) by auto
  have c: "cell (table wf) ?di = folded_cell (table w) dead ?di" using u wf(3,4) by simp
  have "folded_cell (table w) dead ?di = TRUE" if "cell (table w) ?bs = TRUE"
  proof -
    have "matches (fold_slice ?n dead ?di) ?bs"
      unfolding di fold_slice_def matches_def by (auto simp: set_zip)
    then have "TRUE \<in> {cell (table w) bs | bs. length bs = degree (table w) \<and> matches (fold_slice (degree (table w)) dead ?di) bs}"
      using that t(2) by (intro CollectI exI[of _ ?bs]) simp
    then show ?thesis unfolding folded_cell_def by (rule TRUE_greatest)
  qed
  moreover have "predicates wf = predicates w \<and> folded_cell (table w) dead ?di = cell (table w) ?bs" if "dead = []"
  proof
    have dest: "?dest = [0..<?n]" using that by (simp add: fold_dest_axes_def)
    show p: "predicates wf = predicates w" using wf(4) dest by (simp add: map_nth)
    have "matches (fold_slice ?n dead ?bs) bs \<longleftrightarrow> bs = ?bs" if "length bs = ?n" for bs
      unfolding fold_slice_def dest using that by (subst matches_zip_upt) (auto intro: nth_equalityI)
    then have "{cell (table w) bs | bs. length bs = ?n \<and> matches (fold_slice ?n dead ?bs) bs} = {cell (table w) ?bs}" by auto
    then show "folded_cell (table w) dead ?di = cell (table w) ?bs" using p t(2) by (simp add: folded_cell_def)
  qed
  ultimately show ?thesis using wf(1,2,4) unfolding c[symmetric] by blast
qed

section \<open>Unions and intersections of solutions\<close>

lemma has_set_unique: "has_set T kit e S \<Longrightarrow> has_set T kit e S' \<Longrightarrow> S = S'"
  by (auto simp: has_set_def)

lemma intersection_of_sets:
  assumes "\<forall>e \<in> set es. \<exists>S. has_set T kit e S"
  shows "\<exists>S. gives_subset T kit (IntersectionOperator es) S
    \<and> ((\<forall>e \<in> set es. \<exists>S. has_set T kit e S \<and> x \<in> S) \<longleftrightarrow> x \<in> S)"
proof -
  obtain V where V: "\<forall>e \<in> set es. has_set T kit e (V e)" using bchoice[OF assms] by blast
  have "x \<in> V e" if "e \<in> set es" "has_set T kit e S" "x \<in> S" for e S
    using V that has_set_unique by blast
  then have "(\<forall>e \<in> set es. \<exists>S. has_set T kit e S \<and> x \<in> S) \<longleftrightarrow> x \<in> (\<Inter>e \<in> set es. V e)" using V by blast
  with has_set_intersection[OF V] show ?thesis by blast
qed

lemma union_of_sets:
  assumes "\<forall>e \<in> set es. \<exists>S. has_set T kit e S"
  shows "\<exists>S. gives_subset T kit (UnionOperator es) S
    \<and> ((\<exists>e \<in> set es. \<exists>S. has_set T kit e S \<and> x \<in> S) \<longleftrightarrow> x \<in> S)"
proof -
  obtain V where V: "\<forall>e \<in> set es. has_set T kit e (V e)" using bchoice[OF assms] by blast
  have "x \<in> V e" if "e \<in> set es" "has_set T kit e S" "x \<in> S" for e S
    using V that has_set_unique by blast
  then have "(\<exists>e \<in> set es. \<exists>S. has_set T kit e S \<and> x \<in> S) \<longleftrightarrow> x \<in> (\<Union>e \<in> set es. V e)" using V by blast
  with has_set_union[OF V] show ?thesis by blast
qed

section \<open>Solving the terms\<close>

definition interand_of :: "solver_env \<Rightarrow> VariableId \<Rightarrow> VariableId list \<Rightarrow> bool \<Rightarrow> Expression \<Rightarrow> Expression" where
  "interand_of env v givens b p =
     (let s = the (solution_of env v givens p) in if b then s else ComplementOperator s)"

lemma clause_predicate_of:
  assumes "IsPredicate (hd (predicates w ! fst p))"
  shows "clause_predicate (clause_of w p) = Inr (\<not> snd p, hd (predicates w ! fst p))"
proof (cases "snd p")
  case True
  then show ?thesis using assms by (cases "hd (predicates w ! fst p)") (simp_all add: clause_of_def)
next
  case False
  then show ?thesis using assms by (simp add: clause_of_def SoloElementOf_def)
qed

lemma solve_clause_ok:
  assumes inj: "inj (address env)" and st: "categories_ok env v givens P st"
    and p: "IsPredicate (hd (predicates w ! fst p))" "hd (predicates w ! fst p) \<in> P" "live env v givens (hd (predicates w ! fst p))"
  shows "\<exists>ins'. solve_clause env st (clause_of w p) (ins, outs)
      = Inr (ins', outs @ (if evaluatable givens (hd (predicates w ! fst p)) then [clause_of w p] else []))
    \<and> set ins' = set ins \<union> (if evaluatable givens (hd (predicates w ! fst p)) then {}
        else {interand_of env v givens (snd p) (hd (predicates w ! fst p))})"
proof -
  let ?p = "hd (predicates w ! fst p)" and ?lt = "address_less (address env)"
  have ev: "covers ?lt (fst st) ?p \<longleftrightarrow> evaluatable givens ?p"
    using st p(2) by (auto simp: address_covers[OF inj] categories_ok_def)
  have find: "map_find ?lt ?p (snd st) = solution_of env v givens ?p"
    using st p(2) by (simp add: categories_ok_def)
  have count: "map_count ?lt ?p (snd st) = (case solution_of env v givens ?p of None \<Rightarrow> 0 | Some s \<Rightarrow> 1)"
    using st find strict_weak_order.map_count_find[OF address_order, of "address env" "snd st" ?p] by (simp add: categories_ok_def)
  show ?thesis
  proof (cases "evaluatable givens ?p")
    case True
    then show ?thesis using ev by (simp add: solve_clause_def clause_predicate_of[OF p(1)] Let_def)
  next
    case False
    then obtain s where s: "solution_of env v givens ?p = Some s" using p(3) by (auto simp: live_def)
    show ?thesis using False ev find count s
      by (cases "snd p") (simp_all add: solve_clause_def clause_predicate_of[OF p(1)] Let_def map_at_def interand_of_def)
  qed
qed

lemma solve_clauses_ok:
  assumes inj: "inj (address env)" and st: "categories_ok env v givens P st"
    and ps: "\<forall>p \<in> set ps. IsPredicate (hd (predicates w ! fst p)) \<and> hd (predicates w ! fst p) \<in> P
      \<and> live env v givens (hd (predicates w ! fst p))"
  shows "\<exists>ins'. foldE (solve_clause env st) (map (clause_of w) ps) (ins, outs)
      = Inr (ins', outs @ map (clause_of w) (filter (\<lambda>p. evaluatable givens (hd (predicates w ! fst p))) ps))
    \<and> set ins' = set ins \<union> (\<lambda>p. interand_of env v givens (snd p) (hd (predicates w ! fst p)))
        ` set (filter (\<lambda>p. \<not> evaluatable givens (hd (predicates w ! fst p))) ps)"
  using ps
proof (induction ps arbitrary: ins outs)
  case (Cons p ps)
  let ?p = "hd (predicates w ! fst p)"
  obtain ins1 where i1: "solve_clause env st (clause_of w p) (ins, outs)
      = Inr (ins1, outs @ (if evaluatable givens ?p then [clause_of w p] else []))"
    "set ins1 = set ins \<union> (if evaluatable givens ?p then {} else {interand_of env v givens (snd p) ?p})"
    using solve_clause_ok[OF inj st, of w p ins outs] Cons.prems by auto
  obtain ins2 where i2: "foldE (solve_clause env st) (map (clause_of w) ps) (ins1, outs @ (if evaluatable givens ?p then [clause_of w p] else []))
      = Inr (ins2, (outs @ (if evaluatable givens ?p then [clause_of w p] else []))
          @ map (clause_of w) (filter (\<lambda>p. evaluatable givens (hd (predicates w ! fst p))) ps))"
    "set ins2 = set ins1 \<union> (\<lambda>p. interand_of env v givens (snd p) (hd (predicates w ! fst p)))
        ` set (filter (\<lambda>p. \<not> evaluatable givens (hd (predicates w ! fst p))) ps)"
    using Cons.IH[of ins1 "outs @ (if evaluatable givens ?p then [clause_of w p] else [])"] Cons.prems by auto
  show ?case
    using i1 i2 by (intro exI[of _ ins2]) (simp add: Un_ac)
qed simp

text \<open>The solution of a term: the kit evaluates the predicates it needs to \<open>h\<close>, and the solution of a
  predicate contains \<open>x\<close> exactly when the predicate is true under \<open>h\<close>.\<close>

definition solutions_exact ::
    "solver_env \<Rightarrow> EvalKit \<Rightarrow> VariableId \<Rightarrow> VariableId list \<Rightarrow> XValue \<Rightarrow> (Expression \<Rightarrow> bool) \<Rightarrow> Expression set \<Rightarrow> bool" where
  "solutions_exact env kit v givens x h P \<longleftrightarrow>
     (\<forall>p \<in> P. \<forall>s. solution_of env v givens p = Some s \<longrightarrow> (\<exists>S. has_set (env_tree env) kit s S \<and> (x \<in> S \<longleftrightarrow> h p)))"

lemma interand_has_set:
  assumes "solutions_exact env kit v givens x h P" "p \<in> P" "live env v givens p" "\<not> evaluatable givens p"
  shows "\<exists>S. has_set (env_tree env) kit (interand_of env v givens b p) S \<and> (x \<in> S \<longleftrightarrow> h p = b)"
proof -
  obtain s where s: "solution_of env v givens p = Some s" using assms(3,4) by (auto simp: live_def)
  then obtain S where S: "has_set (env_tree env) kit s S" "x \<in> S \<longleftrightarrow> h p"
    using assms(1,2) unfolding solutions_exact_def by blast
  show ?thesis
  proof (cases b)
    case True
    with s S show ?thesis by (auto simp: interand_of_def)
  next
    case False
    then show ?thesis
      using s S gives_subset_has_set[OF has_set_complement[OF S(1)]] by (auto simp: interand_of_def)
  qed
qed

lemma solve_term_ok:
  assumes inj: "inj (address env)" and st: "categories_ok env v givens P st"
    and ps: "\<forall>p \<in> set sl. IsPredicate (hd (predicates w ! fst p)) \<and> hd (predicates w ! fst p) \<in> P
      \<and> live env v givens (hd (predicates w ! fst p))"
    and P: "\<forall>p \<in> P. well_typed p" "gives (env_tree env) kit {p \<in> P. evaluatable givens p} h"
    and exact: "solutions_exact env kit v givens x h P"
  shows "\<exists>u S. solve_term env st (term_of_slice w sl) = Inr u \<and> has_set (env_tree env) kit u S
    \<and> (x \<in> S \<longleftrightarrow> (\<forall>p \<in> set sl. h (hd (predicates w ! fst p)) = snd p))"
proof -
  let ?front = "\<lambda>p. hd (predicates w ! fst p)" and ?T = "env_tree env"
  let ?ev = "filter (\<lambda>p. evaluatable givens (?front p)) sl"
  let ?all = "\<forall>p \<in> set sl. h (?front p) = snd p"
  obtain ins where ins: "foldE (solve_clause env st) (map (clause_of w) sl) ([], []) = Inr (ins, map (clause_of w) ?ev)"
    "set ins = (\<lambda>p. interand_of env v givens (snd p) (?front p)) ` set (filter (\<lambda>p. \<not> evaluatable givens (?front p)) sl)"
    using solve_clauses_ok[OF inj st ps, of "[]" "[]"] by auto
  have each: "\<exists>S. has_set ?T kit (interand_of env v givens (snd p) (?front p)) S \<and> (x \<in> S \<longleftrightarrow> h (?front p) = snd p)"
    if "p \<in> set sl" "\<not> evaluatable givens (?front p)" for p
    using interand_has_set[OF exact, of "?front p" "snd p"] ps that by blast
  then have "\<forall>i \<in> set ins. \<exists>S. has_set ?T kit i S" unfolding ins(2) by fastforce
  from intersection_of_sets[OF this, of x] obtain S where S: "gives_subset ?T kit (IntersectionOperator ins) S"
    "(\<forall>i \<in> set ins. \<exists>S. has_set ?T kit i S \<and> x \<in> S) \<longleftrightarrow> x \<in> S" by blast
  have member: "(\<exists>S. has_set ?T kit (interand_of env v givens (snd p) (?front p)) S \<and> x \<in> S) \<longleftrightarrow> h (?front p) = snd p"
    if "p \<in> set sl" "\<not> evaluatable givens (?front p)" for p
    using each[OF that] has_set_unique by blast
  have "(\<forall>i \<in> set ins. \<exists>S. has_set ?T kit i S \<and> x \<in> S)
      \<longleftrightarrow> (\<forall>p \<in> set sl. \<not> evaluatable givens (?front p) \<longrightarrow> h (?front p) = snd p)"
    unfolding ins(2) using member by (simp only: ball_simps set_filter mem_Collect_eq) blast
  with S have inter: "has_set ?T kit (IntersectionOperator ins) S"
    "x \<in> S \<longleftrightarrow> (\<forall>p \<in> set sl. \<not> evaluatable givens (?front p) \<longrightarrow> h (?front p) = snd p)"
    using gives_subset_has_set by blast+
  let ?outs = "map (clause_of w) ?ev"
  have run: "solve_term env st (term_of_slice w sl) = Inr (if ?outs = [] then IntersectionOperator ins
      else ConditionalOperator (TidiedAnd ?outs) (IntersectionOperator ins) None)"
    using ins(1) by (simp add: solve_term_def term_of_slice_def Let_def)
  have "\<forall>c \<in> set ?outs. clause_over {p \<in> P. evaluatable givens p} c"
    using ps P(1) by (auto simp: clause_of_def clause_over_predicate)
  from gives_truth[OF P(2) Tidied_clauses(1)[OF this]]
  have cond: "EvaluateBoolean ?T kit (TidiedAnd ?outs) = Inr (BooleanResult (conj_of h ?outs))" by simp
  have "conj_of h ?outs \<longleftrightarrow> (\<forall>p \<in> set sl. evaluatable givens (?front p) \<longrightarrow> h (?front p) = snd p)"
    using ps truth_clause[of w _ h] by (auto simp: conj_of_def)
  then have all: "x \<in> (if conj_of h ?outs then S else {}) \<longleftrightarrow> ?all" using inter(2) by auto
  show ?thesis
  proof (cases "?outs = []")
    case True
    then have "conj_of h ?outs" by (simp add: conj_of_def)
    with all run inter(1) True show ?thesis by auto
  next
    case False
    then show ?thesis using run all has_set_conditional[OF cond inter(1)] by auto
  qed
qed

lemma no_difference: "sorted_set xs \<Longrightarrow> sorted_set ys \<Longrightarrow> set xs \<subseteq> set ys \<Longrightarrow> DifferenceOf (<) xs ys = []"
  using DifferenceOf_lin(2)[of xs ys] by (metis Diff_eq_empty_iff set_empty)

lemma no_intersection: "sorted_set xs \<Longrightarrow> sorted_set ys \<Longrightarrow> set xs \<inter> set ys = {} \<Longrightarrow> IntersectionOf (<) xs ys = []"
  using IntersectionOf_lin(2)[of xs ys] by (metis set_empty)

text \<open>How a solution comes about: the categories, the table without its dead axes, its Karnaugh map and the
  solved terms.\<close>

definition term_ok :: "solver_env \<Rightarrow> VariableId \<Rightarrow> VariableId list \<Rightarrow> Expression set \<Rightarrow> truth_table_with_predicates \<Rightarrow> SliceSpec \<Rightarrow> bool" where
  "term_ok env v givens P w sl \<longleftrightarrow> (\<forall>p \<in> set sl. fst p < length (predicates w) \<and> IsPredicate (hd (predicates w ! fst p))
     \<and> hd (predicates w ! fst p) \<in> P \<and> live env v givens (hd (predicates w ! fst p)))"

definition solving_run ::
    "solver_env \<Rightarrow> nat \<Rightarrow> Expression \<Rightarrow> truth_table_with_predicates \<Rightarrow> VariableId \<Rightarrow> VariableId list
     \<Rightarrow> categories \<Rightarrow> nat list \<Rightarrow> truth_table_with_predicates \<Rightarrow> (nat \<times> SliceSpec) list \<Rightarrow> bool" where
  "solving_run env fuel e w v givens st dead folded km \<longleftrightarrow>
     (let P = (\<lambda>i. hd (predicates w ! i)) ` {..<length (predicates w)} in
      categories_ok env v givens P st \<and> sorted_set dead
      \<and> set dead = {i. i < length (predicates w) \<and> \<not> live env v givens (hd (predicates w ! i))}
      \<and> GetFolded_ttwp (env_order env) w dead = Inr folded \<and> ttwp_ok (env_order env) folded \<and> karnaugh_ok (table folded) km
      \<and> (\<forall>bs. length bs = length (predicates folded) \<longrightarrow> cell (table folded) bs = TRUE \<longrightarrow> dealt_with km bs)
      \<and> (\<forall>p \<in> set km. term_ok env v givens P folded (snd p))
      \<and> TrySolveForGiven env fuel e w v givens
          = Some (bindE (mapE (solve_term env st) (map (\<lambda>p. term_of_slice folded (snd p)) km)) (\<lambda>us. Inr (UnionOperator us))))"

lemma TrySolveForGiven_run:
  assumes solv: "solvable env e" and dec: "decides env e w"
    and fuel: "inj (slice_address env)" "2 ^ length (predicates w) < fuel"
    and vars: "sorted_set givens" "set givens \<subseteq> set (GetRequiredVariables e)" "v \<in> set (GetRequiredVariables e)" "v \<notin> set givens"
  shows "\<exists>st dead wf km. solving_run env fuel e w v givens st dead wf km"
proof -
  let ?Od = "env_order env" and ?n = "length (predicates w)"
  let ?P = "(\<lambda>i. hd (predicates w ! i)) ` {..<?n}"
  have nd: "nodes_distinct ?Od" and inj: "inj (address env)" using solv by (simp_all add: solvable_def)
  have oo: "order_ok ?Od" using nd by (simp add: nodes_distinct_def)
  have tw: "ttwp_ok ?Od w" using dec by (simp add: decides_def)
  then have ax: "axes_ok ?Od (predicates w)" and deg: "GetDegree w = Inr ?n" by (simp_all add: ttwp_ok_def GetDegree_ok)
  have "\<forall>p \<in> set (predicates_of e). IsPredicate p" using solv by (simp add: solvable_def pred_ok_def)
  moreover have "?P \<subseteq> set (predicates_of e)" using decides_fronts[OF dec] by auto
  ultimately have P: "\<forall>p \<in> ?P. IsPredicate p" by blast
  obtain st where st: "foldE (categorise_axis env w v (UnionOf (<) givens [v])) [0..<?n] ([], []) = Inr st"
    "categories_ok env v givens ?P st"
    using categorise_axes_ok[OF nd inj vars(1,4) ax order.refl] by blast
  obtain dead where dead: "find_dead_axes env w st [0..<?n] = Inr dead" "sorted_set dead"
    "set dead = {i. i < ?n \<and> \<not> live env v givens (hd (predicates w ! i))}"
    using find_dead_axes_ok[OF inj ax st(2) order.refl] by blast
  have "\<forall>a \<in> set dead. a < ?n" using dead(3) by blast
  from folded_true[OF oo tw dead(2) this] obtain wf where wf: "GetFolded_ttwp ?Od w dead = Inr wf" "ttwp_ok ?Od wf"
    "predicates wf = map ((!) (predicates w)) (fold_dest_axes ?n dead)" by blast
  have guards: "DifferenceOf (<) givens (GetRequiredVariables e) = []" "DifferenceOf (<) [v] (GetRequiredVariables e) = []"
      "IntersectionOf (<) [v] givens = []"
    using vars by (auto intro: no_difference no_intersection)
  have prep: "prepare_solve env e w v givens = Inr (st, wf)"
    using guards deg st(1) dead(1) wf(1) by (simp add: prepare_solve_def Let_def)
  have dest: "hd (predicates wf ! j) \<in> ?P \<and> live env v givens (hd (predicates wf ! j))" if "j < length (predicates wf)" for j
  proof -
    let ?i = "fold_dest_axes ?n dead ! j"
    have "?i \<in> set (fold_dest_axes ?n dead)" using that wf(3) by simp
    then have "?i < ?n" "?i \<notin> set dead" by (auto simp: fold_dest_axes_def)
    then show ?thesis using that wf(3) dead(3) by auto
  qed
  have "length (predicates wf) \<le> ?n" using wf(3) by (simp add: fold_dest_axes_def) (metis length_filter_le length_upt diff_zero)
  then have "2 ^ length (predicates wf) \<le> (2 :: nat) ^ ?n" by (intro power_increasing) simp_all
  from karnaugh_expression[OF fuel(1) wf(2) order.strict_trans1[OF this fuel(2)]]
  obtain km where km: "GetExpressionViaKarnaughMap env fuel wf = Some (Inr (OrOperator (map (\<lambda>p. term_of_slice wf (snd p)) km)))"
    "karnaugh_ok (table wf) km" "\<forall>bs. length bs = length (predicates wf) \<longrightarrow> cell (table wf) bs = TRUE \<longrightarrow> dealt_with km bs"
    by blast
  have "term_ok env v givens ?P wf (snd p)" if p: "p \<in> set km" for p
  proof -
    have "fst q < length (predicates wf)" if "q \<in> set (snd p)" for q
      using km(2) wf(2) p that by (auto simp: karnaugh_ok_def ttwp_ok_def slice_ok_def)
    with dest P show ?thesis unfolding term_ok_def by blast
  qed
  then show ?thesis
    using st(2) dead(2,3) wf(1,2) km prep
    by (intro exI[of _ st] exI[of _ dead] exI[of _ wf] exI[of _ km])
      (simp add: solving_run_def TrySolveForGiven_def solve_terms_def Let_def)
qed

lemma TrySolveForGiven_total:
  assumes "solvable env e" "decides env e w" "inj (slice_address env)" "2 ^ length (predicates w) < fuel"
    "sorted_set givens" "set givens \<subseteq> set (GetRequiredVariables e)" "v \<in> set (GetRequiredVariables e)" "v \<notin> set givens"
  shows "\<exists>s. TrySolveForGiven env fuel e w v givens = Some (Inr s)"
proof -
  obtain st dead wf km where run: "solving_run env fuel e w v givens st dead wf km" using TrySolveForGiven_run[OF assms] by blast
  let ?P = "(\<lambda>i. hd (predicates w ! i)) ` {..<length (predicates w)}"
  have inj: "inj (address env)" using assms(1) by (simp add: solvable_def)
  have st: "categories_ok env v givens ?P st" and terms: "\<forall>p \<in> set km. term_ok env v givens ?P wf (snd p)"
    using run by (simp_all add: solving_run_def Let_def)
  have "\<exists>u. solve_term env st (term_of_slice wf (snd p)) = Inr u" if "p \<in> set km" for p
    using solve_clauses_ok[OF inj st, of "snd p" wf "[]" "[]"] terms that
    by (fastforce simp: term_ok_def solve_term_def term_of_slice_def Let_def)
  then obtain U where "\<forall>p \<in> set km. solve_term env st (term_of_slice wf (snd p)) = Inr (U p)"
    using bchoice[of "set km"] by metis
  then have "mapE (solve_term env st) (map (\<lambda>p. term_of_slice wf (snd p)) km) = Inr (map U km)"
    by (simp add: mapE_all2 list_all2_map1 list_all2_map2 list_all2_same)
  then show ?thesis using run by (simp add: solving_run_def Let_def)
qed

lemma TrySolveForGiven_set:
  assumes solv: "solvable env e" and dec: "decides env e w"
    and fuel: "inj (slice_address env)" "2 ^ length (predicates w) < fuel"
    and vars: "sorted_set givens" "set givens \<subseteq> set (GetRequiredVariables e)" "v \<in> set (GetRequiredVariables e)" "v \<notin> set givens"
    and ev: "gives (env_tree env) kit {p \<in> set (predicates_of e). evaluatable givens p} h"
    and exact: "solutions_exact env kit v givens x h (set (predicates_of e))"
  shows "\<exists>s S. TrySolveForGiven env fuel e w v givens = Some (Inr s) \<and> gives_subset (env_tree env) kit s S
    \<and> (cell (table w) (map (\<lambda>S. h (hd S)) (predicates w)) = TRUE \<longrightarrow> x \<in> S)
    \<and> ((\<forall>S \<in> set (predicates w). live env v givens (hd S)) \<longrightarrow>
         cell (table w) (map (\<lambda>S. h (hd S)) (predicates w)) = FALSE \<longrightarrow> x \<notin> S)"
proof -
  let ?T = "env_tree env" and ?P = "(\<lambda>i. hd (predicates w ! i)) ` {..<length (predicates w)}"
  obtain st dead wf km where run: "solving_run env fuel e w v givens st dead wf km"
    using TrySolveForGiven_run[OF solv dec fuel vars] by blast
  let ?bs = "map (\<lambda>S. h (hd S)) (predicates w)" and ?di = "map (\<lambda>S. h (hd S)) (predicates wf)"
  have inj: "inj (address env)" and oo: "order_ok (env_order env)" and ok: "\<forall>p \<in> set (predicates_of e). pred_ok p"
    using solv by (simp_all add: solvable_def nodes_distinct_def)
  have sub: "?P \<subseteq> set (predicates_of e)" using decides_fronts[OF dec] by auto
  have P: "\<forall>p \<in> ?P. well_typed p" using sub ok by (auto simp: pred_ok_def)
  have st: "categories_ok env v givens ?P st" and terms: "\<forall>p \<in> set km. term_ok env v givens ?P wf (snd p)"
    and dead: "sorted_set dead" "set dead = {i. i < length (predicates w) \<and> \<not> live env v givens (hd (predicates w ! i))}"
    and wf: "GetFolded_ttwp (env_order env) w dead = Inr wf" "ttwp_ok (env_order env) wf"
    and km: "karnaugh_ok (table wf) km" "\<forall>bs. length bs = length (predicates wf) \<longrightarrow> cell (table wf) bs = TRUE \<longrightarrow> dealt_with km bs"
    using run by (simp_all add: solving_run_def Let_def)
  have "ttwp_ok (env_order env) w" "\<forall>a \<in> set dead. a < length (predicates w)" using dec dead(2) by (auto simp: decides_def)
  from folded_true[OF oo this(1) dead(1) this(2), of h] obtain wf' where wf': "GetFolded_ttwp (env_order env) w dead = Inr wf'"
    "cell (table w) ?bs = TRUE \<longrightarrow> cell (table wf') (map (\<lambda>S. h (hd S)) (predicates wf')) = TRUE"
    "dead = [] \<longrightarrow> cell (table wf') (map (\<lambda>S. h (hd S)) (predicates wf')) = cell (table w) ?bs" by blast
  have "wf' = wf" using wf(1) wf'(1) by simp
  then have folded: "cell (table w) ?bs = TRUE \<longrightarrow> cell (table wf) ?di = TRUE"
    "dead = [] \<longrightarrow> cell (table wf) ?di = cell (table w) ?bs" using wf'(2,3) by blast+
  have g: "gives ?T kit {p \<in> ?P. evaluatable givens p} h" using ev sub by (auto simp: gives_def)
  have ex: "solutions_exact env kit v givens x h ?P" using exact sub by (auto simp: solutions_exact_def)
  have "\<exists>u. solve_term env st (term_of_slice wf (snd p)) = Inr u \<and> (\<exists>S. has_set ?T kit u S \<and> (x \<in> S \<longleftrightarrow> matches (snd p) ?di))"
    if p: "p \<in> set km" for p
  proof -
    have t: "term_ok env v givens ?P wf (snd p)" using terms p by blast
    then have "matches (snd p) ?di \<longleftrightarrow> (\<forall>q \<in> set (snd p). h (hd (predicates wf ! fst q)) = snd q)"
      by (fastforce simp: matches_def term_ok_def)
    with solve_term_ok[OF inj st _ P g ex, of "snd p" wf] t show ?thesis unfolding term_ok_def by blast
  qed
  then obtain U where U: "\<forall>p \<in> set km. solve_term env st (term_of_slice wf (snd p)) = Inr (U p)
      \<and> (\<exists>S. has_set ?T kit (U p) S \<and> (x \<in> S \<longleftrightarrow> matches (snd p) ?di))"
    using bchoice[of "set km"] by metis
  then have "mapE (solve_term env st) (map (\<lambda>p. term_of_slice wf (snd p)) km) = Inr (map U km)"
    by (simp add: mapE_all2 list_all2_map1 list_all2_map2 list_all2_same)
  then have sol: "TrySolveForGiven env fuel e w v givens = Some (Inr (UnionOperator (map U km)))"
    using run by (simp add: solving_run_def Let_def)
  have "\<forall>u \<in> set (map U km). \<exists>S. has_set ?T kit u S" using U by auto
  from union_of_sets[OF this, of x] obtain S where S: "gives_subset ?T kit (UnionOperator (map U km)) S"
    "(\<exists>u \<in> set (map U km). \<exists>S. has_set ?T kit u S \<and> x \<in> S) \<longleftrightarrow> x \<in> S" by blast
  have "(\<exists>S. has_set ?T kit (U p) S \<and> x \<in> S) \<longleftrightarrow> matches (snd p) ?di" if "p \<in> set km" for p
    using U that has_set_unique by blast
  then have xS: "x \<in> S \<longleftrightarrow> dealt_with km ?di" using S(2) unfolding dealt_with_def by simp
  have "\<not> dealt_with km ?di" if "\<forall>S \<in> set (predicates w). live env v givens (hd S)" "cell (table w) ?bs = FALSE"
  proof -
    have "set dead = {}" using dead(2) that(1) by auto
    then have "cell (table wf) ?di = FALSE" using folded(2) that(2) unfolding set_empty by metis
    then show ?thesis using km(1) wf(2) by (auto simp: dealt_with_def karnaugh_ok_def ttwp_ok_def)
  qed
  moreover have "dealt_with km ?di" if "cell (table w) ?bs = TRUE" using km(2) folded(1) that by simp
  ultimately show ?thesis using sol S(1) xS by (intro exI[of _ "UnionOperator (map U km)"] exI[of _ S]) blast
qed

section \<open>Predicates of two variables\<close>

fun range_comparison :: "Range \<Rightarrow> Comparison" where
  "range_comparison AllGreater = IsGreater"
| "range_comparison AllLess = IsLess"
| "range_comparison AllGreaterOrEqual = IsGreaterOrEqual"
| "range_comparison AllLessOrEqual = IsLessOrEqual"

text \<open>The ordering of the tree database: sorted and without null links.\<close>

definition ordering_ok :: "x_tree_db \<Rightarrow> bool" where
  "ordering_ok db \<longleftrightarrow> three_way (DepthFirst_Compare3Way db)
     \<and> sorted_wrt (\<lambda>a b. DepthFirst_Compare3Way db a b < 0) (depth_first_ordering db)
     \<and> null_link \<notin> set (depth_first_ordering db)"

lemma range_has_set:
  assumes db: "kit_db kit = Some db" "ordering_ok db" and e: "linked T kit e y" "y \<in> set (depth_first_ordering db)"
  shows "has_set T kit (DepthFirstRangeOperator r e)
    {x \<in> set (depth_first_ordering db). EvalBoolFromDiff (range_comparison r) (DepthFirst_Compare3Way db x y)}"
proof -
  let ?c = "DepthFirst_Compare3Way db" and ?elems = "depth_first_ordering db"
  let ?lt = "\<lambda>a b. ?c a b < 0"
  have tw: "three_way ?c" and so: "sorted_wrt ?lt ?elems" using db(2) by (simp_all add: ordering_ok_def)
  have ne: "y \<noteq> null_link" using db(2) e(2) unfolding ordering_ok_def by metis
  note swo = three_way_order[OF tw] and flip = three_wayD(2)[OF tw]
  obtain q where q: "EvaluateSymbol T kit e = Inr q" "Eval_GetOnlyXLink q = Inr y"
    using e(1) result_link_Some by (auto simp: linked_def)
  let ?low = "r = AllGreater \<or> r = AllGreaterOrEqual"
  let ?lower = "if ?low then y else null_link" and ?upper = "if ?low then null_link else y"
  obtain s where s: "DepthFirst_TryExtensionalise ?lt ?elems ?lower (r = AllGreaterOrEqual) ?upper (r = AllLessOrEqual) = Inr s"
    "sorted_set s" "set s = {x \<in> set ?elems. in_range ?lt (opt_link ?lower) (r = AllGreaterOrEqual) (opt_link ?upper) (r = AllLessOrEqual) x}"
    by (rule DepthFirst_spec[OF swo so, of ?lower ?upper "r = AllGreaterOrEqual" "r = AllLessOrEqual"]) (use e(2) in auto)
  have "in_range ?lt (opt_link ?lower) (r = AllGreaterOrEqual) (opt_link ?upper) (r = AllLessOrEqual) x
      \<longleftrightarrow> EvalBoolFromDiff (range_comparison r) (?c x y)" for x
    using ne flip[of x y] flip[of y x] by (cases r) (auto simp: in_range_def below_lower_def within_upper_def opt_link_def)
  then have "set s = {x \<in> set ?elems. EvalBoolFromDiff (range_comparison r) (?c x y)}" using s(3) by simp
  moreover have "EvaluateSymbol T kit (DepthFirstRangeOperator r e)
      = Inr (DepthFirstRangeResult (Some db) ?lower (r = AllGreaterOrEqual) ?upper (r = AllLessOrEqual))"
    using q db(1) by (cases r) (simp_all add: EvaluateSymbol.simps[of T kit "DepthFirstRangeOperator r e" for r] SoloElementOf_def
        AllGreater_Evaluate_def AllLess_Evaluate_def AllGreaterOrEqual_Evaluate_def AllLessOrEqual_Evaluate_def)
  ultimately show ?thesis
    using s(1,2) by (simp add: has_set_def Eval_SubsetResult_def deref_def subset_ok_def denotes_def)
qed

definition direct :: "Expression \<Rightarrow> bool" where
  "direct p \<longleftrightarrow> (\<exists>a b. p = IsEqualOperator (SymbolVariable a) (SymbolVariable b))
     \<or> (\<exists>c a b. p = DepthFirstComparisonOperator c (SymbolVariable a) (SymbolVariable b))"

text \<open>The assignments give each variable a link of the ordering.\<close>

definition links_known :: "x_tree_db \<Rightarrow> Assignments \<Rightarrow> VariableId set \<Rightarrow> bool" where
  "links_known db f V \<longleftrightarrow> (\<forall>u \<in> V. \<exists>y. map_of f u = Some y \<and> y \<in> set (depth_first_ordering db))"

lemma variable_linked:
  assumes "hypothesis_links kit = Some f" "map_of f u = Some y" "y \<noteq> null_link"
  shows "linked T kit (SymbolVariable u) y"
  using assms by (simp add: linked_def EvaluateSymbol.simps[of T kit "SymbolVariable u"] deref_def make_UniqueResult_def new_UniqueResult_def)

lemma comparison_flip: "three_way c \<Longrightarrow> GetRanges cmp a b = [DepthFirstRangeOperator r b, DepthFirstRangeOperator r' a] \<Longrightarrow>
    range_comparison r = cmp \<and> EvalBoolFromDiff (range_comparison r') (c x y) = EvalBoolFromDiff cmp (c y x)"
  using three_wayD(2)[of c x y] three_wayD(2)[of c y x] three_wayD(3)[of c x y]
  by (cases cmp) (auto simp: IsGreater_GetRanges_def IsLess_GetRanges_def IsGreaterOrEqual_GetRanges_def IsLessOrEqual_GetRanges_def)

lemma solve_variable:
  "TrySolveForToEqual Od (SymbolVariable u) (SymbolVariable v) q = Some s \<Longrightarrow> u = v \<and> s = q"
  by (auto simp: TrySolveForToEqual.simps[of Od "SymbolVariable u"] SymbolVariable_TrySolveForToEqual_def variable_order
      of_bool_def split: if_splits)

lemma direct_solution_exact:
  assumes nd: "nodes_distinct (env_order env)" and kit: "hypothesis_links kit = Some f" "kit_db kit = Some db" "ordering_ok db"
    and laws: "tree_laws (env_tree env) (kit_db kit)"
    and p: "direct p" "links_known db f (set (GetRequiredVariables p))"
    and a: "\<forall>g \<in> set givens. map_of a g = map_of f g" and v: "v \<notin> set givens" "map_of f v = Some x"
    and sol: "solution_of env v givens p = Some s"
  shows "\<exists>S. has_set (env_tree env) (kit\<lparr>hypothesis_links := Some a\<rparr>) s S \<and> (x \<in> S \<longleftrightarrow> holds (env_tree env) kit p)"
proof -
  let ?T = "env_tree env" and ?kit = "kit\<lparr>hypothesis_links := Some a\<rparr>" and ?c = "DepthFirst_Compare3Way db"
  have tw: "three_way ?c" using kit(3) by (simp add: ordering_ok_def)
  have reach: "within_reach v givens p" "\<not> evaluatable givens p"
    and solved: "TrySolveFor (env_order env) ?T (env_solve env) p (SymbolVariable v) = Inr (Some s)"
    using sol by (auto simp: solution_of_def split: if_splits sum.splits)
  have wt: "IsPredicate p" "well_typed p"
    using p(1) by (auto simp: direct_def well_typed.simps[of "IsEqualOperator x y" for x y]
        well_typed.simps[of "DepthFirstComparisonOperator c x y" for c x y] well_typed.simps[of "SymbolVariable x" for x] IsSymbol_def)
  obtain e q where q: "(e, q) \<in> equals_for ?T (env_solve env) p" "TrySolveForToEqual (env_order env) e (SymbolVariable v) q = Some s"
    using TrySolveFor_Some[OF solved] by blast
  have sv: "v \<notin> set (GetRequiredVariables s)" "well_typed q" "IsSymbol q"
    using equals_for_types[OF wt q(1)] TrySolveForToEqual_type[OF nd q(2)] by blast+
  have known: "\<exists>y. map_of f u = Some y \<and> y \<in> set (depth_first_ordering db) \<and> y \<noteq> null_link \<and> linked ?T kit (SymbolVariable u) y"
    if u: "u \<in> set (GetRequiredVariables p)" for u
  proof -
    obtain y where y: "map_of f u = Some y" "y \<in> set (depth_first_ordering db)"
      using p(2) u unfolding links_known_def by blast
    moreover have "y \<noteq> null_link" using y(2) kit(3) unfolding ordering_ok_def by metis
    ultimately show ?thesis using variable_linked[OF kit(1) y(1)] by blast
  qed
  have given: "linked ?T ?kit (SymbolVariable u) y" if "linked ?T kit (SymbolVariable u) y" "u \<in> set (GetRequiredVariables p)" "u \<noteq> v" for u y
  proof -
    have "u \<in> set givens" using reach(1) that(2,3) by (auto simp: within_reach_def)
    then have "map_of a u = map_of f u" using a by blast
    then show ?thesis
      using known[OF that(2)] that(1) linked_unique[of ?T kit] variable_linked[of ?kit a u] by force
  qed
  have vars: "set (GetRequiredVariables p) = {l, r}" if "GetOperands p = [SymbolVariable l, SymbolVariable r]" for l r
    using that wt(1) by (subst GetRequiredVariables_set) auto
  from p(1) consider l r where "p = IsEqualOperator (SymbolVariable l) (SymbolVariable r)"
    | cmp l r where "p = DepthFirstComparisonOperator cmp (SymbolVariable l) (SymbolVariable r)"
    unfolding direct_def by blast
  then show ?thesis
  proof cases
    case (1 l r)
    then have vs: "set (GetRequiredVariables p) = {l, r}" using vars by simp
    obtain xl xr where x: "linked ?T kit (SymbolVariable l) xl" "linked ?T kit (SymbolVariable r) xr" "map_of f l = Some xl" "map_of f r = Some xr"
      using known vs by (metis insertI1 insertI2)
    have h: "holds ?T kit p \<longleftrightarrow> xl = xr" using x(1,2) by (auto simp: 1 holds_simps[OF laws] linked_iff)
    consider "l = v" "s = SymbolVariable r" | "r = v" "s = SymbolVariable l"
      using q 1 by (auto dest!: solve_variable)
    then show ?thesis
    proof cases
      case 1
      then have "r \<noteq> v" using sv(1) by auto
      with given[OF x(2)] vs have "has_set ?T ?kit s {xr}" using 1 by (simp add: has_set_linked)
      with h 1 x(3) v(2) show ?thesis by (intro exI[of _ "{xr}"]) simp
    next
      case 2
      then have "l \<noteq> v" using sv(1) by auto
      with given[OF x(1)] vs have "has_set ?T ?kit s {xl}" using 2 by (simp add: has_set_linked)
      with h 2 x(4) v(2) show ?thesis by (intro exI[of _ "{xl}"]) auto
    qed
  next
    case (2 cmp l r)
    then have vs: "set (GetRequiredVariables p) = {l, r}" using vars by simp
    obtain xl xr where x: "linked ?T kit (SymbolVariable l) xl" "linked ?T kit (SymbolVariable r) xr" "map_of f l = Some xl" "map_of f r = Some xr"
      "xl \<in> set (depth_first_ordering db)" "xr \<in> set (depth_first_ordering db)"
      using known vs by (metis insertI1 insertI2)
    have h: "holds ?T kit p \<longleftrightarrow> EvalBoolFromDiff cmp (?c xl xr)"
      using x(1,2) by (auto simp: 2 holds_simps[OF laws] linked_iff kit(2))
    obtain g g' where g: "GetRanges cmp (SymbolVariable l) (SymbolVariable r) = [DepthFirstRangeOperator g (SymbolVariable r), DepthFirstRangeOperator g' (SymbolVariable l)]"
      using GetRanges_two by blast
    note fl = comparison_flip[OF tw g]
    have db: "kit_db ?kit = Some db" using kit(2) by simp
    consider "l = v" "s = DepthFirstRangeOperator g (SymbolVariable r)" | "r = v" "s = DepthFirstRangeOperator g' (SymbolVariable l)"
      using q 2 g by (auto dest!: solve_variable)
    then show ?thesis
    proof cases
      case 1
      then have "r \<noteq> v" using sv(1) by (auto simp: GetRequiredVariables_set)
      with given[OF x(2)] vs have "linked ?T ?kit (SymbolVariable r) xr" by simp
      from range_has_set[OF db kit(3) this x(6), of g] show ?thesis
        using h 1 x(3,5) v(2) fl by (intro exI[of _ "{x \<in> set (depth_first_ordering db). EvalBoolFromDiff (range_comparison g) (?c x xr)}"]) auto
    next
      case 2
      then have "l \<noteq> v" using sv(1) by (auto simp: GetRequiredVariables_set)
      with given[OF x(1)] vs have "linked ?T ?kit (SymbolVariable l) xl" by simp
      from range_has_set[OF db kit(3) this x(5), of g'] show ?thesis
        using h 2 x(4,6) v(2) fl by (intro exI[of _ "{x \<in> set (depth_first_ordering db). EvalBoolFromDiff (range_comparison g') (?c x xl)}"]) auto
    qed
  qed
qed

text \<open>A direct predicate can be solved for each of its variables.\<close>

lemma solve_own_variable:
  assumes "nodes_distinct Od" "v \<notin> set (GetRequiredVariables q)"
  shows "TrySolveForToEqual Od (SymbolVariable v) (SymbolVariable v) q = Some q"
proof -
  have ok: "order_ok Od" using assms(1) by (simp add: nodes_distinct_def)
  have "q \<noteq> SymbolVariable v" using assms(2) by (auto simp: GetRequiredVariables_set)
  then have "OrderCompare3Way Od (SymbolVariable v) q \<noteq> 0"
    using variable_order[of Od v] by (cases q) (auto simp: Compare3Way_zero_unfold[OF ok] split: if_splits)
  with assms show ?thesis
    by (simp add: TrySolveForToEqual.simps[of Od "SymbolVariable v"] SymbolVariable_TrySolveForToEqual_def variable_order
        IsIndependentOf_variable)
qed

lemma direct_live:
  assumes nd: "nodes_distinct (env_order env)" and p: "direct p" "pred_ok p" "within_reach v givens p"
  shows "live env v givens p"
proof (cases "evaluatable givens p")
  case False
  let ?solve = "TrySolveFor (env_order env) (env_tree env) (env_solve env) p (SymbolVariable v)"
  have in_p: "v \<in> set (GetRequiredVariables p)" using p(3) False by (auto simp: within_reach_def evaluatable_def)
  obtain l r where ops: "GetOperands p = [SymbolVariable l, SymbolVariable r]" using p(1) by (auto simp: direct_def)
  have "IsPredicate p" using p(2) by (simp add: pred_ok_def)
  then have "set (GetRequiredVariables p) = {l, r}" using ops by (subst GetRequiredVariables_set) auto
  then have ne: "l \<noteq> r" and lr: "v = l \<or> v = r" using p(2) in_p ops by (auto simp: pred_ok_def)
  note own = solve_own_variable[OF nd, of v]
  have "?solve \<noteq> Inr None"
    using p(1) unfolding direct_def
  proof (elim disjE exE)
    fix a b assume "p = IsEqualOperator (SymbolVariable a) (SymbolVariable b)"
    with ops ne lr own[of "SymbolVariable l"] own[of "SymbolVariable r"] show ?thesis
      by (auto simp: TrySolveFor_def IsEqual_TrySolveFor_eq GetRequiredVariables_set split: option.split)
  next
    fix c a b assume p': "p = DepthFirstComparisonOperator c (SymbolVariable a) (SymbolVariable b)"
    then have ab: "a = l" "b = r" using ops by simp_all
    obtain g g' where g: "GetRanges c (SymbolVariable l) (SymbolVariable r)
        = [DepthFirstRangeOperator g (SymbolVariable r), DepthFirstRangeOperator g' (SymbolVariable l)]"
      using GetRanges_two by blast
    from p' ab ne lr own[of "DepthFirstRangeOperator g (SymbolVariable r)"] own[of "DepthFirstRangeOperator g' (SymbolVariable l)"]
    show ?thesis
      by (auto simp: TrySolveFor_def Comparison_TrySolveFor_eq[OF g] GetRequiredVariables_set split: option.split)
  qed
  with TrySolveFor_total[of "env_order env" "env_tree env" "env_solve env" p "SymbolVariable v"] p(3) False
  show ?thesis by (auto simp: live_def solution_of_def split: sum.splits)
qed (simp add: live_def)

section \<open>Solutions of expressions\<close>

lemma gives_local:
  assumes kit: "unforced kit" "hypothesis_links kit = Some f" and a: "\<forall>g \<in> set givens. map_of a g = map_of f g"
    and P: "\<forall>p \<in> P. IsPredicate p \<and> well_typed p \<and> (\<exists>b. EvaluateBoolean T kit p = Inr (BooleanResult b))"
  shows "gives T (kit\<lparr>hypothesis_links := Some a\<rparr>) {p \<in> P. evaluatable givens p} (holds T kit)"
  unfolding gives_def
proof
  fix p assume p: "p \<in> {p \<in> P. evaluatable givens p}"
  then obtain b where b: "EvaluateBoolean T kit p = Inr (BooleanResult b)" "b = holds T kit p"
    using P holds_iff[OF kit(1)] by blast
  have "\<forall>u \<in> set (GetRequiredVariables p). map_of f u = map_of a u" using p a by (auto simp: evaluatable_def)
  with Evaluate_local[of kit f "kit\<lparr>hypothesis_links := Some a\<rparr>" a p T] kit(2) b
  show "EvaluateBoolean T (kit\<lparr>hypothesis_links := Some a\<rparr>) p = Inr (BooleanResult (holds T kit p))" by simp
qed

text \<open>What the solution says of a value \<open>x\<close> when \<open>kit\<close> gives the variable that value.\<close>

lemma TrySolveForGiven_values:
  assumes solv: "solvable env e" and w: "PreSolve env e = Inr w" and fuel: "inj (slice_address env)" "2 ^ length (predicates w) < fuel"
    and vars: "sorted_set givens" "set givens \<subseteq> set (GetRequiredVariables e)" "v \<in> set (GetRequiredVariables e)" "v \<notin> set givens"
    and kit: "tree_laws (env_tree env) (kit_db kit)" "unforced kit" "hypothesis_links kit = Some f"
    and ev: "\<forall>p \<in> set (predicates_of e). \<exists>b. EvaluateBoolean (env_tree env) kit p = Inr (BooleanResult b)"
    and a: "\<forall>g \<in> set givens. map_of a g = map_of f g"
    and exact: "solutions_exact env (kit\<lparr>hypothesis_links := Some a\<rparr>) v givens x (holds (env_tree env) kit) (set (predicates_of e))"
  shows "\<exists>s S. TrySolveForGiven env fuel e w v givens = Some (Inr s)
    \<and> gives_subset (env_tree env) (kit\<lparr>hypothesis_links := Some a\<rparr>) s S
    \<and> (EvaluateBoolean (env_tree env) kit e = Inr (BooleanResult True) \<longrightarrow> x \<in> S)
    \<and> ((\<forall>p \<in> set (predicates_of e). live env v givens p) \<longrightarrow>
         (x \<in> S \<longleftrightarrow> EvaluateBoolean (env_tree env) kit e = Inr (BooleanResult True)))"
proof -
  let ?bs = "map (\<lambda>S. holds (env_tree env) kit (hd S)) (predicates w)"
  have dec: "decides env e w" using PreSolve_ok[OF solv] w by auto
  have P: "\<forall>p \<in> set (predicates_of e). IsPredicate p \<and> well_typed p \<and> (\<exists>b. EvaluateBoolean (env_tree env) kit p = Inr (BooleanResult b))"
    using solv ev by (simp add: solvable_def pred_ok_def)
  have "cell (table w) ?bs = TRUE \<or> cell (table w) ?bs = FALSE"
    using dec kit(1) unfolding decides_def actual_def by metis
  moreover have "EvaluateBoolean (env_tree env) kit e = Inr (BooleanResult True) \<longleftrightarrow> cell (table w) ?bs = TRUE"
    using decides_actual[OF solv dec kit(1,2) ev] by (auto simp: actual_def)
  moreover have "(\<forall>p \<in> set (predicates_of e). live env v givens p) \<longrightarrow> (\<forall>S \<in> set (predicates w). live env v givens (hd S))"
    using decides_fronts[OF dec] by blast
  moreover obtain s S where "TrySolveForGiven env fuel e w v givens = Some (Inr s)"
    "gives_subset (env_tree env) (kit\<lparr>hypothesis_links := Some a\<rparr>) s S" "cell (table w) ?bs = TRUE \<longrightarrow> x \<in> S"
    "(\<forall>S \<in> set (predicates w). live env v givens (hd S)) \<longrightarrow> cell (table w) ?bs = FALSE \<longrightarrow> x \<notin> S"
    using TrySolveForGiven_set[OF solv dec fuel vars gives_local[OF kit(2,3) a P] exact] by blast
  ultimately show ?thesis by (intro exI[of _ s] exI[of _ S]) auto
qed

text \<open>C17: Take a solvable expression, in which no predicate and none derived from two of them repeats an operand.
  Where the solutions of the predicates are exact, the solution of the expression for a variable always
  comes, can be evaluated from the given variables alone, and contains the value that the variable has in
  every assignment that makes the expression true.\<close>

theorem TrySolveForGiven_sound:
  assumes "solvable env e" "PreSolve env e = Inr w" "inj (slice_address env)" "2 ^ length (predicates w) < fuel"
    "sorted_set givens" "set givens \<subseteq> set (GetRequiredVariables e)" "v \<in> set (GetRequiredVariables e)" "v \<notin> set givens"
    "tree_laws (env_tree env) (kit_db kit)" "unforced kit" "hypothesis_links kit = Some f"
    "\<forall>p \<in> set (predicates_of e). \<exists>b. EvaluateBoolean (env_tree env) kit p = Inr (BooleanResult b)"
    "EvaluateBoolean (env_tree env) kit e = Inr (BooleanResult True)"
    "\<forall>g \<in> set givens. map_of a g = map_of f g"
    "solutions_exact env (kit\<lparr>hypothesis_links := Some a\<rparr>) v givens x (holds (env_tree env) kit) (set (predicates_of e))"
  shows "\<exists>s S. TrySolveForGiven env fuel e w v givens = Some (Inr s)
    \<and> gives_subset (env_tree env) (kit\<lparr>hypothesis_links := Some a\<rparr>) s S \<and> x \<in> S"
  using TrySolveForGiven_values[OF assms(1-12,14,15)] assms(13) by blast

definition ordered_db :: x_tree_db where
  "ordered_db = numbered_db\<lparr>depth_first_ordering := [3, 4, 5, 6]\<rparr>"

definition ordered_kit :: "Assignments \<Rightarrow> EvalKit" where
  "ordered_kit links = \<lparr>hypothesis_links = Some links, kit_db = Some ordered_db, force_expression = (\<lambda>e. None)\<rparr>"

lemma ordered_kit_simps [simp]:
  "hypothesis_links (ordered_kit links) = Some links" "kit_db (ordered_kit links) = Some ordered_db"
  "tree_laws flat_tree (Some ordered_db)" "unforced (ordered_kit links)" "ordering_ok ordered_db"
  "depth_first_ordering ordered_db = [3, 4, 5, 6]" "DepthFirst_Compare3Way ordered_db a b = int a - int b"
  "(ordered_kit links)\<lparr>hypothesis_links := Some links'\<rparr> = ordered_kit links'"
  by (simp_all add: ordered_kit_def ordered_db_def tree_laws_def flat_tree_def example_tree_def numbered_db_def three_way_def
      unforced_def ordering_ok_def)

lemma ordered_link_at_least:
  assumes "map_of links v = Some x" "map_of links w = Some y" "x \<noteq> null_link" "y \<noteq> null_link"
  shows "EvaluateBoolean flat_tree (ordered_kit links) (link_at_least v w) = Inr (BooleanResult (y \<le> x))"
proof -
  have "list_all2 (linked flat_tree (ordered_kit links)) (GetOperands (link_at_least v w)) [x, y]"
    using assms by (simp add: link_at_least_def variable_linked)
  from predicate_of_links[OF _ _ this] show ?thesis by (simp add: link_at_least_def deref_def)
qed

lemma example_variables: "GetRequiredVariables (link_at_least v w) = (if v = w then [v] else if v < w then [v, w] else [w, v])"
  by (rule GetRequiredVariables_eqI) (auto simp: link_at_least_def GetRequiredVariables_set)

lemma example_pair_variables: "GetRequiredVariables example_pair = [1, 2, 3]"
  by (rule GetRequiredVariables_eqI) (auto simp: example_pair_def GetRequiredVariables_set example_variables)

text \<open>The example expression, to be solved for the second variable with the links 5 and 6 given for the
  other two.\<close>

lemma example_pair_plan:
  "\<exists>w. PreSolve example_solver example_pair = Inr w \<and> decides example_solver example_pair w \<and> 2 ^ length (predicates w) < (20 :: nat)"
proof -
  obtain w where w: "PreSolve example_solver example_pair = Inr w" "decides example_solver example_pair w"
    using PreSolve_ok[OF example_solvable] by blast
  have "length (predicates w) \<le> 2" using decides_degree[OF _ w(2)] by (simp add: card_insert_if split: if_splits)
  then have "2 ^ length (predicates w) \<le> (2 :: nat) ^ 2" by (intro power_increasing) simp_all
  with w show ?thesis by (intro exI[of _ w]) simp
qed

lemma example_direct: "p \<in> set (predicates_of example_pair) \<Longrightarrow> direct p"
  by (auto simp: link_at_least_def direct_def)

lemma example_pair_cases:
  assumes "x \<in> {3, 4, 5, 6}"
  defines "kit \<equiv> ordered_kit [(1, 5), (2, x), (3, 6)]"
  shows "EvaluateBoolean flat_tree kit example_pair = Inr (BooleanResult (x \<le> 5))"
    "\<forall>p \<in> set (predicates_of example_pair). \<exists>b. EvaluateBoolean flat_tree kit p = Inr (BooleanResult b)"
    "solutions_exact example_solver (ordered_kit [(1, 5), (3, 6)]) 2 [1, 3] x (holds flat_tree kit) (set (predicates_of example_pair))"
proof -
  have vals: "EvaluateBoolean flat_tree kit (link_at_least 1 2) = Inr (BooleanResult (x \<le> 5))"
      "EvaluateBoolean flat_tree kit (link_at_least 2 3) = Inr (BooleanResult (6 \<le> x))"
    using assms(1) unfolding kit_def by (auto simp: ordered_link_at_least)
  from example_pair_value[OF this]
  show "EvaluateBoolean flat_tree kit example_pair = Inr (BooleanResult (x \<le> 5))" using assms(1) by auto
  show "\<forall>p \<in> set (predicates_of example_pair). \<exists>b. EvaluateBoolean flat_tree kit p = Inr (BooleanResult b)"
    using vals by auto
  show "solutions_exact example_solver (ordered_kit [(1, 5), (3, 6)]) 2 [1, 3] x (holds flat_tree kit) (set (predicates_of example_pair))"
    unfolding solutions_exact_def
  proof (intro ballI allI impI)
    fix p s assume p: "p \<in> set (predicates_of example_pair)" "solution_of example_solver 2 [1, 3] p = Some s"
    then have known: "links_known ordered_db [(1, 5), (2, x), (3, 6)] (set (GetRequiredVariables p))"
      using assms(1) by (auto simp: link_at_least_def links_known_def GetRequiredVariables_set)
    from direct_solution_exact[where kit = kit and db = ordered_db and a = "[(1, 5), (3, 6)]" and x = x,
        OF _ _ _ _ _ example_direct[OF p(1)] this _ _ _ p(2)]
    show "\<exists>S. has_set (env_tree example_solver) (ordered_kit [(1, 5), (3, 6)]) s S \<and> (x \<in> S \<longleftrightarrow> holds flat_tree kit p)"
      by (simp add: kit_def)
  qed
qed

text \<open>The example expression holds of the links 5, 4 and 6; its solution for the second variable contains 4.\<close>

theorem TrySolveForGiven_sound_witness:
  "\<exists>w s S. PreSolve example_solver example_pair = Inr w
    \<and> TrySolveForGiven example_solver 20 example_pair w 2 [1, 3] = Some (Inr s)
    \<and> gives_subset flat_tree (ordered_kit [(1, 5), (3, 6)]) s S \<and> 4 \<in> S"
proof -
  obtain w where w: "PreSolve example_solver example_pair = Inr w" "2 ^ length (predicates w) < (20 :: nat)"
    using example_pair_plan by blast
  show ?thesis
    using TrySolveForGiven_sound[OF example_solvable w(1) _ w(2), of "[1, 3]" 2 "ordered_kit [(1, 5), (2, 4), (3, 6)]"
        "[(1, 5), (2, 4), (3, 6)]" "[(1, 5), (3, 6)]" 4] example_pair_cases[of 4] w(1)
    by (simp add: example_pair_variables inj_def)
qed

text \<open>C4: When every predicate of a solvable expression, in which no predicate and none derived from two of them
  repeats an operand, can be evaluated from the given variables or solved exactly, the solution is exact: its set
  contains a value of the variable precisely when the expression is true.\<close>

theorem TrySolveForGiven_exact:
  assumes "solvable env e" "PreSolve env e = Inr w" "inj (slice_address env)" "2 ^ length (predicates w) < fuel"
    "sorted_set givens" "set givens \<subseteq> set (GetRequiredVariables e)" "v \<in> set (GetRequiredVariables e)" "v \<notin> set givens"
    "tree_laws (env_tree env) (kit_db kit)" "unforced kit" "hypothesis_links kit = Some f"
    "\<forall>p \<in> set (predicates_of e). \<exists>b. EvaluateBoolean (env_tree env) kit p = Inr (BooleanResult b)"
    "\<forall>g \<in> set givens. map_of a g = map_of f g"
    "solutions_exact env (kit\<lparr>hypothesis_links := Some a\<rparr>) v givens x (holds (env_tree env) kit) (set (predicates_of e))"
    "\<forall>p \<in> set (predicates_of e). live env v givens p"
  shows "\<exists>s S. TrySolveForGiven env fuel e w v givens = Some (Inr s)
    \<and> gives_subset (env_tree env) (kit\<lparr>hypothesis_links := Some a\<rparr>) s S
    \<and> (x \<in> S \<longleftrightarrow> EvaluateBoolean (env_tree env) kit e = Inr (BooleanResult True))"
  using TrySolveForGiven_values[OF assms(1-14)] assms(15) by blast

text \<open>With the links 5 and 6 given, the solution of the example expression leaves out 6.\<close>

theorem TrySolveForGiven_exact_witness:
  "\<exists>w s S. PreSolve example_solver example_pair = Inr w
    \<and> TrySolveForGiven example_solver 20 example_pair w 2 [1, 3] = Some (Inr s)
    \<and> gives_subset flat_tree (ordered_kit [(1, 5), (3, 6)]) s S \<and> 6 \<notin> S"
proof -
  obtain w where w: "PreSolve example_solver example_pair = Inr w" "2 ^ length (predicates w) < (20 :: nat)"
    using example_pair_plan by blast
  have "\<forall>p \<in> set (predicates_of example_pair). live example_solver 2 [1, 3] p"
    using example_direct example_solvable
    by (intro ballI direct_live) (auto simp: within_reach_def example_variables solvable_def)
  then show ?thesis
    using TrySolveForGiven_exact[OF example_solvable w(1) _ w(2), of "[1, 3]" 2 "ordered_kit [(1, 5), (2, 6), (3, 6)]"
        "[(1, 5), (2, 6), (3, 6)]" "[(1, 5), (3, 6)]" 6] example_pair_cases[of 6] w(1)
    by (simp add: example_pair_variables inj_def)
qed

section \<open>A negated equality with a child\<close>

lemma single_axis:
  assumes "decides env e w" "predicates_of e = [p]"
  shows "length (predicates w) = 1 \<and> (\<forall>S \<in> set (predicates w). hd S = p)"
proof -
  let ?G = "predicates w"
  have G: "grouped (env_order env) {p} ?G" using assms by (simp add: decides_def)
  then have all: "\<forall>S \<in> set ?G. S \<noteq> [] \<and> set S \<subseteq> {p}" unfolding grouped_def by blast
  then have hd: "\<forall>S \<in> set ?G. hd S = p" by (metis empty_iff hd_in_set insert_iff subset_iff)
  have "?G \<noteq> []" using G by (auto simp: grouped_def)
  moreover have "length ?G \<le> 1"
  proof (rule ccontr)
    assume "\<not> length ?G \<le> 1"
    then have "0 < length ?G" "1 < length ?G" by linarith+
    moreover have "axes_ok (env_order env) ?G" using assms(1) by (simp add: decides_def ttwp_ok_def)
    ultimately have "\<not> equivalent (Relation (env_order env)) (hd (?G ! 0)) (hd (?G ! 1))" unfolding axes_ok_def by fastforce
    moreover have "hd (?G ! 0) = p" "hd (?G ! 1) = p" using hd \<open>0 < length ?G\<close> \<open>1 < length ?G\<close> nth_mem by blast+
    moreover have "equivalent (Relation (env_order env)) p p"
      using G \<open>?G \<noteq> []\<close> unfolding grouped_def by (metis hd hd_in_set)
    ultimately show False by simp
  qed
  ultimately show ?thesis using hd by (cases ?G) auto
qed

lemma child_solution:
  assumes nd: "nodes_distinct Od" and ne: "x \<noteq> y"
  shows "TrySolveFor Od T K (IsEqualOperator (SymbolVariable y) (ChildOperator k arch i (SymbolVariable x))) (SymbolVariable x)
    = Inr (Some (XTreeDbToSymbolOperator Parent (SymbolVariable y)))"
proof -
  let ?s = "XTreeDbToSymbolOperator Parent (SymbolVariable y)"
  have ok: "order_ok Od" using nd by (simp add: nodes_distinct_def)
  have "OrderCompare3Way Od (SymbolVariable x) ?s \<noteq> 0" by (simp add: Compare3Way_zero_unfold[OF ok])
  moreover have "IsIndependentOf Od ?s (SymbolVariable x)"
    using ne by (simp add: IsIndependentOf_variable[OF nd] GetRequiredVariables_set)
  ultimately have "TrySolveForToEqual Od (ChildOperator k arch i (SymbolVariable x)) (SymbolVariable x) (SymbolVariable y) = Some ?s"
    by (simp add: TrySolveForToEqual.simps[of Od "ChildOperator k arch i e" for e] Child_a_to_equal_def
        TrySolveForToEqual.simps[of Od "SymbolVariable x"] SymbolVariable_TrySolveForToEqual_def variable_order)
  then show ?thesis by (simp add: TrySolveFor_def IsEqual_TrySolveFor_eq)
qed

lemma parent_set:
  assumes "linked T kit e c" "kit_db kit = Some db" "TryGetRow db c = Some row" "TryGetParentXLink db c = n" "n \<noteq> null_link"
  shows "has_set T kit (XTreeDbToSymbolOperator Parent e) {n}"
proof -
  obtain r where r: "EvaluateSymbol T kit e = Inr r" "result_link r = Some c" using assms(1) by (auto simp: linked_def)
  then have "linked T kit (XTreeDbToSymbolOperator Parent e) n"
    using result_link_Some[OF r(2)] assms(2-5)
    by (simp add: linked_def EvaluateSymbol.simps[of T kit "XTreeDbToSymbolOperator k x" for k x] XTreeDbToSymbolOperator_Evaluate_def
        SoloElementOf_def deref_def Parent_EvalXLinkFromRow_def make_UniqueResult_def new_UniqueResult_def)
  then show ?thesis by (rule has_set_linked)
qed

text \<open>C30: The solution of an equality with a child of the variable is the parent, which is the right set for
  the equality but not for its negation: the complement leaves out a node that has the given link as a
  child in another place, although the negated equality is true of it.\<close>

theorem negated_child_excluded:
  assumes "p = IsEqualOperator (SymbolVariable y) (ChildOperator k arch i (SymbolVariable x))" "x < y \<or> y < x"
    "solvable env (NotOperator p)" "inj (slice_address env)" "2 < fuel"
    "tree_laws (env_tree env) (kit_db kit')" "holds (env_tree env) kit' p"
    "tree_laws (env_tree env) (kit_db kit)" "unforced kit" "hypothesis_links kit = Some f" "map_of f y = Some c" "map_of f x = Some n"
    "c \<noteq> null_link" "n \<noteq> null_link" "kit_db kit = Some db" "TryGetRow db c = Some row" "TryGetParentXLink db c = n"
    "linked (env_tree env) kit (ChildOperator k arch i (SymbolVariable x)) d" "d \<noteq> c"
  shows "EvaluateBoolean (env_tree env) kit (NotOperator p) = Inr (BooleanResult True)
    \<and> (\<exists>w s S. PreSolve env (NotOperator p) = Inr w \<and> TrySolveForGiven env fuel (NotOperator p) w x [y] = Some (Inr s)
      \<and> gives_subset (env_tree env) (kit\<lparr>hypothesis_links := Some [(y, c)]\<rparr>) s S \<and> n \<notin> S)"
proof
  let ?e = "NotOperator p" and ?T = "env_tree env" and ?kit = "kit\<lparr>hypothesis_links := Some [(y, c)]\<rparr>"
  have p: "IsPredicate p" "predicates_of ?e = [p]" "GetOperands p = [SymbolVariable y, ChildOperator k arch i (SymbolVariable x)]"
    using assms(1) by (simp_all add: predicates_of.simps[of "NotOperator q" for q])
  have ly: "linked ?T kit (SymbolVariable y) c" using assms(10,11,13) by (rule variable_linked)
  have "list_all2 (linked ?T kit) (GetOperands p) [c, d]" using ly assms(18) p(3) by simp
  from predicate_of_links[OF assms(9) p(1) this] assms(1,19)
  have "EvaluateBoolean ?T kit p = Inr (BooleanResult False)" by simp
  then have ev: "\<And>q. q \<in> set (predicates_of ?e) \<Longrightarrow> EvaluateBoolean ?T kit q = Inr (BooleanResult False)" using p(2) by simp
  have e: "well_typed ?e" "IsBoolean ?e" using assms(3) by (simp_all add: solvable_def)
  show "EvaluateBoolean ?T kit ?e = Inr (BooleanResult True)"
    using Evaluate_truth[OF e ev] by (simp add: truth_predicate[OF p(1)])
  obtain w where w: "PreSolve env ?e = Inr w" "decides env ?e w" using PreSolve_ok[OF assms(3)] by blast
  note one = single_axis[OF w(2) p(2)]
  have nd: "nodes_distinct (env_order env)" using assms(3) by (simp add: solvable_def)
  have vars: "set (GetRequiredVariables ?e) = {x, y}" "set (GetRequiredVariables p) = {x, y}"
    using assms(1) by (auto simp: GetRequiredVariables_set)
  have sol: "solution_of env x [y] p = Some (XTreeDbToSymbolOperator Parent (SymbolVariable y))"
    using child_solution[OF nd, of x y] assms(1,2) vars(2) by (auto simp: solution_of_def within_reach_def evaluatable_def)
  have "linked ?T ?kit (SymbolVariable y) c" using assms(13) by (intro variable_linked[of ?kit "[(y, c)]"]) simp_all
  from parent_set[OF this _ assms(16,17,14)] assms(15)
  have exact: "solutions_exact env ?kit x [y] n (\<lambda>q. True) (set (predicates_of ?e))"
    using p(2) sol by (auto simp: solutions_exact_def)
  have none: "gives ?T ?kit {q \<in> set (predicates_of ?e). evaluatable [y] q} (\<lambda>q. True)"
    using p(2) vars(2) assms(2) by (auto simp: gives_def evaluatable_def)
  have "cell (table w) (actual ?T kit' (predicates w)) = FALSE"
    using w(2) assms(6,7) by (simp add: decides_def truth_predicate[OF p(1)])
  moreover have "actual ?T kit' (predicates w) = map (\<lambda>S. True) (predicates w)" using one assms(7) by (simp add: actual_def)
  ultimately have false: "cell (table w) (map (\<lambda>S. True) (predicates w)) = FALSE" by simp
  have "\<forall>S \<in> set (predicates w). live env x [y] (hd S)" using one sol by (simp add: live_def)
  moreover have "2 ^ length (predicates w) < fuel" using one assms(5) by simp
  moreover have "set [y] \<subseteq> set (GetRequiredVariables ?e)" "x \<in> set (GetRequiredVariables ?e)" "x \<notin> set [y]"
    using vars assms(2) by auto
  ultimately show "\<exists>w s S. PreSolve env ?e = Inr w \<and> TrySolveForGiven env fuel ?e w x [y] = Some (Inr s)
      \<and> gives_subset ?T ?kit s S \<and> n \<notin> S"
    using TrySolveForGiven_set[OF assms(3) w(2) assms(4) _ _ _ _ _ none exact, of fuel] false w(1) by auto
qed

definition child_db :: x_tree_db where
  "child_db = numbered_db\<lparr>TryGetRow := (\<lambda>x. Some \<lparr>container_front = 2, container_back = 3, sequence_successor = 0,
     sequence_predecessor = 0\<rparr>), TryGetParentXLink := (\<lambda>x. 1)\<rparr>"

definition child_kit :: "Assignments \<Rightarrow> EvalKit" where
  "child_kit links = \<lparr>hypothesis_links = Some links, kit_db = Some child_db, force_expression = (\<lambda>e. None)\<rparr>"

lemma child_kit_simps [simp]:
  "hypothesis_links (child_kit links) = Some links" "kit_db (child_kit links) = Some child_db"
  "tree_laws flat_tree (Some child_db)" "unforced (child_kit links)"
  "(child_kit links)\<lparr>hypothesis_links := Some links'\<rparr> = child_kit links'"
  by (simp_all add: child_kit_def child_db_def tree_laws_def flat_tree_def example_tree_def numbered_db_def three_way_def unforced_def)

lemma example_child:
  "map_of links 2 = Some 1 \<Longrightarrow> linked flat_tree (child_kit links) (ChildOperator ChildSequenceFront 7 0 (SymbolVariable 2)) 2"
  by (simp add: linked_def EvaluateSymbol.simps[of _ _ "ChildOperator k a i e" for k a i e] EvaluateSymbol.simps[of _ _ "SymbolVariable 2"]
      ChildOperator_Evaluate_def deref_def make_UniqueResult_def new_UniqueResult_def flat_tree_def example_tree_def Let_def)

lemma example_negation_solvable: "solvable example_solver (NotOperator example_clause)"
proof -
  have "pred_ok example_clause"
    using example_clause_facts by (simp add: pred_ok_def) (simp add: example_clause_def plain.simps)
  moreover have "no_degenerate example_order {example_clause}"
    using not_derived_from_itself[OF example_order_ok(2)] by (simp add: no_degenerate_def)
  ultimately show ?thesis
    by (simp add: solvable_def well_typed.simps[of "NotOperator e" for e] predicates_of.simps[of "NotOperator e" for e])
qed

theorem negated_child_excluded_witness:
  "EvaluateBoolean flat_tree (child_kit [(1, 3), (2, 1)]) (NotOperator example_clause) = Inr (BooleanResult True)
    \<and> (\<exists>w s S. PreSolve example_solver (NotOperator example_clause) = Inr w
      \<and> TrySolveForGiven example_solver 20 (NotOperator example_clause) w 2 [1] = Some (Inr s)
      \<and> gives_subset flat_tree (child_kit [(1, 3)]) s S \<and> 1 \<notin> S)"
proof -
  have "linked flat_tree (child_kit [(1, 2), (2, 1)]) (SymbolVariable 1) 2"
    by (rule variable_linked[of _ "[(1, 2), (2, 1)]"]) simp_all
  moreover have "linked flat_tree (child_kit [(1, 2), (2, 1)]) (ChildOperator ChildSequenceFront 7 0 (SymbolVariable 2)) 2"
    by (rule example_child) simp
  ultimately have h: "holds flat_tree (child_kit [(1, 2), (2, 1)]) example_clause"
    unfolding example_clause_def by (subst holds_simps) auto
  have l: "linked flat_tree (child_kit [(1, 3), (2, 1)]) (ChildOperator ChildSequenceFront 7 0 (SymbolVariable 2)) 2"
    by (rule example_child) simp
  show ?thesis
    using negated_child_excluded[OF example_clause_def _ example_negation_solvable, of 20 "child_kit [(1, 2), (2, 1)]"
        "child_kit [(1, 3), (2, 1)]" "[(1, 3), (2, 1)]" 3 1 child_db _ 2] h l
    by (simp add: inj_def) (simp add: child_db_def)
qed

end
