(* ===== verification/SymbolicConstraint.thy ===== *)
theory SymbolicConstraint
  imports Solutions ReferenceSolver
begin

text \<open>
  The constraint that the engine gives the solvers (\<^verbatim>\<open>vn/csp/symbolic_constraint.cpp\<close>): a boolean
  expression, whose plan holds a solution expression for each of its variables and each set of given
  variables. \<open>IsSatisfied\<close> evaluates the expression, \<open>GetSuggestedValues\<close> a solution.

  The plan is a record; the tree database that \<open>Start\<close> stores is an argument. The fuel for the Karnaugh
  maps is one more than the number of cells of the table, which is enough.
\<close>

section \<open>The plan\<close>

type_synonym GivensToExpression = "(VariableId list \<times> Expression) list"

record symbolic_plan =
  consistency_expression :: Expression
  plan_variables :: "VariableId list"
  suggestion_expressions :: "(VariableId \<times> GivensToExpression) list"
  alt_expression_for_testing :: "Expression option"
  variables_requiring_db :: "VariableId list"

abbreviation givens_less :: "VariableId list \<Rightarrow> VariableId list \<Rightarrow> bool" where
  "givens_less \<equiv> lexicographical_compare (<)"

text \<open>The variables whose index is true.\<close>

definition chosen_givens :: "VariableId list \<Rightarrow> bool list \<Rightarrow> VariableId list result" where
  "chosen_givens other_vars_vec indices =
     foldE (\<lambda>i givens. bindE (vec_at indices i) (\<lambda>b.
              if b then bindE (unchecked_at other_vars_vec i) (\<lambda>v. Inr (set_insert v givens)) else Inr givens))
       [0..<length other_vars_vec] []"

definition karnaugh_fuel :: "truth_table_with_predicates \<Rightarrow> nat" where
  "karnaugh_fuel w = Suc (2 ^ length (predicates w))"

definition store_suggestion ::
    "solver_env \<Rightarrow> Expression \<Rightarrow> truth_table_with_predicates \<Rightarrow> VariableId \<Rightarrow> VariableId list \<Rightarrow> bool list
     \<Rightarrow> (VariableId \<times> GivensToExpression) list \<Rightarrow> (VariableId \<times> GivensToExpression) list result" where
  "store_suggestion env e w v other_vars_vec indices suggestions =
     bindE (chosen_givens other_vars_vec indices) (\<lambda>givens.
     case TrySolveForGiven env (karnaugh_fuel w) e w v givens of
       None \<Rightarrow> Inl Undefined
     | Some r \<Rightarrow> bindE r (\<lambda>he. Inr (map_change (<) v [] (\<lambda>m. map_assign givens_less givens he m) suggestions)))"

definition determine_for_variable ::
    "solver_env \<Rightarrow> Expression \<Rightarrow> truth_table_with_predicates \<Rightarrow> VariableId list \<Rightarrow> VariableId
     \<Rightarrow> (VariableId \<times> GivensToExpression) list \<Rightarrow> (VariableId \<times> GivensToExpression) list result" where
  "determine_for_variable env e w vars v suggestions =
     bindE (EraseSolo (<) vars v) (\<lambda>other_vars.
       ForPower (length other_vars) index_range_bool
         (\<lambda>indices suggestions. lift_flow (store_suggestion env e w v other_vars indices suggestions)) suggestions)"

definition DetermineHintExpressions ::
    "solver_env \<Rightarrow> Expression \<Rightarrow> VariableId list \<Rightarrow> (VariableId \<times> GivensToExpression) list result" where
  "DetermineHintExpressions env e vars =
     bindE (PreSolve env e) (\<lambda>w. foldE (determine_for_variable env e w vars) vars [])"

definition DetermineVariables :: "Expression \<Rightarrow> VariableId list" where
  "DetermineVariables e = GetRequiredVariables e"

definition DetermineVariablesRequiringDB :: "Expression \<Rightarrow> VariableId list" where
  "DetermineVariablesRequiringDB e = GetVariablesRequiringDB e"

definition new_symbolic_plan :: "solver_env \<Rightarrow> Expression \<Rightarrow> symbolic_plan result" where
  "new_symbolic_plan env e =
     (let vars = DetermineVariables e in
      bindE (DetermineHintExpressions env e vars) (\<lambda>suggestions.
        Inr \<lparr>consistency_expression = e, plan_variables = vars, suggestion_expressions = suggestions,
             alt_expression_for_testing = None, variables_requiring_db = DetermineVariablesRequiringDB e\<rparr>))"

section \<open>The methods of the constraint\<close>

definition assignments_kit :: "x_tree_db option \<Rightarrow> Assignments \<Rightarrow> EvalKit" where
  "assignments_kit pdb assigns = \<lparr>hypothesis_links = Some assigns, kit_db = pdb, force_expression = (\<lambda>e. None)\<rparr>"

definition SymbolicConstraint_Start :: "x_tree_db option \<Rightarrow> x_tree_db result" where
  "SymbolicConstraint_Start x_tree_db = (case x_tree_db of None \<Rightarrow> Inl AssertFail | Some db \<Rightarrow> Inr db)"

definition SymbolicConstraint_IsSatisfied ::
    "tree_ops \<Rightarrow> x_tree_db option \<Rightarrow> symbolic_plan \<Rightarrow> Assignments \<Rightarrow> bool result" where
  "SymbolicConstraint_IsSatisfied T pdb pl assigns =
     (let kit = assignments_kit pdb assigns in
      bindE (EvaluateBoolean T kit (consistency_expression pl)) (\<lambda>result.
      case alt_expression_for_testing pl of
        None \<Rightarrow> Inr (IsDefinedAndTrue result)
      | Some alt \<Rightarrow> bindE (EvaluateBoolean T kit alt) (\<lambda>alt_result.
          guardE (alt_result = result) (Inr (IsDefinedAndTrue result)))))"

abbreviation null_variable :: VariableId where
  "null_variable \<equiv> 0"

text \<open>The variables of the plan, other than the target, that are assigned.\<close>

definition assigned_givens :: "VariableId list \<Rightarrow> Assignments \<Rightarrow> VariableId \<Rightarrow> VariableId list" where
  "assigned_givens vars assigns target_var =
     fold (\<lambda>v givens. if v \<noteq> target_var \<and> v \<in> fst ` set assigns then set_insert v givens else givens) vars []"

definition SymbolicConstraint_GetSuggestedValues ::
    "tree_ops \<Rightarrow> x_tree_db option \<Rightarrow> symbolic_plan \<Rightarrow> Assignments \<Rightarrow> VariableId \<Rightarrow> SubsetResult option result" where
  "SymbolicConstraint_GetSuggestedValues T pdb pl assigns target_var =
     guardE (target_var \<noteq> null_variable)
      (let givens = assigned_givens (plan_variables pl) assigns target_var in
       case map_find (<) target_var (suggestion_expressions pl) of
         None \<Rightarrow> Inr None
       | Some m \<Rightarrow> (case map_find givens_less givens m of
           None \<Rightarrow> Inr None
         | Some hint_expression \<Rightarrow>
             bindE (EvaluateSymbol T (assignments_kit pdb assigns) hint_expression) (\<lambda>hr.
               case hr of Simple (SubsetRes hint_result) \<Rightarrow> Inr (Some hint_result) | _ \<Rightarrow> Inl AssertFail)))"

section \<open>What the plan holds\<close>

lemma chosen_givens_ok:
  assumes "length bs = length others"
  shows "\<exists>g. chosen_givens others bs = Inr g \<and> represents g {others ! i | i. i < length others \<and> bs ! i}"
proof -
  have "\<exists>g. foldE (\<lambda>i givens. bindE (vec_at bs i) (\<lambda>b.
            if b then bindE (unchecked_at others i) (\<lambda>v. Inr (set_insert v givens)) else Inr givens)) [0..<k] [] = Inr g
      \<and> represents g {others ! i | i. i < k \<and> bs ! i}" if "k \<le> length others" for k
    using that
  proof (induction k)
    case (Suc k)
    then obtain g where g: "foldE (\<lambda>i givens. bindE (vec_at bs i) (\<lambda>b.
            if b then bindE (unchecked_at others i) (\<lambda>v. Inr (set_insert v givens)) else Inr givens)) [0..<k] [] = Inr g"
      "represents g {others ! i | i. i < k \<and> bs ! i}" by auto
    have "{others ! i | i. i < Suc k \<and> bs ! i} = (if bs ! k then insert (others ! k) {others ! i | i. i < k \<and> bs ! i}
        else {others ! i | i. i < k \<and> bs ! i})"
      by (auto simp: less_Suc_eq)
    then show ?case
      using g Suc.prems assms by (auto simp: foldE_append unchecked_at_def)
  qed simp
  from this[OF order.refl] show ?thesis by (simp add: chosen_givens_def)
qed

text \<open>Every set of other variables is chosen by some indices.\<close>

lemma chosen_every:
  assumes "sorted_set g" "set g \<subseteq> set others"
  shows "\<exists>bs. length bs = length others \<and> chosen_givens others bs = Inr g"
proof -
  let ?bs = "map (\<lambda>v. v \<in> set g) others"
  obtain g' where g': "chosen_givens others ?bs = Inr g'" "represents g' {others ! i | i. i < length others \<and> ?bs ! i}"
    using chosen_givens_ok[of ?bs others] by auto
  have "{others ! i | i. i < length others \<and> ?bs ! i} = {others ! i | i. i < length others \<and> others ! i \<in> set g}"
    by (rule Collect_cong) auto
  also have "\<dots> = set others \<inter> set g" unfolding set_conv_nth[of others] by blast
  finally have "{others ! i | i. i < length others \<and> ?bs ! i} = set g" using assms(2) by blast
  then have "g' = g" using g'(2) assms(1) by (intro represents_unique[of g' "set g"]) (simp_all add: represents_def)
  with g'(1) show ?thesis by (intro exI[of _ ?bs]) simp
qed

text \<open>The suggestion for a variable and the given variables, and the expression that it must be.\<close>

definition suggestion_for :: "(VariableId \<times> GivensToExpression) list \<Rightarrow> VariableId \<Rightarrow> VariableId list \<Rightarrow> Expression option" where
  "suggestion_for suggestions v g = (case map_find (<) v suggestions of None \<Rightarrow> None | Some m \<Rightarrow> map_find givens_less g m)"

definition expected_suggestion :: "solver_env \<Rightarrow> Expression \<Rightarrow> truth_table_with_predicates \<Rightarrow> VariableId \<Rightarrow> VariableId list \<Rightarrow> Expression option" where
  "expected_suggestion env e w v g = (case TrySolveForGiven env (karnaugh_fuel w) e w v g of Some (Inr s) \<Rightarrow> Some s | _ \<Rightarrow> None)"

definition stored_suggestions_ok ::
    "solver_env \<Rightarrow> Expression \<Rightarrow> truth_table_with_predicates \<Rightarrow> (VariableId \<times> VariableId list) set
     \<Rightarrow> (VariableId \<times> GivensToExpression) list \<Rightarrow> bool" where
  "stored_suggestions_ok env e w D suggestions \<longleftrightarrow>
     sorted_keys (<) suggestions \<and> (\<forall>p \<in> set suggestions. sorted_keys givens_less (snd p))
     \<and> (\<forall>v g. suggestion_for suggestions v g = (if (v, g) \<in> D then expected_suggestion env e w v g else None))"

text \<open>\<^verbatim>\<open>m[k]\<close> keeps what every value of the map satisfies.\<close>

lemma map_change_values:
  assumes "\<forall>p \<in> set m. Q (snd p)" "Q (f ini)" "\<And>v. Q v \<Longrightarrow> Q (f v)"
  shows "\<forall>p \<in> set (map_change lt k ini f m). Q (snd p)"
  using assms(1)
  by (induction m) (auto simp: assms(2,3))

lemma store_suggestion_ok:
  assumes ok: "stored_suggestions_ok env e w D sugg" and g: "chosen_givens others bs = Inr g"
    and s: "TrySolveForGiven env (karnaugh_fuel w) e w v g = Some (Inr s)"
  shows "\<exists>sugg'. store_suggestion env e w v others bs sugg = Inr sugg' \<and> stored_suggestions_ok env e w (insert (v, g) D) sugg'"
proof -
  let ?f = "\<lambda>m. map_assign givens_less g s m" and ?new = "map_change (<) v [] (\<lambda>m. map_assign givens_less g s m) sugg"
  have sorted: "sorted_keys (<) sugg" "\<forall>p \<in> set sugg. sorted_keys givens_less (snd p)"
    and all: "\<And>u h. suggestion_for sugg u h = (if (u, h) \<in> D then expected_suggestion env e w u h else None)"
    using ok by (simp_all add: stored_suggestions_ok_def)
  have "sorted_keys (<) ?new" using lin.map_change_props[OF sorted(1)] by blast
  moreover have "\<forall>p \<in> set ?new. sorted_keys givens_less (snd p)"
    by (rule map_change_values[OF sorted(2)]) (simp_all add: lex.sorted_map_assign)
  moreover have "suggestion_for ?new u h = (if (u, h) \<in> insert (v, g) D then expected_suggestion env e w u h else None)" for u h
  proof (cases "u = v")
    case True
    have in_m: "sorted_keys givens_less m" if "map_find (<) v sugg = Some m" for m
      using map_find_mem[OF that] sorted(2) by fastforce
    show ?thesis
      using True all[of v h] s in_m
      by (auto simp: suggestion_for_def lin.map_find_change[OF sorted(1)] lex.map_find_assign lex_equivalent_iff expected_suggestion_def
          split: option.splits)
  next
    case False
    then show ?thesis using all[of u h] by (simp add: suggestion_for_def lin.map_find_change[OF sorted(1)])
  qed
  ultimately have "stored_suggestions_ok env e w (insert (v, g) D) ?new" unfolding stored_suggestions_ok_def by blast
  then show ?thesis using g s by (simp add: store_suggestion_def)
qed

text \<open>The givens that a variable is solved for: every set of other variables.\<close>

definition solved_for :: "VariableId list \<Rightarrow> VariableId \<Rightarrow> (VariableId \<times> VariableId list) set" where
  "solved_for vars v = {v} \<times> {g. sorted_set g \<and> set g \<subseteq> set vars - {v}}"

lemma determine_for_variable_ok:
  assumes solv: "solvable env e" "decides env e w" "inj (slice_address env)"
    and v: "v \<in> set (GetRequiredVariables e)" and ok: "stored_suggestions_ok env e w D sugg"
  shows "\<exists>sugg'. determine_for_variable env e w (GetRequiredVariables e) v sugg = Inr sugg'
    \<and> stored_suggestions_ok env e w (D \<union> solved_for (GetRequiredVariables e) v) sugg'"
proof -
  let ?vars = "GetRequiredVariables e"
  let ?others = "filter (\<lambda>y. v \<noteq> y) ?vars"
  let ?K = "\<lambda>bs. {(v, g) | g. chosen_givens ?others bs = Inr g}"
  have sv: "sorted_set ?vars" by simp
  have others: "EraseSolo (<) ?vars v = Inr ?others" using v by (simp add: lin.EraseSolo_iff)
  have chosen: "\<exists>g. chosen_givens ?others bs = Inr g \<and> sorted_set g \<and> set g \<subseteq> set ?vars - {v}"
    if len: "length bs = length ?others" for bs
  proof -
    obtain g where g: "chosen_givens ?others bs = Inr g" "represents g {?others ! i | i. i < length ?others \<and> bs ! i}"
      using chosen_givens_ok[OF len] by blast
    have "{?others ! i | i. i < length ?others \<and> bs ! i} \<subseteq> set ?others" by (blast intro: nth_mem)
    then have "set g \<subseteq> set ?others" using g(2) by (simp add: represents_def)
    with g show ?thesis by (auto simp: represents_def)
  qed
  have tuples: "set (tuples (length ?others) index_range_bool) = {bs. length bs = length ?others}"
    by (auto simp: set_tuples index_range_bool_def)
  have "\<exists>sugg'. store_suggestion env e w v ?others bs sugg = Inr sugg' \<and> stored_suggestions_ok env e w (D \<union> ?K bs) sugg'"
    if bs: "length bs = length ?others" and sugg: "stored_suggestions_ok env e w D sugg" for bs D sugg
  proof -
    obtain g where g: "chosen_givens ?others bs = Inr g" "sorted_set g" "set g \<subseteq> set ?vars - {v}" using chosen[OF bs] by blast
    have "2 ^ length (predicates w) < karnaugh_fuel w" by (simp add: karnaugh_fuel_def)
    moreover have "v \<notin> set g" "set g \<subseteq> set ?vars" using g(3) by auto
    ultimately obtain s where "TrySolveForGiven env (karnaugh_fuel w) e w v g = Some (Inr s)"
      using TrySolveForGiven_total[OF solv _ g(2) _ v] by blast
    from store_suggestion_ok[OF sugg g(1) this] g(1) show ?thesis by simp
  qed
  then have "\<exists>sugg'. foldE (store_suggestion env e w v ?others) (tuples (length ?others) index_range_bool) sugg = Inr sugg'
      \<and> stored_suggestions_ok env e w (D \<union> (\<Union>bs \<in> set (tuples (length ?others) index_range_bool). ?K bs)) sugg'"
    using ok by (intro foldE_accumulate) (simp_all add: tuples)
  moreover have "(\<Union>bs \<in> set (tuples (length ?others) index_range_bool). ?K bs) = solved_for ?vars v"
  proof -
    have every: "\<exists>bs. length bs = length ?others \<and> chosen_givens ?others bs = Inr g"
      if "sorted_set g" "set g \<subseteq> set ?vars - {v}" for g
      using that by (intro chosen_every) auto
    have ok: "sorted_set g" "set g \<subseteq> set ?vars - {v}" if "length bs = length ?others" "chosen_givens ?others bs = Inr g" for bs g
      using chosen[OF that(1)] that(2) by auto
    show ?thesis
    proof (intro equalityI subsetI)
      fix p assume "p \<in> (\<Union>bs \<in> set (tuples (length ?others) index_range_bool). ?K bs)"
      then obtain bs g where "length bs = length ?others" "p = (v, g)" "chosen_givens ?others bs = Inr g" unfolding tuples by blast
      with ok show "p \<in> solved_for ?vars v" by (simp add: solved_for_def)
    next
      fix p assume "p \<in> solved_for ?vars v"
      then obtain g where g: "p = (v, g)" "sorted_set g" "set g \<subseteq> set ?vars - {v}" unfolding solved_for_def by blast
      from every[OF g(2,3)] show "p \<in> (\<Union>bs \<in> set (tuples (length ?others) index_range_bool). ?K bs)"
        unfolding tuples g(1) by blast
    qed
  qed
  ultimately show ?thesis
    using others by (simp add: determine_for_variable_def ForPower_foldE)
qed

text \<open>The plan of a solvable expression: a suggestion for each of its variables and each set of others.\<close>

definition symbolic_plan_ok :: "solver_env \<Rightarrow> Expression \<Rightarrow> truth_table_with_predicates \<Rightarrow> symbolic_plan \<Rightarrow> bool" where
  "symbolic_plan_ok env e w pl \<longleftrightarrow> consistency_expression pl = e \<and> plan_variables pl = GetRequiredVariables e
     \<and> stored_suggestions_ok env e w (\<Union>v \<in> set (GetRequiredVariables e). solved_for (GetRequiredVariables e) v) (suggestion_expressions pl)
     \<and> alt_expression_for_testing pl = None \<and> variables_requiring_db pl = GetVariablesRequiringDB e"

lemma new_symbolic_plan_ok:
  assumes solv: "solvable env e" "inj (slice_address env)"
  shows "\<exists>w pl. PreSolve env e = Inr w \<and> decides env e w \<and> new_symbolic_plan env e = Inr pl \<and> symbolic_plan_ok env e w pl"
proof -
  let ?vars = "GetRequiredVariables e"
  obtain w where w: "PreSolve env e = Inr w" "decides env e w" using PreSolve_ok[OF solv(1)] by blast
  have "stored_suggestions_ok env e w {} []" by (simp add: stored_suggestions_ok_def suggestion_for_def)
  from foldE_accumulate[of ?vars "stored_suggestions_ok env e w" "determine_for_variable env e w ?vars" "solved_for ?vars",
      OF determine_for_variable_ok[OF solv(1) w(2) solv(2)] this]
  obtain sugg where "foldE (determine_for_variable env e w ?vars) ?vars [] = Inr sugg"
    "stored_suggestions_ok env e w (\<Union>v \<in> set ?vars. solved_for ?vars v) sugg" by auto
  then show ?thesis
    using w by (intro exI[of _ w])
      (simp add: new_symbolic_plan_def DetermineHintExpressions_def DetermineVariables_def DetermineVariablesRequiringDB_def
        symbolic_plan_ok_def Let_def)
qed

section \<open>What the constraint suggests\<close>

lemma assignments_kit_simps [simp]:
  "hypothesis_links (assignments_kit pdb a) = Some a" "kit_db (assignments_kit pdb a) = pdb" "unforced (assignments_kit pdb a)"
  "(assignments_kit pdb a)\<lparr>hypothesis_links := Some b\<rparr> = assignments_kit pdb b"
  by (simp_all add: assignments_kit_def unforced_def)

lemma assigned_givens_represents:
  "represents (assigned_givens vars a v) {u \<in> set vars. u \<noteq> v \<and> u \<in> fst ` set a}"
proof -
  have "represents (fold (\<lambda>u givens. if u \<noteq> v \<and> u \<in> fst ` set a then set_insert u givens else givens) vars g)
      (A \<union> {u \<in> set vars. u \<noteq> v \<and> u \<in> fst ` set a})" if "represents g A" for g A
    using that
  proof (induction vars arbitrary: g A)
    case (Cons u vars)
    let ?c = "u \<noteq> v \<and> u \<in> fst ` set a"
    have "represents (if ?c then set_insert u g else g) (if ?c then insert u A else A)" using Cons.prems by auto
    from Cons.IH[OF this] have "represents (fold (\<lambda>u givens. if u \<noteq> v \<and> u \<in> fst ` set a then set_insert u givens else givens) (u # vars) g)
      ((if ?c then insert u A else A) \<union> {u \<in> set vars. u \<noteq> v \<and> u \<in> fst ` set a})" by simp
    moreover have "(if ?c then insert u A else A) \<union> {u \<in> set vars. u \<noteq> v \<and> u \<in> fst ` set a}
        = A \<union> {w \<in> set (u # vars). w \<noteq> v \<and> w \<in> fst ` set a}" by auto
    ultimately show ?case by metis
  qed simp
  from this[of "[]" "{}"] show ?thesis by (simp add: assigned_givens_def)
qed

lemma direct_evaluates:
  assumes kit: "unforced kit" "hypothesis_links kit = Some f" "kit_db kit = Some db" "ordering_ok db"
    and p: "direct p" "links_known db f (set (GetRequiredVariables p))"
  shows "\<exists>b. EvaluateBoolean T kit p = Inr (BooleanResult b)"
proof -
  have ip: "IsPredicate p" using p(1) by (auto simp: direct_def)
  obtain l r where ops: "GetOperands p = [SymbolVariable l, SymbolVariable r]" using p(1) by (auto simp: direct_def)
  then have vs: "set (GetRequiredVariables p) = {l, r}" using ip by (subst GetRequiredVariables_set) auto
  have "\<exists>y. linked T kit (SymbolVariable u) y" if u: "u \<in> {l, r}" for u
  proof -
    obtain y where y: "map_of f u = Some y" "y \<in> set (depth_first_ordering db)"
      using p(2) u vs unfolding links_known_def by blast
    moreover have "y \<noteq> null_link" using y(2) kit(4) unfolding ordering_ok_def by metis
    ultimately show ?thesis using variable_linked[OF kit(2) y(1)] by blast
  qed
  then obtain xl xr where "linked T kit (SymbolVariable l) xl" "linked T kit (SymbolVariable r) xr" by blast
  then have links: "list_all2 (linked T kit) (GetOperands p) [xl, xr]" by (simp add: ops)
  show ?thesis
    using predicate_of_links[OF kit(1) ip links] kit(3) p(1) by (auto simp: direct_def deref_def)
qed

text \<open>A problem of direct predicates: the expression is solvable, compares variables only, and the full
  assignments give each of its variables a link of the tree's ordering.\<close>

definition direct_problem :: "solver_env \<Rightarrow> x_tree_db \<Rightarrow> Expression \<Rightarrow> Assignments \<Rightarrow> bool" where
  "direct_problem env db e f \<longleftrightarrow> solvable env e \<and> inj (slice_address env) \<and> (\<forall>p \<in> set (predicates_of e). direct p)
     \<and> ordering_ok db \<and> tree_laws (env_tree env) (Some db) \<and> links_known db f (set (GetRequiredVariables e))"

lemma predicates_of_variables: "p \<in> set (predicates_of e) \<Longrightarrow> set (GetRequiredVariables p) \<subseteq> set (GetRequiredVariables e)"
proof (induction e rule: expression_induct)
  case (operands e)
  show ?case
  proof (cases "IsPredicate e")
    case False
    with operands(2) obtain x where "x \<in> set (GetOperands e)" "p \<in> set (predicates_of x)"
      unfolding predicates_of.simps[of e] by auto
    with operands(1) GetRequiredVariables_operand show ?thesis by blast
  qed (use operands(2) in simp)
qed

lemma direct_problem_known:
  assumes "direct_problem env db e f" "p \<in> set (predicates_of e)"
  shows "links_known db f (set (GetRequiredVariables p))"
  using assms predicates_of_variables by (fastforce simp: direct_problem_def links_known_def)

lemma direct_problem_evaluates:
  assumes "direct_problem env db e f"
  shows "\<forall>p \<in> set (predicates_of e). \<exists>b. EvaluateBoolean (env_tree env) (assignments_kit (Some db) f) p = Inr (BooleanResult b)"
    "\<exists>b. EvaluateBoolean (env_tree env) (assignments_kit (Some db) f) e = Inr (BooleanResult b)"
proof -
  show ev: "\<forall>p \<in> set (predicates_of e). \<exists>b. EvaluateBoolean (env_tree env) (assignments_kit (Some db) f) p = Inr (BooleanResult b)"
    using assms direct_problem_known[OF assms] by (intro ballI direct_evaluates[of _ f db]) (simp_all add: direct_problem_def)
  then obtain h where "\<And>p. p \<in> set (predicates_of e) \<Longrightarrow>
      EvaluateBoolean (env_tree env) (assignments_kit (Some db) f) p = Inr (BooleanResult (h p))"
    by metis
  from Evaluate_truth[OF _ _ this] assms
  show "\<exists>b. EvaluateBoolean (env_tree env) (assignments_kit (Some db) f) e = Inr (BooleanResult b)"
    by (auto simp: direct_problem_def solvable_def)
qed

lemma IsSatisfied_plan:
  assumes "symbolic_plan_ok env e w pl"
  shows "SymbolicConstraint_IsSatisfied T pdb pl f = bindE (EvaluateBoolean T (assignments_kit pdb f) e) (\<lambda>r. Inr (IsDefinedAndTrue r))"
  using assms by (simp add: SymbolicConstraint_IsSatisfied_def symbolic_plan_ok_def)

lemma suggestion_of_plan:
  assumes pl: "symbolic_plan_ok env e w pl" and v: "v \<in> set (GetRequiredVariables e)" "v \<noteq> null_variable"
    and s: "TrySolveForGiven env (karnaugh_fuel w) e w v (assigned_givens (GetRequiredVariables e) a v) = Some (Inr s)"
      "gives_subset T (assignments_kit pdb a) s S"
  shows "\<exists>r. SymbolicConstraint_GetSuggestedValues T pdb pl a v = Inr (Some r) \<and> subset_ok r \<and> denotes r = S"
proof -
  let ?g = "assigned_givens (GetRequiredVariables e) a v"
  have "(v, ?g) \<in> solved_for (GetRequiredVariables e) v"
    using assigned_givens_represents[of "GetRequiredVariables e" a v] by (auto simp: solved_for_def represents_def)
  then have "suggestion_for (suggestion_expressions pl) v ?g = Some s"
    using pl v(1) s(1) by (auto simp: symbolic_plan_ok_def stored_suggestions_ok_def expected_suggestion_def)
  then show ?thesis
    using pl v(2) s(2)
    by (auto simp: SymbolicConstraint_GetSuggestedValues_def suggestion_for_def symbolic_plan_ok_def gives_subset_def Let_def
        split: option.splits)
qed

lemma givens_facts:
  fixes a f :: Assignments and e :: Expression and v :: VariableId
  assumes "\<forall>u x. map_of a u = Some x \<longrightarrow> map_of f u = Some x"
  defines "g \<equiv> assigned_givens (GetRequiredVariables e) a v"
  shows "sorted_set g" "set g \<subseteq> set (GetRequiredVariables e)" "v \<notin> set g" "\<forall>u \<in> set g. map_of a u = map_of f u"
    "set g = {u \<in> set (GetRequiredVariables e). u \<noteq> v \<and> u \<in> fst ` set a}"
proof -
  have g: "represents g {u \<in> set (GetRequiredVariables e). u \<noteq> v \<and> u \<in> fst ` set a}"
    unfolding g_def by (rule assigned_givens_represents)
  then show "sorted_set g" "set g = {u \<in> set (GetRequiredVariables e). u \<noteq> v \<and> u \<in> fst ` set a}"
    by (simp_all add: represents_def)
  then show "set g \<subseteq> set (GetRequiredVariables e)" "v \<notin> set g" by auto
  have "map_of a u = map_of f u" if "u \<in> set g" for u
  proof -
    have "map_of a u \<noteq> None" using g that by (simp add: represents_def map_of_eq_None_iff)
    with assms(1) show ?thesis by auto
  qed
  then show "\<forall>u \<in> set g. map_of a u = map_of f u" by blast
qed

lemma direct_solutions_exact:
  assumes "direct_problem env db e f" "\<forall>g \<in> set givens. map_of a g = map_of f g" "v \<notin> set givens" "map_of f v = Some x"
  shows "solutions_exact env (assignments_kit (Some db) a) v givens x (holds (env_tree env) (assignments_kit (Some db) f)) (set (predicates_of e))"
  unfolding solutions_exact_def
proof (intro ballI allI impI)
  fix p s assume p: "p \<in> set (predicates_of e)" "solution_of env v givens p = Some s"
  have "nodes_distinct (env_order env)" "ordering_ok db" "tree_laws (env_tree env) (Some db)" "direct p"
    using assms(1) p(1) by (auto simp: direct_problem_def solvable_def)
  with direct_solution_exact[where kit = "assignments_kit (Some db) f", OF _ _ _ _ _ _ direct_problem_known[OF assms(1) p(1)] assms(2-4) p(2)]
  show "\<exists>S. has_set (env_tree env) (assignments_kit (Some db) a) s S \<and> (x \<in> S \<longleftrightarrow> holds (env_tree env) (assignments_kit (Some db) f) p)"
    by simp
qed

lemma suggested_values:
  assumes prob: "direct_problem env db e f" and pl: "new_symbolic_plan env e = Inr pl"
    and a: "\<forall>u x. map_of a u = Some x \<longrightarrow> map_of f u = Some x"
    and v: "v \<in> set (GetRequiredVariables e)" "v \<noteq> null_variable" "map_of f v = Some x"
  shows "\<exists>r. SymbolicConstraint_GetSuggestedValues (env_tree env) (Some db) pl a v = Inr (Some r) \<and> subset_ok r
    \<and> (SymbolicConstraint_IsSatisfied (env_tree env) (Some db) pl f = Inr True \<longrightarrow> x \<in> denotes r)
    \<and> ((\<forall>u \<in> set (GetRequiredVariables e). u \<noteq> v \<longrightarrow> u \<in> fst ` set a) \<longrightarrow>
         (x \<in> denotes r \<longleftrightarrow> SymbolicConstraint_IsSatisfied (env_tree env) (Some db) pl f = Inr True))"
proof -
  let ?T = "env_tree env" and ?kit = "assignments_kit (Some db) f" and ?g = "assigned_givens (GetRequiredVariables e) a v"
  have solv: "solvable env e" "inj (slice_address env)" and laws: "tree_laws ?T (kit_db ?kit)"
    using prob by (simp_all add: direct_problem_def)
  obtain w where w: "PreSolve env e = Inr w" "symbolic_plan_ok env e w pl"
    using new_symbolic_plan_ok[OF solv] pl by auto
  note g = givens_facts[where e = e and v = v, OF a] and ev = direct_problem_evaluates[OF prob]
  have sat: "SymbolicConstraint_IsSatisfied ?T (Some db) pl f = Inr True \<longleftrightarrow> EvaluateBoolean ?T ?kit e = Inr (BooleanResult True)"
    using ev(2) by (auto simp: IsSatisfied_plan[OF w(2)])
  have live: "live env v ?g p" if "\<forall>u \<in> set (GetRequiredVariables e). u \<noteq> v \<longrightarrow> u \<in> fst ` set a" "p \<in> set (predicates_of e)" for p
  proof (rule direct_live)
    show "within_reach v ?g p" using predicates_of_variables[OF that(2)] that(1) g(5) by (auto simp: within_reach_def)
  qed (use prob that(2) in \<open>simp_all add: direct_problem_def solvable_def\<close>)
  have fuel: "2 ^ length (predicates w) < karnaugh_fuel w" by (simp add: karnaugh_fuel_def)
  have "unforced ?kit" "hypothesis_links ?kit = Some f"
    "solutions_exact env (?kit\<lparr>hypothesis_links := Some a\<rparr>) v ?g x (holds ?T ?kit) (set (predicates_of e))"
    using direct_solutions_exact[OF prob g(4,3) v(3)] by simp_all
  from TrySolveForGiven_values[OF solv(1) w(1) solv(2) fuel g(1,2) v(1) g(3) laws this(1,2) ev(1) g(4) this(3)]
  obtain s S where "TrySolveForGiven env (karnaugh_fuel w) e w v ?g = Some (Inr s)"
    "gives_subset ?T (assignments_kit (Some db) a) s S" "EvaluateBoolean ?T ?kit e = Inr (BooleanResult True) \<longrightarrow> x \<in> S"
    "(\<forall>p \<in> set (predicates_of e). live env v ?g p) \<longrightarrow> (x \<in> S \<longleftrightarrow> EvaluateBoolean ?T ?kit e = Inr (BooleanResult True))"
    by auto
  with suggestion_of_plan[OF w(2) v(1,2)] live show ?thesis unfolding sat by blast
qed

text \<open>C5: Take a constraint whose predicates are equalities and depth-first comparisons of two plain variables, with no
  repeated operand in them or in what can be derived from two of them, and full assignments of links of the tree. When they satisfy the constraint and
  extend the partial ones, the values that it suggests for a variable contain the one that the full assignments give
  it: following the suggestions loses no solution. There always is a suggestion, for whatever variables are
  assigned.\<close>

theorem GetSuggestedValues_keeps_solutions:
  assumes "direct_problem env db e f" "new_symbolic_plan env e = Inr pl"
    "\<forall>u x. map_of a u = Some x \<longrightarrow> map_of f u = Some x"
    "v \<in> set (GetRequiredVariables e)" "v \<noteq> null_variable" "map_of f v = Some x"
    "SymbolicConstraint_IsSatisfied (env_tree env) (Some db) pl f = Inr True"
  shows "\<exists>r. SymbolicConstraint_GetSuggestedValues (env_tree env) (Some db) pl a v = Inr (Some r) \<and> subset_ok r \<and> x \<in> denotes r"
  using suggested_values[OF assms(1-6)] assms(7) by blast

text \<open>The example constraint over the second and third variable.\<close>

lemma example_direct_problem:
  "x \<in> {3, 4, 5, 6} \<Longrightarrow> direct_problem example_solver ordered_db example_pair [(1, 5), (2, x), (3, 6)]"
  using example_direct example_solvable ordered_kit_simps(3,5)
  by (auto simp: direct_problem_def links_known_def example_pair_variables inj_def)

theorem GetSuggestedValues_keeps_solutions_witness:
  "\<exists>pl r. new_symbolic_plan example_solver example_pair = Inr pl
    \<and> SymbolicConstraint_GetSuggestedValues flat_tree (Some ordered_db) pl [(3, 6)] 2 = Inr (Some r) \<and> 4 \<in> denotes r"
proof -
  obtain w pl where pl: "new_symbolic_plan example_solver example_pair = Inr pl" "symbolic_plan_ok example_solver example_pair w pl"
    using new_symbolic_plan_ok[OF example_solvable] by (auto simp: inj_def)
  have "SymbolicConstraint_IsSatisfied flat_tree (Some ordered_db) pl [(1, 5), (2, 4), (3, 6)] = Inr True"
    using example_pair_cases(1)[of 4] by (simp add: IsSatisfied_plan[OF pl(2)] assignments_kit_def ordered_kit_def)
  moreover have "\<forall>(u :: VariableId) x. map_of [(3, 6)] u = Some x \<longrightarrow> map_of [(1, 5), (2, 4), (3, 6)] u = Some (x :: XValue)"
    by simp
  ultimately show ?thesis
    using GetSuggestedValues_keeps_solutions[OF example_direct_problem[of 4] pl(1), of "[(3, 6)]" 2 4] pl(1)
    by (auto simp: example_pair_variables)
qed

text \<open>C18: For a constraint whose predicates are equalities and depth-first comparisons of two plain variables, with no
  repeated operand in them or in what can be derived from two of them, once all the other variables are assigned, the suggestion is exact: it contains the value that
  completes the assignments precisely when the constraint is satisfied by the complete assignments.\<close>

theorem GetSuggestedValues_exact:
  assumes "direct_problem env db e f" "new_symbolic_plan env e = Inr pl"
    "\<forall>u x. map_of a u = Some x \<longrightarrow> map_of f u = Some x"
    "v \<in> set (GetRequiredVariables e)" "v \<noteq> null_variable" "map_of f v = Some x"
    "\<forall>u \<in> set (GetRequiredVariables e). u \<noteq> v \<longrightarrow> u \<in> fst ` set a"
  shows "\<exists>r. SymbolicConstraint_GetSuggestedValues (env_tree env) (Some db) pl a v = Inr (Some r)
    \<and> (x \<in> denotes r \<longleftrightarrow> SymbolicConstraint_IsSatisfied (env_tree env) (Some db) pl f = Inr True)"
  using suggested_values[OF assms(1-6)] assms(7) by blast

theorem GetSuggestedValues_exact_witness:
  "\<exists>pl r. new_symbolic_plan example_solver example_pair = Inr pl
    \<and> SymbolicConstraint_GetSuggestedValues flat_tree (Some ordered_db) pl [(1, 5), (3, 6)] 2 = Inr (Some r) \<and> 6 \<notin> denotes r"
proof -
  obtain w pl where pl: "new_symbolic_plan example_solver example_pair = Inr pl" "symbolic_plan_ok example_solver example_pair w pl"
    using new_symbolic_plan_ok[OF example_solvable] by (auto simp: inj_def)
  have "SymbolicConstraint_IsSatisfied flat_tree (Some ordered_db) pl [(1, 5), (2, 6), (3, 6)] = Inr False"
    using example_pair_cases(1)[of 6] by (simp add: IsSatisfied_plan[OF pl(2)] assignments_kit_def ordered_kit_def)
  moreover have "\<forall>(u :: VariableId) x. map_of [(1, 5), (3, 6)] u = Some x \<longrightarrow> map_of [(1, 5), (2, 6), (3, 6)] u = Some (x :: XValue)"
    by simp
  ultimately show ?thesis
    using GetSuggestedValues_exact[OF example_direct_problem[of 6] pl(1), of "[(1, 5), (3, 6)]" 2 6] pl(1)
    by (auto simp: example_pair_variables)
qed

end
