(* ===== verification/Lacing.thy ===== *)
theory Lacing
  imports "HOL-Library.Multiset" Csp KeyedMaps
begin

text \<open>
  The lacing (\<^verbatim>\<open>vn/db/lacing.cpp\<close>): an ordering of the categories that patterns restrict against, such
  that every category is a small number of ranges of it, and a decision tree that finds the place of any
  node in the ordering.

  A \<^verbatim>\<open>TreePtr\<close> is an address, ordered as such, and null is 0. The tests of nodes are parameters:
  \<open>cat_subcategory l r\<close> is \<^verbatim>\<open>l->IsSubcategory(*r)\<close>, that is, \<open>r\<close> belongs to the category of \<open>l\<close>. The cache of
  these tests is keyed by the types of the two nodes and is threaded through the code that asks them. The
  passes of \<open>Sort\<close> are a partial function; that they end is proved below.
\<close>

section \<open>State\<close>

type_synonym TreePtr = nat

abbreviation null_node :: TreePtr where
  "null_node \<equiv> 0"

type_synonym CategorySet = "TreePtr list"

type_synonym SubCategoryCache = "nat \<times> nat \<Rightarrow> bool option"

record node_ops =
  cat_subcategory :: "TreePtr \<Rightarrow> TreePtr \<Rightarrow> bool"
  node_typeid :: "TreePtr \<Rightarrow> nat"
  order_total :: "TreePtr \<Rightarrow> TreePtr \<Rightarrow> int"
  order_repeatable :: "TreePtr \<Rightarrow> TreePtr \<Rightarrow> int"
  node_simple_compare :: "TreePtr \<Rightarrow> TreePtr \<Rightarrow> int"

text \<open>A \<open>DecisionNodeLocalMatch\<close> with its category, its two successors and its range of ordinals, or a leaf.\<close>

datatype DecisionNode =
    DecisionNodeLocalMatch TreePtr DecisionNode DecisionNode int int
  | DecisionNodeLeaf int

record category_relations =
  cats_to_nonstrict_supercats :: "(TreePtr \<times> CategorySet) list"
  cats_to_nonstrict_subcats :: "(TreePtr \<times> CategorySet) list"
  cats_to_strict_supercats :: "(TreePtr \<times> CategorySet) list"
  cats_to_strict_subcats :: "(TreePtr \<times> CategorySet) list"

record lacing =
  categories :: CategorySet
  relations :: category_relations
  cats_in_lacing_order :: "TreePtr list"
  cats_to_lacing_range_lists :: "(TreePtr \<times> (int \<times> int) list) list"
  cats_to_lacing_sets :: "(TreePtr \<times> int list) list"
  decision_tree_root :: DecisionNode

section \<open>Categories\<close>

definition IsEquivalentCategory :: "node_ops \<Rightarrow> TreePtr \<Rightarrow> TreePtr \<Rightarrow> bool" where
  "IsEquivalentCategory N l r \<longleftrightarrow> cat_subcategory N l r \<and> cat_subcategory N r l"

definition unique_among :: "node_ops \<Rightarrow> TreePtr \<Rightarrow> CategorySet \<Rightarrow> bool result" where
  "unique_among N x cats =
     foldE (\<lambda>y unique.
              if x = null_node \<or> y = null_node then Inl NullDeref
              else if IsEquivalentCategory N x y then Inr False
              else guardE (order_total N x y \<noteq> 0) (guardE (order_repeatable N x y \<noteq> 0) (Inr unique)))
       cats True"

definition FixupCategories :: "node_ops \<Rightarrow> CategorySet \<Rightarrow> CategorySet result" where
  "FixupCategories N raw_categories =
     bindE (foldE (\<lambda>x cats. bindE (unique_among N x cats) (\<lambda>unique.
              Inr (if unique then fst (container_insert (<) x cats) else cats)))
            raw_categories [])
       (\<lambda>cats. Inr (fst (container_insert (<) null_node cats)))"

text \<open>\<^verbatim>\<open>LocalMatchWithNULL\<close>. Its second test is never reached with both pointers null.\<close>

definition LocalMatchWithNULL :: "node_ops \<Rightarrow> TreePtr \<Rightarrow> TreePtr \<Rightarrow> SubCategoryCache \<Rightarrow> bool \<times> SubCategoryCache" where
  "LocalMatchWithNULL N l r cache =
     (if l = null_node \<or> r = null_node then (False, cache)
      else if r = null_node \<and> l = null_node then (True, cache)
      else let p = (node_typeid N l, node_typeid N r) in
        case cache p of
          Some b \<Rightarrow> (b, cache)
        | None \<Rightarrow> (let subcat = cat_subcategory N l r in (subcat, cache(p \<mapsto> subcat))))"

text \<open>\<^verbatim>\<open>m[k]\<close> as a statement, and \<^verbatim>\<open>m.at(k).insert(x)\<close>.\<close>

definition map_touch :: "TreePtr \<Rightarrow> (TreePtr \<times> CategorySet) list \<Rightarrow> (TreePtr \<times> CategorySet) list" where
  "map_touch k m = map_change (<) k [] (\<lambda>s. s) m"

definition map_insert_at ::
    "bool \<Rightarrow> TreePtr \<Rightarrow> TreePtr \<Rightarrow> (TreePtr \<times> CategorySet) list \<Rightarrow> (TreePtr \<times> CategorySet) list result" where
  "map_insert_at wanted k x m =
     (if wanted then bindE (map_at (<) k m) (\<lambda>s. Inr (map_assign (<) k (fst (container_insert (<) x s)) m)) else Inr m)"

definition relate_candidate ::
    "node_ops \<Rightarrow> TreePtr \<Rightarrow> TreePtr \<Rightarrow> category_relations \<times> SubCategoryCache \<Rightarrow> (category_relations \<times> SubCategoryCache) result" where
  "relate_candidate N cat candidate = (\<lambda>(R, cache).
     let (weak_super, cache) = LocalMatchWithNULL N candidate cat cache;
         (weak_sub, cache) = LocalMatchWithNULL N cat candidate cache in
     bindE (map_insert_at weak_super cat candidate (cats_to_nonstrict_supercats R)) (\<lambda>m1.
     bindE (map_insert_at weak_sub cat candidate (cats_to_nonstrict_subcats R)) (\<lambda>m2.
     bindE (map_insert_at (weak_super \<and> \<not> weak_sub) cat candidate (cats_to_strict_supercats R)) (\<lambda>m3.
     bindE (map_insert_at (weak_sub \<and> \<not> weak_super) cat candidate (cats_to_strict_subcats R)) (\<lambda>m4.
       Inr (\<lparr>cats_to_nonstrict_supercats = m1, cats_to_nonstrict_subcats = m2,
             cats_to_strict_supercats = m3, cats_to_strict_subcats = m4\<rparr>, cache))))))"

definition touch_relations :: "TreePtr \<Rightarrow> category_relations \<Rightarrow> category_relations" where
  "touch_relations cat R =
     \<lparr>cats_to_nonstrict_supercats = map_touch cat (cats_to_nonstrict_supercats R),
      cats_to_nonstrict_subcats = map_touch cat (cats_to_nonstrict_subcats R),
      cats_to_strict_supercats = map_touch cat (cats_to_strict_supercats R),
      cats_to_strict_subcats = map_touch cat (cats_to_strict_subcats R)\<rparr>"

definition FindSuperAndSubCategories ::
    "node_ops \<Rightarrow> CategorySet \<Rightarrow> SubCategoryCache \<Rightarrow> (category_relations \<times> SubCategoryCache) result" where
  "FindSuperAndSubCategories N cats cache =
     foldE (\<lambda>cat (R, cache). foldE (relate_candidate N cat) cats (touch_relations cat R, cache))
       cats (\<lparr>cats_to_nonstrict_supercats = [], cats_to_nonstrict_subcats = [],
              cats_to_strict_supercats = [], cats_to_strict_subcats = []\<rparr>, cache)"

section \<open>Sorting\<close>

definition GetMetric :: "category_relations \<Rightarrow> TreePtr list \<Rightarrow> int \<Rightarrow> int \<Rightarrow> int result" where
  "GetMetric R order p q =
     (let ncats = int (length order) in
      if p < 0 \<or> p \<ge> ncats \<or> q < 0 \<or> q \<ge> ncats then Inr 0
      else guardE (p \<noteq> q)
       (bindE (vec_at order (nat p)) (\<lambda>pa.
        bindE (vec_at order (nat q)) (\<lambda>qa.
        bindE (map_at (<) pa (cats_to_nonstrict_supercats R)) (\<lambda>psupers.
        bindE (map_at (<) qa (cats_to_nonstrict_supercats R)) (\<lambda>qsupers.
          foldE (\<lambda>t metric. bindE (map_at (<) t (cats_to_nonstrict_subcats R)) (\<lambda>subs.
                   Inr (metric + int (length subs))))
            (SymmetricDifferenceOf (<) psupers qsupers) 0))))))"

text \<open>The sum of two metrics.\<close>

definition metrics :: "category_relations \<Rightarrow> TreePtr list \<Rightarrow> (int \<times> int) list \<Rightarrow> int result" where
  "metrics R order pqs = foldE (\<lambda>(p, q) acc. bindE (GetMetric R order p q) (\<lambda>x. Inr (acc + x))) pqs 0"

text \<open>The pairs of neighbours that exchanging the blocks of \<open>bs\<close> categories at \<open>i\<close> and \<open>j\<close> breaks, and those
  that it makes.\<close>

definition current_pairs :: "int \<Rightarrow> int \<Rightarrow> int \<Rightarrow> int \<Rightarrow> (int \<times> int) list" where
  "current_pairs ncats bs i j =
     (if i - j \<noteq> ncats - bs then [(i + bs - 1, i + bs), (j, j - 1)] else [])
     @ (if i - j \<noteq> bs then [(i, i - 1), (j + bs - 1, j + bs)] else [(j + bs - 1, i)])"

definition swapped_pairs :: "int \<Rightarrow> int \<Rightarrow> int \<Rightarrow> int \<Rightarrow> (int \<times> int) list" where
  "swapped_pairs ncats bs i j =
     (if i - j \<noteq> ncats - bs then [(i, j - 1), (j + bs - 1, i + bs)] else [])
     @ (if i - j \<noteq> bs then [(i + bs - 1, j + bs), (j, i - 1)] else [(i + bs - 1, j)])"

definition total_metric :: "category_relations \<Rightarrow> TreePtr list \<Rightarrow> int result" where
  "total_metric R order = metrics R order (map (\<lambda>k. (int k, int k + 1)) [0..<length order])"

definition swap_blocks :: "nat \<Rightarrow> nat \<Rightarrow> nat \<Rightarrow> TreePtr list \<Rightarrow> TreePtr list result" where
  "swap_blocks bs i j order =
     foldE (\<lambda>k order. bindE (vec_at order (i + k)) (\<lambda>x. bindE (vec_at order (j + k)) (\<lambda>y.
              Inr (order[i + k := y, j + k := x]))))
       [0..<bs] order"

definition try_swap :: "category_relations \<Rightarrow> nat \<Rightarrow> nat \<Rightarrow> nat \<Rightarrow> TreePtr list \<times> bool \<Rightarrow> (TreePtr list \<times> bool) result" where
  "try_swap R bs i j = (\<lambda>(order, swapped).
     let ncats = int (length order) in
     guardE (int i - int j \<ge> int bs)
    (guardE (int j + int bs \<le> ncats)
      (bindE (metrics R order (current_pairs ncats (int bs) (int i) (int j))) (\<lambda>curr_metric.
       bindE (metrics R order (swapped_pairs ncats (int bs) (int i) (int j))) (\<lambda>metric_if_swapped.
         if metric_if_swapped < curr_metric
         then let expected_reduction = curr_metric - metric_if_swapped in
           bindE (total_metric R order) (\<lambda>before.
           bindE (swap_blocks bs i j order) (\<lambda>order'.
           bindE (total_metric R order') (\<lambda>after.
             guardE (expected_reduction = before - after) (Inr (order', True)))))
         else Inr (order, swapped))))))"

text \<open>One round of the loops over block sizes and positions. The outer loop counts down.\<close>

definition sort_round :: "category_relations \<Rightarrow> TreePtr list \<Rightarrow> (TreePtr list \<times> bool) result" where
  "sort_round R order =
     (let ncats = length order in
      foldE (\<lambda>bs. foldE (\<lambda>i. guardE (i + bs \<le> ncats) \<circ> foldE (\<lambda>j. try_swap R bs i j) [0..<Suc i - bs])
                    [0..<Suc ncats - bs])
        (rev [1..<Suc (ncats div 2)]) (order, False))"

partial_function (option) sort_loop :: "category_relations \<Rightarrow> TreePtr list \<Rightarrow> TreePtr list result option" where
  "sort_loop R order =
     (case sort_round R order of
        Inl e \<Rightarrow> Some (Inl e)
      | Inr (order', swapped) \<Rightarrow> if swapped then sort_loop R order' else Some (Inr order'))"

definition Sort :: "category_relations \<Rightarrow> CategorySet \<Rightarrow> TreePtr list result option" where
  "Sort R cats = sort_loop R cats"

section \<open>Ranges\<close>

text \<open>The comparison of nodes by content, as a comparison of pointers.\<close>

definition simple_compare_ptr :: "node_ops \<Rightarrow> TreePtr \<Rightarrow> TreePtr \<Rightarrow> int" where
  "simple_compare_ptr N l r =
     (if l = null_node \<or> r = null_node then of_bool (l \<noteq> null_node) - of_bool (r \<noteq> null_node)
      else node_simple_compare N l r)"

definition simple_less :: "node_ops \<Rightarrow> TreePtr \<Rightarrow> TreePtr \<Rightarrow> bool" where
  "simple_less N l r \<longleftrightarrow> simple_compare_ptr N l r < 0"

type_synonym range_lists = "(TreePtr \<times> (int \<times> int) list) list"

definition begin_range :: "node_ops \<Rightarrow> int \<Rightarrow> TreePtr \<Rightarrow> range_lists \<Rightarrow> range_lists" where
  "begin_range N i supercat m = map_change (simple_less N) supercat [] (\<lambda>l. l @ [(i, -1)]) m"

definition end_range :: "node_ops \<Rightarrow> int \<Rightarrow> TreePtr \<Rightarrow> range_lists \<Rightarrow> range_lists result" where
  "end_range N i supercat m =
     (case map_find (simple_less N) supercat m of
        Some (r # rs) \<Rightarrow>
          Inr (map_change (simple_less N) supercat [] (\<lambda>l. butlast l @ [(fst (last l), i)]) m)
      | _ \<Rightarrow> Inl Undefined)"

definition supercats_at :: "category_relations \<Rightarrow> TreePtr list \<Rightarrow> nat \<Rightarrow> CategorySet result" where
  "supercats_at R order i =
     bindE (if i < length order then vec_at order i else Inr null_node) (\<lambda>cat_i.
       if cat_i \<noteq> null_node then map_at (<) cat_i (cats_to_nonstrict_supercats R) else Inr [])"

definition BuildRanges :: "node_ops \<Rightarrow> category_relations \<Rightarrow> TreePtr list \<Rightarrow> range_lists result" where
  "BuildRanges N R order =
     bindE (foldE (\<lambda>i (prev_supercats, m).
              bindE (supercats_at R order i) (\<lambda>current_supercats.
              let m = fold (begin_range N (int i)) (DifferenceOf (<) current_supercats prev_supercats) m in
              bindE (foldE (end_range N (int i)) (DifferenceOf (<) prev_supercats current_supercats) m) (\<lambda>m.
                Inr (current_supercats, m))))
            [0..<Suc (length order)] ([], []))
       (\<lambda>(prev_supercats, m). Inr m)"

section \<open>The decision tree\<close>

type_synonym lacing_sets = "(TreePtr \<times> int list) list"

definition gather_lacing_sets :: "category_relations \<Rightarrow> TreePtr list \<Rightarrow> lacing_sets result" where
  "gather_lacing_sets R order =
     foldE (\<lambda>i m. bindE (vec_at order i) (\<lambda>cat_i.
              bindE (map_at (<) cat_i (cats_to_nonstrict_supercats R)) (\<lambda>current_supercats.
                Inr (fold (\<lambda>supercat. map_change (<) supercat [] (\<lambda>s. fst (container_insert (<) (int i) s)))
                       current_supercats m))))
       [0..<length order] []"

text \<open>The search for the category that best halves the possible ordinals: the difference from half, twice,
  with the category and the intersection, once one was found.\<close>

definition consider_category ::
    "lacing_sets \<Rightarrow> int list \<Rightarrow> TreePtr \<Rightarrow> int \<times> (TreePtr \<times> int list) option \<Rightarrow> (int \<times> (TreePtr \<times> int list) option) result" where
  "consider_category sets possible_lacing_ordinals cat = (\<lambda>(best_diff, best).
     if cat = null_node then Inr (best_diff, best)
     else bindE (map_at (<) cat sets) (\<lambda>lacing_set.
       let inter = IntersectionOf (<) possible_lacing_ordinals lacing_set in
       if inter = [] \<or> length inter = length possible_lacing_ordinals then Inr (best_diff, best)
       else let diff = \<bar>int (length inter) * 2 - int (length possible_lacing_ordinals)\<bar> in
         if diff < best_diff then Inr (diff, Some (cat, inter)) else Inr (best_diff, best)))"

text \<open>Sequencing of operations that may run out of fuel or fail.\<close>

definition bindO :: "'a result option \<Rightarrow> ('a \<Rightarrow> 'b result option) \<Rightarrow> 'b result option" where
  "bindO m f = (case m of None \<Rightarrow> None | Some (Inl e) \<Rightarrow> Some (Inl e) | Some (Inr x) \<Rightarrow> f x)"

fun MakeDecisionSubtree ::
    "lacing_sets \<Rightarrow> CategorySet \<Rightarrow> nat \<Rightarrow> int list \<Rightarrow> DecisionNode result option" where
  "MakeDecisionSubtree sets cats 0 possible_lacing_ordinals = None"
| "MakeDecisionSubtree sets cats (Suc fuel) possible_lacing_ordinals =
     (if possible_lacing_ordinals = [] then Some (Inl AssertFail)
      else if length possible_lacing_ordinals = 1
      then Some (bindE (SoloElementOf possible_lacing_ordinals) (\<lambda>ordinal. Inr (DecisionNodeLeaf ordinal)))
      else bindO (Some (foldE (consider_category sets possible_lacing_ordinals) cats
                          (int (length possible_lacing_ordinals) + 1, None))) (\<lambda>(best_diff, best).
        case best of
          None \<Rightarrow> Some (Inl AssertFail)
        | Some (best_cat, best_inter) \<Rightarrow>
            bindO (Some (map_at (<) best_cat sets)) (\<lambda>lacing_set.
            let best_setdiff = DifferenceOf (<) possible_lacing_ordinals lacing_set in
            bindO (MakeDecisionSubtree sets cats fuel best_inter) (\<lambda>yes.
            bindO (MakeDecisionSubtree sets cats fuel best_setdiff) (\<lambda>no.
            bindO (Some (FrontOf possible_lacing_ordinals)) (\<lambda>min_lacing_ordinal.
            bindO (Some (BackOf possible_lacing_ordinals)) (\<lambda>max_lacing_ordinal.
              Some (Inr (DecisionNodeLocalMatch best_cat yes no min_lacing_ordinal max_lacing_ordinal)))))))))"

text \<open>\<^verbatim>\<open>GetOrdinalForNode\<close>: \<^verbatim>\<open>GetNextDecisionNode\<close> until a leaf is reached.\<close>

fun ordinal_below :: "node_ops \<Rightarrow> DecisionNode \<Rightarrow> TreePtr \<Rightarrow> SubCategoryCache \<Rightarrow> int \<times> SubCategoryCache" where
  "ordinal_below N (DecisionNodeLeaf ordinal) target_node cache = (ordinal, cache)"
| "ordinal_below N (DecisionNodeLocalMatch category if_yes if_no mn mx) target_node cache =
     (let (yes, cache) = LocalMatchWithNULL N category target_node cache in
      if yes then ordinal_below N if_yes target_node cache else ordinal_below N if_no target_node cache)"

definition GetOrdinalForNode :: "node_ops \<Rightarrow> lacing \<Rightarrow> TreePtr \<Rightarrow> SubCategoryCache \<Rightarrow> int \<times> SubCategoryCache" where
  "GetOrdinalForNode N L target_node cache = ordinal_below N (decision_tree_root L) target_node cache"

definition TestDecisionTree :: "node_ops \<Rightarrow> lacing \<Rightarrow> SubCategoryCache \<Rightarrow> SubCategoryCache result" where
  "TestDecisionTree N L cache =
     foldE (\<lambda>i cache. bindE (vec_at (cats_in_lacing_order L) i) (\<lambda>cat.
              let (ordinal, cache) = GetOrdinalForNode N L cat cache in guardE (ordinal = int i) (Inr cache)))
       [0..<length (cats_in_lacing_order L)] cache"

section \<open>Building the lacing\<close>

definition Lacing_Build :: "node_ops \<Rightarrow> CategorySet \<Rightarrow> SubCategoryCache \<Rightarrow> (lacing \<times> SubCategoryCache) result option" where
  "Lacing_Build N raw_categories cache =
     bindO (Some (FixupCategories N raw_categories)) (\<lambda>cats.
     bindO (Some (FindSuperAndSubCategories N cats cache)) (\<lambda>(R, cache).
     bindO (Sort R cats) (\<lambda>order.
     bindO (Some (BuildRanges N R order)) (\<lambda>range_lists.
     bindO (Some (gather_lacing_sets R order)) (\<lambda>sets.
     bindO (MakeDecisionSubtree sets cats (length order) (map int [0..<length order])) (\<lambda>root.
     let L = \<lparr>categories = cats, relations = R, cats_in_lacing_order = order, cats_to_lacing_range_lists = range_lists,
              cats_to_lacing_sets = sets, decision_tree_root = root\<rparr> in
     bindO (Some (TestDecisionTree N L cache)) (\<lambda>cache. Some (Inr (L, cache)))))))))"

section \<open>Queries\<close>

definition TryGetRangeListForCategory :: "node_ops \<Rightarrow> lacing \<Rightarrow> TreePtr \<Rightarrow> (int \<times> int) list result" where
  "TryGetRangeListForCategory N L archetype =
     (if map_count (simple_less N) archetype (cats_to_lacing_range_lists L) > 0
      then bindE (map_at (simple_less N) archetype (cats_to_lacing_range_lists L)) (\<lambda>lrl. guardE (lrl \<noteq> []) (Inr lrl))
      else Inr [])"

definition Lacing_GetRangeListForCategory :: "node_ops \<Rightarrow> lacing \<Rightarrow> TreePtr \<Rightarrow> (int \<times> int) list result" where
  "Lacing_GetRangeListForCategory N L archetype =
     bindE (TryGetRangeListForCategory N L archetype) (\<lambda>lrl. guardE (lrl \<noteq> []) (Inr lrl))"

text \<open>One side of \<^verbatim>\<open>OrdinalCompare\<close>: the decision node, null once the range is a single ordinal, and the
  range.\<close>

type_synonym ordinal_state = "DecisionNode option \<times> int \<times> int"

definition advance :: "node_ops \<Rightarrow> TreePtr \<Rightarrow> ordinal_state \<times> SubCategoryCache \<Rightarrow> ordinal_state \<times> SubCategoryCache" where
  "advance N node = (\<lambda>((d, mn, mx), cache).
     let ((d, mn, mx), cache) =
       (case d of
          None \<Rightarrow> ((d, mn, mx), cache)
        | Some (DecisionNodeLocalMatch category if_yes if_no lo hi) \<Rightarrow>
            (let (yes, cache) = LocalMatchWithNULL N category node cache in
             ((Some (if yes then if_yes else if_no), lo, hi), cache))
        | Some (DecisionNodeLeaf ordinal) \<Rightarrow> ((d, ordinal, ordinal), cache))
     in ((if mn = mx then None else d, mn, mx), cache))"

definition have_result :: "ordinal_state \<Rightarrow> ordinal_state \<Rightarrow> int option" where
  "have_result l r =
     (let (dl, lmin, lmax) = l; (dr, rmin, rmax) = r in
      if lmax < rmin then Some (lmax - rmin)
      else if lmin > rmax then Some (lmin - rmax)
      else if lmin = lmax \<and> rmin = rmax \<and> lmin = rmin then Some 0 else None)"

partial_function (option) ordinal_compare_loop ::
    "node_ops \<Rightarrow> TreePtr \<Rightarrow> TreePtr \<Rightarrow> ordinal_state \<Rightarrow> ordinal_state \<Rightarrow> SubCategoryCache \<Rightarrow> (int \<times> SubCategoryCache) option" where
  "ordinal_compare_loop N lnode rnode l r cache =
     (let (l, cache) = advance N lnode (l, cache) in
      case have_result l r of
        Some d \<Rightarrow> Some (d, cache)
      | None \<Rightarrow>
          (let (r, cache) = advance N rnode (r, cache) in
           case have_result l r of
             Some d \<Rightarrow> Some (d, cache)
           | None \<Rightarrow> ordinal_compare_loop N lnode rnode l r cache))"

definition int_max :: int where
  "int_max = 2 ^ 31 - 1"

definition OrdinalCompare ::
    "node_ops \<Rightarrow> lacing \<Rightarrow> TreePtr \<Rightarrow> TreePtr \<Rightarrow> SubCategoryCache \<Rightarrow> (int \<times> SubCategoryCache) option" where
  "OrdinalCompare N L lnode rnode cache =
     (let start = (Some (decision_tree_root L), 0, int_max) in
      ordinal_compare_loop N lnode rnode start start cache)"

section \<open>The tests of categories\<close>

text \<open>A node belongs to a category when the category's test says so; null is apart.\<close>

definition belongs :: "node_ops \<Rightarrow> TreePtr \<Rightarrow> TreePtr \<Rightarrow> bool" where
  "belongs N c x \<longleftrightarrow> c \<noteq> null_node \<and> x \<noteq> null_node \<and> cat_subcategory N c x"

text \<open>What the tests satisfy: they are dynamic casts, so they depend on the types of the nodes and are
  reflexive and transitive; and the orderings of nodes tell different categories apart.\<close>

definition node_laws :: "node_ops \<Rightarrow> bool" where
  "node_laws N \<longleftrightarrow>
     (\<exists>derives. \<forall>l r. cat_subcategory N l r = derives (node_typeid N l) (node_typeid N r))
     \<and> (\<forall>x. cat_subcategory N x x)
     \<and> (\<forall>x y z. cat_subcategory N x y \<longrightarrow> cat_subcategory N y z \<longrightarrow> cat_subcategory N x z)
     \<and> (\<forall>x y. \<not> IsEquivalentCategory N x y \<longrightarrow> order_total N x y \<noteq> 0 \<and> order_repeatable N x y \<noteq> 0)
     \<and> (\<forall>x y. order_total N x y \<noteq> 0 \<longrightarrow> node_simple_compare N x y \<noteq> 0)
     \<and> strict_weak_order (\<lambda>x y. node_simple_compare N x y < 0)
     \<and> (\<forall>x y. node_simple_compare N x y = 0 \<longleftrightarrow> equivalent (\<lambda>x y. node_simple_compare N x y < 0) x y)"

lemma node_lawsD:
  assumes "node_laws N"
  shows "belongs N x x \<longleftrightarrow> x \<noteq> null_node" "belongs N x y \<Longrightarrow> belongs N y z \<Longrightarrow> belongs N x z"
    "\<not> IsEquivalentCategory N x y \<Longrightarrow> order_total N x y \<noteq> 0 \<and> order_repeatable N x y \<noteq> 0"
proof -
  have refl: "\<forall>x. cat_subcategory N x x"
    and trans: "\<forall>x y z. cat_subcategory N x y \<longrightarrow> cat_subcategory N y z \<longrightarrow> cat_subcategory N x z"
    and apart: "\<forall>x y. \<not> IsEquivalentCategory N x y \<longrightarrow> order_total N x y \<noteq> 0 \<and> order_repeatable N x y \<noteq> 0"
    using assms by (simp_all add: node_laws_def)
  show "belongs N x x \<longleftrightarrow> x \<noteq> null_node" using refl by (simp add: belongs_def)
  show "belongs N x y \<Longrightarrow> belongs N y z \<Longrightarrow> belongs N x z" using trans by (auto simp: belongs_def)
  show "\<not> IsEquivalentCategory N x y \<Longrightarrow> order_total N x y \<noteq> 0 \<and> order_repeatable N x y \<noteq> 0" using apart by blast
qed

definition cache_ok :: "node_ops \<Rightarrow> SubCategoryCache \<Rightarrow> bool" where
  "cache_ok N cache \<longleftrightarrow> (\<forall>l r b. cache (node_typeid N l, node_typeid N r) = Some b \<longrightarrow> b = cat_subcategory N l r)"

lemma cache_ok_empty [simp]: "cache_ok N (\<lambda>p. None)"
  by (simp add: cache_ok_def)

lemma LocalMatch_ok:
  assumes "node_laws N" "cache_ok N cache"
  shows "\<exists>cache'. LocalMatchWithNULL N l r cache = (belongs N l r, cache') \<and> cache_ok N cache'"
proof -
  obtain derives where "\<forall>l r. cat_subcategory N l r = derives (node_typeid N l) (node_typeid N r)"
    using assms(1) by (auto simp: node_laws_def)
  then have new: "cache_ok N (cache((node_typeid N l, node_typeid N r) \<mapsto> cat_subcategory N l r))"
    using assms(2) by (auto simp: cache_ok_def)
  show ?thesis
  proof (cases "l = null_node \<or> r = null_node")
    case True
    with assms(2) show ?thesis by (auto simp: LocalMatchWithNULL_def belongs_def)
  next
    case False
    show ?thesis
    proof (cases "cache (node_typeid N l, node_typeid N r)")
      case None
      with False new show ?thesis by (simp add: LocalMatchWithNULL_def belongs_def Let_def)
    next
      case (Some b)
      then have "b = cat_subcategory N l r" using assms(2) unfolding cache_ok_def by metis
      with False Some assms(2) show ?thesis by (simp add: LocalMatchWithNULL_def belongs_def Let_def)
    qed
  qed
qed

section \<open>The set of categories\<close>

lemma unique_among_ok:
  assumes "node_laws N" "x \<noteq> null_node" "null_node \<notin> set cats"
  shows "unique_among N x cats = Inr (\<forall>y \<in> set cats. \<not> IsEquivalentCategory N x y)"
proof -
  have "foldE (\<lambda>y unique. if x = null_node \<or> y = null_node then Inl NullDeref
              else if IsEquivalentCategory N x y then Inr False
              else guardE (order_total N x y \<noteq> 0) (guardE (order_repeatable N x y \<noteq> 0) (Inr unique))) cats u
      = Inr (u \<and> (\<forall>y \<in> set cats. \<not> IsEquivalentCategory N x y))" for u
    using assms(3)
  proof (induction cats arbitrary: u)
    case (Cons y cats)
    then show ?case using assms(2) node_lawsD(3)[OF assms(1), of x y] by auto
  qed simp
  then show ?thesis by (simp add: unique_among_def)
qed

text \<open>Categories: no two are equivalent, and null is one of them.\<close>

definition categories_ok :: "node_ops \<Rightarrow> CategorySet \<Rightarrow> bool" where
  "categories_ok N cats \<longleftrightarrow> sorted_set cats \<and> null_node \<in> set cats
     \<and> (\<forall>x \<in> set cats. \<forall>y \<in> set cats. belongs N x y \<longrightarrow> belongs N y x \<longrightarrow> x = y)"

lemma IsEquivalentCategory_sym: "IsEquivalentCategory N x y \<Longrightarrow> IsEquivalentCategory N y x"
  by (auto simp: IsEquivalentCategory_def)

text \<open>What the loop keeps: one category for each class of equivalent ones among those seen.\<close>

definition uniquified :: "node_ops \<Rightarrow> TreePtr set \<Rightarrow> CategorySet \<Rightarrow> bool" where
  "uniquified N D cats \<longleftrightarrow> null_node \<notin> D \<and> sorted_set cats \<and> set cats \<subseteq> D
     \<and> (\<forall>x \<in> set cats. \<forall>y \<in> set cats. IsEquivalentCategory N x y \<longrightarrow> x = y)
     \<and> (\<forall>x \<in> D. \<exists>y \<in> set cats. IsEquivalentCategory N x y)"

lemma fixup_step:
  assumes laws: "node_laws N" and I: "uniquified N D cats" and x: "x \<noteq> null_node"
  shows "\<exists>cats'. bindE (unique_among N x cats) (\<lambda>unique.
      Inr (if unique then fst (container_insert (<) x cats) else cats)) = Inr cats' \<and> uniquified N (D \<union> {x}) cats'"
proof -
  have "null_node \<notin> set cats" using I by (auto simp: uniquified_def)
  note u = unique_among_ok[OF laws x this]
  have refl: "IsEquivalentCategory N x x"
    using node_lawsD(1)[OF laws] x by (auto simp: IsEquivalentCategory_def belongs_def)
  show ?thesis
  proof (cases "\<forall>y \<in> set cats. \<not> IsEquivalentCategory N x y")
    case True
    then have new: "represents (fst (container_insert (<) x cats)) (insert x (set cats))"
      using I by (intro represents_insert) (simp add: represents_def uniquified_def)
    have "\<forall>y \<in> set cats. \<not> IsEquivalentCategory N y x" using True IsEquivalentCategory_sym by blast
    with True I refl new x show ?thesis by (auto simp: u represents_def uniquified_def)
  next
    case False
    with I x show ?thesis by (auto simp: u uniquified_def)
  qed
qed

lemma FixupCategories_ok:
  assumes laws: "node_laws N" and raw: "null_node \<notin> set raw"
  shows "\<exists>cats. FixupCategories N raw = Inr cats \<and> categories_ok N cats \<and> set cats \<subseteq> insert null_node (set raw)
    \<and> (\<forall>x \<in> set raw. \<exists>y \<in> set cats. belongs N x y \<and> belongs N y x)"
proof -
  let ?f = "\<lambda>x cats. bindE (unique_among N x cats) (\<lambda>unique.
              Inr (if unique then fst (container_insert (<) x cats) else cats))"
  have "uniquified N {} []" by (simp add: uniquified_def)
  moreover have "x \<noteq> null_node" if "x \<in> set raw" for x using raw that by metis
  ultimately have "\<exists>cats. foldE ?f raw [] = Inr cats \<and> uniquified N ({} \<union> (\<Union>x \<in> set raw. {x})) cats"
    by (intro foldE_accumulate fixup_step[OF laws]) simp_all
  then obtain cats where c: "foldE ?f raw [] = Inr cats" "uniquified N (set raw) cats" by auto
  have new: "represents (fst (container_insert (<) null_node cats)) (insert null_node (set cats))"
    using c(2) by (intro represents_insert) (auto simp: represents_def uniquified_def)
  have nn: "null_node \<notin> set cats" using c(2) raw by (auto simp: uniquified_def)
  have "belongs N x y \<and> belongs N y x" if "x \<in> set raw" "y \<in> set cats" "IsEquivalentCategory N x y" for x y
  proof -
    have "x \<noteq> null_node \<and> y \<noteq> null_node" using that(1,2) nn raw by metis
    with that(3) show ?thesis by (simp add: belongs_def IsEquivalentCategory_def)
  qed
  then have "\<forall>x \<in> set raw. \<exists>y \<in> set cats. belongs N x y \<and> belongs N y x"
    using c(2) unfolding uniquified_def by blast
  moreover have "categories_ok N (fst (container_insert (<) null_node cats))"
    using c(2) new by (auto simp: categories_ok_def uniquified_def represents_def belongs_def IsEquivalentCategory_def)
  moreover have "set cats \<subseteq> set raw" using c(2) by (simp add: uniquified_def)
  ultimately show ?thesis
    using c(1) new by (intro exI[of _ "fst (container_insert (<) null_node cats)"]) (auto simp: FixupCategories_def represents_def)
qed

section \<open>Super- and subcategories\<close>

text \<open>A map from categories \<open>K\<close> to the sets of the pairs in \<open>S\<close>.\<close>

definition family :: "(TreePtr \<times> CategorySet) list \<Rightarrow> TreePtr set \<Rightarrow> (TreePtr \<times> TreePtr) set \<Rightarrow> bool" where
  "family m K S \<longleftrightarrow> sorted_keys (<) m \<and> fst ` S \<subseteq> K
     \<and> (\<forall>k. case map_find (<) k m of None \<Rightarrow> k \<notin> K | Some s \<Rightarrow> k \<in> K \<and> represents s {d. (k, d) \<in> S})"

lemma family_find: "family m K S \<Longrightarrow> k \<in> K \<Longrightarrow> \<exists>s. map_find (<) k m = Some s \<and> represents s {d. (k, d) \<in> S}"
  unfolding family_def by (metis (no_types, lifting) option.case_eq_if option.collapse)

lemma family_at: "family m K S \<Longrightarrow> k \<in> K \<Longrightarrow> \<exists>s. map_at (<) k m = Inr s \<and> represents s {d. (k, d) \<in> S}"
  using family_find[of m K S k] by (auto simp: map_at_def)

lemma family_touch:
  assumes "family m K S"
  shows "family (map_touch k m) (insert k K) S"
proof -
  have sorted: "sorted_keys (<) m" and sub: "fst ` S \<subseteq> K"
    and all: "\<And>j. case map_find (<) j m of None \<Rightarrow> j \<notin> K | Some s \<Rightarrow> j \<in> K \<and> represents s {d. (j, d) \<in> S}"
    using assms by (simp_all add: family_def)
  have "case map_find (<) j (map_touch k m) of None \<Rightarrow> j \<notin> insert k K | Some s \<Rightarrow> j \<in> insert k K \<and> represents s {d. (j, d) \<in> S}" for j
  proof (cases "j = k \<and> k \<notin> K")
    case True
    then have "{d. (j, d) \<in> S} = {}" using sub by force
    moreover have "map_find (<) k m = None" using all[of k] True by (auto split: option.splits)
    ultimately show ?thesis using True by (simp add: map_touch_def lin.map_find_change[OF sorted])
  next
    case False
    then show ?thesis using all[of j] by (auto simp: map_touch_def lin.map_find_change[OF sorted] split: option.splits)
  qed
  then show ?thesis
    using sub lin.map_change_props[OF sorted, of k "[]" "\<lambda>s. s"] by (auto simp: family_def map_touch_def)
qed

lemma family_insert:
  assumes "family m K S" "k \<in> K"
  shows "\<exists>m'. map_insert_at wanted k x m = Inr m' \<and> family m' K (if wanted then insert (k, x) S else S)"
proof (cases wanted)
  case True
  obtain s where s: "map_find (<) k m = Some s" "represents s {d. (k, d) \<in> S}" using family_find[OF assms] by blast
  have sorted: "sorted_keys (<) m" using assms(1) by (simp add: family_def)
  let ?m = "map_assign (<) k (fst (container_insert (<) x s)) m"
  have "insert x {d. (k, d) \<in> S} = {d. (k, d) \<in> insert (k, x) S}" by auto
  with represents_insert[OF s(2), of x] have new: "represents (fst (container_insert (<) x s)) {d. (k, d) \<in> insert (k, x) S}"
    by simp
  have "case map_find (<) j ?m of None \<Rightarrow> j \<notin> K | Some t \<Rightarrow> j \<in> K \<and> represents t {d. (j, d) \<in> insert (k, x) S}" for j
  proof (cases "j = k")
    case True
    with new assms(2) show ?thesis by (simp add: lin.map_find_assign[OF sorted])
  next
    case False
    then have same: "{d. (j, d) \<in> insert (k, x) S} = {d. (j, d) \<in> S}" by auto
    have "case map_find (<) j m of None \<Rightarrow> j \<notin> K | Some t \<Rightarrow> j \<in> K \<and> represents t {d. (j, d) \<in> S}"
      using assms(1) by (simp add: family_def)
    then show ?thesis unfolding same using False by (simp add: lin.map_find_assign[OF sorted])
  qed
  then have "family ?m K (insert (k, x) S)"
    using assms lin.sorted_map_assign[OF sorted] by (auto simp: family_def)
  with True s(1) show ?thesis by (simp add: map_insert_at_def map_at_def)
qed (use assms in \<open>simp add: map_insert_at_def\<close>)

text \<open>The four maps after the pairs \<open>D\<close> of a category and a candidate.\<close>

definition relations_ok :: "node_ops \<Rightarrow> TreePtr set \<Rightarrow> (TreePtr \<times> TreePtr) set \<Rightarrow> category_relations \<Rightarrow> bool" where
  "relations_ok N K D R \<longleftrightarrow>
     family (cats_to_nonstrict_supercats R) K {(c, d) \<in> D. belongs N d c}
     \<and> family (cats_to_nonstrict_subcats R) K {(c, d) \<in> D. belongs N c d}
     \<and> family (cats_to_strict_supercats R) K {(c, d) \<in> D. belongs N d c \<and> \<not> belongs N c d}
     \<and> family (cats_to_strict_subcats R) K {(c, d) \<in> D. belongs N c d \<and> \<not> belongs N d c}"

lemma filter_insert: "{(c, d) \<in> insert (a, b) D. P c d} = (if P a b then insert (a, b) {(c, d) \<in> D. P c d} else {(c, d) \<in> D. P c d})"
  by auto

lemma relate_candidate_ok:
  assumes "node_laws N" "relations_ok N K D R" "cache_ok N cache" "cat \<in> K"
  shows "\<exists>R' cache'. relate_candidate N cat candidate (R, cache) = Inr (R', cache')
    \<and> relations_ok N K (insert (cat, candidate) D) R' \<and> cache_ok N cache'"
proof -
  obtain c1 where c1: "LocalMatchWithNULL N candidate cat cache = (belongs N candidate cat, c1)" "cache_ok N c1"
    using LocalMatch_ok[OF assms(1,3)] by blast
  obtain c2 where c2: "LocalMatchWithNULL N cat candidate c1 = (belongs N cat candidate, c2)" "cache_ok N c2"
    using LocalMatch_ok[OF assms(1) c1(2)] by blast
  note f = assms(2)[unfolded relations_ok_def]
  let ?up = "belongs N candidate cat" and ?down = "belongs N cat candidate"
  obtain m1 where m1: "map_insert_at ?up cat candidate (cats_to_nonstrict_supercats R) = Inr m1"
      "family m1 K {(c, d) \<in> insert (cat, candidate) D. belongs N d c}"
    using family_insert[OF conjunct1[OF f] assms(4)] unfolding filter_insert[of cat candidate D "\<lambda>c d. belongs N d c"] by blast
  obtain m2 where m2: "map_insert_at ?down cat candidate (cats_to_nonstrict_subcats R) = Inr m2"
      "family m2 K {(c, d) \<in> insert (cat, candidate) D. belongs N c d}"
    using family_insert[of "cats_to_nonstrict_subcats R", OF _ assms(4)] f unfolding filter_insert[of cat candidate D "\<lambda>c d. belongs N c d"] by blast
  obtain m3 where m3: "map_insert_at (?up \<and> \<not> ?down) cat candidate (cats_to_strict_supercats R) = Inr m3"
      "family m3 K {(c, d) \<in> insert (cat, candidate) D. belongs N d c \<and> \<not> belongs N c d}"
    using family_insert[of "cats_to_strict_supercats R", OF _ assms(4)] f
    unfolding filter_insert[of cat candidate D "\<lambda>c d. belongs N d c \<and> \<not> belongs N c d"] by blast
  obtain m4 where m4: "map_insert_at (?down \<and> \<not> ?up) cat candidate (cats_to_strict_subcats R) = Inr m4"
      "family m4 K {(c, d) \<in> insert (cat, candidate) D. belongs N c d \<and> \<not> belongs N d c}"
    using family_insert[of "cats_to_strict_subcats R", OF _ assms(4)] f
    unfolding filter_insert[of cat candidate D "\<lambda>c d. belongs N c d \<and> \<not> belongs N d c"] by blast
  show ?thesis
    using c1 c2 m1 m2 m3 m4 by (simp add: relate_candidate_def relations_ok_def)
qed

lemma touch_relations_ok: "relations_ok N K D R \<Longrightarrow> relations_ok N (insert k K) D (touch_relations k R)"
  by (simp add: relations_ok_def touch_relations_def family_touch)

text \<open>The relations among a set of categories.\<close>

abbreviation relations_of :: "node_ops \<Rightarrow> CategorySet \<Rightarrow> category_relations \<Rightarrow> bool" where
  "relations_of N cats \<equiv> relations_ok N (set cats) (set cats \<times> set cats)"

lemma FindSuperAndSubCategories_ok:
  assumes laws: "node_laws N" and cache: "cache_ok N cache"
  shows "\<exists>R cache'. FindSuperAndSubCategories N cats cache = Inr (R, cache') \<and> relations_of N cats R \<and> cache_ok N cache'"
proof -
  let ?I = "\<lambda>K D (R, cache). relations_ok N K D R \<and> cache_ok N cache"
  let ?f = "\<lambda>cat (R, cache). foldE (relate_candidate N cat) cats (touch_relations cat R, cache)"
  have inner: "\<exists>s'. foldE (relate_candidate N cat) xs s = Inr s' \<and> ?I K (D \<union> (\<Union>d \<in> set xs. {(cat, d)})) s'"
    if "?I K D s" "cat \<in> K" for xs K D s cat
  proof (rule foldE_accumulate[where I = "\<lambda>D s. ?I K D s"])
    fix x D s assume "?I K D s"
    moreover obtain R c where "s = (R, c)" by fastforce
    ultimately show "\<exists>s'. relate_candidate N cat x s = Inr s' \<and> ?I K (D \<union> {(cat, x)}) s'"
      using relate_candidate_ok[OF laws _ _ that(2), of D R c x] by auto
  qed (rule that(1))
  have step: "\<exists>s'. ?f cat s = Inr s' \<and> ?I (K \<union> {cat}) (D \<union> {cat} \<times> set cats) s'" if I: "?I K D s" for cat K D s
  proof -
    obtain R c where s: "s = (R, c)" by fastforce
    have "?I (insert cat K) D (touch_relations cat R, c)" using I s touch_relations_ok[of N K D R cat] by simp
    from inner[OF this, of cat cats] obtain s' where s': "foldE (relate_candidate N cat) cats (touch_relations cat R, c) = Inr s'"
      "?I (insert cat K) (D \<union> (\<Union>d \<in> set cats. {(cat, d)})) s'" by auto
    have "(\<Union>d \<in> set cats. {(cat, d)}) = {cat} \<times> set cats" by auto
    with s' s show ?thesis by (intro exI[of _ s']) (simp add: insert_is_Un[of cat K, symmetric])
  qed
  let ?start = "(\<lparr>cats_to_nonstrict_supercats = [], cats_to_nonstrict_subcats = [], cats_to_strict_supercats = [],
     cats_to_strict_subcats = []\<rparr> :: category_relations, cache)"
  have "?I {} ({} \<times> set cats) ?start" using cache by (simp add: relations_ok_def family_def)
  then have "\<exists>s'. foldE ?f cats ?start = Inr s' \<and> ?I ({} \<union> (\<Union>c \<in> set cats. {c})) (({} \<union> (\<Union>c \<in> set cats. {c})) \<times> set cats) s'"
    using step by (intro foldE_accumulate[where I = "\<lambda>C s. ?I C (C \<times> set cats) s"]) (simp_all only: Sigma_Un_distrib1)
  then show ?thesis by (auto simp: FindSuperAndSubCategories_def)
qed

text \<open>The super- and subcategories of a category, and how far two categories are apart.\<close>

definition supers :: "node_ops \<Rightarrow> CategorySet \<Rightarrow> TreePtr \<Rightarrow> CategorySet" where
  "supers N cats c = filter (\<lambda>d. belongs N d c) cats"

definition subs :: "node_ops \<Rightarrow> CategorySet \<Rightarrow> TreePtr \<Rightarrow> CategorySet" where
  "subs N cats c = filter (\<lambda>d. belongs N c d) cats"

lemma supers_sorted [simp]: "sorted_set cats \<Longrightarrow> sorted_set (supers N cats c)" "sorted_set cats \<Longrightarrow> sorted_set (subs N cats c)"
  by (simp_all add: supers_def subs_def sorted_wrt_filter)

lemma set_supers [simp]: "set (supers N cats c) = {d \<in> set cats. belongs N d c}" "set (subs N cats c) = {d \<in> set cats. belongs N c d}"
  by (auto simp: supers_def subs_def)

lemma relations_at:
  assumes "relations_of N cats R" "sorted_set cats" "c \<in> set cats"
  shows "map_at (<) c (cats_to_nonstrict_supercats R) = Inr (supers N cats c)"
    "map_at (<) c (cats_to_nonstrict_subcats R) = Inr (subs N cats c)"
proof -
  have f: "family (cats_to_nonstrict_supercats R) (set cats) {(c, d) \<in> set cats \<times> set cats. belongs N d c}"
    "family (cats_to_nonstrict_subcats R) (set cats) {(c, d) \<in> set cats \<times> set cats. belongs N c d}"
    using assms(1) by (simp_all add: relations_ok_def)
  have "represents (supers N cats c) {d. (c, d) \<in> {(c, d) \<in> set cats \<times> set cats. belongs N d c}}"
    "represents (subs N cats c) {d. (c, d) \<in> {(c, d) \<in> set cats \<times> set cats. belongs N c d}}"
    using assms(2,3) by (auto simp: represents_def)
  with family_at[OF f(1) assms(3)] family_at[OF f(2) assms(3)]
  show "map_at (<) c (cats_to_nonstrict_supercats R) = Inr (supers N cats c)"
    "map_at (<) c (cats_to_nonstrict_subcats R) = Inr (subs N cats c)"
    using represents_unique by blast+
qed

section \<open>Sorting ends\<close>

definition category_distance :: "node_ops \<Rightarrow> CategorySet \<Rightarrow> TreePtr \<Rightarrow> TreePtr \<Rightarrow> int" where
  "category_distance N cats a b =
     (\<Sum>t \<leftarrow> SymmetricDifferenceOf (<) (supers N cats a) (supers N cats b). int (length (subs N cats t)))"

lemma category_distance_sym: "sorted_set cats \<Longrightarrow> category_distance N cats a b = category_distance N cats b a"
proof -
  assume "sorted_set cats"
  then have "SymmetricDifferenceOf (<) (supers N cats a) (supers N cats b) = SymmetricDifferenceOf (<) (supers N cats b) (supers N cats a)"
    by (intro strict_sorted_equal) (auto simp: Un_commute)
  then show ?thesis by (simp add: category_distance_def)
qed

lemma category_distance_nonneg: "category_distance N cats a b \<ge> 0"
  unfolding category_distance_def by (rule sum_list_nonneg) auto

lemma GetMetric_eq:
  assumes "relations_of N cats R" "sorted_set cats" "set order \<subseteq> set cats"
  shows "GetMetric R order p q = (if 0 \<le> p \<and> p < int (length order) \<and> 0 \<le> q \<and> q < int (length order)
     then guardE (p \<noteq> q) (Inr (category_distance N cats (order ! nat p) (order ! nat q))) else Inr 0)"
proof -
  have sum: "foldE (\<lambda>t metric. bindE (map_at (<) t (cats_to_nonstrict_subcats R)) (\<lambda>s. Inr (metric + int (length s)))) ts acc
      = Inr (acc + (\<Sum>t \<leftarrow> ts. int (length (subs N cats t))))" if "set ts \<subseteq> set cats" for ts acc
    using that by (induction ts arbitrary: acc) (auto simp: relations_at[OF assms(1,2)])
  have "GetMetric R order p q = guardE (p \<noteq> q) (Inr (category_distance N cats (order ! nat p) (order ! nat q)))"
    if "0 \<le> p" "p < int (length order)" "0 \<le> q" "q < int (length order)"
  proof -
    have i: "nat p < length order" "nat q < length order" using that by (simp_all add: nat_less_iff)
    then have c: "order ! nat p \<in> set cats" "order ! nat q \<in> set cats" using assms(3) by auto
    have "set (SymmetricDifferenceOf (<) (supers N cats (order ! nat p)) (supers N cats (order ! nat q))) \<subseteq> set cats"
      using assms(2) by auto
    with i c that show ?thesis
      by (simp add: GetMetric_def relations_at[OF assms(1,2)] sum category_distance_def Let_def)
  qed
  then show ?thesis by (auto simp: GetMetric_def Let_def)
qed

text \<open>The length of the lace: the sum of the distances of neighbours.\<close>

fun lace_length :: "node_ops \<Rightarrow> CategorySet \<Rightarrow> TreePtr list \<Rightarrow> int" where
  "lace_length N cats (x # y # zs) = category_distance N cats x y + lace_length N cats (y # zs)"
| "lace_length N cats _ = 0"

definition lace_link :: "node_ops \<Rightarrow> CategorySet \<Rightarrow> TreePtr list \<Rightarrow> TreePtr list \<Rightarrow> int" where
  "lace_link N cats xs ys = (if xs = [] \<or> ys = [] then 0 else category_distance N cats (last xs) (hd ys))"

lemma lace_length_nonneg: "lace_length N cats xs \<ge> 0"
  by (induction N cats xs rule: lace_length.induct) (simp_all add: category_distance_nonneg)

lemma lace_length_Cons: "lace_length N cats (x # xs) = lace_link N cats [x] xs + lace_length N cats xs"
  by (cases xs) (simp_all add: lace_link_def)

lemma lace_length_append:
  "lace_length N cats (xs @ ys) = lace_length N cats xs + lace_link N cats xs ys + lace_length N cats ys"
proof (induction xs)
  case Nil
  then show ?case by (simp add: lace_link_def)
next
  case (Cons x xs)
  then show ?case by (cases xs) (simp_all add: lace_length_Cons lace_link_def)
qed

lemma metrics_Nil [simp]: "metrics R order [] = Inr 0"
  by (simp add: metrics_def)

lemma metrics_Cons: "metrics R order ((p, q) # pqs) = bindE (GetMetric R order p q) (\<lambda>x. bindE (metrics R order pqs) (\<lambda>y. Inr (x + y)))"
proof -
  let ?f = "\<lambda>(p, q) acc. bindE (GetMetric R order p q) (\<lambda>x. Inr (acc + x))"
  have key: "foldE ?f pqs (a + b) = bindE (foldE ?f pqs b) (\<lambda>y. Inr (a + y))" for a b
  proof (induction pqs arbitrary: b)
    case (Cons pq pqs)
    obtain p q where "pq = (p, q)" by fastforce
    show ?case
    proof (cases "GetMetric R order p q")
      case (Inr x)
      then show ?thesis using Cons[of "b + x"] \<open>pq = (p, q)\<close> by (simp add: add.assoc)
    qed (simp add: \<open>pq = (p, q)\<close>)
  qed simp
  show ?thesis
  proof (cases "GetMetric R order p q")
    case (Inr x)
    then show ?thesis using key[of x 0] by (simp add: metrics_def)
  qed (simp add: metrics_def)
qed

lemma metrics_sum:
  assumes "\<And>p q. (p, q) \<in> set pqs \<Longrightarrow> GetMetric R order p q = Inr (g p q)"
  shows "metrics R order pqs = Inr (\<Sum>(p, q) \<leftarrow> pqs. g p q)"
proof -
  have "foldE (\<lambda>(p, q) acc. bindE (GetMetric R order p q) (\<lambda>x. Inr (acc + x))) pqs acc = Inr (acc + (\<Sum>(p, q) \<leftarrow> pqs. g p q))" for acc
    using assms by (induction pqs arbitrary: acc) auto
  then show ?thesis by (simp add: metrics_def)
qed

lemma lace_length_nth: "lace_length N cats xs = (\<Sum>k \<leftarrow> [0..<length xs - 1]. category_distance N cats (xs ! k) (xs ! Suc k))"
proof (induction N cats xs rule: lace_length.induct)
  case (1 N cats x y zs)
  have "[0..<length (x # y # zs) - 1] = 0 # map Suc [0..<length (y # zs) - 1]"
    using upt_conv_Cons[of 0 "Suc (length zs)"] by (simp add: map_Suc_upt del: upt_Suc)
  then have "(\<Sum>k \<leftarrow> [0..<length (x # y # zs) - 1]. category_distance N cats ((x # y # zs) ! k) ((x # y # zs) ! Suc k))
    = category_distance N cats x y + (\<Sum>k \<leftarrow> [0..<length (y # zs) - 1]. category_distance N cats ((y # zs) ! k) ((y # zs) ! Suc k))"
    by (simp only: list.map sum_list.Cons map_map comp_def nth_Cons_0 nth_Cons_Suc)
  with 1 show ?case by simp
qed simp_all

lemma total_metric_eq:
  assumes "relations_of N cats R" "sorted_set cats" "set order \<subseteq> set cats"
  shows "total_metric R order = Inr (lace_length N cats order)"
proof (cases order)
  case (Cons x xs)
  let ?n = "length order" and ?g = "\<lambda>p q. if q < int (length order) then category_distance N cats (order ! nat p) (order ! nat q) else 0"
  have "GetMetric R order p q = Inr (?g p q)" if "(p, q) \<in> set (map (\<lambda>k. (int k, int k + 1)) [0..<?n])" for p q
    using that by (auto simp: GetMetric_eq[OF assms])
  then have "metrics R order (map (\<lambda>k. (int k, int k + 1)) [0..<?n]) = Inr (\<Sum>(p, q) \<leftarrow> map (\<lambda>k. (int k, int k + 1)) [0..<?n]. ?g p q)"
    by (rule metrics_sum)
  then have "total_metric R order = Inr (\<Sum>k \<leftarrow> [0..<?n]. ?g (int k) (int k + 1))"
    by (simp add: total_metric_def comp_def)
  moreover have "[0..<?n] = [0..<?n - 1] @ [?n - 1]" using Cons by simp
  moreover have "(\<Sum>k \<leftarrow> [0..<?n - 1]. ?g (int k) (int k + 1)) = (\<Sum>k \<leftarrow> [0..<?n - 1]. category_distance N cats (order ! k) (order ! Suc k))"
  proof (intro arg_cong[where f = sum_list] map_cong refl)
    fix k assume "k \<in> set [0..<?n - 1]"
    then have "int k + 1 < int ?n" "nat (int k + 1) = Suc k" by auto
    then show "?g (int k) (int k + 1) = category_distance N cats (order ! k) (order ! Suc k)" by simp
  qed
  moreover have "\<not> int (?n - 1) + 1 < int ?n" using Cons by simp
  then have "?g (int (?n - 1)) (int (?n - 1) + 1) = 0" by (rule if_not_P)
  ultimately show ?thesis
    by (simp only: lace_length_nth list.map sum_list.append map_append sum_list.Cons sum_list.Nil add_0_right)
qed (simp add: total_metric_def)

text \<open>Exchanging two blocks.\<close>

lemma swap_blocks_eq:
  assumes "length X = bs" "length Y = bs" "length A = j" "length B + j + bs = i"
  shows "swap_blocks bs i j (A @ X @ B @ Y @ C) = Inr (A @ Y @ B @ X @ C)"
proof -
  let ?f = "\<lambda>k order. bindE (vec_at order (i + k)) (\<lambda>x. bindE (vec_at order (j + k)) (\<lambda>y. Inr (order[i + k := y, j + k := x])))"
  have "foldE ?f [0..<k] (A @ X @ B @ Y @ C) = Inr (A @ (take k Y @ drop k X) @ B @ (take k X @ drop k Y) @ C)" if "k \<le> bs" for k
    using that
  proof (induction k)
    case (Suc k)
    let ?o = "A @ (take k Y @ drop k X) @ B @ (take k X @ drop k Y) @ C"
    have x: "drop k X = X ! k # drop (Suc k) X" "drop k Y = Y ! k # drop (Suc k) Y"
      using Suc.prems assms(1,2) by (simp_all add: Cons_nth_drop_Suc)
    have o: "?o = (A @ take k Y) @ X ! k # (drop (Suc k) X @ B @ take k X) @ Y ! k # drop (Suc k) Y @ C"
      using x by simp
    have l: "length (A @ take k Y) = j + k" "length ((A @ take k Y) @ X ! k # (drop (Suc k) X @ B @ take k X)) = i + k"
      using Suc.prems assms by auto
    have at: "?o ! (j + k) = X ! k" "?o ! (i + k) = Y ! k" "i + k < length ?o" "j + k < length ?o"
      unfolding o by (metis l(1) nth_append_length, metis l(2) nth_append_length append.assoc append_Cons, use l in auto)
    have "?o[i + k := X ! k] = (A @ take k Y) @ X ! k # (drop (Suc k) X @ B @ take k X) @ X ! k # drop (Suc k) Y @ C"
      unfolding o by (metis l(2) list_update_length append.assoc append_Cons)
    then have "?o[i + k := X ! k, j + k := Y ! k] = (A @ take k Y) @ Y ! k # (drop (Suc k) X @ B @ take k X) @ X ! k # drop (Suc k) Y @ C"
      by (metis l(1) list_update_length)
    also have "\<dots> = A @ (take (Suc k) Y @ drop (Suc k) X) @ B @ (take (Suc k) X @ drop (Suc k) Y) @ C"
      using Suc.prems assms by (simp add: take_Suc_conv_app_nth)
    finally show ?case using Suc at by (simp add: foldE_append)
  qed simp
  from this[of bs] show ?thesis using assms by (simp add: swap_blocks_def)
qed

text \<open>The links of an order made of five blocks, by the positions of their ends.\<close>

lemma block_ends:
  assumes "order = A @ X @ B @ Y @ C" "X \<noteq> []" "Y \<noteq> []" "length X = bs" "length Y = bs" "length A = j" "length B + j + bs = i"
  shows "order ! j = hd X" "order ! (j + bs - 1) = last X" "order ! i = hd Y" "order ! (i + bs - 1) = last Y"
    "A \<noteq> [] \<Longrightarrow> order ! (j - 1) = last A" "B \<noteq> [] \<Longrightarrow> order ! (j + bs) = hd B" "B \<noteq> [] \<Longrightarrow> order ! (i - 1) = last B"
    "C \<noteq> [] \<Longrightarrow> order ! (i + bs) = hd C"
proof -
  have at: "(U @ V @ W) ! length U = hd V" "(U @ V @ W) ! (length U + length V - 1) = last V" if ne: "V \<noteq> []" for U V W :: "'a list"
  proof -
    obtain v V' where "V = v # V'" using ne by (cases V) auto
    then show "(U @ V @ W) ! length U = hd V" by (simp add: nth_append)
    have "length U + length V - 1 = length U + (length V - 1)" "length V - 1 < length V" using ne by (cases V; simp)+
    then show "(U @ V @ W) ! (length U + length V - 1) = last V"
      by (simp only: nth_append_length_plus) (simp add: nth_append last_conv_nth[OF ne])
  qed
  have o: "order = A @ X @ (B @ Y @ C)" "order = (A @ X) @ B @ (Y @ C)" "order = (A @ X @ B) @ Y @ C" "order = (A @ X @ B @ Y) @ C @ []"
    "order = [] @ A @ (X @ B @ Y @ C)"
    using assms(1) by simp_all
  have l: "length (A @ X) = j + bs" "length (A @ X @ B) = i" "length (A @ X @ B @ Y) = i + bs"
    using assms by simp_all
  show "order ! j = hd X" "order ! (j + bs - 1) = last X"
    using at[OF assms(2), of A "B @ Y @ C", folded o(1), unfolded assms(4,6)] by simp_all
  show "order ! i = hd Y" "order ! (i + bs - 1) = last Y"
    using at[OF assms(3), of "A @ X @ B" C, folded o(3), unfolded assms(5) l(2)] by simp_all
  show "order ! (j - 1) = last A" if "A \<noteq> []"
    using at(2)[OF that, of "[]" "X @ B @ Y @ C", folded o(5), unfolded assms(6)] by simp
  show "order ! (j + bs) = hd B" if "B \<noteq> []"
    using at(1)[OF that, of "A @ X" "Y @ C", folded o(2), unfolded l(1)] by simp
  have "length (A @ X) + length B = i" using assms by simp
  then show "order ! (i - 1) = last B" if "B \<noteq> []"
    using at(2)[OF that, of "A @ X" "Y @ C", folded o(2)] by simp
  show "order ! (i + bs) = hd C" if "C \<noteq> []"
    using at(1)[OF that, of "A @ X @ B @ Y" "[]", folded o(4), unfolded l(3)] by simp
qed

lemma swap_metrics:
  assumes R: "relations_of N cats R" "sorted_set cats" "set order \<subseteq> set cats"
    and o: "order = A @ X @ B @ Y @ C" "X \<noteq> []" "Y \<noteq> []" "length X = bs" "length Y = bs" "length A = j" "length B + j + bs = i"
  shows "\<exists>now after. metrics R order (current_pairs (int (length order)) (int bs) (int i) (int j)) = Inr now
    \<and> metrics R order (swapped_pairs (int (length order)) (int bs) (int i) (int j)) = Inr after
    \<and> now - after = lace_length N cats (A @ X @ B @ Y @ C) - lace_length N cats (A @ Y @ B @ X @ C)"
proof -
  let ?n = "int (length order)" and ?d = "category_distance N cats" and ?l = "lace_link N cats"
  have n: "length order = i + bs + length C" "0 < bs" using o by auto
  have m: "GetMetric R order p q = Inr (if 0 \<le> p \<and> p < ?n \<and> 0 \<le> q \<and> q < ?n then ?d (order ! nat p) (order ! nat q) else 0)"
    if "p \<noteq> q" for p q using that by (simp add: GetMetric_eq[OF R])
  note sym = category_distance_sym[OF R(2)]
  note e = block_ends[OF o]
  have nat: "nat (int i + int bs - 1) = i + bs - 1" "nat (int j + int bs - 1) = j + bs - 1" "nat (int i + int bs) = i + bs"
    "nat (int j + int bs) = j + bs" "nat (int i - 1) = i - 1" "nat (int j - 1) = j - 1" "i \<ge> 1"
    using n o by linarith+
  have pos: "j + bs \<le> i" "i + bs \<le> length order" "A = [] \<longleftrightarrow> j = 0" "C = [] \<longleftrightarrow> length order = i + bs" "B = [] \<longleftrightarrow> i = j + bs"
    using o n by auto
  note s = sym[where a = "hd X"] sym[where a = "hd Y"]
  have outer: "GetMetric R order (int i + int bs - 1) (int i + int bs) = Inr (?l Y C)"
    "GetMetric R order (int j + int bs - 1) (int i + int bs) = Inr (?l X C)"
    "GetMetric R order (int j) (int j - 1) = Inr (?l A X)" "GetMetric R order (int i) (int j - 1) = Inr (?l A Y)"
    subgoal by (subst m) (use pos(1-4) n(2) o(3) e(4,8) in \<open>auto simp: nat lace_link_def\<close>)
    subgoal by (subst m) (use pos(1-4) n(2) o(2) e(2,8) in \<open>auto simp: nat lace_link_def\<close>)
    subgoal by (subst m) (use pos(1-4) n(2) o(2) e(1,5) in \<open>auto simp: nat lace_link_def s\<close>)
    subgoal by (subst m) (use pos(1-4) n(2) o(3) e(3,5) in \<open>auto simp: nat lace_link_def s\<close>)
    done
  have inner: "GetMetric R order (int i) (int i - 1) = Inr (?l B Y)" "GetMetric R order (int j + int bs - 1) (int j + int bs) = Inr (?l X B)"
    "GetMetric R order (int i + int bs - 1) (int j + int bs) = Inr (?l Y B)" "GetMetric R order (int j) (int i - 1) = Inr (?l B X)"
    if B: "B \<noteq> []"
    subgoal by (subst m) (use pos(1,2,5) nat(7) n(2) o(3) e(3) e(7)[OF B] B in \<open>auto simp: nat lace_link_def s\<close>)
    subgoal by (subst m) (use pos(1,2,5) n(2) o(2) e(2) e(6)[OF B] B in \<open>auto simp: nat lace_link_def\<close>)
    subgoal by (subst m) (use pos(1,2,5) n(2) o(3) e(4) e(6)[OF B] B in \<open>auto simp: nat lace_link_def\<close>)
    subgoal by (subst m) (use pos(1,2,5) nat(7) n(2) o(2) e(1) e(7)[OF B] B in \<open>auto simp: nat lace_link_def s\<close>)
    done
  have touch: "GetMetric R order (int j + int bs - 1) (int i) = Inr (?l X Y)" "GetMetric R order (int i + int bs - 1) (int j) = Inr (?l Y X)"
    subgoal by (subst m) (use pos(1,2) n(2) o(2,3) e(2,3) in \<open>auto simp: nat lace_link_def\<close>)
    subgoal by (subst m) (use pos(1,2) n(2) o(2,3) e(1,4) in \<open>auto simp: nat lace_link_def\<close>)
    done
  have whole: "A = [] \<and> C = []" if "int i - int j = ?n - int bs"
  proof -
    have "j = 0" "length C = 0" using that n(1) by linarith+
    with o(6) show ?thesis by simp
  qed
  have apart: "int i - int j \<noteq> int bs \<longleftrightarrow> B \<noteq> []" using o by auto
  have k: "?l U (V @ W) = (if V = [] then ?l U W else ?l U V)" for U V W by (simp add: lace_link_def)
  have add: "metrics R order ((p, q) # pqs) = bindE (GetMetric R order p q) (\<lambda>x. bindE (metrics R order pqs) (\<lambda>y. Inr (x + y)))" for p q pqs
    by (rule metrics_Cons)
  show ?thesis
  proof (cases "B = []")
    case True
    show ?thesis using o(2,3) whole True
      by (auto simp: current_pairs_def swapped_pairs_def apart add outer touch lace_length_append k lace_link_def)
  next
    case False
    show ?thesis using o(2,3) whole False
      by (auto simp: current_pairs_def swapped_pairs_def apart add outer inner lace_length_append k lace_link_def)
  qed
qed

text \<open>The exchange of the blocks of \<open>bs\<close> categories at \<open>j\<close> and \<open>i\<close>.\<close>

definition exchanged :: "nat \<Rightarrow> nat \<Rightarrow> nat \<Rightarrow> TreePtr list \<Rightarrow> TreePtr list" where
  "exchanged bs i j order =
     take j order @ take bs (drop i order) @ take (i - j - bs) (drop (j + bs) order) @ take bs (drop j order) @ drop (i + bs) order"

lemma five_blocks:
  assumes "j + bs \<le> i" "i + bs \<le> length order"
  shows "order = take j order @ take bs (drop j order) @ take (i - j - bs) (drop (j + bs) order) @ take bs (drop i order) @ drop (i + bs) order"
proof -
  have d: "drop k order = take b (drop k order) @ drop (k + b) order" for k b
    using append_take_drop_id[of b "drop k order"] by (simp add: add.commute)
  have "order = take j order @ drop j order" by simp
  also have "drop j order = take bs (drop j order) @ drop (j + bs) order" by (rule d)
  also have "drop (j + bs) order = take (i - j - bs) (drop (j + bs) order) @ drop i order"
    using d[of "j + bs" "i - j - bs"] assms by simp
  also have "drop i order = take bs (drop i order) @ drop (i + bs) order" by (rule d)
  finally show ?thesis .
qed

lemma mset_exchanged:
  assumes "j + bs \<le> i" "i + bs \<le> length order"
  shows "mset (exchanged bs i j order) = mset order"
  by (rule trans[OF _ arg_cong[where f = mset, OF five_blocks[OF assms, symmetric]]]) (simp add: exchanged_def)

lemma try_swap_ok:
  assumes R: "relations_of N cats R" "sorted_set cats" "set order \<subseteq> set cats"
    and pos: "0 < bs" "j + bs \<le> i" "i + bs \<le> length order"
  shows "try_swap R bs i j (order, swapped) =
    Inr (if lace_length N cats (exchanged bs i j order) < lace_length N cats order then (exchanged bs i j order, True) else (order, swapped))"
proof -
  let ?A = "take j order" and ?X = "take bs (drop j order)" and ?B = "take (i - j - bs) (drop (j + bs) order)"
    and ?Y = "take bs (drop i order)" and ?C = "drop (i + bs) order"
  note o = five_blocks[OF pos(2,3)]
  have l: "length ?X = bs" "length ?Y = bs" "length ?A = j" "length ?B + j + bs = i" and ne: "?X \<noteq> []" "?Y \<noteq> []"
    using pos by auto
  obtain now after where m: "metrics R order (current_pairs (int (length order)) (int bs) (int i) (int j)) = Inr now"
      "metrics R order (swapped_pairs (int (length order)) (int bs) (int i) (int j)) = Inr after"
    and diff: "now - after = lace_length N cats order - lace_length N cats (exchanged bs i j order)"
    using swap_metrics[OF R o ne l] unfolding o[symmetric] exchanged_def[symmetric] by blast
  have "set (exchanged bs i j order) \<subseteq> set cats" using R(3) mset_exchanged[OF pos(2,3)] by (metis set_mset_mset)
  note total = total_metric_eq[OF R] total_metric_eq[OF R(1,2) this]
  have swap: "swap_blocks bs i j order = Inr (exchanged bs i j order)"
    using swap_blocks_eq[OF l, of ?C] unfolding o[symmetric] exchanged_def[symmetric] .
  show ?thesis using pos diff by (simp add: try_swap_def m total swap Let_def)
qed

text \<open>What the loops of one round keep, about the order they started from: as long as nothing was exchanged,
  none of the exchanges tried makes the lace shorter.\<close>

definition sort_inv :: "node_ops \<Rightarrow> CategorySet \<Rightarrow> TreePtr list \<Rightarrow> (nat \<times> nat \<times> nat) set \<Rightarrow> TreePtr list \<times> bool \<Rightarrow> bool" where
  "sort_inv N cats start D = (\<lambda>(order, swapped). mset order = mset start \<and>
     (if swapped then lace_length N cats order < lace_length N cats start
      else order = start \<and> (\<forall>(bs, i, j) \<in> D. lace_length N cats start \<le> lace_length N cats (exchanged bs i j start))))"

lemma sort_inv_try:
  assumes "relations_of N cats R" "sorted_set cats" "set start \<subseteq> set cats"
    and "0 < bs" "j + bs \<le> i" "i + bs \<le> length start" "sort_inv N cats start D s"
  shows "\<exists>s'. try_swap R bs i j s = Inr s' \<and> sort_inv N cats start (D \<union> {(bs, i, j)}) s'"
proof -
  obtain order swapped where s: "s = (order, swapped)" by fastforce
  have m: "mset order = mset start" using assms(7) s by (simp add: sort_inv_def)
  then have "length order = length start" "set order \<subseteq> set cats" using assms(3) by (metis size_mset, metis set_mset_mset)
  then show ?thesis
    using assms(7) mset_exchanged[of j bs i order] m
    by (auto simp: s sort_inv_def try_swap_ok[OF assms(1,2) _ assms(4,5)] assms(5,6))
qed

lemma sort_round_ok:
  assumes R: "relations_of N cats R" "sorted_set cats" "set start \<subseteq> set cats"
  shows "\<exists>s. sort_round R start = Inr s
    \<and> sort_inv N cats start {(bs, i, j). 0 < bs \<and> j + bs \<le> i \<and> i + bs \<le> length start} s"
proof -
  let ?n = "length start" and ?I = "sort_inv N cats start"
  have js: "\<exists>s'. foldE (try_swap R bs i) [0..<Suc i - bs] s = Inr s' \<and> ?I (D \<union> (\<Union>j \<in> {0..<Suc i - bs}. {(bs, i, j)})) s'"
    if "0 < bs" "i + bs \<le> ?n" "?I D s" for bs i D s
    using that foldE_accumulate[of "[0..<Suc i - bs]" ?I "try_swap R bs i" "\<lambda>j. {(bs, i, j)}" D s] sort_inv_try[OF R]
    by (auto simp del: upt_Suc)
  let ?f = "\<lambda>bs i. guardE (i + bs \<le> ?n) \<circ> foldE (\<lambda>j. try_swap R bs i j) [0..<Suc i - bs]"
  have bss: "\<exists>s'. foldE (?f bs) [0..<Suc ?n - bs] s = Inr s'
      \<and> ?I (D \<union> (\<Union>i \<in> {0..<Suc ?n - bs}. \<Union>j \<in> {0..<Suc i - bs}. {(bs, i, j)})) s'"
    if "0 < bs" "?I D s" for bs D s
    using that foldE_accumulate[of "[0..<Suc ?n - bs]" ?I "?f bs" "\<lambda>i. \<Union>j \<in> {0..<Suc i - bs}. {(bs, i, j)}" D s] js
    by (auto simp del: upt_Suc)
  have all: "\<exists>s'. foldE (\<lambda>bs. foldE (?f bs) [0..<Suc ?n - bs]) (rev [1..<Suc (?n div 2)]) (start, False) = Inr s'
      \<and> ?I ({} \<union> (\<Union>bs \<in> {1..<Suc (?n div 2)}. \<Union>i \<in> {0..<Suc ?n - bs}. \<Union>j \<in> {0..<Suc i - bs}. {(bs, i, j)})) s'"
    using foldE_accumulate[of "rev [1..<Suc (?n div 2)]" ?I "\<lambda>bs. foldE (?f bs) [0..<Suc ?n - bs]"
      "\<lambda>bs. \<Union>i \<in> {0..<Suc ?n - bs}. \<Union>j \<in> {0..<Suc i - bs}. {(bs, i, j)}" "{}" "(start, False)"] bss
    by (auto simp del: upt_Suc simp: sort_inv_def)
  have "{(bs, i, j). 0 < bs \<and> j + bs \<le> i \<and> i + bs \<le> ?n}
      = {} \<union> (\<Union>bs \<in> {1..<Suc (?n div 2)}. \<Union>i \<in> {0..<Suc ?n - bs}. \<Union>j \<in> {0..<Suc i - bs}. {(bs, i, j)})"
    by auto
  with all show ?thesis unfolding sort_round_def Let_def by (simp only:)
qed

lemma exchanged_blocks:
  assumes "length X = length Y"
  shows "exchanged (length X) (length A + length X + length B) (length A) (A @ X @ B @ Y @ C) = A @ Y @ B @ X @ C"
  using assms by (simp add: exchanged_def)

lemma sort_loop_ok:
  assumes "relations_of N cats R" "sorted_set cats" "set order \<subseteq> set cats"
  shows "\<exists>order'. sort_loop R order = Some (Inr order') \<and> mset order' = mset order
    \<and> (\<forall>A X B Y C. order' = A @ X @ B @ Y @ C \<longrightarrow> X \<noteq> [] \<longrightarrow> length X = length Y
         \<longrightarrow> lace_length N cats order' \<le> lace_length N cats (A @ Y @ B @ X @ C))"
  using assms(3)
proof (induction "nat (lace_length N cats order)" arbitrary: order rule: less_induct)
  case less
  obtain order1 swapped where r: "sort_round R order = Inr (order1, swapped)"
    and I: "sort_inv N cats order {(bs, i, j). 0 < bs \<and> j + bs \<le> i \<and> i + bs \<le> length order} (order1, swapped)"
    using sort_round_ok[OF assms(1,2) less.prems] by fastforce
  have m: "mset order1 = mset order" using I by (simp add: sort_inv_def)
  show ?case
  proof (cases swapped)
    case True
    with I have "lace_length N cats order1 < lace_length N cats order" by (simp add: sort_inv_def)
    then have "nat (lace_length N cats order1) < nat (lace_length N cats order)"
      using lace_length_nonneg[of N cats order1] by linarith
    moreover have "set order1 \<subseteq> set cats" using less.prems m by (metis set_mset_mset)
    ultimately show ?thesis
      using less.hyps[of order1] m True sort_loop.simps[of R order] by (simp only: r sum.case prod.case if_True)
  next
    case False
    then have same: "order1 = order" using I by (simp add: sort_inv_def)
    have best: "lace_length N cats order \<le> lace_length N cats (exchanged bs i j order)"
      if "0 < bs" "j + bs \<le> i" "i + bs \<le> length order" for bs i j
      using False I that by (auto simp: sort_inv_def)
    have "lace_length N cats order \<le> lace_length N cats (A @ Y @ B @ X @ C)"
      if o: "order = A @ X @ B @ Y @ C" and "X \<noteq> []" "length X = length Y" for A X B Y C
      using best[of "length X" "length A" "length A + length X + length B"] exchanged_blocks[OF that(3), of A B C] that
      by (cases Y) simp_all
    with False same show ?thesis by (subst sort_loop.simps) (simp add: r)
  qed
qed

section \<open>Lacing sets\<close>

text \<open>The categories in lacing order with their relations, and the ordinals of the categories below a category.\<close>

definition laced :: "node_ops \<Rightarrow> CategorySet \<Rightarrow> category_relations \<Rightarrow> TreePtr list \<Rightarrow> bool" where
  "laced N cats R order \<longleftrightarrow> node_laws N \<and> categories_ok N cats \<and> relations_of N cats R \<and> mset order = mset cats"

definition lacing_set_of :: "node_ops \<Rightarrow> TreePtr list \<Rightarrow> TreePtr \<Rightarrow> int set" where
  "lacing_set_of N order c = {k. 0 \<le> k \<and> k < int (length order) \<and> belongs N c (order ! nat k)}"

lemma lacedD:
  assumes "laced N cats R order"
  shows "node_laws N" "sorted_set cats" "relations_of N cats R" "set order = set cats" "distinct order" "length order = length cats"
    and "\<And>i. i < length order \<Longrightarrow> order ! i \<in> set cats"
    and "\<And>x y. x \<in> set cats \<Longrightarrow> y \<in> set cats \<Longrightarrow> belongs N x y \<Longrightarrow> belongs N y x \<Longrightarrow> x = y"
    and "null_node \<in> set cats"
proof -
  have m: "mset order = mset cats" and c: "categories_ok N cats" using assms by (simp_all add: laced_def)
  then have "distinct cats" by (simp add: categories_ok_def strict_sorted_iff)
  with m show "set order = set cats" "distinct order" "length order = length cats"
    by (metis set_mset_mset, metis mset_eq_imp_distinct_iff, metis size_mset)
  then show "\<And>i. i < length order \<Longrightarrow> order ! i \<in> set cats" by (metis nth_mem)
  show "node_laws N" "sorted_set cats" "relations_of N cats R" "null_node \<in> set cats"
    using assms by (simp_all add: laced_def categories_ok_def)
  show "\<And>x y. x \<in> set cats \<Longrightarrow> y \<in> set cats \<Longrightarrow> belongs N x y \<Longrightarrow> belongs N y x \<Longrightarrow> x = y"
    using c by (simp add: categories_ok_def)
qed

lemma lacing_set_of_nat: "int i \<in> lacing_set_of N order c \<longleftrightarrow> i < length order \<and> belongs N c (order ! i)"
  by (simp add: lacing_set_of_def)

text \<open>A map from the keys whose set is not empty to their sets.\<close>

definition indexed :: "(TreePtr \<times> int list) list \<Rightarrow> (TreePtr \<Rightarrow> int set) \<Rightarrow> bool" where
  "indexed m S \<longleftrightarrow> sorted_keys (<) m
     \<and> (\<forall>c. case map_find (<) c m of None \<Rightarrow> S c = {} | Some s \<Rightarrow> S c \<noteq> {} \<and> represents s (S c))"

lemma indexed_find: "indexed m S \<Longrightarrow> map_find (<) c m = None \<and> S c = {} \<or> (\<exists>s. map_find (<) c m = Some s \<and> S c \<noteq> {} \<and> represents s (S c))"
  by (cases "map_find (<) c m") (auto simp: indexed_def dest: spec[of _ c])

lemma indexed_insert:
  assumes "indexed m S"
  shows "indexed (map_change (<) c [] (\<lambda>s. fst (container_insert (<) i s)) m) (S(c := insert i (S c)))"
proof -
  have sorted: "sorted_keys (<) m" using assms by (simp add: indexed_def)
  have new: "represents (set_insert i (case map_find (<) c m of None \<Rightarrow> [] | Some s \<Rightarrow> s)) (insert i (S c))"
    using indexed_find[OF assms, of c] by auto
  have "case map_find (<) d (map_change (<) c [] (set_insert i) m) of None \<Rightarrow> (S(c := insert i (S c))) d = {}
      | Some s \<Rightarrow> (S(c := insert i (S c))) d \<noteq> {} \<and> represents s ((S(c := insert i (S c))) d)" for d
    using new indexed_find[OF assms, of d] by (cases "d = c") (auto simp: lin.map_find_change[OF sorted])
  then show ?thesis using lin.map_change_props[OF sorted] by (simp add: indexed_def)
qed

lemma indexed_inserts:
  assumes "indexed m S"
  shows "indexed (fold (\<lambda>c. map_change (<) c [] (\<lambda>s. fst (container_insert (<) i s))) cs m) (\<lambda>c. if c \<in> set cs then insert i (S c) else S c)"
  using assms
proof (induction cs arbitrary: m S)
  case (Cons c cs)
  have "(\<lambda>d. if d \<in> set cs then insert i ((S(c := insert i (S c))) d) else (S(c := insert i (S c))) d)
      = (\<lambda>d. if d \<in> set (c # cs) then insert i (S d) else S d)" by (intro ext) auto
  with Cons.IH[OF indexed_insert[OF Cons.prems, of c i]] show ?case by simp
qed simp

lemma gather_lacing_sets_ok:
  assumes L: "laced N cats R order"
  shows "\<exists>sets. gather_lacing_sets R order = Inr sets \<and> indexed sets (\<lambda>c. if c \<in> set cats then lacing_set_of N order c else {})"
proof -
  note l = lacedD[OF L]
  let ?f = "\<lambda>i m. bindE (vec_at order i) (\<lambda>cat_i. bindE (map_at (<) cat_i (cats_to_nonstrict_supercats R)) (\<lambda>current_supercats.
      Inr (fold (\<lambda>supercat. map_change (<) supercat [] (\<lambda>s. fst (container_insert (<) (int i) s))) current_supercats m)))"
  let ?S = "\<lambda>k c. if c \<in> set cats then {x \<in> lacing_set_of N order c. x < int k} else {}"
  have "\<exists>m. foldE ?f [0..<k] [] = Inr m \<and> indexed m (?S k)" if "k \<le> length order" for k
    using that
  proof (induction k)
    case 0
    then show ?case by (auto simp: indexed_def lacing_set_of_def)
  next
    case (Suc k)
    then obtain m where m: "foldE ?f [0..<k] [] = Inr m" "indexed m (?S k)" by auto
    have k: "k < length order" "order ! k \<in> set cats" using Suc.prems l(7) by simp_all
    have "(\<lambda>c. if c \<in> set (supers N cats (order ! k)) then insert (int k) (?S k c) else ?S k c) = ?S (Suc k)"
    proof
      fix c
      have "x < int (Suc k) \<longleftrightarrow> x < int k \<or> x = int k" for x by auto
      then show "(if c \<in> set (supers N cats (order ! k)) then insert (int k) (?S k c) else ?S k c) = ?S (Suc k) c"
        using k lacing_set_of_nat[of k N order c] by auto
    qed
    with indexed_inserts[OF m(2), of "int k" "supers N cats (order ! k)"] show ?case
      using m(1) k by (simp add: foldE_append relations_at[OF l(3,2)])
  qed
  from this[of "length order"] show ?thesis
    by (auto simp: gather_lacing_sets_def lacing_set_of_def cong: if_cong conj_cong)
qed

section \<open>The decision tree\<close>

text \<open>A tree that finds the ordinals \<open>S\<close>: every test splits what is still possible in two parts that are not
  empty, and the range of a decision is that of the ordinals possible there.\<close>

fun tree_for :: "node_ops \<Rightarrow> CategorySet \<Rightarrow> TreePtr list \<Rightarrow> int set \<Rightarrow> DecisionNode \<Rightarrow> bool" where
  "tree_for N cats order S (DecisionNodeLeaf k) \<longleftrightarrow> S = {k}"
| "tree_for N cats order S (DecisionNodeLocalMatch c yes no lo hi) \<longleftrightarrow>
     c \<in> set cats \<and> c \<noteq> null_node \<and> S \<inter> lacing_set_of N order c \<noteq> {} \<and> S - lacing_set_of N order c \<noteq> {}
     \<and> lo = Min S \<and> hi = Max S
     \<and> tree_for N cats order (S \<inter> lacing_set_of N order c) yes \<and> tree_for N cats order (S - lacing_set_of N order c) no"

definition splits :: "node_ops \<Rightarrow> TreePtr list \<Rightarrow> int set \<Rightarrow> TreePtr \<Rightarrow> bool" where
  "splits N order S c \<longleftrightarrow> c \<noteq> null_node \<and> S \<inter> lacing_set_of N order c \<noteq> {} \<and> \<not> S \<subseteq> lacing_set_of N order c"

text \<open>Different ordinals are told apart by one of the two categories there.\<close>

lemma some_category_splits:
  assumes L: "laced N cats R order" and S: "S \<subseteq> {0..<int (length order)}" and ab: "a \<in> S" "b \<in> S" "a \<noteq> b"
  shows "\<exists>c \<in> set cats. splits N order S c"
proof -
  note l = lacedD[OF L]
  let ?x = "order ! nat a" and ?y = "order ! nat b"
  have pos: "0 \<le> a" "a < int (length order)" "0 \<le> b" "b < int (length order)" using S ab by auto
  then have cats: "?x \<in> set cats" "?y \<in> set cats" using l(7) by (simp_all add: nat_less_iff)
  have "?x \<noteq> ?y" using pos ab(3) l(5) by (simp add: nth_eq_iff_index_eq nat_less_iff nat_eq_iff)
  moreover have refl: "belongs N z z" if "z \<noteq> null_node" for z using node_lawsD(1)[OF l(1)] that by simp
  moreover have "belongs N z w \<Longrightarrow> z \<noteq> null_node \<and> w \<noteq> null_node" for z w by (simp add: belongs_def)
  ultimately have "(?x \<noteq> null_node \<and> \<not> belongs N ?x ?y) \<or> (?y \<noteq> null_node \<and> \<not> belongs N ?y ?x)"
    using l(8)[OF cats] by metis
  then show ?thesis
  proof
    assume c: "?x \<noteq> null_node \<and> \<not> belongs N ?x ?y"
    then have "a \<in> S \<inter> lacing_set_of N order ?x" "b \<notin> lacing_set_of N order ?x"
      using pos ab refl by (simp_all add: lacing_set_of_def)
    with c ab(2) cats(1) show ?thesis unfolding splits_def by blast
  next
    assume c: "?y \<noteq> null_node \<and> \<not> belongs N ?y ?x"
    then have "b \<in> S \<inter> lacing_set_of N order ?y" "a \<notin> lacing_set_of N order ?y"
      using pos ab refl by (simp_all add: lacing_set_of_def)
    with c ab(1) cats(2) show ?thesis unfolding splits_def by blast
  qed
qed

text \<open>What the search has found after the categories \<open>D\<close>.\<close>

definition search_inv :: "node_ops \<Rightarrow> CategorySet \<Rightarrow> TreePtr list \<Rightarrow> int list \<Rightarrow> TreePtr set \<Rightarrow> int \<times> (TreePtr \<times> int list) option \<Rightarrow> bool" where
  "search_inv N cats order P D = (\<lambda>(best_diff, best).
     case best of
       None \<Rightarrow> best_diff = int (length P) + 1 \<and> (\<forall>c \<in> D. \<not> splits N order (set P) c)
     | Some (c, found) \<Rightarrow> c \<in> set cats \<and> splits N order (set P) c
         \<and> represents found (set P \<inter> lacing_set_of N order c))"

lemma represents_length: "represents xs A \<Longrightarrow> length xs = card A"
  by (metis distinct_card represents_def strict_sorted_iff)

lemma consider_category_ok:
  assumes L: "laced N cats R order" and P: "represents P S" "S \<subseteq> {0..<int (length order)}"
    and sets: "indexed sets (\<lambda>c. if c \<in> set cats then lacing_set_of N order c else {})"
    and c: "c \<in> set cats" and I: "search_inv N cats order P D s"
  shows "\<exists>s'. consider_category sets P c s = Inr s' \<and> search_inv N cats order P (D \<union> {c}) s'"
proof -
  note l = lacedD[OF L]
  have set: "set P = S" using P(1) by (simp add: represents_def)
  show ?thesis
  proof (cases "c = null_node")
    case True
    with I show ?thesis
      by (cases s) (auto simp: consider_category_def search_inv_def splits_def split: option.splits)
  next
    case False
    obtain i where "i < length order" "order ! i = c" using c l(4) by (metis in_set_conv_nth)
    then have "int i \<in> lacing_set_of N order c"
      using False node_lawsD(1)[OF l(1)] by (simp add: lacing_set_of_nat)
    then obtain ls where ls: "map_find (<) c sets = Some ls" "represents ls (lacing_set_of N order c)"
      using indexed_find[OF sets, of c] c by auto
    let ?inter = "IntersectionOf (<) P ls"
    have inter: "represents ?inter (S \<inter> lacing_set_of N order c)"
      using P(1) ls(2) by (simp add: represents_def)
    have fin: "finite S" using P(1) by (metis List.finite_set represents_def)
    have split: "splits N order S c \<longleftrightarrow> ?inter \<noteq> [] \<and> length ?inter \<noteq> length P"
    proof -
      have "length ?inter = length P \<longleftrightarrow> S \<subseteq> lacing_set_of N order c"
        using card_subset_eq[OF fin, of "S \<inter> lacing_set_of N order c"]
        unfolding represents_length[OF inter] represents_length[OF P(1)] by (auto simp: Int_absorb2)
      moreover have "?inter = [] \<longleftrightarrow> S \<inter> lacing_set_of N order c = {}"
        using inter by (auto simp: represents_def)
      ultimately show ?thesis using False by (simp add: splits_def)
    qed
    have bound: "\<bar>int (length ?inter) * 2 - int (length P)\<bar> < int (length P) + 1"
    proof -
      have "length ?inter \<le> length P"
        using represents_length[OF inter] represents_length[OF P(1)] fin by (simp add: card_mono)
      then show ?thesis by linarith
    qed
    obtain d best where s: "s = (d, best)" by fastforce
    have eq: "consider_category sets P c s = Inr (if splits N order S c \<and> \<bar>int (length ?inter) * 2 - int (length P)\<bar> < d
        then (\<bar>int (length ?inter) * 2 - int (length P)\<bar>, Some (c, ?inter)) else s)"
      using False split by (auto simp: consider_category_def s map_at_def ls(1) Let_def)
    show ?thesis
      using I c inter bound unfolding eq
      by (auto simp: search_inv_def s set split: option.splits)
  qed
qed

lemma bindO_simps [simp]:
  "bindO None f = None" "bindO (Some (Inl e)) f = Some (Inl e)" "bindO (Some (Inr x)) f = f x"
  by (simp_all add: bindO_def)

lemma represents_Min_Max:
  assumes "represents P S" "P \<noteq> []"
  shows "hd P = Min S" "last P = Max S"
proof -
  have s: "sorted P" "set P = S" using assms(1) by (simp_all add: represents_def strict_sorted_iff)
  have "hd P \<le> x" if "x \<in> S" for x using s assms(2) that by (cases P) auto
  moreover have "x \<le> last P" if "x \<in> S" for x
  proof -
    have "P = butlast P @ [last P]" using assms(2) by simp
    then have "sorted (butlast P @ [last P])" "x \<in> set (butlast P @ [last P])" using s that by simp_all
    then show ?thesis by (auto simp: sorted_append)
  qed
  moreover have "hd P \<in> S" "last P \<in> S" "finite S" using assms(2) s(2) by auto
  ultimately show "hd P = Min S" "last P = Max S"
    using Min_eqI[of S "hd P"] Max_eqI[of S "last P"] by metis+
qed

lemma search_ok:
  assumes L: "laced N cats R order" and P: "represents P S" "S \<subseteq> {0..<int (length order)}"
    and sets: "indexed sets (\<lambda>c. if c \<in> set cats then lacing_set_of N order c else {})" and many: "length P > 1"
  shows "\<exists>d c found ls. foldE (consider_category sets P) cats (int (length P) + 1, None) = Inr (d, Some (c, found))
    \<and> c \<in> set cats \<and> splits N order S c \<and> represents found (S \<inter> lacing_set_of N order c)
    \<and> map_at (<) c sets = Inr ls \<and> represents (DifferenceOf (<) P ls) (S - lacing_set_of N order c)"
proof -
  have "\<exists>s'. foldE (consider_category sets P) cats (int (length P) + 1, None) = Inr s'
      \<and> search_inv N cats order P ({} \<union> (\<Union>c \<in> set cats. {c})) s'"
    by (rule foldE_accumulate[where I = "search_inv N cats order P"], rule consider_category_ok[OF L P sets])
      (simp_all add: search_inv_def)
  then obtain d best where b: "foldE (consider_category sets P) cats (int (length P) + 1, None) = Inr (d, best)"
      "search_inv N cats order P (set cats) (d, best)" by auto
  have set: "set P = S" and dist: "distinct P" using P(1) by (simp_all add: represents_def strict_sorted_iff)
  have "0 < length P" using many by linarith
  then have "P ! 0 \<in> S" "P ! 1 \<in> S" "P ! 0 \<noteq> P ! 1"
    using many nth_mem[of 0 P] nth_mem[of 1 P] nth_eq_iff_index_eq[OF dist, of 0 1] set by simp_all
  then have "\<exists>c \<in> set cats. splits N order S c" by (rule some_category_splits[OF L P(2)])
  with b(2) obtain c found where f: "best = Some (c, found)" "c \<in> set cats" "splits N order S c"
      "represents found (S \<inter> lacing_set_of N order c)"
    by (auto simp: search_inv_def set split: option.splits)
  then obtain ls where "map_find (<) c sets = Some ls" "represents ls (lacing_set_of N order c)"
    using indexed_find[OF sets, of c] by (auto simp: splits_def)
  moreover from this have "represents (DifferenceOf (<) P ls) (S - lacing_set_of N order c)"
    using P(1) by (simp add: represents_def)
  ultimately show ?thesis using b(1) f by (auto simp: map_at_def)
qed

lemma MakeDecisionSubtree_ok:
  assumes L: "laced N cats R order" and sets: "indexed sets (\<lambda>c. if c \<in> set cats then lacing_set_of N order c else {})"
    and "represents P S" "S \<subseteq> {0..<int (length order)}" "S \<noteq> {}" "length P \<le> fuel"
  shows "\<exists>t. MakeDecisionSubtree sets cats fuel P = Some (Inr t) \<and> tree_for N cats order S t"
  using assms(3-)
proof (induction fuel arbitrary: P S)
  case (Suc fuel)
  have P: "P \<noteq> []" using Suc.prems by auto
  have set: "set P = S" using Suc.prems by (simp add: represents_def)
  show ?case
  proof (cases "length P = 1")
    case True
    then obtain k where "P = [k]" by (auto simp: length_Suc_conv)
    with set show ?thesis by (auto simp: SoloElementOf_def)
  next
    case False
    then have "length P > 1" using P by (cases P) (auto simp: neq_Nil_conv)
    from search_ok[OF L Suc.prems(1,2) sets this] obtain d c found ls where
      f: "foldE (consider_category sets P) cats (int (length P) + 1, None) = Inr (d, Some (c, found))"
      "c \<in> set cats" "splits N order S c" "represents found (S \<inter> lacing_set_of N order c)"
      "map_at (<) c sets = Inr ls" "represents (DifferenceOf (<) P ls) (S - lacing_set_of N order c)" by blast
    have fin: "finite S" using set by auto
    have parts: "S \<inter> lacing_set_of N order c \<noteq> {}" "S - lacing_set_of N order c \<noteq> {}" "c \<noteq> null_node"
      using f(3) by (auto simp: splits_def)
    then have "card (S \<inter> lacing_set_of N order c) < card S" "card (S - lacing_set_of N order c) < card S"
      using fin by (auto intro!: psubset_card_mono)
    then have "length found \<le> fuel" "length (DifferenceOf (<) P ls) \<le> fuel"
      using Suc.prems(4) unfolding represents_length[OF f(4)] represents_length[OF f(6)] represents_length[OF Suc.prems(1)]
      by simp_all
    then obtain yes no where "MakeDecisionSubtree sets cats fuel found = Some (Inr yes)"
        "tree_for N cats order (S \<inter> lacing_set_of N order c) yes"
        "MakeDecisionSubtree sets cats fuel (DifferenceOf (<) P ls) = Some (Inr no)"
        "tree_for N cats order (S - lacing_set_of N order c) no"
      using Suc.IH[OF f(4)] Suc.IH[OF f(6)] Suc.prems(2) parts by blast
    with f parts False P represents_Min_Max[OF Suc.prems(1) P] show ?thesis
      by (simp add: Let_def FrontOf_def BackOf_def)
  qed
qed (auto simp: represents_def)

section \<open>Traversal\<close>

text \<open>The ordinal that the tests of a node lead to.\<close>

fun ordinal_in :: "node_ops \<Rightarrow> DecisionNode \<Rightarrow> TreePtr \<Rightarrow> int" where
  "ordinal_in N (DecisionNodeLeaf k) x = k"
| "ordinal_in N (DecisionNodeLocalMatch c yes no lo hi) x = (if belongs N c x then ordinal_in N yes x else ordinal_in N no x)"

lemma ordinal_below_ok:
  "node_laws N \<Longrightarrow> cache_ok N cache \<Longrightarrow> \<exists>cache'. ordinal_below N t x cache = (ordinal_in N t x, cache') \<and> cache_ok N cache'"
proof (induction t arbitrary: cache)
  case (DecisionNodeLocalMatch c yes no lo hi)
  obtain c1 where c1: "LocalMatchWithNULL N c x cache = (belongs N c x, c1)" "cache_ok N c1"
    using LocalMatch_ok[OF DecisionNodeLocalMatch.prems] by blast
  show ?case using c1 DecisionNodeLocalMatch.IH[OF DecisionNodeLocalMatch.prems(1) c1(2)] by simp
qed simp

lemma ordinal_in_range: "tree_for N cats order S t \<Longrightarrow> ordinal_in N t x \<in> S"
  by (induction t arbitrary: S) auto

text \<open>A node is represented by a category when the tests of all categories say the same of both. The node
  that no category matches is represented by null.\<close>

definition represented :: "node_ops \<Rightarrow> CategorySet \<Rightarrow> TreePtr \<Rightarrow> TreePtr \<Rightarrow> bool" where
  "represented N cats x r \<longleftrightarrow> (\<forall>c \<in> set cats. belongs N c x = belongs N c r)"

lemma ordinal_in_represented:
  assumes "tree_for N cats order S t" "k \<in> S" "S \<subseteq> {0..<int (length order)}" "represented N cats x (order ! nat k)"
  shows "ordinal_in N t x = k"
  using assms(1-3)
proof (induction t arbitrary: S)
  case (DecisionNodeLocalMatch c yes no lo hi)
  have c: "c \<in> set cats" using DecisionNodeLocalMatch.prems(1) by simp
  then have "belongs N c x \<longleftrightarrow> k \<in> lacing_set_of N order c"
    using assms(4) DecisionNodeLocalMatch.prems(2,3) by (auto simp: represented_def lacing_set_of_def)
  with DecisionNodeLocalMatch show ?case by fastforce
qed auto

section \<open>Comparison by ordinal\<close>

text \<open>One side of the comparison: what is known bounds the ordinal, and what is left of the tree leads to it.\<close>

definition side_ok :: "node_ops \<Rightarrow> CategorySet \<Rightarrow> TreePtr list \<Rightarrow> TreePtr \<Rightarrow> int \<Rightarrow> ordinal_state \<Rightarrow> bool" where
  "side_ok N cats order x k = (\<lambda>(d, mn, mx). mn \<le> k \<and> k \<le> mx
     \<and> (case d of None \<Rightarrow> mn = mx | Some t \<Rightarrow> ordinal_in N t x = k \<and> (\<exists>S. finite S \<and> tree_for N cats order S t)))"

definition side_size :: "ordinal_state \<Rightarrow> nat" where
  "side_size = (\<lambda>(d, mn, mx). case d of None \<Rightarrow> 0 | Some t \<Rightarrow> Suc (size t))"

lemma advance_ok:
  assumes laws: "node_laws N" and cache: "cache_ok N cache" and side: "side_ok N cats order x k s"
  shows "\<exists>s' cache'. advance N x (s, cache) = (s', cache') \<and> cache_ok N cache' \<and> side_ok N cats order x k s'
    \<and> (fst s \<noteq> None \<longrightarrow> side_size s' < side_size s) \<and> (fst s = None \<longrightarrow> s' = s)"
proof -
  obtain d mn mx where s: "s = (d, mn, mx)" using prod_cases3 by blast
  show ?thesis
  proof (cases d)
    case None
    with s cache side show ?thesis by (auto simp: advance_def side_ok_def)
  next
    case (Some t)
    obtain S where S: "finite S" "tree_for N cats order S t" "ordinal_in N t x = k" using side by (auto simp: side_ok_def s Some)
    show ?thesis
    proof (cases t)
      case (DecisionNodeLeaf j)
      with S s Some cache show ?thesis by (auto simp: advance_def side_ok_def side_size_def)
    next
      case (DecisionNodeLocalMatch c yes no lo hi)
      obtain c1 where c1: "LocalMatchWithNULL N c x cache = (belongs N c x, c1)" "cache_ok N c1"
        using LocalMatch_ok[OF laws cache] by blast
      have "k \<in> S" using ordinal_in_range[OF S(2)] S(3) by metis
      then have "lo \<le> k" "k \<le> hi" using S(1,2) DecisionNodeLocalMatch by auto
      moreover have "\<exists>S. finite S \<and> tree_for N cats order S (if belongs N c x then yes else no)"
        using S(1,2) DecisionNodeLocalMatch by auto
      moreover have "ordinal_in N (if belongs N c x then yes else no) x = k"
        using S(3) DecisionNodeLocalMatch by auto
      moreover have "size (if belongs N c x then yes else no) < size t" using DecisionNodeLocalMatch by simp
      ultimately show ?thesis
        using s Some DecisionNodeLocalMatch c1 by (auto simp: advance_def side_ok_def side_size_def)
    qed
  qed
qed

lemma have_result_sound:
  assumes "side_ok N cats order x k l" "side_ok N cats order y j r" "have_result l r = Some d"
  shows "sgn d = sgn (k - j)"
proof -
  obtain dl lmin lmax dr rmin rmax where lr: "l = (dl, lmin, lmax)" "r = (dr, rmin, rmax)" using prod_cases3 by metis
  have "lmin \<le> k" "k \<le> lmax" "rmin \<le> j" "j \<le> rmax" using assms(1,2) by (simp_all add: side_ok_def lr)
  with assms(3) show ?thesis by (auto simp: have_result_def lr sgn_if split: if_splits)
qed

text \<open>The loop returns, since every round that decides nothing goes down at least one of the trees.\<close>

lemma have_result_ends: "side_ok N cats order x k l \<Longrightarrow> side_ok N cats order y j r \<Longrightarrow> fst l = None \<Longrightarrow> fst r = None
    \<Longrightarrow> have_result l r \<noteq> None"
  by (cases l, cases r) (auto simp: side_ok_def have_result_def)

lemma ordinal_compare_loop_ok:
  assumes "node_laws N" "cache_ok N cache" "side_ok N cats order x k l" "side_ok N cats order y j r"
  shows "\<exists>d cache'. ordinal_compare_loop N x y l r cache = Some (d, cache') \<and> cache_ok N cache' \<and> sgn d = sgn (k - j)"
  using assms(2-)
proof (induction "side_size l + side_size r" arbitrary: l r cache rule: less_induct)
  case less
  obtain l' c1 where l': "advance N x (l, cache) = (l', c1)" "cache_ok N c1" "side_ok N cats order x k l'"
      "fst l \<noteq> None \<longrightarrow> side_size l' < side_size l" "fst l = None \<longrightarrow> l' = l"
    using advance_ok[OF assms(1) less.prems(1,2)] by (elim exE conjE) (rule that)
  show ?case
  proof (cases "have_result l' r")
    case (Some d)
    with l' have_result_sound[OF l'(3) less.prems(3) Some] show ?thesis by (subst ordinal_compare_loop.simps) simp
  next
    case l_none: None
    obtain r' c2 where r': "advance N y (r, c1) = (r', c2)" "cache_ok N c2" "side_ok N cats order y j r'"
        "fst r \<noteq> None \<longrightarrow> side_size r' < side_size r" "fst r = None \<longrightarrow> r' = r"
      using advance_ok[OF assms(1) l'(2) less.prems(3)] by (elim exE conjE) (rule that)
    show ?thesis
    proof (cases "have_result l' r'")
      case (Some d)
      with l' l_none r' have_result_sound[OF l'(3) r'(3) Some] show ?thesis by (subst ordinal_compare_loop.simps) simp
    next
      case None
      have "\<not> (fst l = None \<and> fst r = None)"
        using have_result_ends[OF l'(3) r'(3)] None l'(5) r'(5) by metis
      then have "side_size l' + side_size r' < side_size l + side_size r"
        using l'(4,5) r'(4,5) by (metis add_less_mono add_less_le_mono add_le_less_mono order_refl)
      from less.hyps[OF this r'(2) l'(3) r'(3)] show ?thesis
        using l' l_none r' None by (subst ordinal_compare_loop.simps) simp
    qed
  qed
qed

section \<open>Ranges\<close>

lemma simple_less_order:
  assumes "node_laws N"
  shows "strict_weak_order (simple_less N)"
proof -
  have "strict_weak_order (\<lambda>x y. node_simple_compare N x y < 0)"
    using assms by (simp add: node_laws_def)
  note sc = strict_weak_order.irrefl[OF this] strict_weak_order.trans[OF this] strict_weak_order.neg_trans[OF this]
  show ?thesis
  proof
    fix x y z
    show "\<not> simple_less N x x" using sc(1) by (simp add: simple_less_def simple_compare_ptr_def)
    show "simple_less N x y \<Longrightarrow> simple_less N y z \<Longrightarrow> simple_less N x z"
      using sc(2)[of x y z] by (auto simp: simple_less_def simple_compare_ptr_def split: if_splits)
    show "\<not> simple_less N x y \<Longrightarrow> \<not> simple_less N y z \<Longrightarrow> \<not> simple_less N x z"
      using sc(3)[of x y z] by (auto simp: simple_less_def simple_compare_ptr_def split: if_splits)
  qed
qed

text \<open>Different categories are different keys of the map of ranges.\<close>

lemma simple_less_apart:
  assumes "laced N cats R order" "c \<in> set cats" "d \<in> set cats"
  shows "equivalent (simple_less N) c d \<longleftrightarrow> c = d"
proof -
  note l = lacedD[OF assms(1)]
  have laws: "\<forall>x y. \<not> IsEquivalentCategory N x y \<longrightarrow> order_total N x y \<noteq> 0 \<and> order_repeatable N x y \<noteq> 0"
    "\<forall>x y. order_total N x y \<noteq> 0 \<longrightarrow> node_simple_compare N x y \<noteq> 0"
    "\<forall>x y. node_simple_compare N x y = 0 \<longleftrightarrow> equivalent (\<lambda>x y. node_simple_compare N x y < 0) x y"
    using l(1) unfolding node_laws_def by blast+
  have apart: "c = d" if eq: "equivalent (simple_less N) c d"
  proof (cases "c = null_node \<or> d = null_node")
    case True
    with eq show ?thesis by (auto simp: equivalent_def simple_less_def simple_compare_ptr_def split: if_splits)
  next
    case False
    then have "equivalent (\<lambda>x y. node_simple_compare N x y < 0) c d"
      using eq by (simp add: equivalent_def simple_less_def simple_compare_ptr_def)
    then have "IsEquivalentCategory N c d" using laws by blast
    with False show ?thesis using l(8)[OF assms(2,3)] by (simp add: belongs_def IsEquivalentCategory_def)
  qed
  then show ?thesis using strict_weak_order.equivalent_refl[OF simple_less_order[OF l(1)]] by auto
qed

text \<open>The ranges recorded for a key, none when it has no entry.\<close>

definition ranges_at :: "node_ops \<Rightarrow> TreePtr \<Rightarrow> range_lists \<Rightarrow> (int \<times> int) list" where
  "ranges_at N c m = (case map_find (simple_less N) c m of None \<Rightarrow> [] | Some rl \<Rightarrow> rl)"

lemma ranges_at_change:
  assumes "laced N cats R order" "c \<in> set cats" "d \<in> set cats" "sorted_keys (simple_less N) m"
  shows "ranges_at N d (map_change (simple_less N) c [] f m) = (if d = c then f (ranges_at N c m) else ranges_at N d m)"
  using simple_less_apart[OF assms(1-3)]
  by (auto simp: ranges_at_def strict_weak_order.map_find_change[OF simple_less_order[OF lacedD(1)[OF assms(1)]] assms(4)])

lemma sorted_map_change: "node_laws N \<Longrightarrow> sorted_keys (simple_less N) m \<Longrightarrow> sorted_keys (simple_less N) (map_change (simple_less N) c [] f m)"
  by (rule strict_weak_order.map_change_props[OF simple_less_order, THEN conjunct1])

lemma begin_ranges:
  assumes L: "laced N cats R order" and "set cs \<subseteq> set cats" "distinct cs" "sorted_keys (simple_less N) m"
  shows "sorted_keys (simple_less N) (fold (begin_range N i) cs m) \<and> (\<forall>d \<in> set cats.
    ranges_at N d (fold (begin_range N i) cs m) = ranges_at N d m @ (if d \<in> set cs then [(i, -1)] else []))"
  using assms(2-)
proof (induction cs arbitrary: m)
  case (Cons c cs)
  have s: "sorted_keys (simple_less N) (begin_range N i c m)"
    using Cons.prems(3) sorted_map_change[OF lacedD(1)[OF L]] by (simp add: begin_range_def)
  have "ranges_at N d (begin_range N i c m) = ranges_at N d m @ (if d = c then [(i, -1)] else [])" if "d \<in> set cats" for d
    using ranges_at_change[OF L _ that Cons.prems(3), of c] Cons.prems(1) by (simp add: begin_range_def)
  with Cons.IH[OF _ _ s] Cons.prems show ?case by auto
qed simp

lemma end_ranges:
  assumes L: "laced N cats R order" and "set cs \<subseteq> set cats" "distinct cs" "sorted_keys (simple_less N) m"
    and "\<forall>c \<in> set cs. ranges_at N c m \<noteq> []"
  shows "\<exists>m'. foldE (end_range N i) cs m = Inr m' \<and> sorted_keys (simple_less N) m' \<and> (\<forall>d \<in> set cats.
    ranges_at N d m' = (if d \<in> set cs then butlast (ranges_at N d m) @ [(fst (last (ranges_at N d m)), i)] else ranges_at N d m))"
  using assms(2-)
proof (induction cs arbitrary: m)
  case (Cons c cs)
  let ?f = "\<lambda>l :: (int \<times> int) list. butlast l @ [(fst (last l), i)]"
  let ?m = "map_change (simple_less N) c [] ?f m"
  have "map_find (simple_less N) c m \<noteq> None" "ranges_at N c m \<noteq> []"
    using Cons.prems(4) by (auto simp: ranges_at_def split: option.splits)
  then have e: "end_range N i c m = Inr ?m"
    by (auto simp: end_range_def ranges_at_def neq_Nil_conv split: list.splits)
  have s: "sorted_keys (simple_less N) ?m" by (rule sorted_map_change[OF lacedD(1)[OF L] Cons.prems(3)])
  have at: "ranges_at N d ?m = (if d = c then ?f (ranges_at N c m) else ranges_at N d m)" if "d \<in> set cats" for d
    using ranges_at_change[OF L _ that Cons.prems(3), of c] Cons.prems(1) by simp
  have sub: "d \<in> set cats" if "d \<in> set cs" for d using that Cons.prems(1) by auto
  then have "ranges_at N d ?m \<noteq> []" if "d \<in> set cs" for d using that Cons.prems(4) by (simp add: at)
  then obtain m' where m': "foldE (end_range N i) cs ?m = Inr m'" "sorted_keys (simple_less N) m'"
      "\<forall>d \<in> set cats. ranges_at N d m' = (if d \<in> set cs then ?f (ranges_at N d ?m) else ranges_at N d ?m)"
    using Cons.IH[OF _ _ s] Cons.prems(1,2) by auto
  have "ranges_at N d m' = (if d \<in> set (c # cs) then ?f (ranges_at N d m) else ranges_at N d m)" if d: "d \<in> set cats" for d
    using m'(3) at[OF d] d Cons.prems(2) by auto
  with e m'(1,2) show ?case by simp
qed simp

text \<open>Ranges in increasing order with gaps between them, and the ordinals they hold.\<close>

definition range_list_ok :: "(int \<times> int) list \<Rightarrow> bool" where
  "range_list_ok rl \<longleftrightarrow> (\<forall>(b, e) \<in> set rl. b < e) \<and> sorted_wrt (\<lambda>p q. snd p < fst q) rl"

definition covered :: "(int \<times> int) list \<Rightarrow> int set" where
  "covered rl = (\<Union>(b, e) \<in> set rl. {b..<e})"

lemma covered_append [simp]: "covered (rl @ rl') = covered rl \<union> covered rl'" "covered [(b, e)] = {b..<e}" "covered [] = {}"
  by (auto simp: covered_def)

text \<open>What is recorded for a category below the ordinal \<open>i\<close>, when its last range is open and when it is not.\<close>

definition range_inv :: "int \<Rightarrow> bool \<Rightarrow> int set \<Rightarrow> (int \<times> int) list \<Rightarrow> bool" where
  "range_inv i is_open X rl \<longleftrightarrow>
     (if is_open then \<exists>rl0 b. rl = rl0 @ [(b, -1)] \<and> range_list_ok (rl0 @ [(b, i)]) \<and> covered (rl0 @ [(b, i)]) = {k \<in> X. k < i}
      else range_list_ok rl \<and> (\<forall>p \<in> set rl. snd p < i) \<and> covered rl = {k \<in> X. k < i})"

lemma range_step:
  assumes "range_inv i is_open X rl"
  shows "range_inv (i + 1) (i \<in> X) X
    (if i \<in> X \<and> \<not> is_open then rl @ [(i, -1)] else if is_open \<and> i \<notin> X then butlast rl @ [(fst (last rl), i)] else rl)"
proof -
  have "k < i + 1 \<longleftrightarrow> k < i \<or> k = i" for k by auto
  then have below: "{k \<in> X. k < i + 1} = {k \<in> X. k < i} \<union> (if i \<in> X then {i} else {})" by auto
  show ?thesis
  proof (cases is_open)
    case True
    then obtain rl0 b where o: "rl = rl0 @ [(b, -1)]" "range_list_ok (rl0 @ [(b, i)])" "covered (rl0 @ [(b, i)]) = {k \<in> X. k < i}"
      using assms by (auto simp: range_inv_def)
    have b: "b < i" "\<forall>p \<in> set rl0. fst p < snd p \<and> snd p < b" using o(2) by (auto simp: range_list_ok_def sorted_wrt_append)
    have "{b..<i + 1} = {b..<i} \<union> {i}" using b(1) by auto
    then have "range_list_ok (rl0 @ [(b, i + 1)])" "i \<in> X \<Longrightarrow> covered (rl0 @ [(b, i + 1)]) = {k \<in> X. k < i + 1}"
      using o(2,3) below by (auto simp: range_list_ok_def sorted_wrt_append)
    with True o b below show ?thesis by (fastforce simp: range_inv_def)
  next
    case False
    then have c: "range_list_ok rl" "\<forall>p \<in> set rl. snd p < i" "covered rl = {k \<in> X. k < i}" using assms by (auto simp: range_inv_def)
    then have "range_list_ok (rl @ [(i, i + 1)])" by (auto simp: range_list_ok_def sorted_wrt_append)
    moreover have "{i..<i + 1} = {i}" by auto
    ultimately show ?thesis using False c below by (auto simp: range_inv_def)
  qed
qed

definition ranges_inv :: "node_ops \<Rightarrow> CategorySet \<Rightarrow> TreePtr list \<Rightarrow> int \<Rightarrow> CategorySet \<times> range_lists \<Rightarrow> bool" where
  "ranges_inv N cats order i = (\<lambda>(prev, m). sorted_set prev \<and> set prev \<subseteq> set cats \<and> sorted_keys (simple_less N) m
     \<and> (\<forall>c \<in> set cats. range_inv i (c \<in> set prev) (lacing_set_of N order c) (ranges_at N c m)))"

lemma supercats_at_eq:
  assumes "laced N cats R order"
  shows "supercats_at R order i = Inr (if i < length order then supers N cats (order ! i) else [])"
proof -
  note l = lacedD[OF assms]
  have "supers N cats null_node = []" by (simp add: supers_def belongs_def)
  then show ?thesis using l(7)[of i] by (auto simp: supercats_at_def relations_at[OF l(3,2)])
qed

lemma ranges_step:
  assumes L: "laced N cats R order" and I: "ranges_inv N cats order (int i) (prev, m)"
    and cur: "cur = (if i < length order then supers N cats (order ! i) else [])"
  shows "\<exists>m'. foldE (end_range N (int i)) (DifferenceOf (<) prev cur) (fold (begin_range N (int i)) (DifferenceOf (<) cur prev) m) = Inr m'
    \<and> ranges_inv N cats order (int i + 1) (cur, m')"
proof -
  note l = lacedD[OF L]
  have prev: "sorted_set prev" "set prev \<subseteq> set cats" and m: "sorted_keys (simple_less N) m"
    and inv: "\<And>c. c \<in> set cats \<Longrightarrow> range_inv (int i) (c \<in> set prev) (lacing_set_of N order c) (ranges_at N c m)"
    using I by (auto simp: ranges_inv_def)
  have c: "sorted_set cur" "set cur \<subseteq> set cats" using cur l(2) by auto
  have mem: "c \<in> set cur \<longleftrightarrow> int i \<in> lacing_set_of N order c" if "c \<in> set cats" for c
    using that cur by (simp add: lacing_set_of_nat)
  have diffs: "set (DifferenceOf (<) cur prev) = set cur - set prev" "set (DifferenceOf (<) prev cur) = set prev - set cur"
    "distinct (DifferenceOf (<) cur prev)" "distinct (DifferenceOf (<) prev cur)"
    using c(1) prev(1) DifferenceOf_lin[of cur prev] DifferenceOf_lin[of prev cur] by (simp_all add: strict_sorted_iff)
  let ?m = "fold (begin_range N (int i)) (DifferenceOf (<) cur prev) m"
  have sub: "set (DifferenceOf (<) cur prev) \<subseteq> set cats" using c(2) diffs(1) by blast
  have b: "sorted_keys (simple_less N) ?m" "\<And>d. d \<in> set cats \<Longrightarrow>
      ranges_at N d ?m = ranges_at N d m @ (if d \<in> set cur - set prev then [(int i, -1)] else [])"
    using begin_ranges[OF L sub diffs(3) m, of "int i"] unfolding diffs(1) by blast+
  have "\<forall>c \<in> set (DifferenceOf (<) prev cur). ranges_at N c ?m \<noteq> []"
    using b(2) inv prev(2) unfolding diffs by (force simp: range_inv_def)
  moreover have "set (DifferenceOf (<) prev cur) \<subseteq> set cats" using prev(2) diffs(2) by auto
  ultimately obtain m' where m': "foldE (end_range N (int i)) (DifferenceOf (<) prev cur) ?m = Inr m'"
      "sorted_keys (simple_less N) m'" "\<forall>d \<in> set cats. ranges_at N d m' =
        (if d \<in> set prev - set cur then butlast (ranges_at N d ?m) @ [(fst (last (ranges_at N d ?m)), int i)] else ranges_at N d ?m)"
    using end_ranges[OF L _ diffs(4) b(1), of "int i"] unfolding diffs(2) by blast
  have "range_inv (int i + 1) (d \<in> set cur) (lacing_set_of N order d) (ranges_at N d m')" if d: "d \<in> set cats" for d
    using range_step[OF inv[OF d]] m'(3) b(2)[OF d] d mem[OF d] by (auto split: if_splits)
  then show ?thesis using m'(1,2) c by (auto simp: ranges_inv_def)
qed

lemma BuildRanges_ok:
  assumes L: "laced N cats R order"
  shows "\<exists>m. BuildRanges N R order = Inr m \<and> sorted_keys (simple_less N) m \<and> (\<forall>c \<in> set cats.
    range_list_ok (ranges_at N c m) \<and> covered (ranges_at N c m) = lacing_set_of N order c)"
proof -
  let ?f = "\<lambda>i (prev_supercats, m). bindE (supercats_at R order i) (\<lambda>current_supercats.
     let m = fold (begin_range N (int i)) (DifferenceOf (<) current_supercats prev_supercats) m in
     bindE (foldE (end_range N (int i)) (DifferenceOf (<) prev_supercats current_supercats) m) (\<lambda>m. Inr (current_supercats, m)))"
  have run: "\<exists>s. foldE ?f [0..<k] ([], []) = Inr s \<and> ranges_inv N cats order (int k) s
      \<and> (k > length order \<longrightarrow> fst s = [])" for k
  proof (induction k)
    case 0
    then show ?case by (auto simp: ranges_inv_def ranges_at_def range_inv_def range_list_ok_def lacing_set_of_def)
  next
    case (Suc k)
    then obtain prev m where s: "foldE ?f [0..<k] ([], []) = Inr (prev, m)" "ranges_inv N cats order (int k) (prev, m)" by fastforce
    let ?cur = "if k < length order then supers N cats (order ! k) else []"
    obtain m' where m': "?f k (prev, m) = Inr (?cur, m')" "ranges_inv N cats order (int k + 1) (?cur, m')"
      using ranges_step[OF L s(2) refl] by (auto simp: supercats_at_eq[OF L] Let_def)
    have "foldE ?f [0..<Suc k] ([], []) = Inr (?cur, m')"
      using m'(1) by (simp only: upt_Suc le0 if_True foldE_append s(1) bindE_simps foldE.simps)
    moreover have "ranges_inv N cats order (int (Suc k)) (?cur, m')" using m'(2) by (simp add: add.commute)
    ultimately show ?case by auto
  qed
  obtain s where s: "foldE ?f [0..<Suc (length order)] ([], []) = Inr s"
      "ranges_inv N cats order (int (Suc (length order))) s" "fst s = []"
    using run[of "Suc (length order)"] by auto
  obtain m where m: "s = ([], m)" using s(3) by (cases s) auto
  have "{k \<in> lacing_set_of N order c. k < int (Suc (length order))} = lacing_set_of N order c" for c
    by (auto simp: lacing_set_of_def)
  then have "sorted_keys (simple_less N) m \<and> (\<forall>c \<in> set cats. range_list_ok (ranges_at N c m) \<and> covered (ranges_at N c m) = lacing_set_of N order c)"
    using s(2) m by (auto simp: ranges_inv_def range_inv_def)
  moreover have "BuildRanges N R order = Inr m" using s(1) m by (simp add: BuildRanges_def del: upt_Suc)
  ultimately show ?thesis by blast
qed

section \<open>The lacing as a whole\<close>

text \<open>What holds of a lacing once it is built.\<close>

definition built :: "node_ops \<Rightarrow> lacing \<Rightarrow> bool" where
  "built N L \<longleftrightarrow> laced N (categories L) (relations L) (cats_in_lacing_order L)
     \<and> sorted_keys (simple_less N) (cats_to_lacing_range_lists L)
     \<and> (\<forall>c \<in> set (categories L). range_list_ok (ranges_at N c (cats_to_lacing_range_lists L))
          \<and> covered (ranges_at N c (cats_to_lacing_range_lists L)) = lacing_set_of N (cats_in_lacing_order L) c)
     \<and> tree_for N (categories L) (cats_in_lacing_order L) {0..<int (length (cats_in_lacing_order L))} (decision_tree_root L)"

lemma GetOrdinal_ok:
  assumes "built N L" "cache_ok N cache"
  shows "\<exists>cache'. GetOrdinalForNode N L x cache = (ordinal_in N (decision_tree_root L) x, cache') \<and> cache_ok N cache'"
  using assms ordinal_below_ok[of N cache] lacedD(1) unfolding built_def GetOrdinalForNode_def by blast

lemma GetOrdinal_represented:
  assumes "built N L" "i < length (cats_in_lacing_order L)" "represented N (categories L) x (cats_in_lacing_order L ! i)"
  shows "ordinal_in N (decision_tree_root L) x = int i"
  using assms ordinal_in_represented[of N "categories L" "cats_in_lacing_order L"
      "{0..<int (length (cats_in_lacing_order L))}" "decision_tree_root L" "int i" x]
  by (simp add: built_def)

lemma TestDecisionTree_ok:
  assumes "built N L" "cache_ok N cache"
  shows "\<exists>cache'. TestDecisionTree N L cache = Inr cache' \<and> cache_ok N cache'"
proof -
  have "\<exists>cache'. bindE (vec_at (cats_in_lacing_order L) i) (\<lambda>cat.
      let (ordinal, cache) = GetOrdinalForNode N L cat c in guardE (ordinal = int i) (Inr cache)) = Inr cache' \<and> cache_ok N cache'"
    if i: "i < length (cats_in_lacing_order L)" and c: "cache_ok N c" for i c
  proof -
    obtain c' where "GetOrdinalForNode N L (cats_in_lacing_order L ! i) c
        = (ordinal_in N (decision_tree_root L) (cats_in_lacing_order L ! i), c')" "cache_ok N c'"
      using GetOrdinal_ok[OF assms(1) c] by blast
    moreover have "ordinal_in N (decision_tree_root L) (cats_in_lacing_order L ! i) = int i"
      by (rule GetOrdinal_represented[OF assms(1) i]) (simp add: represented_def)
    ultimately show ?thesis using i by simp
  qed
  then show ?thesis
    unfolding TestDecisionTree_def by (intro foldE_invariant assms(2)) simp
qed

definition shortest_by_exchange :: "node_ops \<Rightarrow> CategorySet \<Rightarrow> TreePtr list \<Rightarrow> bool" where
  "shortest_by_exchange N cats order \<longleftrightarrow>
     (\<forall>A X B Y C. order = A @ X @ B @ Y @ C \<longrightarrow> X \<noteq> [] \<longrightarrow> length X = length Y
        \<longrightarrow> lace_length N cats order \<le> lace_length N cats (A @ Y @ B @ X @ C))"

lemma Build_ok:
  assumes laws: "node_laws N" and raw: "null_node \<notin> set raw" and cache: "cache_ok N cache"
  shows "\<exists>L cache'. Lacing_Build N raw cache = Some (Inr (L, cache')) \<and> cache_ok N cache' \<and> built N L
    \<and> shortest_by_exchange N (categories L) (cats_in_lacing_order L)
    \<and> (\<forall>x \<in> set raw. \<exists>y \<in> set (categories L). belongs N x y \<and> belongs N y x)"
proof -
  obtain cats where cats: "FixupCategories N raw = Inr cats" "categories_ok N cats"
      "\<forall>x \<in> set raw. \<exists>y \<in> set cats. belongs N x y \<and> belongs N y x"
    using FixupCategories_ok[OF laws raw] by blast
  have sorted: "sorted_set cats" using cats(2) by (simp add: categories_ok_def)
  obtain R c1 where R: "FindSuperAndSubCategories N cats cache = Inr (R, c1)" "relations_of N cats R" "cache_ok N c1"
    using FindSuperAndSubCategories_ok[OF laws cache] by blast
  obtain order where o: "Sort R cats = Some (Inr order)" "mset order = mset cats" "shortest_by_exchange N cats order"
    using sort_loop_ok[OF R(2) sorted order_refl] unfolding Sort_def shortest_by_exchange_def by blast
  have L: "laced N cats R order" using laws cats(2) R(2) o(2) by (simp add: laced_def)
  have n: "set order \<noteq> {}" using lacedD(4,9)[OF L] by auto
  obtain m where m: "BuildRanges N R order = Inr m" "sorted_keys (simple_less N) m"
      "\<forall>c \<in> set cats. range_list_ok (ranges_at N c m) \<and> covered (ranges_at N c m) = lacing_set_of N order c"
    using BuildRanges_ok[OF L] by blast
  obtain sets where s: "gather_lacing_sets R order = Inr sets"
      "indexed sets (\<lambda>c. if c \<in> set cats then lacing_set_of N order c else {})"
    using gather_lacing_sets_ok[OF L] by blast
  have p: "represents (map int [0..<length order]) {0..<int (length order)}"
    by (auto simp: represents_def sorted_wrt_map image_int_atLeastLessThan)
  obtain root where root: "MakeDecisionSubtree sets cats (length order) (map int [0..<length order]) = Some (Inr root)"
      "tree_for N cats order {0..<int (length order)} root"
    using MakeDecisionSubtree_ok[OF L s(2) p, of "length order"] n by auto
  let ?L = "\<lparr>categories = cats, relations = R, cats_in_lacing_order = order, cats_to_lacing_range_lists = m,
              cats_to_lacing_sets = sets, decision_tree_root = root\<rparr>"
  have b: "built N ?L" using L m root by (simp add: built_def)
  obtain c2 where "TestDecisionTree N ?L c1 = Inr c2" "cache_ok N c2" using TestDecisionTree_ok[OF b R(3)] by blast
  then have "Lacing_Build N raw cache = Some (Inr (?L, c2))"
    using cats R o m s root by (simp add: Lacing_Build_def Let_def)
  with b \<open>cache_ok N c2\<close> o(3) cats(3) show ?thesis by fastforce
qed

lemma Build_built:
  assumes "node_laws N" "null_node \<notin> set raw" "cache_ok N cache" "Lacing_Build N raw cache = Some (Inr (L, cache1))"
  shows "built N L" "cache_ok N cache1"
  using Build_ok[OF assms(1-3)] assms(4) by auto

lemma GetRangeList_ok:
  assumes b: "built N L" and c: "c \<in> set (categories L)" "c \<noteq> null_node"
  shows "\<exists>rl. Lacing_GetRangeListForCategory N L c = Inr rl \<and> range_list_ok rl
    \<and> covered rl = lacing_set_of N (cats_in_lacing_order L) c"
proof -
  have L: "laced N (categories L) (relations L) (cats_in_lacing_order L)"
    and m: "sorted_keys (simple_less N) (cats_to_lacing_range_lists L)"
    and r: "range_list_ok (ranges_at N c (cats_to_lacing_range_lists L))"
      "covered (ranges_at N c (cats_to_lacing_range_lists L)) = lacing_set_of N (cats_in_lacing_order L) c"
    using b c(1) by (simp_all add: built_def)
  obtain i where "i < length (cats_in_lacing_order L)" "cats_in_lacing_order L ! i = c"
    using c(1) lacedD(4)[OF L] by (metis in_set_conv_nth)
  then have "int i \<in> covered (ranges_at N c (cats_to_lacing_range_lists L))"
    using c(2) node_lawsD(1)[OF lacedD(1)[OF L]] unfolding r(2) by (simp add: lacing_set_of_nat)
  then have ne: "ranges_at N c (cats_to_lacing_range_lists L) \<noteq> []" by auto
  then obtain rl where "map_find (simple_less N) c (cats_to_lacing_range_lists L) = Some rl"
    by (auto simp: ranges_at_def split: option.splits)
  with r ne show ?thesis
    by (simp add: Lacing_GetRangeListForCategory_def TryGetRangeListForCategory_def strict_weak_order.map_count_find[OF simple_less_order[OF lacedD(1)[OF L]] m] map_at_def ranges_at_def)
qed

text \<open>What the comparison of ordinals returns, once the lacing is built.\<close>

definition lacing_ready :: "node_ops \<Rightarrow> lacing \<Rightarrow> bool" where
  "lacing_ready N L \<longleftrightarrow> built N L \<and> int (length (categories L)) \<le> int_max + 1"

lemma OrdinalCompare_ok:
  assumes "lacing_ready N L" "cache_ok N cache"
  shows "\<exists>d cache'. OrdinalCompare N L x y cache = Some (d, cache') \<and> cache_ok N cache'
    \<and> sgn d = sgn (ordinal_in N (decision_tree_root L) x - ordinal_in N (decision_tree_root L) y)"
proof -
  have L: "laced N (categories L) (relations L) (cats_in_lacing_order L)"
    and t: "tree_for N (categories L) (cats_in_lacing_order L) {0..<int (length (cats_in_lacing_order L))} (decision_tree_root L)"
    using assms(1) by (simp_all add: lacing_ready_def built_def)
  have side: "side_ok N (categories L) (cats_in_lacing_order L) z (ordinal_in N (decision_tree_root L) z) (Some (decision_tree_root L), 0, int_max)" for z
    using ordinal_in_range[OF t, of z] t assms(1) lacedD(6)[OF L] by (auto simp: side_ok_def lacing_ready_def)
  from ordinal_compare_loop_ok[OF lacedD(1)[OF L] assms(2) side side, of x y] show ?thesis
    by (auto simp: OrdinalCompare_def Let_def)
qed

section \<open>Properties\<close>

text \<open>C9: building a lacing always ends without a failed assertion: the exchanges of \<open>Sort\<close> shorten the lace by
  exactly what was expected, every set of ordinals has a category that splits it, and the self-test of the
  decision tree passes. One category of each class of equivalent ones is kept, and null; the lacing order is a
  permutation of them that no exchange of two blocks of equal size makes shorter.\<close>

theorem Lacing_Build_returns:
  assumes "node_laws N" "null_node \<notin> set raw" "cache_ok N cache"
  shows "\<exists>L cache'. Lacing_Build N raw cache = Some (Inr (L, cache'))
    \<and> categories_ok N (categories L) \<and> (\<forall>x \<in> set raw. \<exists>y \<in> set (categories L). belongs N x y \<and> belongs N y x)
    \<and> mset (cats_in_lacing_order L) = mset (categories L) \<and> shortest_by_exchange N (categories L) (cats_in_lacing_order L)"
proof -
  obtain L cache' where "Lacing_Build N raw cache = Some (Inr (L, cache'))" "built N L"
      "shortest_by_exchange N (categories L) (cats_in_lacing_order L)"
      "\<forall>x \<in> set raw. \<exists>y \<in> set (categories L). belongs N x y \<and> belongs N y x"
    using Build_ok[OF assms] by blast
  moreover from this have "categories_ok N (categories L)" "mset (cats_in_lacing_order L) = mset (categories L)"
    by (simp_all add: built_def laced_def)
  ultimately show ?thesis by blast
qed

text \<open>C10: the ranges of a category are in increasing order and apart. They decide the category for a node that is
  represented, which is one that belongs to the same categories as some category of the lacing, or to none: its
  ordinal is in one of them exactly when it belongs to the category.\<close>

theorem ranges_decide_category:
  assumes "node_laws N" "null_node \<notin> set raw" "cache_ok N cache" "Lacing_Build N raw cache = Some (Inr (L, cache1))"
    and "cache_ok N cache2" "c \<in> set (categories L)" "c \<noteq> null_node"
    and "r \<in> set (categories L)" "represented N (categories L) x r"
  shows "\<exists>rl. Lacing_GetRangeListForCategory N L c = Inr rl \<and> range_list_ok rl
    \<and> (fst (GetOrdinalForNode N L x cache2) \<in> covered rl \<longleftrightarrow> belongs N c x)"
proof -
  have b: "built N L" using Build_built[OF assms(1-4)] by simp
  then have L: "laced N (categories L) (relations L) (cats_in_lacing_order L)" by (simp add: built_def)
  obtain rl where rl: "Lacing_GetRangeListForCategory N L c = Inr rl" "range_list_ok rl"
      "covered rl = lacing_set_of N (cats_in_lacing_order L) c"
    using GetRangeList_ok[OF b assms(6,7)] by blast
  obtain i where i: "i < length (cats_in_lacing_order L)" "cats_in_lacing_order L ! i = r"
    using assms(8) lacedD(4)[OF L] by (metis in_set_conv_nth)
  have "fst (GetOrdinalForNode N L x cache2) = int i"
    using GetOrdinal_ok[OF b assms(5), of x] GetOrdinal_represented[OF b i(1)] assms(9) i(2) by force
  moreover have "belongs N c x \<longleftrightarrow> belongs N c r" using assms(6,9) by (simp add: represented_def)
  ultimately show ?thesis using rl i by (simp add: lacing_set_of_nat)
qed

text \<open>C33: a node that belongs to two categories which have no subcategory in common, as multiple inheritance
  allows, gets an ordinal that is outside the ranges of at least one of the two.\<close>

theorem ranges_miss_multiple_inheritance:
  assumes "node_laws N" "null_node \<notin> set raw" "cache_ok N cache" "Lacing_Build N raw cache = Some (Inr (L, cache1))"
    and "cache_ok N cache2" "c \<in> set (categories L)" "d \<in> set (categories L)" "belongs N c x" "belongs N d x"
    and "\<forall>r \<in> set (categories L). \<not> (belongs N c r \<and> belongs N d r)"
  shows "\<exists>e \<in> {c, d}. \<exists>rl. Lacing_GetRangeListForCategory N L e = Inr rl \<and> belongs N e x
    \<and> fst (GetOrdinalForNode N L x cache2) \<notin> covered rl"
proof -
  have b: "built N L" using Build_built[OF assms(1-4)] by simp
  then have L: "laced N (categories L) (relations L) (cats_in_lacing_order L)" by (simp add: built_def)
  have nn: "c \<noteq> null_node" "d \<noteq> null_node" using assms(8,9) by (simp_all add: belongs_def)
  obtain rc rd where r: "Lacing_GetRangeListForCategory N L c = Inr rc" "covered rc = lacing_set_of N (cats_in_lacing_order L) c"
      "Lacing_GetRangeListForCategory N L d = Inr rd" "covered rd = lacing_set_of N (cats_in_lacing_order L) d"
    using GetRangeList_ok[OF b assms(6) nn(1)] GetRangeList_ok[OF b assms(7) nn(2)] by blast
  have "covered rc \<inter> covered rd = {}"
  proof -
    have "\<not> (belongs N c (cats_in_lacing_order L ! nat k) \<and> belongs N d (cats_in_lacing_order L ! nat k))"
      if "0 \<le> k" "k < int (length (cats_in_lacing_order L))" for k
      using that assms(10) lacedD(7)[OF L, of "nat k"] by (simp add: nat_less_iff)
    then show ?thesis unfolding r(2,4) by (auto simp: lacing_set_of_def)
  qed
  then have "fst (GetOrdinalForNode N L x cache2) \<notin> covered rc \<or> fst (GetOrdinalForNode N L x cache2) \<notin> covered rd" by blast
  then show ?thesis using r assms(8,9) by auto
qed

text \<open>C11: \<open>OrdinalCompare\<close> always returns, and the sign of its result is that of the difference of the two ordinals,
  although it goes down both trees only as far as it needs to.\<close>

theorem OrdinalCompare_sign:
  assumes "node_laws N" "null_node \<notin> set raw" "cache_ok N cache" "Lacing_Build N raw cache = Some (Inr (L, cache1))"
    and "cache_ok N cache2" "int (length (categories L)) \<le> int_max + 1"
  shows "\<exists>d cache3. OrdinalCompare N L x y cache2 = Some (d, cache3)
    \<and> sgn d = sgn (fst (GetOrdinalForNode N L x cache2) - fst (GetOrdinalForNode N L y cache2))"
proof -
  have b: "built N L" using Build_built[OF assms(1-4)] by simp
  then have "lacing_ready N L" using assms(6) by (simp add: lacing_ready_def)
  moreover have "fst (GetOrdinalForNode N L z cache2) = ordinal_in N (decision_tree_root L) z" for z
    using GetOrdinal_ok[OF b assms(5), of z] by force
  ultimately show ?thesis using OrdinalCompare_ok[OF _ assms(5), of L x y] by auto
qed

section \<open>Instances\<close>

text \<open>Five types: 1 is the base of 2 and 3, which are both bases of 4. A node is named by its type.\<close>

definition example_nodes :: node_ops where
  "example_nodes = \<lparr>cat_subcategory = (\<lambda>l r. l = r \<or> (l, r) \<in> {(1, 2), (1, 3), (1, 4), (2, 4), (3, 4)}), node_typeid = (\<lambda>x. x),
     order_total = (\<lambda>x y. int x - int y), order_repeatable = (\<lambda>x y. int x - int y), node_simple_compare = (\<lambda>x y. int x - int y)\<rparr>"

lemma example_laws: "node_laws example_nodes"
proof -
  have sub: "cat_subcategory example_nodes l r \<longleftrightarrow> l = r \<or> l = 1 \<and> (r = 2 \<or> r = 3 \<or> r = 4) \<or> (l = 2 \<or> l = 3) \<and> r = 4" for l r
    by (simp add: example_nodes_def) blast
  have eq: "IsEquivalentCategory example_nodes x y \<longleftrightarrow> x = y" for x y
    unfolding IsEquivalentCategory_def sub by (cases "x = y") (simp_all, presburger)
  have lt: "(\<lambda>x y. node_simple_compare example_nodes x y < 0) = (<)"
    by (intro ext) (simp add: example_nodes_def)
  have trans: "cat_subcategory example_nodes x z" if "cat_subcategory example_nodes x y" "cat_subcategory example_nodes y z" for x y z
    using that unfolding sub by presburger
  have typed: "\<exists>derives. \<forall>l r. cat_subcategory example_nodes l r = derives (node_typeid example_nodes l) (node_typeid example_nodes r)"
    by (intro exI[of _ "cat_subcategory example_nodes"]) (simp add: example_nodes_def)
  have zero: "node_simple_compare example_nodes x y = 0 \<longleftrightarrow> equivalent (<) x y" for x y
    by (auto simp: example_nodes_def equivalent_def)
  have orders: "x \<noteq> y \<longrightarrow> order_total example_nodes x y \<noteq> 0 \<and> order_repeatable example_nodes x y \<noteq> 0"
    "order_total example_nodes x y \<noteq> 0 \<longrightarrow> node_simple_compare example_nodes x y \<noteq> 0" for x y
    by (simp_all add: example_nodes_def)
  have refl: "cat_subcategory example_nodes x x" for x by (simp add: sub)
  show ?thesis
    unfolding node_laws_def eq lt
    by (intro conjI allI impI typed refl zero lin.strict_weak_order_axioms orders[rule_format]; (assumption | erule (1) trans))
qed

lemma Build_steps:
  assumes "Lacing_Build N raw cache = Some (Inr (L, cache1))"
  shows "FixupCategories N raw = Inr (categories L)"
    "\<exists>c. FindSuperAndSubCategories N (categories L) cache = Inr (relations L, c)"
    "Sort (relations L) (categories L) = Some (Inr (cats_in_lacing_order L))"
    "BuildRanges N (relations L) (cats_in_lacing_order L) = Inr (cats_to_lacing_range_lists L)"
  using assms by (auto simp: Lacing_Build_def bindO_def Let_def split: option.splits sum.splits)

lemma example_built:
  assumes "FixupCategories example_nodes raw = Inr cats" "null_node \<notin> set raw"
  obtains L cache1 where "Lacing_Build example_nodes raw (\<lambda>p. None) = Some (Inr (L, cache1))" "categories L = cats"
proof -
  obtain L cache1 where "Lacing_Build example_nodes raw (\<lambda>p. None) = Some (Inr (L, cache1))"
    using Build_ok[OF example_laws assms(2) cache_ok_empty] by blast
  with Build_steps(1)[OF this] assms(1) that show ?thesis by simp
qed

lemma example_single: "FixupCategories example_nodes [2, 1] = Inr [0, 1, 2]"
  by code_simp

lemma example_multiple: "FixupCategories example_nodes [3, 1, 2] = Inr [0, 1, 2, 3]"
  by code_simp

theorem Lacing_Build_returns_witness:
  "\<exists>L cache'. Lacing_Build example_nodes [3, 1, 2] (\<lambda>p. None) = Some (Inr (L, cache'))
    \<and> shortest_by_exchange example_nodes (categories L) (cats_in_lacing_order L)"
  using Lacing_Build_returns[OF example_laws, of "[3, 1, 2]" "\<lambda>p. None"] by auto

theorem ranges_decide_category_witness:
  "\<exists>L cache1 rl. Lacing_Build example_nodes [2, 1] (\<lambda>p. None) = Some (Inr (L, cache1))
    \<and> Lacing_GetRangeListForCategory example_nodes L 2 = Inr rl \<and> range_list_ok rl
    \<and> fst (GetOrdinalForNode example_nodes L 4 (\<lambda>p. None)) \<in> covered rl
    \<and> fst (GetOrdinalForNode example_nodes L 3 (\<lambda>p. None)) \<notin> covered rl"
proof -
  obtain L cache1 where b: "Lacing_Build example_nodes [2, 1] (\<lambda>p. None) = Some (Inr (L, cache1))" "categories L = [0, 1, 2]"
    using example_built[OF example_single] by auto
  have "represented example_nodes (categories L) 4 2" "represented example_nodes (categories L) 3 1"
    unfolding b(2) by (auto simp: represented_def belongs_def example_nodes_def)
  moreover have "belongs example_nodes 2 4" "\<not> belongs example_nodes 2 3" by (auto simp: belongs_def example_nodes_def)
  ultimately show ?thesis
    using b ranges_decide_category[OF example_laws _ cache_ok_empty b(1) cache_ok_empty, of 2 2 4]
      ranges_decide_category[OF example_laws _ cache_ok_empty b(1) cache_ok_empty, of 2 1 3] by auto
qed

theorem ranges_miss_multiple_inheritance_witness:
  "\<exists>L cache1. Lacing_Build example_nodes [3, 1, 2] (\<lambda>p. None) = Some (Inr (L, cache1))
    \<and> (\<exists>e \<in> {2, 3}. \<exists>rl. Lacing_GetRangeListForCategory example_nodes L e = Inr rl \<and> belongs example_nodes e 4
         \<and> fst (GetOrdinalForNode example_nodes L 4 (\<lambda>p. None)) \<notin> covered rl)"
proof -
  obtain L cache1 where b: "Lacing_Build example_nodes [3, 1, 2] (\<lambda>p. None) = Some (Inr (L, cache1))" "categories L = [0, 1, 2, 3]"
    using example_built[OF example_multiple] by auto
  have "belongs example_nodes 2 4" "belongs example_nodes 3 4"
    "\<forall>r \<in> set (categories L). \<not> (belongs example_nodes 2 r \<and> belongs example_nodes 3 r)"
    unfolding b(2) by (auto simp: belongs_def example_nodes_def)
  then show ?thesis
    using b ranges_miss_multiple_inheritance[OF example_laws _ cache_ok_empty b(1) cache_ok_empty, of 2 3 4] by auto
qed

theorem OrdinalCompare_sign_witness:
  "\<exists>L cache1 d cache3. Lacing_Build example_nodes [2, 1] (\<lambda>p. None) = Some (Inr (L, cache1))
    \<and> OrdinalCompare example_nodes L 4 3 (\<lambda>p. None) = Some (d, cache3)
    \<and> sgn d = sgn (fst (GetOrdinalForNode example_nodes L 4 (\<lambda>p. None)) - fst (GetOrdinalForNode example_nodes L 3 (\<lambda>p. None)))"
proof -
  obtain L cache1 where b: "Lacing_Build example_nodes [2, 1] (\<lambda>p. None) = Some (Inr (L, cache1))" "categories L = [0, 1, 2]"
    using example_built[OF example_single] by auto
  then have "int (length (categories L)) \<le> int_max + 1" by (simp add: int_max_def)
  with b show ?thesis
    using OrdinalCompare_sign[OF example_laws _ cache_ok_empty b(1) cache_ok_empty, of 4 3] by auto
qed

end
