(* ===== verification/Identity.thy ===== *)
theory Identity
  imports "HOL-Library.Word" ExpressionOrder
begin

text \<open>
  Identities (\<^verbatim>\<open>common/serial\<close>, \<^verbatim>\<open>common/progress\<close>, \<^verbatim>\<open>node/tree_ptr\<close>, \<^verbatim>\<open>vn/link\<close>): the numbers by which nodes, tree
  pointers and pattern links are ordered, instead of by their addresses.

  The state holds what the code keeps in static members and in the objects: the cache of counters with its
  number of users, the current progress, the live nodes by address with their serial numbers and hooks, and
  the live tree pointers by address. Address 0 is null. Counters are 64-bit words and the comparison
  narrows their difference to 32 bits, as the code does. Satellite numbers are of type \<^verbatim>\<open>int\<close>: to count past its
  greatest value, or to subtract out of its range, is undefined behaviour. A step number is -1 or a position in the
  list of steps, so that differences of step numbers are in range.

  A number keeps the address of its mother block when its tree pointer is set to null. When the node goes, its hook is
  released with it and such an address dangles, which is block 0 here; to assign a number from it is undefined.
\<close>

section \<open>Progress\<close>

datatype Stage = INVALID | BUILDING_STEPS | PATTERN_TRANS | PLANNING_ONE | PLANNING_TWO | PLANNING_THREE
  | PLANNING_FOUR | PLANNING_FIVE | PARSING | ANALYSING | TRANSFORMING | RENDERING

fun stage_number :: "Stage \<Rightarrow> int" where
  "stage_number INVALID = 0" | "stage_number BUILDING_STEPS = 1" | "stage_number PATTERN_TRANS = 2"
| "stage_number PLANNING_ONE = 3" | "stage_number PLANNING_TWO = 4" | "stage_number PLANNING_THREE = 5"
| "stage_number PLANNING_FOUR = 6" | "stage_number PLANNING_FIVE = 7" | "stage_number PARSING = 8"
| "stage_number ANALYSING = 9" | "stage_number TRANSFORMING = 10" | "stage_number RENDERING = 11"

record Progress =
  stage :: Stage
  step_number :: int

definition default_progress :: Progress where
  "default_progress = \<lparr>stage = INVALID, step_number = -1\<rparr>"

definition Progress_Compare3Way :: "Progress \<Rightarrow> Progress \<Rightarrow> int" where
  "Progress_Compare3Way l r =
     (let ld = stage_number (stage l) - stage_number (stage r) in
      if ld \<noteq> 0 then ld else step_number l - step_number r)"

section \<open>Objects\<close>

text \<open>A node's serial number. The hook is the block that numbers the tree pointers to the node, by its next
  number.\<close>

record SerialNumber =
  progress :: Progress
  serial :: "64 word"
  hook :: "int option"

text \<open>The number of a tree pointer. The mother block is named by the node it hangs on.\<close>

record SatelliteSerial =
  mother_block :: "nat option"
  satellite :: int

record TreePtrObject =
  pointee :: nat
  satellite_serial :: SatelliteSerial

record world =
  number_cache :: "(Progress \<Rightarrow> 64 word) option"
  cache_refs :: "32 word"
  current :: Progress
  nodes :: "nat \<Rightarrow> SerialNumber option"
  tree_ptrs :: "nat \<Rightarrow> TreePtrObject option"

definition initial_world :: world where
  "initial_world = \<lparr>number_cache = None, cache_refs = 0, current = \<lparr>stage = BUILDING_STEPS, step_number = -1\<rparr>,
     nodes = Map.empty, tree_ptrs = Map.empty\<rparr>"

section \<open>Serial numbers\<close>

text \<open>The constructor at address \<open>a\<close>, also for copies. The counter is looked up while the member \<open>progress\<close> still
  has its default value.\<close>

definition new_SerialNumber :: "nat \<Rightarrow> world \<Rightarrow> world" where
  "new_SerialNumber a w =
     (let counters = (case number_cache w of None \<Rightarrow> (\<lambda>p. 0) | Some c \<Rightarrow> c);
          sr = counters default_progress in
      w\<lparr>number_cache := Some (counters(default_progress := sr + 1)), cache_refs := cache_refs w + 1,
        nodes := (nodes w)(a \<mapsto> \<lparr>progress = current w, serial = sr, hook = None\<rparr>)\<rparr>)"

text \<open>The destructor. It releases the hook, so the block that numbers hold is gone.\<close>

definition release_block :: "nat \<Rightarrow> TreePtrObject \<Rightarrow> TreePtrObject" where
  "release_block a p =
     (if mother_block (satellite_serial p) = Some a
      then p\<lparr>satellite_serial := (satellite_serial p)\<lparr>mother_block := Some 0\<rparr>\<rparr> else p)"

definition delete_SerialNumber :: "nat \<Rightarrow> world \<Rightarrow> world result" where
  "delete_SerialNumber a w =
     guardE (number_cache w \<noteq> None)
      (let refs = cache_refs w - 1 in
       Inr (w\<lparr>number_cache := (if refs = 0 then None else number_cache w), cache_refs := refs, nodes := (nodes w)(a := None),
         tree_ptrs := (\<lambda>t. map_option (release_block a) (tree_ptrs w t))\<rparr>))"

definition SetAsCurrent :: "Progress \<Rightarrow> world \<Rightarrow> world" where
  "SetAsCurrent p w = w\<lparr>current := p\<rparr>"

text \<open>\<^verbatim>\<open>Compare3WayIdentity\<close>: the 64-bit difference is returned as an \<^verbatim>\<open>int\<close>.\<close>

definition SerialNumber_Compare3WayIdentity :: "SerialNumber \<Rightarrow> SerialNumber \<Rightarrow> int" where
  "SerialNumber_Compare3WayIdentity l r =
     (if progress l \<noteq> progress r then Progress_Compare3Way (progress l) (progress r)
      else sint (ucast (serial l - serial r) :: 32 word))"

section \<open>Satellite serial numbers\<close>

definition GetMotherBlock :: "nat \<Rightarrow> world \<Rightarrow> (nat option \<times> world) result" where
  "GetMotherBlock mother w =
     (if mother = 0 then Inr (None, w)
      else case nodes w mother of
        None \<Rightarrow> Inl Undefined
      | Some s \<Rightarrow>
          (case hook s of
             Some k \<Rightarrow> Inr (Some mother, w)
           | None \<Rightarrow> Inr (Some mother, w\<lparr>nodes := (nodes w)(mother \<mapsto> s\<lparr>hook := Some 0\<rparr>)\<rparr>)))"

definition AssignSerial :: "nat \<Rightarrow> world \<Rightarrow> (int \<times> world) result" where
  "AssignSerial block w =
     (case nodes w block of
        None \<Rightarrow> Inl Undefined
      | Some s \<Rightarrow>
          (case hook s of
             None \<Rightarrow> Inl Undefined
           | Some next_serial \<Rightarrow>
               if next_serial = 2 ^ 31 - 1 then Inl Undefined
               else Inr (next_serial, w\<lparr>nodes := (nodes w)(block \<mapsto> s\<lparr>hook := Some (next_serial + 1)\<rparr>)\<rparr>)))"

definition satellite_of_block :: "nat option \<Rightarrow> world \<Rightarrow> (SatelliteSerial \<times> world) result" where
  "satellite_of_block block w =
     (case block of
        None \<Rightarrow> Inr (\<lparr>mother_block = None, satellite = -1\<rparr>, w)
      | Some m \<Rightarrow> bindE (AssignSerial m w) (\<lambda>(k, w). Inr (\<lparr>mother_block = Some m, satellite = k\<rparr>, w)))"

definition new_SatelliteSerial :: "nat \<Rightarrow> world \<Rightarrow> (SatelliteSerial \<times> world) result" where
  "new_SatelliteSerial mother w = bindE (GetMotherBlock mother w) (\<lambda>(block, w). satellite_of_block block w)"

text \<open>The copy constructor and the assignment.\<close>

definition copy_SatelliteSerial :: "SatelliteSerial \<Rightarrow> world \<Rightarrow> (SatelliteSerial \<times> world) result" where
  "copy_SatelliteSerial other w = satellite_of_block (mother_block other) w"

text \<open>A difference of two \<^verbatim>\<open>int\<close>s.\<close>

definition int_minus :: "int \<Rightarrow> int \<Rightarrow> int result" where
  "int_minus x y = (if - (2 ^ 31) \<le> x - y \<and> x - y < 2 ^ 31 then Inr (x - y) else Inl Undefined)"

definition SatelliteSerial_Compare3WayIdentity :: "SatelliteSerial \<Rightarrow> SatelliteSerial \<Rightarrow> int result" where
  "SatelliteSerial_Compare3WayIdentity l r = int_minus (satellite l) (satellite r)"

section \<open>Tree pointers\<close>

definition new_TreePtr :: "nat \<Rightarrow> nat \<Rightarrow> world \<Rightarrow> world result" where
  "new_TreePtr t node w =
     bindE (new_SatelliteSerial node w) (\<lambda>(s, w).
       Inr (w\<lparr>tree_ptrs := (tree_ptrs w)(t \<mapsto> \<lparr>pointee = node, satellite_serial = s\<rparr>)\<rparr>))"

definition copy_TreePtr :: "nat \<Rightarrow> nat \<Rightarrow> world \<Rightarrow> world result" where
  "copy_TreePtr t other w =
     (case tree_ptrs w other of
        None \<Rightarrow> Inl Undefined
      | Some p \<Rightarrow> bindE (copy_SatelliteSerial (satellite_serial p) w) (\<lambda>(s, w).
          Inr (w\<lparr>tree_ptrs := (tree_ptrs w)(t \<mapsto> \<lparr>pointee = pointee p, satellite_serial = s\<rparr>)\<rparr>)))"

text \<open>Assignment of a pointer to a node makes a temporary number and then assigns from it.\<close>

definition assign_TreePtr :: "nat \<Rightarrow> nat \<Rightarrow> world \<Rightarrow> world result" where
  "assign_TreePtr t node w =
     bindE (new_SatelliteSerial node w) (\<lambda>(temporary, w).
     bindE (copy_SatelliteSerial temporary w) (\<lambda>(s, w).
       Inr (w\<lparr>tree_ptrs := (tree_ptrs w)(t \<mapsto> \<lparr>pointee = node, satellite_serial = s\<rparr>)\<rparr>)))"

text \<open>Assignment of \<^verbatim>\<open>nullptr\<close> leaves the number.\<close>

definition assign_null :: "nat \<Rightarrow> world \<Rightarrow> world result" where
  "assign_null t w =
     (case tree_ptrs w t of
        None \<Rightarrow> Inl Undefined
      | Some p \<Rightarrow> Inr (w\<lparr>tree_ptrs := (tree_ptrs w)(t \<mapsto> p\<lparr>pointee := 0\<rparr>)\<rparr>))"

text \<open>The comparison of tree pointers, by the nodes that they hold.\<close>

definition TreePtr_Compare3Way :: "world \<Rightarrow> nat \<Rightarrow> nat \<Rightarrow> int result" where
  "TreePtr_Compare3Way w l r =
     (if l = r then Inr 0
      else if r = 0 then Inr 1
      else if l = 0 then Inr (-1)
      else case (nodes w l, nodes w r) of
        (Some sl, Some sr) \<Rightarrow>
          (let d_ni = SerialNumber_Compare3WayIdentity sl sr in
           if d_ni \<noteq> 0 then Inr d_ni else guardE (l = r) (Inr 0))
      | _ \<Rightarrow> Inl Undefined)"

section \<open>Pattern links\<close>

text \<open>A link is the address of a tree pointer, or null.\<close>

definition PatternLink_Compare3Way :: "world \<Rightarrow> nat \<Rightarrow> nat \<Rightarrow> int result" where
  "PatternLink_Compare3Way w l r =
     (if r = l then Inr 0
      else if r = 0 then Inr 1
      else if l = 0 then Inr (-1)
      else case (tree_ptrs w l, tree_ptrs w r) of
        (Some pl, Some pr) \<Rightarrow>
          bindE (TreePtr_Compare3Way w (pointee pl) (pointee pr)) (\<lambda>d_node.
            if d_node \<noteq> 0 then Inr d_node
            else bindE (SatelliteSerial_Compare3WayIdentity (satellite_serial pl) (satellite_serial pr)) (\<lambda>d_tpi.
              if d_tpi \<noteq> 0 then Inr d_tpi else Inr 0))
      | _ \<Rightarrow> Inl Undefined)"

text \<open>\<^verbatim>\<open>LocatedLink::operator<\<close>: the pattern link first, then the address of the tree pointer of the other link.\<close>

definition LocatedLink_less :: "world \<Rightarrow> nat \<times> nat \<Rightarrow> nat \<times> nat \<Rightarrow> bool result" where
  "LocatedLink_less w l r =
     (if fst l \<noteq> fst r then bindE (PatternLink_Compare3Way w (fst l) (fst r)) (\<lambda>d. Inr (d < 0))
      else Inr (snd l < snd r))"

section \<open>Reachable states\<close>

text \<open>What can happen: nodes and tree pointers come and go, tree pointers are assigned, the progress changes. A node
  lives as long as a tree pointer points to it, which is shared ownership. The number counts the nodes made.\<close>

inductive reach :: "nat \<Rightarrow> world \<Rightarrow> bool" where
  start: "reach 0 initial_world"
| new_node: "reach n w \<Longrightarrow> a \<noteq> 0 \<Longrightarrow> nodes w a = None \<Longrightarrow> reach (Suc n) (new_SerialNumber a w)"
| delete_node: "reach n w \<Longrightarrow> nodes w a \<noteq> None
    \<Longrightarrow> (\<And>t p. tree_ptrs w t = Some p \<Longrightarrow> pointee p \<noteq> a)
    \<Longrightarrow> delete_SerialNumber a w = Inr w' \<Longrightarrow> reach n w'"
| set_current: "reach n w \<Longrightarrow> reach n (SetAsCurrent p w)"
| new_ptr: "reach n w \<Longrightarrow> t \<noteq> 0 \<Longrightarrow> tree_ptrs w t = None \<Longrightarrow> new_TreePtr t node w = Inr w' \<Longrightarrow> reach n w'"
| copy_ptr: "reach n w \<Longrightarrow> t \<noteq> 0 \<Longrightarrow> copy_TreePtr t other w = Inr w' \<Longrightarrow> reach n w'"
| assign_ptr: "reach n w \<Longrightarrow> t \<noteq> 0 \<Longrightarrow> assign_TreePtr t node w = Inr w' \<Longrightarrow> reach n w'"
| assign_null: "reach n w \<Longrightarrow> assign_null t w = Inr w' \<Longrightarrow> reach n w'"
| delete_ptr: "reach n w \<Longrightarrow> reach n (w\<lparr>tree_ptrs := (tree_ptrs w)(t := None)\<rparr>)"

text \<open>All numbers come from one counter and those in use differ.\<close>

definition numbers_ok :: "nat \<Rightarrow> (Progress \<Rightarrow> 64 word) option \<Rightarrow> 32 word \<Rightarrow> (nat \<Rightarrow> 64 word option) \<Rightarrow> bool" where
  "numbers_ok n counters refs number \<longleftrightarrow> finite (dom number) \<and> unat refs = card (dom number) \<and> card (dom number) \<le> n
     \<and> number 0 = None \<and> (counters = None \<longleftrightarrow> number = Map.empty) \<and> inj_on number (dom number)
     \<and> (\<forall>c. counters = Some c \<longrightarrow> unat (c default_progress) \<le> n \<and> (\<forall>p. p \<noteq> default_progress \<longrightarrow> c p = 0)
          \<and> (\<forall>k \<in> ran number. unat k < unat (c default_progress)))"

definition nodes_ok :: "nat \<Rightarrow> world \<Rightarrow> bool" where
  "nodes_ok n w \<longleftrightarrow> numbers_ok n (number_cache w) (cache_refs w) (\<lambda>a. map_option serial (nodes w a))"

text \<open>The numbers of the pointers with one mother differ and are below the next one, as long as it lives.\<close>

definition satellite_below :: "world \<Rightarrow> SatelliteSerial \<Rightarrow> bool" where
  "satellite_below w s \<longleftrightarrow> (\<forall>m. mother_block s = Some m \<and> m \<noteq> 0
     \<longrightarrow> (\<exists>x k. nodes w m = Some x \<and> hook x = Some k \<and> 0 \<le> satellite s \<and> satellite s < k))"

definition ptrs_ok :: "world \<Rightarrow> bool" where
  "ptrs_ok w \<longleftrightarrow> nodes w 0 = None
     \<and> (\<forall>t p. tree_ptrs w t = Some p \<longrightarrow> t \<noteq> 0 \<and> satellite_below w (satellite_serial p)
          \<and> (pointee p \<noteq> 0 \<longrightarrow> mother_block (satellite_serial p) = Some (pointee p)))
     \<and> (\<forall>t u p q m. tree_ptrs w t = Some p \<longrightarrow> tree_ptrs w u = Some q \<longrightarrow> mother_block (satellite_serial p) = Some m
          \<longrightarrow> mother_block (satellite_serial q) = Some m \<longrightarrow> m \<noteq> 0 \<longrightarrow> satellite (satellite_serial p) = satellite (satellite_serial q) \<longrightarrow> t = u)
     \<and> (\<forall>a s k. nodes w a = Some s \<longrightarrow> hook s = Some k \<longrightarrow> 0 \<le> k \<and> k < 2 ^ 31)"

lemma nodes_ok_hook:
  assumes "nodes_ok n w" "nodes w m = Some s"
  shows "nodes_ok n (w\<lparr>nodes := (nodes w)(m \<mapsto> s\<lparr>hook := h\<rparr>)\<rparr>)"
proof -
  have "map_option serial (((nodes w)(m \<mapsto> s\<lparr>hook := h\<rparr>)) a) = map_option serial (nodes w a)" for a
    using assms(2) by simp
  with assms(1) show ?thesis by (simp add: nodes_ok_def)
qed

lemma numbers_ok_new:
  assumes "numbers_ok n counters refs number" "a \<noteq> 0" "number a = None" "Suc n < 2 ^ 31"
    and c: "c = (case counters of None \<Rightarrow> (\<lambda>p. 0) | Some c \<Rightarrow> c)"
  shows "numbers_ok (Suc n) (Some (c(default_progress := c default_progress + 1))) (refs + 1) (number(a \<mapsto> c default_progress))"
proof -
  let ?sr = "c default_progress"
  have ok: "finite (dom number)" "unat refs = card (dom number)" "card (dom number) \<le> n" "number 0 = None" "inj_on number (dom number)"
    using assms(1) by (simp_all add: numbers_ok_def)
  have k: "unat ?sr \<le> n" "\<And>p. p \<noteq> default_progress \<Longrightarrow> c p = 0" "\<And>k. k \<in> ran number \<Longrightarrow> unat k < unat ?sr"
    using assms(1) by (cases counters; simp add: numbers_ok_def c)+
  have up: "unat (?sr + 1) = Suc (unat ?sr)" using k(1) assms(4) by (simp add: unat_word_ariths)
  have refs: "unat (refs + 1) = Suc (unat refs)" using ok(2,3) assms(4) by (simp add: unat_word_ariths)
  have "?sr \<notin> ran number" using k(3) by blast
  then have inj: "inj_on (number(a \<mapsto> ?sr)) (insert a (dom number))"
    using ok(5) assms(3) unfolding inj_on_def by (auto simp: ran_def domIff)
  have "ran (number(a \<mapsto> ?sr)) = insert ?sr (ran number)" using assms(3) by simp
  with ok refs up k inj assms(2,3) show ?thesis
    unfolding numbers_ok_def by (fastforce simp: domIff)
qed

lemma nodes_ok_new:
  assumes "nodes_ok n w" "a \<noteq> 0" "nodes w a = None" "Suc n < 2 ^ 31"
  shows "nodes_ok (Suc n) (new_SerialNumber a w)"
proof -
  define c where "c = (case number_cache w of None \<Rightarrow> (\<lambda>p. 0) | Some c \<Rightarrow> c)"
  have "numbers_ok (Suc n) (Some (c(default_progress := c default_progress + 1))) (cache_refs w + 1)
      ((\<lambda>b. map_option serial (nodes w b))(a \<mapsto> c default_progress))"
    using assms by (intro numbers_ok_new[OF _ _ _ _ c_def]) (simp_all add: nodes_ok_def)
  moreover have "(\<lambda>b. map_option serial (nodes w b))(a \<mapsto> c default_progress)
      = (\<lambda>b. map_option serial (((nodes w)(a \<mapsto> \<lparr>progress = current w, serial = c default_progress, hook = None\<rparr>)) b))"
    by (intro ext) simp
  ultimately show ?thesis
    by (simp add: nodes_ok_def new_SerialNumber_def Let_def c_def[symmetric])
qed

lemma nodes_ok_delete:
  assumes "nodes_ok n w" "nodes w a \<noteq> None"
  shows "\<exists>w'. delete_SerialNumber a w = Inr w' \<and> nodes_ok n w'"
proof -
  let ?number = "\<lambda>b. map_option serial (nodes w b)"
  have ok: "finite (dom ?number)" "unat (cache_refs w) = card (dom ?number)" "card (dom ?number) \<le> n" "nodes w 0 = None"
      "inj_on ?number (dom ?number)" "number_cache w = None \<longleftrightarrow> ?number = Map.empty"
    using assms(1) by (simp_all add: nodes_ok_def numbers_ok_def)
  have a: "a \<in> dom ?number" using assms(2) by auto
  then have "?number \<noteq> Map.empty" by (metis dom_empty empty_iff)
  then have "number_cache w \<noteq> None" by (simp only: ok(6) not_False_eq_True)
  then obtain c where c: "number_cache w = Some c" by auto
  have k: "unat (c default_progress) \<le> n" "\<forall>p. p \<noteq> default_progress \<longrightarrow> c p = 0" "\<forall>k \<in> ran ?number. unat k < unat (c default_progress)"
    using assms(1) c by (simp_all add: nodes_ok_def numbers_ok_def)
  have card: "card (dom ?number - {a}) = card (dom ?number) - 1" "card (dom ?number) > 0"
    by (rule card_Diff_singleton[OF a], metis a ok(1) card_gt_0_iff empty_iff)
  then have "cache_refs w \<noteq> 0" using ok(2) by auto
  then have refs: "unat (cache_refs w - 1) = unat (cache_refs w) - 1" by (simp add: unat_minus_one)
  have dom: "dom (?number(a := None)) = dom ?number - {a}" by simp
  have inj: "inj_on (?number(a := None)) (dom ?number - {a})"
    using ok(5) by (auto simp: inj_on_def)
  have sub: "ran (?number(a := None)) \<subseteq> ran ?number" by (auto simp: ran_def)
  have zero: "cache_refs w - 1 = 0 \<longleftrightarrow> ?number(a := None) = Map.empty"
  proof -
    have "cache_refs w - 1 = 0 \<longleftrightarrow> card (dom ?number - {a}) = 0"
      using refs ok(2) card by (metis unat_eq_zero)
    also have "\<dots> \<longleftrightarrow> dom (?number(a := None)) = {}" using ok(1) dom by (simp del: dom_fun_upd)
    finally show ?thesis by (simp only: dom_eq_empty_conv)
  qed
  have "numbers_ok n (if cache_refs w - 1 = 0 then None else Some c) (cache_refs w - 1) (?number(a := None))"
    unfolding numbers_ok_def dom using ok(1-4) card refs zero inj k sub by auto
  moreover have "?number(a := None) = (\<lambda>b. map_option serial (((nodes w)(a := None)) b))" by (intro ext) simp
  ultimately show ?thesis
    by (cases "cache_refs w = 1") (simp_all add: delete_SerialNumber_def nodes_ok_def c Let_def)
qed

section \<open>Tree pointers in reachable states\<close>

text \<open>A number just assigned: no live pointer of the same mother has it.\<close>

definition unused :: "world \<Rightarrow> SatelliteSerial \<Rightarrow> bool" where
  "unused w s \<longleftrightarrow> (\<forall>t p m. tree_ptrs w t = Some p \<longrightarrow> mother_block s = Some m \<longrightarrow> mother_block (satellite_serial p) = Some m
     \<longrightarrow> satellite (satellite_serial p) < satellite s)"

definition same_objects :: "world \<Rightarrow> world \<Rightarrow> bool" where
  "same_objects w w' \<longleftrightarrow> tree_ptrs w' = tree_ptrs w \<and> (\<forall>n. nodes_ok n w \<longrightarrow> nodes_ok n w')"

lemma same_objects_hook: "nodes w m = Some s \<Longrightarrow> same_objects w (w\<lparr>nodes := (nodes w)(m \<mapsto> s\<lparr>hook := h\<rparr>)\<rparr>)"
  by (simp add: same_objects_def nodes_ok_hook)

lemma same_objects_trans: "same_objects w w' \<Longrightarrow> same_objects w' w'' \<Longrightarrow> same_objects w w''"
  by (simp add: same_objects_def)

lemma ptrs_ok_raise:
  assumes "ptrs_ok w" "nodes w m = Some s" "case hook s of None \<Rightarrow> 0 \<le> k | Some j \<Rightarrow> j \<le> k" "k < 2 ^ 31"
  shows "ptrs_ok (w\<lparr>nodes := (nodes w)(m \<mapsto> s\<lparr>hook := Some k\<rparr>)\<rparr>)"
proof -
  let ?w = "w\<lparr>nodes := (nodes w)(m \<mapsto> s\<lparr>hook := Some k\<rparr>)\<rparr>"
  note ok = assms(1)[unfolded ptrs_ok_def]
  have "m \<noteq> 0" using ok assms(2) by (metis option.distinct(1))
  have below: "satellite_below ?w x" if "satellite_below w x" for x
    unfolding satellite_below_def
  proof (intro allI impI)
    fix n assume "mother_block x = Some n \<and> n \<noteq> 0"
    then obtain y j where y: "nodes w n = Some y" "hook y = Some j" "0 \<le> satellite x" "satellite x < j"
      using \<open>satellite_below w x\<close> unfolding satellite_below_def by blast
    show "\<exists>y j. nodes ?w n = Some y \<and> hook y = Some j \<and> 0 \<le> satellite x \<and> satellite x < j"
      using y assms(2,3) by (cases "n = m") auto
  qed
  have "0 \<le> j \<and> j < 2 ^ 31" if "nodes ?w a = Some y" "hook y = Some j" for a y j
  proof (cases "a = m")
    case True
    with that have "j = k" by auto
    moreover have "0 \<le> i" if "hook s = Some i" for i using ok assms(2) that by blast
    ultimately show ?thesis using assms(3,4) by (cases "hook s") force+
  next
    case False
    with that ok show ?thesis by auto
  qed
  with ok below \<open>m \<noteq> 0\<close> show ?thesis unfolding ptrs_ok_def by simp
qed

lemma GetMotherBlock_ok:
  assumes "ptrs_ok w" "GetMotherBlock mother w = Inr (b, w')"
  shows "ptrs_ok w' \<and> same_objects w w' \<and> b = (if mother = 0 then None else Some mother)"
  using assms ptrs_ok_raise[OF assms(1)] same_objects_hook[of w mother]
  by (auto simp: GetMotherBlock_def same_objects_def split: if_splits option.splits)

lemma AssignSerial_ok:
  assumes "ptrs_ok w" "AssignSerial m w = Inr (k, w')"
  shows "ptrs_ok w' \<and> same_objects w w' \<and> satellite_below w' \<lparr>mother_block = Some m, satellite = k\<rparr>
    \<and> unused w \<lparr>mother_block = Some m, satellite = k\<rparr>"
proof -
  obtain s where s: "nodes w m = Some s" "hook s = Some k" "w' = w\<lparr>nodes := (nodes w)(m \<mapsto> s\<lparr>hook := Some (k + 1)\<rparr>)\<rparr>"
    using assms(2) by (auto simp: AssignSerial_def split: option.splits if_splits)
  have k: "0 \<le> k" "k < 2 ^ 31" using assms(1) s(1,2) unfolding ptrs_ok_def by blast+
  moreover have "k \<noteq> 2 ^ 31 - 1" using assms(2) s(1,2) by (auto simp: AssignSerial_def)
  ultimately have "k + 1 < 2 ^ 31" by linarith
  moreover have "m \<noteq> 0" using assms(1) s(1) unfolding ptrs_ok_def by (metis option.distinct(1))
  moreover have "satellite (satellite_serial p) < k"
    if "tree_ptrs w t = Some p" "mother_block (satellite_serial p) = Some m" "m \<noteq> 0" for t p
  proof -
    have "satellite_below w (satellite_serial p)" using assms(1) that(1) by (auto simp: ptrs_ok_def)
    with that(2,3) s(1,2) show ?thesis by (auto simp: satellite_below_def)
  qed
  ultimately show ?thesis
    using ptrs_ok_raise[OF assms(1) s(1), of "k + 1"] same_objects_hook[OF s(1)] s k(1) by (auto simp: satellite_below_def unused_def)
qed

lemma satellite_of_block_ok:
  assumes "ptrs_ok w" "satellite_of_block b w = Inr (s, w')"
  shows "ptrs_ok w' \<and> same_objects w w' \<and> satellite_below w' s \<and> unused w s \<and> mother_block s = b"
  using assms AssignSerial_ok[OF assms(1)]
  by (cases b) (auto simp: satellite_of_block_def satellite_below_def unused_def same_objects_def)

lemma new_SatelliteSerial_ok:
  assumes "ptrs_ok w" "new_SatelliteSerial node w = Inr (s, w')"
  shows "ptrs_ok w' \<and> same_objects w w' \<and> satellite_below w' s \<and> unused w s
    \<and> mother_block s = (if node = 0 then None else Some node)"
proof -
  obtain b w1 where b: "GetMotherBlock node w = Inr (b, w1)" "satellite_of_block b w1 = Inr (s, w')"
    using assms(2) by (auto simp: new_SatelliteSerial_def)
  have g: "ptrs_ok w1" "same_objects w w1" "b = (if node = 0 then None else Some node)"
    using GetMotherBlock_ok[OF assms(1) b(1)] by simp_all
  then have "unused w1 s \<longleftrightarrow> unused w s" by (simp add: unused_def same_objects_def)
  with satellite_of_block_ok[OF g(1) b(2)] g(2,3) same_objects_trans[OF g(2)] show ?thesis by auto
qed

text \<open>A pointer with an unused number.\<close>

lemma ptrs_ok_put:
  assumes "ptrs_ok w" "t \<noteq> 0" "satellite_below w s" "unused w s" "node \<noteq> 0 \<longrightarrow> mother_block s = Some node"
  shows "ptrs_ok (w\<lparr>tree_ptrs := (tree_ptrs w)(t \<mapsto> \<lparr>pointee = node, satellite_serial = s\<rparr>)\<rparr>)"
proof -
  let ?p = "(tree_ptrs w)(t \<mapsto> \<lparr>pointee = node, satellite_serial = s\<rparr>)"
  have old: "satellite (satellite_serial q) < satellite s"
    if "tree_ptrs w b = Some q" "mother_block s = Some m" "mother_block (satellite_serial q) = Some m" for b q m
    using assms(4) that unfolding unused_def by blast
  have "a = b" if p: "?p a = Some p" "?p b = Some q" and m: "mother_block (satellite_serial p) = Some m"
      "mother_block (satellite_serial q) = Some m" "m \<noteq> 0" and eq: "satellite (satellite_serial p) = satellite (satellite_serial q)" for a b p q m
  proof (cases "a = t")
    case True
    then have "satellite_serial p = s" using p(1) by auto
    then have "b = t" using old[of b q m] p(2) m eq by (cases "b = t") auto
    with True show ?thesis by simp
  next
    case False
    then have a: "tree_ptrs w a = Some p" using p(1) by simp
    have "b \<noteq> t"
    proof
      assume "b = t"
      then have "satellite_serial q = s" using p(2) by auto
      with old[OF a, of m] m eq show False by simp
    qed
    then have "tree_ptrs w b = Some q" using p(2) by simp
    with a m eq show ?thesis using assms(1) unfolding ptrs_ok_def by blast
  qed
  then have apart: "\<forall>a b p q m. ?p a = Some p \<longrightarrow> ?p b = Some q \<longrightarrow> mother_block (satellite_serial p) = Some m
      \<longrightarrow> mother_block (satellite_serial q) = Some m \<longrightarrow> m \<noteq> 0 \<longrightarrow> satellite (satellite_serial p) = satellite (satellite_serial q) \<longrightarrow> a = b"
    by blast
  have "satellite_below (w\<lparr>tree_ptrs := ?p\<rparr>) = satellite_below w" by (intro ext) (simp add: satellite_below_def)
  moreover have "a \<noteq> 0 \<and> satellite_below w (satellite_serial p) \<and> (pointee p \<noteq> 0 \<longrightarrow> mother_block (satellite_serial p) = Some (pointee p))"
    if "?p a = Some p" for a p
  proof (cases "a = t")
    case True
    then have "p = \<lparr>pointee = node, satellite_serial = s\<rparr>" using that by simp
    with True assms(2,3,5) show ?thesis by simp
  next
    case False
    then have "tree_ptrs w a = Some p" using that by simp
    with assms(1) show ?thesis unfolding ptrs_ok_def by blast
  qed
  moreover have "nodes w 0 = None" "\<forall>a s k. nodes w a = Some s \<longrightarrow> hook s = Some k \<longrightarrow> 0 \<le> k \<and> k < 2 ^ 31"
    using assms(1) unfolding ptrs_ok_def by blast+
  moreover have "nodes (w\<lparr>tree_ptrs := ?p\<rparr>) = nodes w" "tree_ptrs (w\<lparr>tree_ptrs := ?p\<rparr>) = ?p" by simp_all
  ultimately show ?thesis using apart unfolding ptrs_ok_def by presburger
qed

lemma ptrs_ok_shrink:
  assumes "ptrs_ok w"
    and "\<And>t p. tree_ptrs w' t = Some p \<Longrightarrow> \<exists>q. tree_ptrs w t = Some q
           \<and> (satellite_serial q = satellite_serial p \<or> mother_block (satellite_serial p) = Some 0)
           \<and> (pointee p = 0 \<or> pointee p = pointee q \<and> satellite_serial q = satellite_serial p)"
    and "\<And>a s. nodes w' a = Some s \<Longrightarrow> hook s = None \<or> nodes w a = Some s" "nodes w' 0 = None"
    and "\<And>t p m s. tree_ptrs w' t = Some p \<Longrightarrow> mother_block (satellite_serial p) = Some m \<Longrightarrow> nodes w m = Some s \<Longrightarrow> nodes w' m = Some s"
  shows "ptrs_ok w'"
proof -
  note ok = assms(1)[unfolded ptrs_ok_def]
  have "t \<noteq> 0 \<and> satellite_below w' (satellite_serial p) \<and> (pointee p \<noteq> 0 \<longrightarrow> mother_block (satellite_serial p) = Some (pointee p))"
    if p: "tree_ptrs w' t = Some p" for t p
  proof -
    obtain q where q: "tree_ptrs w t = Some q" "satellite_serial q = satellite_serial p \<or> mother_block (satellite_serial p) = Some 0"
        "pointee p = 0 \<or> pointee p = pointee q \<and> satellite_serial q = satellite_serial p"
      using assms(2)[OF p] by blast
    have old: "t \<noteq> 0" "satellite_below w (satellite_serial q)" "pointee q \<noteq> 0 \<longrightarrow> mother_block (satellite_serial q) = Some (pointee q)"
      using ok q(1) by blast+
    have "satellite_below w' (satellite_serial p)" using q(2)
    proof
      assume same: "satellite_serial q = satellite_serial p"
      show ?thesis using old(2) assms(5)[OF p] unfolding satellite_below_def same by blast
    qed (simp add: satellite_below_def)
    with old q(3) show ?thesis by auto
  qed
  moreover have "t = u" if tu: "tree_ptrs w' t = Some p" "tree_ptrs w' u = Some q" "mother_block (satellite_serial p) = Some m"
    "mother_block (satellite_serial q) = Some m" "m \<noteq> 0" "satellite (satellite_serial p) = satellite (satellite_serial q)" for t u p q m
  proof -
    obtain p' q' where "tree_ptrs w t = Some p'" "satellite_serial p' = satellite_serial p"
        "tree_ptrs w u = Some q'" "satellite_serial q' = satellite_serial q"
      using assms(2)[OF tu(1)] assms(2)[OF tu(2)] tu(3-5) by auto
    with tu(3-6) ok show ?thesis by metis
  qed
  moreover have "0 \<le> k \<and> k < 2 ^ 31" if "nodes w' a = Some s" "hook s = Some k" for a s k
    using assms(3)[OF that(1)] that ok by auto
  ultimately show ?thesis using assms(4) unfolding ptrs_ok_def by blast
qed

lemma ptrs_ok_new_node:
  assumes "ptrs_ok w" "a \<noteq> 0" "nodes w a = None"
  shows "ptrs_ok (new_SerialNumber a w)"
  using assms(1)
proof (rule ptrs_ok_shrink)
  show "nodes (new_SerialNumber a w) 0 = None" using assms by (auto simp: new_SerialNumber_def Let_def ptrs_ok_def)
qed (use assms(2,3) in \<open>auto simp: new_SerialNumber_def Let_def split: if_splits\<close>)

lemma ptrs_ok_delete_node:
  assumes "ptrs_ok w" "\<And>t p. tree_ptrs w t = Some p \<Longrightarrow> pointee p \<noteq> a" "nodes w a \<noteq> None"
    "delete_SerialNumber a w = Inr w'"
  shows "ptrs_ok w'"
  using assms(1)
proof (rule ptrs_ok_shrink)
  have w': "nodes w' = (nodes w)(a := None)" "tree_ptrs w' = (\<lambda>t. map_option (release_block a) (tree_ptrs w t))"
    using assms(4) by (auto simp: delete_SerialNumber_def guardE_def Let_def split: if_splits)
  have a: "a \<noteq> 0" and zero: "nodes w 0 = None" using assms(1,3) unfolding ptrs_ok_def by metis+
  show "nodes w' 0 = None" using zero w' by simp
  show "hook s = None \<or> nodes w b = Some s" if "nodes w' b = Some s" for b s using that w' by (auto split: if_splits)
  fix t p assume "tree_ptrs w' t = Some p"
  then obtain q where q: "tree_ptrs w t = Some q" "p = release_block a q" using w' by auto
  then have "pointee q \<noteq> 0 \<longrightarrow> mother_block (satellite_serial q) = Some (pointee q)" "pointee q \<noteq> a"
    using assms(1,2) unfolding ptrs_ok_def by blast+
  with q show "\<exists>q. tree_ptrs w t = Some q
      \<and> (satellite_serial q = satellite_serial p \<or> mother_block (satellite_serial p) = Some 0)
      \<and> (pointee p = 0 \<or> pointee p = pointee q \<and> satellite_serial q = satellite_serial p)"
    by (auto simp: release_block_def)
  fix m s assume "mother_block (satellite_serial p) = Some m" "nodes w m = Some s"
  moreover from this have "m \<noteq> a" using q zero a by (auto simp: release_block_def split: if_splits)
  ultimately show "nodes w' m = Some s" using w' by simp
qed

lemma same_put: "nodes_ok n w \<Longrightarrow> nodes_ok n (w\<lparr>tree_ptrs := p\<rparr>)"
  by (simp add: nodes_ok_def)

lemma unused_same: "tree_ptrs w' = tree_ptrs w \<Longrightarrow> unused w' s = unused w s"
  by (simp add: unused_def)

lemma new_ptr_ok:
  assumes "nodes_ok n w" "ptrs_ok w" "t \<noteq> 0" "new_TreePtr t node w = Inr w'"
  shows "nodes_ok n w' \<and> ptrs_ok w'"
proof -
  obtain s w1 where s: "new_SatelliteSerial node w = Inr (s, w1)"
      "w' = w1\<lparr>tree_ptrs := (tree_ptrs w1)(t \<mapsto> \<lparr>pointee = node, satellite_serial = s\<rparr>)\<rparr>"
    using assms(4) by (auto simp: new_TreePtr_def)
  have ok: "ptrs_ok w1" "same_objects w w1" "satellite_below w1 s" "unused w s" "mother_block s = (if node = 0 then None else Some node)"
    using new_SatelliteSerial_ok[OF assms(2) s(1)] by simp_all
  then have "unused w1 s" "nodes_ok n w1" using assms(1) unused_same[of w1 w s] by (simp_all add: same_objects_def)
  then show ?thesis
    unfolding s(2) by (intro conjI same_put ptrs_ok_put ok(1,3) assms(3)) (simp_all add: ok(5))
qed

lemma assign_ptr_ok:
  assumes "nodes_ok n w" "ptrs_ok w" "t \<noteq> 0" "assign_TreePtr t node w = Inr w'"
  shows "nodes_ok n w' \<and> ptrs_ok w'"
proof -
  obtain x w1 s w2 where s: "new_SatelliteSerial node w = Inr (x, w1)" "satellite_of_block (mother_block x) w1 = Inr (s, w2)"
      "w' = w2\<lparr>tree_ptrs := (tree_ptrs w2)(t \<mapsto> \<lparr>pointee = node, satellite_serial = s\<rparr>)\<rparr>"
    using assms(4) by (auto simp: assign_TreePtr_def copy_SatelliteSerial_def)
  have x: "ptrs_ok w1" "same_objects w w1" "mother_block x = (if node = 0 then None else Some node)"
    using new_SatelliteSerial_ok[OF assms(2) s(1)] by simp_all
  have ok: "ptrs_ok w2" "same_objects w1 w2" "satellite_below w2 s" "unused w1 s" "mother_block s = mother_block x"
    using satellite_of_block_ok[OF x(1) s(2)] by simp_all
  then have "unused w2 s" "nodes_ok n w2" using assms(1) x(2) unused_same[of w2 w1 s] by (simp_all add: same_objects_def)
  then show ?thesis
    unfolding s(3) by (intro conjI same_put ptrs_ok_put ok(1,3) assms(3)) (simp_all add: ok(5) x(3))
qed

lemma copy_ptr_ok:
  assumes "nodes_ok n w" "ptrs_ok w" "t \<noteq> 0" "copy_TreePtr t other w = Inr w'"
  shows "nodes_ok n w' \<and> ptrs_ok w'"
proof -
  obtain p s w1 where s: "tree_ptrs w other = Some p" "satellite_of_block (mother_block (satellite_serial p)) w = Inr (s, w1)"
      "w' = w1\<lparr>tree_ptrs := (tree_ptrs w1)(t \<mapsto> \<lparr>pointee = pointee p, satellite_serial = s\<rparr>)\<rparr>"
    using assms(4) by (auto simp: copy_TreePtr_def copy_SatelliteSerial_def split: option.splits)
  have ok: "ptrs_ok w1" "same_objects w w1" "satellite_below w1 s" "unused w s" "mother_block s = mother_block (satellite_serial p)"
    using satellite_of_block_ok[OF assms(2) s(2)] by simp_all
  then have "unused w1 s" "nodes_ok n w1" using assms(1) unused_same[of w1 w s] by (simp_all add: same_objects_def)
  moreover have "pointee p \<noteq> 0 \<longrightarrow> mother_block s = Some (pointee p)"
    using assms(2) s(1) ok(5) unfolding ptrs_ok_def by metis
  ultimately show ?thesis
    unfolding s(3) by (intro conjI same_put ptrs_ok_put ok(1,3) assms(3))
qed

lemma reach_ok: "reach n w \<Longrightarrow> n < 2 ^ 31 \<Longrightarrow> nodes_ok n w \<and> ptrs_ok w"
proof (induction rule: reach.induct)
  case start
  show ?case by (simp add: initial_world_def nodes_ok_def numbers_ok_def ptrs_ok_def)
next
  case (new_node n w a)
  then show ?case using nodes_ok_new[of n w a] ptrs_ok_new_node[of w a] by simp
next
  case (delete_node n w a w')
  then show ?case using nodes_ok_delete[of n w a] ptrs_ok_delete_node[of w a w'] by auto
next
  case (set_current n w p)
  then show ?case by (simp add: SetAsCurrent_def nodes_ok_def ptrs_ok_def satellite_below_def)
next
  case (new_ptr n w t node w')
  then show ?case using new_ptr_ok by blast
next
  case (copy_ptr n w t other w')
  then show ?case using copy_ptr_ok by blast
next
  case (assign_ptr n w t node w')
  then show ?case using assign_ptr_ok by blast
next
  case (assign_null n w t w')
  then obtain p where p: "tree_ptrs w t = Some p" "w' = w\<lparr>tree_ptrs := (tree_ptrs w)(t \<mapsto> p\<lparr>pointee := 0\<rparr>)\<rparr>"
    by (auto simp: assign_null_def split: option.splits)
  have "ptrs_ok w'"
    by (rule ptrs_ok_shrink[of w]) (use assign_null p in \<open>auto simp: ptrs_ok_def split: if_splits\<close>)
  with assign_null p(2) same_put show ?case by auto
next
  case (delete_ptr n w t)
  have "ptrs_ok (w\<lparr>tree_ptrs := (tree_ptrs w)(t := None)\<rparr>)"
    by (rule ptrs_ok_shrink[of w]) (use delete_ptr in \<open>auto simp: ptrs_ok_def split: if_splits\<close>)
  with delete_ptr same_put show ?case by auto
qed

section \<open>Orders\<close>

lemma stage_number_eq [simp]: "stage_number s = stage_number t \<longleftrightarrow> s = t"
  by (cases s; cases t) simp_all

lemma Progress_Compare_then_by:
  "Progress_Compare3Way l r = then_by (\<lambda>s t. stage_number s - stage_number t) (-) (stage l, step_number l) (stage r, step_number r)"
  by (simp add: Progress_Compare3Way_def then_by_def)

lemma Progress_three_way: "three_way Progress_Compare3Way"
  unfolding Progress_Compare_then_by[abs_def]
  by (rule three_way_key[OF three_way_then_by[OF three_way_diff[of stage_number] three_way_diff[of "\<lambda>x. x"]], of "\<lambda>p. (stage p, step_number p)"])

lemma Progress_Compare_zero: "Progress_Compare3Way l r = 0 \<longleftrightarrow> l = r"
  by (auto simp: Progress_Compare3Way_def Let_def)

text \<open>The difference of two counters as narrowed.\<close>

lemma narrowed_difference:
  fixes x y :: "64 word"
  shows "sint (ucast (x - y) :: 32 word) = (uint x - uint y + 2 ^ 31) mod 2 ^ 32 - 2 ^ 31"
proof -
  have "(ucast (x - y) :: 32 word) = word_of_int (uint x - uint y)"
    unfolding word_sub_wi[of x y] by (rule ucast_down_wi) (simp add: is_down)
  then have "sint (ucast (x - y) :: 32 word) = sint (word_of_int (uint x - uint y) :: 32 word)" by (rule arg_cong)
  also have "\<dots> = signed_take_bit 31 (uint x - uint y)" unfolding sint_sbintrunc' by simp
  also have "\<dots> = take_bit (Suc 31) (uint x - uint y + 2 ^ 31) - 2 ^ 31"
    by (rule signed_take_bit_eq_take_bit_shift)
  finally show ?thesis by (simp add: take_bit_eq_mod)
qed

lemma mod_between: "0 \<le> k \<Longrightarrow> k < n \<Longrightarrow> k mod n = (k :: int)" "n \<le> k \<Longrightarrow> k < 2 * n \<Longrightarrow> k mod n = k - n"
proof -
  show "0 \<le> k \<Longrightarrow> k < n \<Longrightarrow> k mod n = k" by (rule mod_pos_pos_trivial)
  assume "n \<le> k" "k < 2 * n"
  then have "(k - n) mod n = k - n" by (intro mod_pos_pos_trivial) linarith+
  then show "k mod n = k - n" by simp
qed

text \<open>Narrowing the difference of small counters keeps it.\<close>

lemma narrow_difference:
  fixes x y :: "64 word"
  assumes "unat x < 2 ^ 31" "unat y < 2 ^ 31"
  shows "sint (ucast (x - y) :: 32 word) = int (unat x) - int (unat y)"
proof -
  have u: "uint x = int (unat x)" "uint y = int (unat y)" by simp_all
  have "int (unat x) < 2 ^ 31" "int (unat y) < 2 ^ 31"
    using assms by (metis of_nat_less_iff of_nat_numeral of_nat_power)+
  moreover have "(2 :: int) ^ 32 = 2 ^ 31 + 2 ^ 31" by simp
  ultimately have "0 \<le> int (unat x) - int (unat y) + 2 ^ 31" "int (unat x) - int (unat y) + 2 ^ 31 < 2 ^ 32" by linarith+
  from mod_between(1)[OF this] show ?thesis unfolding narrowed_difference u by simp
qed

text \<open>The keys by which nodes are ordered: progress, then number.\<close>

definition serial_compare :: "SerialNumber \<Rightarrow> SerialNumber \<Rightarrow> int" where
  "serial_compare s t = then_by Progress_Compare3Way (\<lambda>x y. int (unat x) - int (unat y)) (progress s, serial s) (progress t, serial t)"

lemma serial_three_way: "three_way serial_compare"
  unfolding serial_compare_def[abs_def]
  by (rule three_way_key[OF three_way_then_by[OF Progress_three_way three_way_diff[of "\<lambda>x. int (unat x)"]], of "\<lambda>s. (progress s, serial s)"])

lemma live_serial_small:
  assumes "nodes_ok n w" "n < 2 ^ 31" "nodes w a = Some s"
  shows "unat (serial s) < 2 ^ 31"
proof -
  have "map_option serial (nodes w a) = Some (serial s)" using assms(3) by simp
  then have r: "serial s \<in> ran (\<lambda>a. map_option serial (nodes w a))" by (rule ranI)
  have "(\<lambda>a. map_option serial (nodes w a)) \<noteq> Map.empty" using assms(3) by (metis option.map_disc_iff option.distinct(1))
  then obtain c where "number_cache w = Some c" using assms(1) by (auto simp: nodes_ok_def numbers_ok_def)
  then have "unat (c default_progress) \<le> n" "unat (serial s) < unat (c default_progress)"
    using assms(1) r by (auto simp: nodes_ok_def numbers_ok_def)
  with assms(2) show ?thesis by simp
qed

lemma identity_compare:
  assumes "nodes_ok n w" "n < 2 ^ 31" "nodes w a = Some s" "nodes w b = Some t"
  shows "SerialNumber_Compare3WayIdentity s t = serial_compare s t" "serial_compare s t = 0 \<longleftrightarrow> a = b"
proof -
  show "SerialNumber_Compare3WayIdentity s t = serial_compare s t"
    using narrow_difference[OF live_serial_small[OF assms(1-3)] live_serial_small[OF assms(1,2,4)]]
    by (simp add: SerialNumber_Compare3WayIdentity_def serial_compare_def then_by_def Let_def Progress_Compare_zero)
  have inj: "inj_on (\<lambda>a. map_option serial (nodes w a)) (dom (\<lambda>a. map_option serial (nodes w a)))"
    using assms(1) by (simp add: nodes_ok_def numbers_ok_def)
  have "a = b" if "serial s = serial t"
    using inj_onD[OF inj, of a b] assms(3,4) that by auto
  moreover have "serial s = serial t" if "serial_compare s t = 0"
    using that by (auto simp: serial_compare_def then_by_def Let_def word_uint_eq_iff split: if_splits)
  moreover have "serial_compare s t = 0" if "a = b"
    using that assms(3,4) three_wayD(1)[OF serial_three_way] by simp
  ultimately show "serial_compare s t = 0 \<longleftrightarrow> a = b" by blast
qed

text \<open>Links to live tree pointers that point to a node, and null.\<close>

definition live_link :: "world \<Rightarrow> nat \<Rightarrow> bool" where
  "live_link w l \<longleftrightarrow> (l = 0 \<or> (\<exists>p. tree_ptrs w l = Some p \<and> pointee p \<noteq> 0))"

definition link_key :: "world \<Rightarrow> nat \<Rightarrow> int \<times> SerialNumber \<times> int" where
  "link_key w l = (if l = 0 then (0, undefined, 0)
     else let p = the (tree_ptrs w l) in (1, the (nodes w (pointee p)), satellite (satellite_serial p)))"

definition link_compare :: "world \<Rightarrow> nat \<Rightarrow> nat \<Rightarrow> int" where
  "link_compare w l r = then_by (-) (then_by serial_compare (-)) (link_key w l) (link_key w r)"

lemma link_three_way: "three_way (link_compare w)"
  unfolding link_compare_def[abs_def]
  by (rule three_way_key[OF three_way_then_by[OF three_way_diff[of "\<lambda>x. x"]
        three_way_then_by[OF serial_three_way three_way_diff[of "\<lambda>x. x"]]], of "link_key w"])

lemma PatternLink_compare:
  assumes ok: "nodes_ok n w" "ptrs_ok w" and n: "n < 2 ^ 31" and live: "live_link w l" "live_link w r"
  shows "\<exists>d. PatternLink_Compare3Way w l r = Inr d \<and> sgn d = sgn (link_compare w l r) \<and> (d = 0 \<longleftrightarrow> l = r)"
proof -
  consider "l = r" | "l \<noteq> r" "r = 0" | "l \<noteq> r" "l = 0" | "l \<noteq> r" "l \<noteq> 0" "r \<noteq> 0" by metis
  then show ?thesis
  proof cases
    case 1
    then show ?thesis using three_wayD(1)[OF link_three_way] by (simp add: PatternLink_Compare3Way_def)
  next
    case 2
    then show ?thesis by (simp add: PatternLink_Compare3Way_def link_compare_def then_by_def link_key_def Let_def)
  next
    case 3
    then show ?thesis by (simp add: PatternLink_Compare3Way_def link_compare_def then_by_def link_key_def Let_def)
  next
    case 4
    obtain p q where p: "tree_ptrs w l = Some p" "pointee p \<noteq> 0" and q: "tree_ptrs w r = Some q" "pointee q \<noteq> 0"
      using live 4 by (auto simp: live_link_def)
    have mp: "mother_block (satellite_serial p) = Some (pointee p)" "satellite_below w (satellite_serial p)"
      and mq: "mother_block (satellite_serial q) = Some (pointee q)" "satellite_below w (satellite_serial q)"
      using ok(2) p q unfolding ptrs_ok_def by blast+
    obtain s k where s: "nodes w (pointee p) = Some s" "hook s = Some k" "0 \<le> satellite (satellite_serial p)" "satellite (satellite_serial p) < k"
      using mp p(2) unfolding satellite_below_def by blast
    obtain t j where t: "nodes w (pointee q) = Some t" "hook t = Some j" "0 \<le> satellite (satellite_serial q)" "satellite (satellite_serial q) < j"
      using mq q(2) unfolding satellite_below_def by blast
    have "k < 2 ^ 31" "j < 2 ^ 31" using ok(2) s(1,2) t(1,2) unfolding ptrs_ok_def by blast+
    with s(3,4) t(3,4) have sat: "SatelliteSerial_Compare3WayIdentity (satellite_serial p) (satellite_serial q)
        = Inr (satellite (satellite_serial p) - satellite (satellite_serial q))"
      by (simp add: SatelliteSerial_Compare3WayIdentity_def int_minus_def)
    note id = identity_compare[OF ok(1) n s(1) t(1)]
    show ?thesis
    proof (cases "pointee p = pointee q")
      case True
      then have "satellite (satellite_serial p) \<noteq> satellite (satellite_serial q)"
        using ok(2) p q(1) mp(1) mq(1) 4(1) unfolding ptrs_ok_def by metis
      moreover have "s = t" "serial_compare s t = 0" using True s(1) t(1) id(2) by simp_all
      ultimately show ?thesis
        using 4 p q s(1) t(1) True sat
        by (simp add: PatternLink_Compare3Way_def TreePtr_Compare3Way_def link_compare_def then_by_def link_key_def Let_def)
    next
      case False
      then have "serial_compare s t \<noteq> 0" using id(2) by simp
      then show ?thesis
        using 4 p q s(1) t(1) False id(1)
        by (simp add: PatternLink_Compare3Way_def TreePtr_Compare3Way_def link_compare_def then_by_def link_key_def Let_def)
    qed
  qed
qed

section \<open>Properties\<close>

text \<open>In every state that the operations reach with fewer than \<open>2 ^ 31\<close> constructions, the identity
  comparison orders the live nodes totally: by progress, then by number, and only a node itself compares equal to it.\<close>

theorem identity_orders_nodes:
  assumes "reach n w" "n < 2 ^ 31"
  shows "\<exists>c. three_way c \<and> (\<forall>a b s t. nodes w a = Some s \<and> nodes w b = Some t
    \<longrightarrow> SerialNumber_Compare3WayIdentity s t = c s t \<and> (c s t = 0 \<longleftrightarrow> a = b))"
proof -
  have "nodes_ok n w" using reach_ok[OF assms] by simp
  then show ?thesis using identity_compare[of n w] assms(2) serial_three_way by blast
qed

text \<open>C12: in every state reached with fewer than \<open>2 ^ 31\<close> node constructions, and without overflow of a satellite
  counter, which is a failure of the step, the comparison of pattern links never fails and is a total order of null
  and the links to tree pointers that are not null: two links compare equal only when they are the same.\<close>

theorem PatternLink_total_order:
  assumes "reach n w" "n < 2 ^ 31"
  shows "\<exists>c. three_way c \<and> (\<forall>l r. live_link w l \<and> live_link w r
    \<longrightarrow> (\<exists>d. PatternLink_Compare3Way w l r = Inr d \<and> sgn d = sgn (c l r) \<and> (d = 0 \<longleftrightarrow> l = r)))"
proof -
  have "nodes_ok n w" "ptrs_ok w" using reach_ok[OF assms] by simp_all
  then show ?thesis using PatternLink_compare[of n w] assms(2) link_three_way by blast
qed

text \<open>C34: in every state reached with fewer than \<open>2 ^ 31\<close> node constructions the counters are not kept by progress:
  every number comes from the counter of the default progress, and all others stay zero. Live nodes have different
  numbers.\<close>

theorem one_counter:
  assumes "reach n w" "n < 2 ^ 31"
  shows "(\<forall>c p. number_cache w = Some c \<and> p \<noteq> default_progress \<longrightarrow> c p = 0)
    \<and> (\<forall>a b s t. nodes w a = Some s \<and> nodes w b = Some t \<and> a \<noteq> b \<longrightarrow> serial s \<noteq> serial t)"
proof -
  have ok: "nodes_ok n w" using reach_ok[OF assms] by simp
  have "a = b" if "nodes w a = Some s" "nodes w b = Some t" "serial s = serial t" for a b s t
    using ok that inj_onD[of "\<lambda>a. map_option serial (nodes w a)" _ a b] by (auto simp: nodes_ok_def numbers_ok_def)
  with ok show ?thesis by (auto simp: nodes_ok_def numbers_ok_def)
qed

text \<open>C40: for two numbers of the same progress the identity comparison has the right sign when their counters are
  less than \<open>2 ^ 31\<close> apart, and the wrong one when the later counter is ahead by \<open>2 ^ 31\<close> or more, but by less than
  \<open>2 ^ 32\<close>: the later number then compares less. It is 0 exactly when \<open>2 ^ 32\<close> divides the distance, so that
  different numbers compare equal when they are a multiple of \<open>2 ^ 32\<close> apart.\<close>

theorem identity_narrowing:
  assumes "progress l = progress r" "distance = uint (serial l) - uint (serial r)"
  shows "(\<bar>distance\<bar> < 2 ^ 31 \<longrightarrow> SerialNumber_Compare3WayIdentity l r = distance)
    \<and> (2 ^ 31 \<le> distance \<and> distance < 2 ^ 32 \<longrightarrow> SerialNumber_Compare3WayIdentity l r < 0)
    \<and> (SerialNumber_Compare3WayIdentity l r = 0 \<longleftrightarrow> 2 ^ 32 dvd distance)"
proof -
  have c: "SerialNumber_Compare3WayIdentity l r = (distance + 2 ^ 31) mod 2 ^ 32 - 2 ^ 31"
    using assms by (simp add: SerialNumber_Compare3WayIdentity_def narrowed_difference)
  have near: "(distance + 2 ^ 31) mod 2 ^ 32 = distance + 2 ^ 31" if "\<bar>distance\<bar> < 2 ^ 31"
    using that by (intro mod_between(1)) (simp_all add: abs_less_iff)
  have far: "(distance + 2 ^ 31) mod 2 ^ 32 = distance + 2 ^ 31 - 2 ^ 32" if "2 ^ 31 \<le> distance" "distance < 2 ^ 32"
    using that by (intro mod_between(2)) simp_all
  have "(distance + 2 ^ 31) mod 2 ^ 32 = 2 ^ 31 mod 2 ^ 32 \<longleftrightarrow> (2 :: int) ^ 32 dvd distance"
    by (simp only: mod_eq_dvd_iff) simp
  then have zero: "(distance + 2 ^ 31) mod 2 ^ 32 = 2 ^ 31 \<longleftrightarrow> (2 :: int) ^ 32 dvd distance" by simp
  show ?thesis unfolding c using near far zero by auto
qed

theorem identity_narrowing_witness:
  "SerialNumber_Compare3WayIdentity \<lparr>progress = default_progress, serial = 2 ^ 31, hook = None\<rparr>
     \<lparr>progress = default_progress, serial = 0, hook = None\<rparr> < 0"
proof -
  let ?l = "\<lparr>progress = default_progress, serial = 2 ^ 31, hook = None\<rparr>"
  let ?r = "\<lparr>progress = default_progress, serial = 0, hook = None\<rparr>"
  have "uint (serial ?l) - uint (serial ?r) = 2 ^ 31" by simp
  then show ?thesis using identity_narrowing[of ?l ?r "2 ^ 31"] by simp
qed

text \<open>C32: assigning null to the last tree pointer that points to a node leaves it with the address of the node's
  block, and the node may then be destroyed. A copy of the tree pointer assigns a number from the block, which is
  gone: undefined behaviour in a reachable state.\<close>

theorem nulled_pointer_dangles:
  assumes "reach n w" "n < 2 ^ 31" "tree_ptrs w t = Some p" "pointee p \<noteq> 0"
    and "\<And>u q. tree_ptrs w u = Some q \<Longrightarrow> u \<noteq> t \<Longrightarrow> pointee q \<noteq> pointee p"
  shows "\<exists>w1 w2. assign_null t w = Inr w1 \<and> delete_SerialNumber (pointee p) w1 = Inr w2 \<and> reach n w2
    \<and> (\<exists>p2. tree_ptrs w2 t = Some p2 \<and> pointee p2 = 0) \<and> copy_TreePtr u t w2 = Inl Undefined"
proof -
  let ?w1 = "w\<lparr>tree_ptrs := (tree_ptrs w)(t \<mapsto> p\<lparr>pointee := 0\<rparr>)\<rparr>"
  have null: "assign_null t w = Inr ?w1" by (simp add: assign_null_def assms(3))
  have r1: "reach n ?w1" by (rule reach.assign_null[OF assms(1) null])
  have ok: "nodes_ok n ?w1" "ptrs_ok w" using reach_ok[OF r1 assms(2)] reach_ok[OF assms(1,2)] by simp_all
  have mother: "mother_block (satellite_serial p) = Some (pointee p)" "satellite_below w (satellite_serial p)"
    using ok(2) assms(3,4) unfolding ptrs_ok_def by blast+
  then have live: "nodes ?w1 (pointee p) \<noteq> None" using assms(4) unfolding satellite_below_def by auto
  obtain w2 where w2: "delete_SerialNumber (pointee p) ?w1 = Inr w2" using nodes_ok_delete[OF ok(1) live] by blast
  have "reach n w2"
  proof (rule reach.delete_node[OF r1 live _ w2])
    fix u q assume "tree_ptrs ?w1 u = Some q"
    then show "pointee q \<noteq> pointee p" using assms(4,5) by (cases "u = t") auto
  qed
  moreover have "tree_ptrs w2 t = Some (release_block (pointee p) (p\<lparr>pointee := 0\<rparr>))" "nodes w2 = (nodes w)(pointee p := None)"
    using w2 by (auto simp: delete_SerialNumber_def guardE_def Let_def split: if_splits)
  moreover have "nodes w 0 = None" using ok(2) unfolding ptrs_ok_def by blast
  ultimately show ?thesis
    using null w2 mother(1)
    by (intro exI[of _ ?w1] exI[of _ w2])
      (simp add: release_block_def copy_TreePtr_def copy_SatelliteSerial_def satellite_of_block_def AssignSerial_def bindE_def)
qed

text \<open>Two nodes made in different stages, and tree pointers to them.\<close>

definition example_world :: "world result" where
  "example_world = bindE (new_TreePtr 10 1 (new_SerialNumber 2 (SetAsCurrent \<lparr>stage = ANALYSING, step_number = -1\<rparr> (new_SerialNumber 1 initial_world))))
     (\<lambda>w. bindE (copy_TreePtr 11 10 w) (\<lambda>w. new_TreePtr 12 2 w))"

lemma example_reach: "\<exists>w. example_world = Inr w \<and> reach 2 w"
proof -
  let ?w0 = "new_SerialNumber 1 initial_world"
  have r1: "reach (Suc 0) ?w0" by (rule reach.new_node[OF reach.start]) (simp_all add: initial_world_def)
  let ?w1 = "new_SerialNumber 2 (SetAsCurrent \<lparr>stage = ANALYSING, step_number = -1\<rparr> ?w0)"
  have r2: "reach (Suc (Suc 0)) ?w1"
    by (rule reach.new_node[OF reach.set_current[OF r1]]) (simp_all add: initial_world_def SetAsCurrent_def new_SerialNumber_def Let_def)
  obtain w2 where w2: "new_TreePtr 10 1 ?w1 = Inr w2" "tree_ptrs w2 11 = None" "tree_ptrs w2 12 = None"
    by (auto simp: new_TreePtr_def new_SatelliteSerial_def GetMotherBlock_def satellite_of_block_def AssignSerial_def
        initial_world_def SetAsCurrent_def new_SerialNumber_def Let_def)
  have r3: "reach (Suc (Suc 0)) w2"
    by (rule reach.new_ptr[OF r2 _ _ w2(1)]) (simp_all add: initial_world_def SetAsCurrent_def new_SerialNumber_def Let_def)
  obtain w4 w3 where w: "copy_TreePtr 11 10 w2 = Inr w3" "new_TreePtr 12 2 w3 = Inr w4" "tree_ptrs w3 12 = None"
    using w2(1) by (auto simp: copy_TreePtr_def copy_SatelliteSerial_def new_TreePtr_def new_SatelliteSerial_def GetMotherBlock_def
        satellite_of_block_def AssignSerial_def initial_world_def SetAsCurrent_def new_SerialNumber_def Let_def)
  have "reach (Suc (Suc 0)) w4"
    by (rule reach.new_ptr[OF reach.copy_ptr[OF r3 _ w(1)] _ w(3,2)]) simp_all
  moreover have "example_world = Inr w4" using w2(1) w(1,2) by (simp add: example_world_def)
  ultimately show ?thesis unfolding numeral_2_eq_2 by blast
qed

theorem identity_orders_nodes_witness:
  "\<exists>w c. example_world = Inr w \<and> three_way c \<and> (\<forall>a b s t. nodes w a = Some s \<and> nodes w b = Some t
    \<longrightarrow> SerialNumber_Compare3WayIdentity s t = c s t \<and> (c s t = 0 \<longleftrightarrow> a = b))"
  using example_reach identity_orders_nodes[of 2] by fastforce

theorem PatternLink_total_order_witness:
  "\<exists>w c. example_world = Inr w \<and> three_way c \<and> (\<forall>l r. live_link w l \<and> live_link w r
    \<longrightarrow> (\<exists>d. PatternLink_Compare3Way w l r = Inr d \<and> sgn d = sgn (c l r) \<and> (d = 0 \<longleftrightarrow> l = r)))"
proof -
  obtain w where "example_world = Inr w" "reach 2 w" using example_reach by blast
  with PatternLink_total_order[of 2 w] show ?thesis by auto
qed

theorem one_counter_witness:
  "\<exists>w. example_world = Inr w \<and> (\<forall>c p. number_cache w = Some c \<and> p \<noteq> default_progress \<longrightarrow> c p = 0)
    \<and> (\<forall>a b s t. nodes w a = Some s \<and> nodes w b = Some t \<and> a \<noteq> b \<longrightarrow> serial s \<noteq> serial t)"
proof -
  obtain w where "example_world = Inr w" "reach 2 w" using example_reach by blast
  with one_counter[of 2 w] show ?thesis by auto
qed

theorem nulled_pointer_dangles_witness:
  "\<exists>w w1 w2. example_world = Inr w \<and> assign_null 12 w = Inr w1 \<and> delete_SerialNumber 2 w1 = Inr w2
    \<and> copy_TreePtr 13 12 w2 = Inl Undefined"
proof -
  obtain w where w: "example_world = Inr w" "reach 2 w" using example_reach by blast
  then have t: "tree_ptrs w 12 = Some \<lparr>pointee = 2, satellite_serial = \<lparr>mother_block = Some 2, satellite = 0\<rparr>\<rparr>"
    "\<And>u q. tree_ptrs w u = Some q \<Longrightarrow> u \<noteq> 12 \<Longrightarrow> pointee q \<noteq> 2"
    by (auto simp: example_world_def copy_TreePtr_def copy_SatelliteSerial_def new_TreePtr_def new_SatelliteSerial_def GetMotherBlock_def
        satellite_of_block_def AssignSerial_def initial_world_def SetAsCurrent_def new_SerialNumber_def Let_def split: if_splits)
  have "(2 :: nat) < 2 ^ 31" by simp
  from nulled_pointer_dangles[OF w(2) this t(1), of 13] t(2) w(1) show ?thesis by auto
qed

end
