(* ===== verification/Relations.thy ===== *)
theory Relations
  imports Lacing Identity
begin

text \<open>
  The orderings of nodes that the database keeps (\<^verbatim>\<open>vn/db/cat_relation.cpp\<close>, \<^verbatim>\<open>vn/db/sc_relation.cpp\<close>): by category, with
  the ordinals of the lacing, and by simple comparison. Both have keys that stand for bounds instead of nodes:
  \<open>minimus x\<close> is the ordinal of the key \<open>x\<close> if it is a \<^verbatim>\<open>MinimusNode\<close>, \<open>minimax x\<close> the guide and the role if it is a
  \<^verbatim>\<open>MinimaxNode\<close>. Ties are broken by the identities of the nodes.

  The last section joins the lacing, this ordering and the expansion of ranges: what the solution of a category
  predicate expands to.
\<close>

section \<open>Relations\<close>

text \<open>The role of a minimus, as a number.\<close>

definition MINIMUS :: int where
  "MINIMUS = -1"

definition or_else :: "int \<Rightarrow> 'c \<Rightarrow> (int \<times> 'c) result option \<Rightarrow> (int \<times> 'c) result option" where
  "or_else d cache rest = (if d \<noteq> 0 then Some (Inr (d, cache)) else rest)"

definition CategoryRelation_Compare3Way ::
    "node_ops \<Rightarrow> lacing \<Rightarrow> world \<Rightarrow> (TreePtr \<Rightarrow> int option) \<Rightarrow> TreePtr \<Rightarrow> TreePtr \<Rightarrow> SubCategoryCache
     \<Rightarrow> (int \<times> SubCategoryCache) result option" where
  "CategoryRelation_Compare3Way N L w minimus l_key r_key cache =
     (case (minimus l_key, minimus r_key) of
        (None, None) \<Rightarrow>
          (case OrdinalCompare N L l_key r_key cache of
             None \<Rightarrow> None
           | Some (d, cache) \<Rightarrow> or_else d cache (Some (bindE (TreePtr_Compare3Way w l_key r_key) (\<lambda>d. Inr (d, cache)))))
      | (Some li, Some ri) \<Rightarrow>
          or_else (li - ri) cache (or_else (MINIMUS - MINIMUS) cache
            (Some (bindE (TreePtr_Compare3Way w l_key r_key) (\<lambda>d. Inr (d, cache)))))
      | (Some li, None) \<Rightarrow>
          (let (ri, cache) = GetOrdinalForNode N L r_key cache in or_else (li - ri) cache (Some (Inr (MINIMUS, cache))))
      | (None, Some ri) \<Rightarrow>
          (let (li, cache) = GetOrdinalForNode N L l_key cache in or_else (li - ri) cache (Some (Inr (- MINIMUS, cache)))))"

text \<open>The function call operator, with what it leaves in the cache.\<close>

definition CategoryRelation_less ::
    "node_ops \<Rightarrow> lacing \<Rightarrow> world \<Rightarrow> (TreePtr \<Rightarrow> int option) \<Rightarrow> SubCategoryCache \<Rightarrow> TreePtr \<Rightarrow> TreePtr \<Rightarrow> bool" where
  "CategoryRelation_less N L w minimus cache l_key r_key =
     (case CategoryRelation_Compare3Way N L w minimus l_key r_key cache of Some (Inr (d, cache)) \<Rightarrow> d < 0 | _ \<Rightarrow> False)"

definition SimpleCompareRelation_Compare3Way ::
    "node_ops \<Rightarrow> world \<Rightarrow> (TreePtr \<Rightarrow> (TreePtr \<times> int) option) \<Rightarrow> TreePtr \<Rightarrow> TreePtr \<Rightarrow> int result" where
  "SimpleCompareRelation_Compare3Way N w minimax l_key r_key =
     (let l_node = (case minimax l_key of Some (guide, role) \<Rightarrow> guide | None \<Rightarrow> l_key);
          r_node = (case minimax r_key of Some (guide, role) \<Rightarrow> guide | None \<Rightarrow> r_key);
          d = simple_compare_ptr N l_node r_node in
      if d \<noteq> 0 then Inr d
      else case (minimax l_key, minimax r_key) of
        (None, None) \<Rightarrow> TreePtr_Compare3Way w l_key r_key
      | (Some (lg, l_role), Some (rg, r_role)) \<Rightarrow> Inr (l_role - r_role)
      | (Some (lg, l_role), None) \<Rightarrow> Inr l_role
      | (None, Some (rg, r_role)) \<Rightarrow> Inr (- r_role))"

definition SimpleCompareRelation_less ::
    "node_ops \<Rightarrow> world \<Rightarrow> (TreePtr \<Rightarrow> (TreePtr \<times> int) option) \<Rightarrow> TreePtr \<Rightarrow> TreePtr \<Rightarrow> bool result" where
  "SimpleCompareRelation_less N w minimax l_key r_key =
     bindE (SimpleCompareRelation_Compare3Way N w minimax l_key r_key) (\<lambda>d. Inr (d < 0))"

section \<open>The category ordering\<close>

text \<open>The key by which nodes and bounds are ordered: the ordinal, bounds before nodes, the identity.\<close>

definition category_key :: "node_ops \<Rightarrow> lacing \<Rightarrow> world \<Rightarrow> (TreePtr \<Rightarrow> int option) \<Rightarrow> TreePtr \<Rightarrow> int \<times> int \<times> SerialNumber" where
  "category_key N L w minimus x =
     (case minimus x of None \<Rightarrow> ordinal_in N (decision_tree_root L) x | Some i \<Rightarrow> i,
      if minimus x = None then 1 else 0, the (nodes w x))"

definition category_compare :: "node_ops \<Rightarrow> lacing \<Rightarrow> world \<Rightarrow> (TreePtr \<Rightarrow> int option) \<Rightarrow> TreePtr \<Rightarrow> TreePtr \<Rightarrow> int" where
  "category_compare N L w minimus l r =
     then_by (-) (then_by (-) serial_compare) (category_key N L w minimus l) (category_key N L w minimus r)"

lemma category_three_way: "three_way (category_compare N L w minimus)"
  unfolding category_compare_def[abs_def]
  by (rule three_way_key[OF three_way_then_by[OF three_way_diff[of "\<lambda>x. x"]
        three_way_then_by[OF three_way_diff[of "\<lambda>x. x"] serial_three_way]], of "category_key N L w minimus"])

lemma TreePtr_compare:
  assumes "nodes_ok n w" "n < 2 ^ 31" "nodes w a \<noteq> None" "nodes w b \<noteq> None"
  shows "TreePtr_Compare3Way w a b = Inr (serial_compare (the (nodes w a)) (the (nodes w b)))"
    "serial_compare (the (nodes w a)) (the (nodes w b)) = 0 \<longleftrightarrow> a = b"
proof -
  obtain s t where st: "nodes w a = Some s" "nodes w b = Some t" using assms(3,4) by auto
  have "nodes w 0 = None" using assms(1) by (simp add: nodes_ok_def numbers_ok_def)
  then have "a \<noteq> 0" "b \<noteq> 0" using assms(3,4) by metis+
  with st identity_compare[OF assms(1,2) st] three_wayD(1)[OF serial_three_way, of s]
  show "TreePtr_Compare3Way w a b = Inr (serial_compare (the (nodes w a)) (the (nodes w b)))"
    "serial_compare (the (nodes w a)) (the (nodes w b)) = 0 \<longleftrightarrow> a = b"
    by (auto simp: TreePtr_Compare3Way_def Let_def)
qed

lemma CategoryRelation_ok:
  assumes L: "lacing_ready N L" and w: "nodes_ok n w" "n < 2 ^ 31" and live: "nodes w l \<noteq> None" "nodes w r \<noteq> None"
    and cache: "cache_ok N cache"
  shows "\<exists>d cache'. CategoryRelation_Compare3Way N L w minimus l r cache = Some (Inr (d, cache')) \<and> cache_ok N cache'
    \<and> sgn d = sgn (category_compare N L w minimus l r) \<and> (d = 0 \<longleftrightarrow> l = r)"
proof -
  note id = TreePtr_compare[OF w live]
  have b: "built N L" using L by (simp add: lacing_ready_def)
  obtain cl where ol: "GetOrdinalForNode N L l cache = (ordinal_in N (decision_tree_root L) l, cl)" "cache_ok N cl"
    using GetOrdinal_ok[OF b cache] by blast
  obtain cr where or: "GetOrdinalForNode N L r cache = (ordinal_in N (decision_tree_root L) r, cr)" "cache_ok N cr"
    using GetOrdinal_ok[OF b cache] by blast
  obtain d c where oc: "OrdinalCompare N L l r cache = Some (d, c)" "cache_ok N c"
      "sgn d = sgn (ordinal_in N (decision_tree_root L) l - ordinal_in N (decision_tree_root L) r)"
    using OrdinalCompare_ok[OF L cache] by blast
  have z: "d = 0 \<longleftrightarrow> ordinal_in N (decision_tree_root L) l = ordinal_in N (decision_tree_root L) r"
    using oc(3) by (metis eq_iff_diff_eq_0 sgn_0_0)
  show ?thesis
  proof (cases "minimus l"; cases "minimus r")
    assume "minimus l = None" "minimus r = None"
    with oc id cache z show ?thesis
      by (auto simp: CategoryRelation_Compare3Way_def or_else_def category_compare_def category_key_def then_by_def Let_def)
  next
    fix i assume "minimus l = None" "minimus r = Some i"
    moreover from this have "l \<noteq> r" by auto
    ultimately show ?thesis using ol
      by (auto simp: CategoryRelation_Compare3Way_def or_else_def category_compare_def category_key_def then_by_def Let_def MINIMUS_def)
  next
    fix i assume "minimus l = Some i" "minimus r = None"
    moreover from this have "l \<noteq> r" by auto
    ultimately show ?thesis using or
      by (auto simp: CategoryRelation_Compare3Way_def or_else_def category_compare_def category_key_def then_by_def Let_def MINIMUS_def)
  next
    fix i j assume "minimus l = Some i" "minimus r = Some j"
    with id cache show ?thesis
      by (auto simp: CategoryRelation_Compare3Way_def or_else_def category_compare_def category_key_def then_by_def Let_def MINIMUS_def)
  qed
qed

lemma CategoryRelation_less_eq:
  assumes "lacing_ready N L" "nodes_ok n w" "n < 2 ^ 31" "nodes w l \<noteq> None" "nodes w r \<noteq> None" "cache_ok N cache"
  shows "CategoryRelation_less N L w minimus cache l r \<longleftrightarrow> category_compare N L w minimus l r < 0"
proof -
  obtain d cache' where "CategoryRelation_Compare3Way N L w minimus l r cache = Some (Inr (d, cache'))"
      "sgn d = sgn (category_compare N L w minimus l r)"
    using CategoryRelation_ok[OF assms] by blast
  then show ?thesis by (simp add: CategoryRelation_less_def) (metis sgn_less)
qed

section \<open>What a category predicate expands to\<close>

lemma Category_TryExtensionalise_cong:
  assumes "\<And>x lo hi. x \<in> set elems \<Longrightarrow> (Some lo, Some hi) \<in> set bounds \<Longrightarrow> lt x lo = lt' x lo \<and> lt x hi = lt' x hi"
  shows "Category_TryExtensionalise lt elems inc bounds True False = Category_TryExtensionalise lt' elems inc bounds True False"
proof -
  have "category_step lt elems inc True False b links = category_step lt' elems inc True False b links" if b: "b \<in> set bounds" for b links
  proof (cases "\<exists>lo hi. b = (Some lo, Some hi)")
    case True
    then obtain lo hi where lh: "b = (Some lo, Some hi)" by blast
    then have "lower_bound lt elems lo = lower_bound lt' elems lo" "lower_bound lt elems hi = lower_bound lt' elems hi"
      using assms b by (auto simp: lower_bound_def intro!: arg_cong[where f = length] takeWhile_cong)
    with lh show ?thesis by (simp add: category_step_def)
  next
    case False
    then show ?thesis by (auto simp: category_step_def split: option.splits prod.splits)
  qed
  then have "foldE (category_step lt elems inc True False) bs links = foldE (category_step lt' elems inc True False) bs links"
    if "set bs \<subseteq> set bounds" for bs links
    using that by (induction bs arbitrary: links) (auto intro!: bindE_cong)
  then show ?thesis by (simp add: Category_TryExtensionalise_def)
qed

lemma three_way_swo:
  assumes "three_way c"
  shows "strict_weak_order (\<lambda>x y. c x y < 0)"
proof
  note d = three_wayD[OF assms]
  fix x y z
  show "\<not> c x x < 0" using d(1) by simp
  show "c x y < 0 \<Longrightarrow> c y z < 0 \<Longrightarrow> c x z < 0" using d(5)[of x y z] by simp
  show "\<not> c x y < 0 \<Longrightarrow> \<not> c y z < 0 \<Longrightarrow> \<not> c x z < 0"
    using d(2)[of y x] d(2)[of z y] d(2)[of z x] d(2)[of x z] d(4)[of z y x] d(2)[of x y] d(2)[of y z] by linarith
qed

text \<open>The bounds that the solution of a category predicate makes for the ranges of the category.\<close>

definition bounds_for :: "world \<Rightarrow> (TreePtr \<Rightarrow> int option) \<Rightarrow> (int \<times> int) list \<Rightarrow> (TreePtr option \<times> TreePtr option) list \<Rightarrow> bool" where
  "bounds_for w minimus rl bounds \<longleftrightarrow>
     list_all2 (\<lambda>(b, e) (lo, hi). \<exists>x y. lo = Some x \<and> hi = Some y \<and> minimus x = Some b \<and> minimus y = Some e
       \<and> nodes w x \<noteq> None \<and> nodes w y \<noteq> None) rl bounds"

lemma minimus_below:
  assumes "minimus x = None" "minimus y = Some b"
  shows "category_compare N L w minimus x y < 0 \<longleftrightarrow> ordinal_in N (decision_tree_root L) x < b"
    "category_compare N L w minimus y x < 0 \<longleftrightarrow> b \<le> ordinal_in N (decision_tree_root L) x"
  using assms by (auto simp: category_compare_def then_by_def category_key_def Let_def)

lemma minimus_less:
  assumes "minimus x = Some b" "minimus y = Some e" "b < e"
  shows "category_compare N L w minimus x y < 0"
  using assms by (simp add: category_compare_def then_by_def category_key_def Let_def)

lemma bounds_for_covered:
  assumes "bounds_for w minimus rl bounds" "minimus x = None"
  shows "(\<exists>(lo, hi) \<in> set bounds. in_range (\<lambda>l r. category_compare N L w minimus l r < 0) lo True hi False x)
    \<longleftrightarrow> ordinal_in N (decision_tree_root L) x \<in> covered rl"
  using assms(1) unfolding bounds_for_def
proof (induction rl bounds rule: list_all2_induct)
  case (Cons p rl q bounds)
  obtain b e lo hi where p: "p = (b, e)" and q: "q = (Some lo, Some hi)" "minimus lo = Some b" "minimus hi = Some e"
    using Cons.hyps(1) by (cases p; cases q) auto
  have "in_range (\<lambda>l r. category_compare N L w minimus l r < 0) (Some lo) True (Some hi) False x
      \<longleftrightarrow> b \<le> ordinal_in N (decision_tree_root L) x \<and> ordinal_in N (decision_tree_root L) x < e"
    using minimus_below[OF assms(2) q(2)] minimus_below[OF assms(2) q(3)]
    by (auto simp: in_range_def below_lower_def within_upper_def)
  moreover have "covered (p # rl) = {b..<e} \<union> covered rl" using p by (simp add: covered_def)
  ultimately show ?case using Cons.IH q by auto
qed simp

text \<open>C13: in every state reached with fewer than \<open>2 ^ 31\<close> node constructions the category relation is a total order of
  the live nodes and bounds, whatever the cache of category tests holds: it returns, and only equal keys compare
  equal.\<close>

theorem CategoryRelation_total_order:
  assumes "node_laws N" "null_node \<notin> set raw" "cache_ok N cache" "Lacing_Build N raw cache = Some (Inr (L, cache1))"
    and "int (length (categories L)) \<le> int_max + 1" "reach n w" "n < 2 ^ 31"
  shows "\<exists>c. three_way c \<and> (\<forall>l r cache2. nodes w l \<noteq> None \<and> nodes w r \<noteq> None \<and> cache_ok N cache2
    \<longrightarrow> (\<exists>d cache3. CategoryRelation_Compare3Way N L w minimus l r cache2 = Some (Inr (d, cache3)) \<and> cache_ok N cache3
          \<and> sgn d = sgn (c l r) \<and> (d = 0 \<longleftrightarrow> l = r)))"
proof -
  have "lacing_ready N L" using Build_built[OF assms(1-4)] assms(5) by (simp add: lacing_ready_def)
  then show ?thesis
    using CategoryRelation_ok[of N L n w] reach_ok[OF assms(6,7)] assms(7) category_three_way by blast
qed

text \<open>C6: what the solution of a category predicate expands to. In a state reached with fewer than \<open>2 ^ 31\<close> node
  constructions, whose category ordering holds nodes in the order of the relation, each represented (it belongs to
  the same categories as some category of the lacing, or to none), expanding the ranges of a category, with bounds
  made for them, yields the incoming links of exactly the nodes that belong to the category.\<close>

theorem category_solution_exact:
  assumes "node_laws N" "null_node \<notin> set raw" "cache_ok N cache" "Lacing_Build N raw cache = Some (Inr (L, cache1))"
    and "int (length (categories L)) \<le> int_max + 1" "reach n w" "n < 2 ^ 31" "cache_ok N cache2"
    and "c \<in> set (categories L)" "c \<noteq> null_node" "Lacing_GetRangeListForCategory N L c = Inr rl" "bounds_for w minimus rl bounds"
    and "sorted_wrt (CategoryRelation_less N L w minimus cache2) elems"
    and "\<forall>x \<in> set elems. nodes w x \<noteq> None \<and> minimus x = None \<and> (\<exists>r \<in> set (categories L). represented N (categories L) x r)"
  shows "\<exists>s. Category_TryExtensionalise (CategoryRelation_less N L w minimus cache2) elems inc bounds True False = Inr s
    \<and> sorted_set s \<and> set s = (\<Union>x \<in> {x \<in> set elems. belongs N c x}. set (inc x))"
proof -
  have b: "built N L" using Build_built[OF assms(1-4)] by simp
  then have ready: "lacing_ready N L" using assms(5) by (simp add: lacing_ready_def)
  have L: "laced N (categories L) (relations L) (cats_in_lacing_order L)" using b by (simp add: built_def)
  have ok: "nodes_ok n w" using reach_ok[OF assms(6,7)] by simp
  let ?lt = "\<lambda>l r. category_compare N L w minimus l r < 0"
  have eq: "CategoryRelation_less N L w minimus cache2 x y = ?lt x y" if "nodes w x \<noteq> None" "nodes w y \<noteq> None" for x y
    using CategoryRelation_less_eq[OF ready ok assms(7) that assms(8)] by simp
  have rl: "range_list_ok rl" "covered rl = lacing_set_of N (cats_in_lacing_order L) c"
    using GetRangeList_ok[OF b assms(9,10)] assms(11) by auto
  have live: "\<exists>x y. lo = Some x \<and> hi = Some y \<and> nodes w x \<noteq> None \<and> nodes w y \<noteq> None \<and> ?lt x y" if lh: "(lo, hi) \<in> set bounds" for lo hi
  proof -
    obtain i where i: "i < length bounds" "bounds ! i = (lo, hi)" using lh by (metis in_set_conv_nth)
    then have "i < length rl" using list_all2_lengthD[OF assms(12)[unfolded bounds_for_def]] by simp
    then have "fst (rl ! i) < snd (rl ! i)" using rl(1) nth_mem[of i rl] by (force simp: range_list_ok_def)
    moreover obtain x y where "lo = Some x" "hi = Some y" "minimus x = Some (fst (rl ! i))" "minimus y = Some (snd (rl ! i))"
        "nodes w x \<noteq> None" "nodes w y \<noteq> None"
      using list_all2_nthD[OF assms(12)[unfolded bounds_for_def] \<open>i < length rl\<close>] i(2) by (auto simp: case_prod_beta)
    ultimately show ?thesis using minimus_less[of minimus] by blast
  qed
  have sorted: "sorted_wrt ?lt elems"
    using assms(13,14) eq by (auto intro: sorted_wrt_mono_rel[of elems "CategoryRelation_less N L w minimus cache2"])
  have "Category_TryExtensionalise (CategoryRelation_less N L w minimus cache2) elems inc bounds True False
      = Category_TryExtensionalise ?lt elems inc bounds True False"
    using live assms(14) eq by (intro Category_TryExtensionalise_cong) fastforce
  moreover obtain s where s: "Category_TryExtensionalise ?lt elems inc bounds True False = Inr s" "sorted_set s"
      "set s = (\<Union>x \<in> {x \<in> set elems. \<exists>(lo, hi) \<in> set bounds. in_range ?lt lo True hi False x}. set (inc x))"
  proof -
    have "\<forall>(lo, hi) \<in> set bounds. lo \<noteq> None \<and> hi \<noteq> None \<and> bounds_ordered ?lt lo True hi False"
      using live by (fastforce simp: bounds_ordered_def)
    from strict_weak_order.Category_fold[OF three_way_swo[OF category_three_way] sorted this, of "[]" inc] that show thesis
      by (auto simp: Category_TryExtensionalise_def)
  qed
  moreover have mem: "(\<exists>(lo, hi) \<in> set bounds. in_range ?lt lo True hi False x) \<longleftrightarrow> belongs N c x" if x: "x \<in> set elems" for x
  proof -
    obtain r where r: "r \<in> set (categories L)" "represented N (categories L) x r" using assms(14) x by blast
    obtain i where i: "i < length (cats_in_lacing_order L)" "cats_in_lacing_order L ! i = r"
      using r(1) lacedD(4)[OF L] by (metis in_set_conv_nth)
    have "ordinal_in N (decision_tree_root L) x = int i" using GetOrdinal_represented[OF b i(1)] r(2) i(2) by simp
    moreover have "belongs N c x \<longleftrightarrow> belongs N c r" using r(2) assms(9) by (simp add: represented_def)
    ultimately show ?thesis
      using bounds_for_covered[OF assms(12), of x N L] assms(14) x i rl(2) by (simp add: lacing_set_of_nat)
  qed
  then have "{x \<in> set elems. \<exists>(lo, hi) \<in> set bounds. in_range ?lt lo True hi False x} = {x \<in> set elems. belongs N c x}" by blast
  ultimately show ?thesis by (intro exI[of _ s]) (simp only: simp_thms)
qed

section \<open>The simple comparison\<close>

definition simple_key :: "world \<Rightarrow> (TreePtr \<Rightarrow> (TreePtr \<times> int) option) \<Rightarrow> TreePtr \<Rightarrow> TreePtr \<times> int \<times> SerialNumber" where
  "simple_key w minimax x =
     (case minimax x of None \<Rightarrow> (x, 0, the (nodes w x)) | Some (guide, role) \<Rightarrow> (guide, role, undefined))"

definition simple_key_compare :: "node_ops \<Rightarrow> world \<Rightarrow> (TreePtr \<Rightarrow> (TreePtr \<times> int) option) \<Rightarrow> TreePtr \<Rightarrow> TreePtr \<Rightarrow> int" where
  "simple_key_compare N w minimax l r =
     then_by (simple_compare_ptr N) (then_by (-) serial_compare) (simple_key w minimax l) (simple_key w minimax r)"

lemma node_simple_compare_three_way:
  assumes "node_laws N"
  shows "three_way (node_simple_compare N)"
proof -
  let ?c = "node_simple_compare N"
  have swo: "strict_weak_order (\<lambda>x y. ?c x y < 0)" and zero: "\<And>x y. ?c x y = 0 \<longleftrightarrow> equivalent (\<lambda>x y. ?c x y < 0) x y"
    using assms unfolding node_laws_def by blast+
  have anti: "?c x y < 0 \<longleftrightarrow> ?c y x > 0" for x y
    using zero[of y x] strict_weak_order.asym[OF swo, of x y] by (auto simp: equivalent_def)
  moreover have "?c x y \<le> 0 \<Longrightarrow> ?c y z \<le> 0 \<Longrightarrow> ?c x z \<le> 0" for x y z
    using strict_weak_order.neg_trans[OF swo, of z y x] anti[of z y] anti[of y x] anti[of z x] by linarith
  moreover have "?c x x = 0" for x using zero[of x x] strict_weak_order.equivalent_refl[OF swo] by simp
  ultimately show ?thesis unfolding three_way_def by blast
qed

lemma simple_compare_ptr_three_way:
  assumes "node_laws N"
  shows "three_way (simple_compare_ptr N)"
proof -
  note d = three_wayD[OF node_simple_compare_three_way[OF assms]]
  have "simple_compare_ptr N x x = 0" for x using d(1) by (simp add: simple_compare_ptr_def)
  moreover have "simple_compare_ptr N x y < 0 \<longleftrightarrow> simple_compare_ptr N y x > 0" for x y
    using d(2)[of x y] by (simp add: simple_compare_ptr_def)
  moreover have "simple_compare_ptr N x z \<le> 0" if "simple_compare_ptr N x y \<le> 0" "simple_compare_ptr N y z \<le> 0" for x y z
    using that d(4)[of x y z] by (auto simp: simple_compare_ptr_def split: if_splits)
  ultimately show ?thesis unfolding three_way_def by blast
qed

text \<open>In every state reached with fewer than \<open>2 ^ 31\<close> node constructions the simple comparison relation is a
  weak order of the live nodes and the bounds made for them, as long as every bound has one of the two roles. Nodes
  compare equal only to themselves.\<close>

theorem SimpleCompareRelation_order:
  assumes "node_laws N" "reach n w" "n < 2 ^ 31" "\<forall>x g role. minimax x = Some (g, role) \<longrightarrow> role \<noteq> 0"
  shows "\<exists>c. three_way c \<and> (\<forall>l r. nodes w l \<noteq> None \<and> nodes w r \<noteq> None
    \<longrightarrow> SimpleCompareRelation_Compare3Way N w minimax l r = Inr (c l r) \<and> (minimax l = None \<longrightarrow> c l r = 0 \<longrightarrow> l = r))"
proof (intro exI[of _ "simple_key_compare N w minimax"] conjI allI impI)
  note sc = simple_compare_ptr_three_way[OF assms(1)]
  show "three_way (simple_key_compare N w minimax)"
    unfolding simple_key_compare_def[abs_def]
    by (rule three_way_key[OF three_way_then_by[OF sc three_way_then_by[OF three_way_diff[of "\<lambda>x. x"] serial_three_way]], of "simple_key w minimax"])
  fix l r assume live: "nodes w l \<noteq> None \<and> nodes w r \<noteq> None"
  have ok: "nodes_ok n w" using reach_ok[OF assms(2,3)] by simp
  note id = TreePtr_compare[OF ok assms(3) conjunct1[OF live] conjunct2[OF live]]
  show eq: "SimpleCompareRelation_Compare3Way N w minimax l r = Inr (simple_key_compare N w minimax l r)"
    using id(1) assms(4) three_wayD(1)[OF serial_three_way]
    by (cases "minimax l"; cases "minimax r")
      (auto simp: SimpleCompareRelation_Compare3Way_def simple_key_compare_def simple_key_def then_by_def Let_def)
  assume "minimax l = None" "simple_key_compare N w minimax l r = 0"
  then show "l = r"
    using id(2) assms(4)
    by (cases "minimax r") (auto simp: simple_key_compare_def simple_key_def then_by_def Let_def split: if_splits)
qed

section \<open>Instances\<close>

text \<open>The lacing of two categories, and a state with nodes of them and two bounds.\<close>

definition example_relations :: category_relations where
  "example_relations = \<lparr>cats_to_nonstrict_supercats = [(0, []), (1, [1]), (2, [1, 2])], cats_to_nonstrict_subcats = [(0, []), (1, [1, 2]), (2, [2])],
     cats_to_strict_supercats = [(0, []), (1, []), (2, [1])], cats_to_strict_subcats = [(0, []), (1, [2]), (2, [])]\<rparr>"

definition example_state :: world where
  "example_state = new_SerialNumber 6 (new_SerialNumber 5 (new_SerialNumber 2 (new_SerialNumber 1 initial_world)))"

definition example_minimus :: "TreePtr \<Rightarrow> int option" where
  "example_minimus = [5 \<mapsto> 2, 6 \<mapsto> 3]"

definition example_minimax :: "TreePtr \<Rightarrow> (TreePtr \<times> int) option" where
  "example_minimax = [5 \<mapsto> (1, -1), 6 \<mapsto> (1, 1)]"

lemma example_relations_found: "map_sum id fst (FindSuperAndSubCategories example_nodes [0, 1, 2] (\<lambda>p. None)) = Inr example_relations"
  by code_simp

lemma example_sorted: "sort_round example_relations [0, 1, 2] = Inr ([0, 1, 2], False)"
  by code_simp

lemma example_ranges: "BuildRanges example_nodes example_relations [0, 1, 2] = Inr [(1, [(1, 3)]), (2, [(2, 3)])]"
  by code_simp

lemma example_lacing:
  obtains L cache1 where "Lacing_Build example_nodes [2, 1] (\<lambda>p. None) = Some (Inr (L, cache1))" "categories L = [0, 1, 2]"
    "cats_in_lacing_order L = [0, 1, 2]" "cats_to_lacing_range_lists L = [(1, [(1, 3)]), (2, [(2, 3)])]"
proof -
  obtain L cache1 where b: "Lacing_Build example_nodes [2, 1] (\<lambda>p. None) = Some (Inr (L, cache1))" "categories L = [0, 1, 2]"
    using example_built[OF example_single] by auto
  obtain c where "FindSuperAndSubCategories example_nodes [0, 1, 2] (\<lambda>p. None) = Inr (example_relations, c)"
    using example_relations_found by (cases "FindSuperAndSubCategories example_nodes [0, 1, 2] (\<lambda>p. None)") auto
  moreover have "Sort example_relations [0, 1, 2] = Some (Inr [0, 1, 2])"
    unfolding Sort_def by (subst sort_loop.simps) (simp add: example_sorted del: One_nat_def)
  ultimately have "cats_in_lacing_order L = [0, 1, 2]" "cats_to_lacing_range_lists L = [(1, [(1, 3)]), (2, [(2, 3)])]"
    using Build_steps[OF b(1)] example_ranges unfolding b(2) by auto
  with b that show thesis by blast
qed

lemma example_state_reach: "reach 4 example_state"
proof -
  have "reach (Suc (Suc (Suc (Suc 0)))) example_state"
    unfolding example_state_def
    by (intro reach.intros) (simp_all add: initial_world_def new_SerialNumber_def Let_def)
  then show ?thesis by (simp add: eval_nat_numeral)
qed

lemma example_state_nodes: "nodes example_state x \<noteq> None \<longleftrightarrow> x \<in> {1, 2, 5, 6}"
  by (simp add: example_state_def new_SerialNumber_def initial_world_def Let_def)

theorem CategoryRelation_total_order_witness:
  "\<exists>L cache1 c. Lacing_Build example_nodes [2, 1] (\<lambda>p. None) = Some (Inr (L, cache1)) \<and> three_way c
    \<and> (\<forall>l r. nodes example_state l \<noteq> None \<and> nodes example_state r \<noteq> None
         \<longrightarrow> (\<exists>d cache3. CategoryRelation_Compare3Way example_nodes L example_state example_minimus l r (\<lambda>p. None) = Some (Inr (d, cache3))
               \<and> sgn d = sgn (c l r) \<and> (d = 0 \<longleftrightarrow> l = r)))"
proof -
  obtain L cache1 where b: "Lacing_Build example_nodes [2, 1] (\<lambda>p. None) = Some (Inr (L, cache1))" "categories L = [0, 1, 2]"
    by (rule example_lacing)
  have n: "(4 :: nat) < 2 ^ 31" "null_node \<notin> set [2, 1]" by simp_all
  have "int (length (categories L)) \<le> int_max + 1" using b(2) by (simp add: int_max_def)
  from CategoryRelation_total_order[OF example_laws n(2) cache_ok_empty b(1) this example_state_reach n(1), of example_minimus]
  show ?thesis using b(1) cache_ok_empty by blast
qed

theorem category_solution_exact_witness:
  "\<exists>L cache1 s. Lacing_Build example_nodes [2, 1] (\<lambda>p. None) = Some (Inr (L, cache1))
    \<and> Category_TryExtensionalise (CategoryRelation_less example_nodes L example_state example_minimus (\<lambda>p. None)) [1, 2] (\<lambda>x. [x + 10])
        [(Some 5, Some 6)] True False = Inr s \<and> set s = {12}"
proof -
  obtain L cache1 where b: "Lacing_Build example_nodes [2, 1] (\<lambda>p. None) = Some (Inr (L, cache1))" "categories L = [0, 1, 2]"
      "cats_in_lacing_order L = [0, 1, 2]" "cats_to_lacing_range_lists L = [(1, [(1, 3)]), (2, [(2, 3)])]"
    by (rule example_lacing)
  have len: "int (length (categories L)) \<le> int_max + 1" using b(2) by (simp add: int_max_def)
  have built: "built example_nodes L" using Build_built[OF example_laws _ cache_ok_empty b(1)] by simp
  have ready: "lacing_ready example_nodes L" using built len by (simp add: lacing_ready_def)
  have ok: "nodes_ok 4 example_state" using reach_ok[OF example_state_reach] by simp
  have rep: "represented example_nodes (categories L) x x" for x by (simp add: represented_def)
  have o: "ordinal_in example_nodes (decision_tree_root L) 1 = 1" "ordinal_in example_nodes (decision_tree_root L) 2 = 2"
    using GetOrdinal_represented[OF built, of 1 1] GetOrdinal_represented[OF built, of 2 2] b(3) rep by simp_all
  have rl: "Lacing_GetRangeListForCategory example_nodes L 2 = Inr [(2, 3)]"
    by (simp add: Lacing_GetRangeListForCategory_def TryGetRangeListForCategory_def b(4) map_count_def map_at_def equivalent_def
        simple_less_def simple_compare_ptr_def example_nodes_def)
  have bounds: "bounds_for example_state example_minimus [(2, 3)] [(Some 5, Some 6)]"
    using example_state_nodes by (simp add: bounds_for_def example_minimus_def)
  have "CategoryRelation_less example_nodes L example_state example_minimus (\<lambda>p. None) 1 2"
    using CategoryRelation_less_eq[OF ready ok _ _ _ cache_ok_empty, of 1 2 example_minimus] example_state_nodes
    by (simp add: category_compare_def then_by_def category_key_def example_minimus_def o del: One_nat_def)
  then have sorted: "sorted_wrt (CategoryRelation_less example_nodes L example_state example_minimus (\<lambda>p. None)) [1, 2]" by simp
  have elems: "\<forall>x \<in> set [1, 2]. nodes example_state x \<noteq> None \<and> example_minimus x = None
      \<and> (\<exists>r \<in> set (categories L). represented example_nodes (categories L) x r)"
    using rep b(2) example_state_nodes by (auto simp: example_minimus_def)
  have "{x \<in> set [1, 2]. belongs example_nodes 2 x} = {2}" by (auto simp: belongs_def example_nodes_def)
  then show ?thesis
    using b(1,2) category_solution_exact[OF example_laws _ cache_ok_empty b(1) len example_state_reach _ cache_ok_empty _ _ rl bounds sorted elems,
        of "\<lambda>x. [x + 10]"] by auto
qed

theorem SimpleCompareRelation_order_witness:
  "\<exists>c :: TreePtr \<Rightarrow> TreePtr \<Rightarrow> int. three_way c \<and> SimpleCompareRelation_Compare3Way example_nodes example_state example_minimax 5 1 = Inr (c 5 1)
    \<and> SimpleCompareRelation_Compare3Way example_nodes example_state example_minimax 1 6 = Inr (c 1 6)"
proof -
  have "\<forall>x g role. example_minimax x = Some (g, role) \<longrightarrow> role \<noteq> 0" by (simp add: example_minimax_def)
  moreover have "(4 :: nat) < 2 ^ 31" by simp
  ultimately obtain c where c: "three_way c" "\<forall>l r. nodes example_state l \<noteq> None \<and> nodes example_state r \<noteq> None
      \<longrightarrow> SimpleCompareRelation_Compare3Way example_nodes example_state example_minimax l r = Inr (c l r)
        \<and> (example_minimax l = None \<longrightarrow> c l r = 0 \<longrightarrow> l = r)"
    using SimpleCompareRelation_order[OF example_laws example_state_reach, of example_minimax] by blast
  have live: "nodes example_state 1 \<noteq> None" "nodes example_state 5 \<noteq> None" "nodes example_state 6 \<noteq> None"
    by (simp_all only: example_state_nodes) simp_all
  show ?thesis using c(1) c(2)[rule_format, OF conjI, OF live(2,1)] c(2)[rule_format, OF conjI, OF live(1,3)] by blast
qed

end
