(* ===== verification/DepthFirst.thy ===== *)
theory DepthFirst
  imports Csp ExpressionOrder
begin

text \<open>
  The depth-first relation (\<^verbatim>\<open>vn/db/df_relation.cpp\<close>) on the tables of the database (\<^verbatim>\<open>link_table.cpp\<close>,
  \<^verbatim>\<open>node_table.cpp\<close>, \<^verbatim>\<open>x_tree_database.cpp\<close>): two links are compared by going up from both until their paths meet
  at a parent, and then by their positions there. It is proved to be the lexicographic comparison of the
  paths from the root, a parent coming before what is below it.

  A link is an address and null is 0, as for nodes. A map whose missing entries \<^verbatim>\<open>operator[]\<close> fills with two null
  links is a function to pairs of links. The loop is a partial function; it is proved to return. Ordinals are
  \<^verbatim>\<open>int\<close>s that count items, elements and trees from 0, or -1, so that their differences are in range.
\<close>

section \<open>Tables\<close>

record link_row =
  parent_node :: nat
  item_ordinal :: int
  container_ordinal :: int
  tree_ordinal :: int

record node_row =
  incoming_xlinks :: "nat list"

text \<open>The rows of both tables, and the node that a link points to.\<close>

record tree_tables =
  link_rows :: "nat \<Rightarrow> link_row option"
  node_rows :: "nat \<Rightarrow> node_row option"
  child_of_link :: "nat \<Rightarrow> nat"

definition GetRow :: "tree_tables \<Rightarrow> nat \<Rightarrow> link_row result" where
  "GetRow db xlink =
     guardE (xlink \<noteq> 0)
    (guardE (child_of_link db xlink \<noteq> 0)
      (case link_rows db xlink of None \<Rightarrow> Inl AssertFail | Some row \<Rightarrow> Inr row))"

definition GetNodeRow :: "tree_tables \<Rightarrow> nat \<Rightarrow> node_row result" where
  "GetNodeRow db node =
     guardE (node \<noteq> 0) (case node_rows db node of None \<Rightarrow> Inl AssertFail | Some row \<Rightarrow> Inr row)"

definition TryGetParentXLink :: "tree_tables \<Rightarrow> nat \<Rightarrow> nat result" where
  "TryGetParentXLink db xlink =
     bindE (GetRow db xlink) (\<lambda>row.
       if parent_node row = 0 then Inr 0
       else bindE (GetNodeRow db (parent_node row)) (\<lambda>node.
         let ps = incoming_xlinks node in
         if length ps = 0 then Inr 0 else if length ps = 1 then SoloElementOf ps else Inl AssertFail))"

section \<open>The relation\<close>

datatype RelType = EQUAL | LEFT_IS_ANCESTOR | RIGHT_IS_ANCESTOR | CONTAINER_SIBLINGS | ITEM_SIBLINGS | ROOT_SIBLINGS

type_synonym mutuals = "nat \<Rightarrow> nat \<times> nat"

text \<open>What one round of the loop, or one side of it, leads to.\<close>

datatype climb = Returns int RelType | Siblings nat nat | Climbs nat nat mutuals

text \<open>Advancing left to the parent \<open>lp\<close>, and right to the parent \<open>rp\<close>.\<close>

definition climb_left :: "nat \<Rightarrow> nat \<Rightarrow> nat \<Rightarrow> nat \<Rightarrow> mutuals \<Rightarrow> climb" where
  "climb_left r_key lp l_cur r_cur cm =
     (if lp = 0 then Climbs l_cur r_cur cm
      else if lp = r_key then Returns 1 RIGHT_IS_ANCESTOR
      else if snd (cm lp) \<noteq> 0 then Siblings l_cur (snd (cm lp))
      else Climbs lp r_cur (cm(lp := (l_cur, snd (cm lp)))))"

definition climb_right :: "nat \<Rightarrow> nat \<Rightarrow> nat \<Rightarrow> nat \<Rightarrow> mutuals \<Rightarrow> climb" where
  "climb_right l_key rp l_cur r_cur cm =
     (if rp = 0 then Climbs l_cur r_cur cm
      else if rp = l_key then Returns (-1) LEFT_IS_ANCESTOR
      else if fst (cm rp) \<noteq> 0 then Siblings (fst (cm rp)) r_cur
      else Climbs l_cur rp (cm(rp := (fst (cm rp), r_cur))))"

definition compare_roots :: "tree_tables \<Rightarrow> nat \<Rightarrow> nat \<Rightarrow> climb result" where
  "compare_roots db l_cur r_cur =
     bindE (GetRow db l_cur) (\<lambda>l_row. bindE (GetRow db r_cur) (\<lambda>r_row.
       guardE (tree_ordinal l_row \<noteq> tree_ordinal r_row)
         (Inr (Returns (tree_ordinal l_row - tree_ordinal r_row) ROOT_SIBLINGS))))"

definition climb_round :: "tree_tables \<Rightarrow> nat \<Rightarrow> nat \<Rightarrow> nat \<Rightarrow> nat \<Rightarrow> mutuals \<Rightarrow> climb result" where
  "climb_round db l_key r_key l_cur r_cur cm =
     bindE (TryGetParentXLink db l_cur) (\<lambda>lp.
     bindE (TryGetParentXLink db r_cur) (\<lambda>rp.
       if lp = 0 \<and> rp = 0 then compare_roots db l_cur r_cur
       else case climb_left r_key lp l_cur r_cur cm of
         Climbs l_cur r_cur cm \<Rightarrow>
           (case climb_right l_key rp l_cur r_cur cm of
              Climbs l_cur r_cur cm \<Rightarrow> guardE (l_cur \<noteq> r_cur) (Inr (Climbs l_cur r_cur cm))
            | c \<Rightarrow> Inr c)
       | c \<Rightarrow> Inr c))"

definition compare_siblings :: "tree_tables \<Rightarrow> nat \<Rightarrow> nat \<Rightarrow> (int \<times> RelType) result" where
  "compare_siblings db l_cur r_cur =
     bindE (GetRow db l_cur) (\<lambda>l_row. bindE (GetRow db r_cur) (\<lambda>r_row.
       if item_ordinal l_row - item_ordinal r_row \<noteq> 0 then Inr (item_ordinal l_row - item_ordinal r_row, ITEM_SIBLINGS)
       else if container_ordinal l_row - container_ordinal r_row \<noteq> 0
       then Inr (container_ordinal l_row - container_ordinal r_row, CONTAINER_SIBLINGS)
       else Inl AssertFail))"

partial_function (option) climb_loop ::
    "tree_tables \<Rightarrow> nat \<Rightarrow> nat \<Rightarrow> nat \<Rightarrow> nat \<Rightarrow> mutuals \<Rightarrow> (int \<times> RelType) result option" where
  "climb_loop db l_key r_key l_cur r_cur cm =
     (case climb_round db l_key r_key l_cur r_cur cm of
        Inl e \<Rightarrow> Some (Inl e)
      | Inr (Returns d t) \<Rightarrow> Some (Inr (d, t))
      | Inr (Siblings l r) \<Rightarrow> Some (compare_siblings db l r)
      | Inr (Climbs l r cm) \<Rightarrow> climb_loop db l_key r_key l r cm)"

definition CompareHierarchical :: "tree_tables \<Rightarrow> nat \<Rightarrow> nat \<Rightarrow> (int \<times> RelType) result option" where
  "CompareHierarchical db l_key r_key =
     (if l_key = r_key then Some (Inr (0, EQUAL)) else climb_loop db l_key r_key l_key r_key (\<lambda>p. (0, 0)))"

definition DepthFirstRelation_Compare3Way :: "tree_tables \<Rightarrow> nat \<Rightarrow> nat \<Rightarrow> int result option" where
  "DepthFirstRelation_Compare3Way db l_key r_key = map_option (map_sum (\<lambda>e. e) fst) (CompareHierarchical db l_key r_key)"

definition DepthFirstRelation_less :: "tree_tables \<Rightarrow> nat \<Rightarrow> nat \<Rightarrow> bool result option" where
  "DepthFirstRelation_less db l_key r_key = map_option (map_sum (\<lambda>e. e) (\<lambda>d. d < 0)) (DepthFirstRelation_Compare3Way db l_key r_key)"

section \<open>Paths\<close>

text \<open>Tables that hold trees: every link has a row; the row of its parent node, if there is one, has a single
  incoming link, whose depth is one less; siblings differ in their position and roots in their tree.\<close>

definition parent :: "tree_tables \<Rightarrow> nat \<Rightarrow> nat" where
  "parent db x = (case TryGetParentXLink db x of Inr p \<Rightarrow> p | Inl e \<Rightarrow> 0)"

definition row :: "tree_tables \<Rightarrow> nat \<Rightarrow> link_row" where
  "row db x = the (link_rows db x)"

definition position :: "tree_tables \<Rightarrow> nat \<Rightarrow> int \<times> int" where
  "position db x = (item_ordinal (row db x), container_ordinal (row db x))"

definition tables_ok :: "tree_tables \<Rightarrow> (nat \<Rightarrow> nat) \<Rightarrow> bool" where
  "tables_ok db depth \<longleftrightarrow>
     link_rows db 0 = None
     \<and> (\<forall>x row. link_rows db x = Some row \<longrightarrow> child_of_link db x \<noteq> 0 \<and>
          (if parent_node row = 0 then depth x = 0
           else \<exists>node p. node_rows db (parent_node row) = Some node \<and> incoming_xlinks node = [p]
             \<and> link_rows db p \<noteq> None \<and> depth x = Suc (depth p)))
     \<and> (\<forall>x y. link_rows db x \<noteq> None \<longrightarrow> link_rows db y \<noteq> None \<longrightarrow> x \<noteq> y \<longrightarrow> parent db x = parent db y \<longrightarrow>
          (if parent db x = 0 then tree_ordinal (row db x) \<noteq> tree_ordinal (row db y) else position db x \<noteq> position db y))"

abbreviation linked :: "tree_tables \<Rightarrow> nat \<Rightarrow> bool" where
  "linked db x \<equiv> link_rows db x \<noteq> None"

lemma linked_parent:
  assumes "tables_ok db depth" "linked db x"
  shows "x \<noteq> 0" "GetRow db x = Inr (row db x)" "TryGetParentXLink db x = Inr (parent db x)"
    "parent db x = 0 \<longleftrightarrow> depth x = 0" "parent db x \<noteq> 0 \<Longrightarrow> linked db (parent db x) \<and> depth x = Suc (depth (parent db x))"
proof -
  obtain r where r: "link_rows db x = Some r" using assms(2) by auto
  have zero: "link_rows db 0 = None" using assms(1) by (simp add: tables_ok_def)
  then show x: "x \<noteq> 0" using r by (metis option.distinct(1))
  have c: "child_of_link db x \<noteq> 0" and p: "if parent_node r = 0 then depth x = 0
      else \<exists>node p. node_rows db (parent_node r) = Some node \<and> incoming_xlinks node = [p]
        \<and> link_rows db p \<noteq> None \<and> depth x = Suc (depth p)"
    using assms(1) r unfolding tables_ok_def by blast+
  show g: "GetRow db x = Inr (row db x)" using r x c by (simp add: GetRow_def row_def)
  have row: "row db x = r" using r by (simp add: row_def)
  consider "parent_node r = 0" "depth x = 0" | node q where "parent_node r \<noteq> 0" "node_rows db (parent_node r) = Some node"
      "incoming_xlinks node = [q]" "link_rows db q \<noteq> None" "depth x = Suc (depth q)"
    using p by (metis (full_types))
  then have "TryGetParentXLink db x = Inr (parent db x) \<and> (parent db x = 0 \<longleftrightarrow> depth x = 0)
      \<and> (parent db x \<noteq> 0 \<longrightarrow> linked db (parent db x) \<and> depth x = Suc (depth (parent db x)))"
  proof cases
    case 1
    then show ?thesis using g row by (simp add: parent_def TryGetParentXLink_def)
  next
    case 2
    then have "q \<noteq> 0" using zero by metis
    with 2 show ?thesis using g row
      by (simp add: parent_def TryGetParentXLink_def GetNodeRow_def SoloElementOf_def Let_def)
  qed
  then show "TryGetParentXLink db x = Inr (parent db x)" "parent db x = 0 \<longleftrightarrow> depth x = 0"
    "parent db x \<noteq> 0 \<Longrightarrow> linked db (parent db x) \<and> depth x = Suc (depth (parent db x))" by blast+
qed

text \<open>The ancestors of a link.\<close>

abbreviation up :: "tree_tables \<Rightarrow> nat \<Rightarrow> nat \<Rightarrow> nat" where
  "up db i x \<equiv> (parent db ^^ i) x"

lemma up_linked:
  assumes "tables_ok db depth" "linked db x" "i \<le> depth x"
  shows "linked db (up db i x) \<and> depth (up db i x) = depth x - i"
  using assms(3)
proof (induction i)
  case (Suc i)
  then have i: "linked db (up db i x)" "depth (up db i x) = depth x - i" by simp_all
  then have "depth (up db i x) \<noteq> 0" using Suc.prems by simp
  with linked_parent(4,5)[OF assms(1) i(1)] i(2) show ?case by (simp; arith)
qed (simp add: assms(2))

lemma up_inject:
  assumes "tables_ok db depth" "linked db x" "i \<le> depth x" "j \<le> depth x" "up db i x = up db j x"
  shows "i = j"
  using up_linked[OF assms(1-3)] up_linked[OF assms(1,2,4)] assms(3-5) by simp

text \<open>The path of a link: its tree, then its positions from the root down.\<close>

primrec positions :: "tree_tables \<Rightarrow> nat \<Rightarrow> nat \<Rightarrow> (int \<times> int) list" where
  "positions db 0 x = []"
| "positions db (Suc n) x = positions db n (parent db x) @ [position db x]"

definition path :: "tree_tables \<Rightarrow> (nat \<Rightarrow> nat) \<Rightarrow> nat \<Rightarrow> int \<times> (int \<times> int) list" where
  "path db depth x = (tree_ordinal (row db (up db (depth x) x)), positions db (depth x) x)"

text \<open>The reference comparison: at the first difference, whichever it is; a path that ends comes first.\<close>

fun compare_positions :: "(int \<times> int) list \<Rightarrow> (int \<times> int) list \<Rightarrow> int \<times> RelType" where
  "compare_positions [] [] = (0, EQUAL)"
| "compare_positions [] (y # ys) = (-1, LEFT_IS_ANCESTOR)"
| "compare_positions (x # xs) [] = (1, RIGHT_IS_ANCESTOR)"
| "compare_positions (x # xs) (y # ys) =
     (if fst x \<noteq> fst y then (fst x - fst y, ITEM_SIBLINGS)
      else if snd x \<noteq> snd y then (snd x - snd y, CONTAINER_SIBLINGS)
      else compare_positions xs ys)"

definition compare_paths :: "int \<times> (int \<times> int) list \<Rightarrow> int \<times> (int \<times> int) list \<Rightarrow> int \<times> RelType" where
  "compare_paths p q = (if fst p \<noteq> fst q then (fst p - fst q, ROOT_SIBLINGS) else compare_positions (snd p) (snd q))"

lemma compare_positions_prefix: "compare_positions (p @ xs) (p @ ys) = compare_positions xs ys"
  by (induction p) simp_all

lemma compare_positions_zero: "fst (compare_positions xs ys) = 0 \<longleftrightarrow> xs = ys"
  by (induction xs ys rule: compare_positions.induct) (auto simp: prod_eq_iff)

lemma three_way_positions: "three_way (\<lambda>xs ys. fst (compare_positions xs ys))"
proof -
  have flip: "fst (compare_positions xs ys) < 0 \<longleftrightarrow> fst (compare_positions ys xs) > 0" for xs ys
    by (induction xs ys rule: compare_positions.induct) auto
  have trans: "fst (compare_positions xs ys) \<le> 0 \<Longrightarrow> fst (compare_positions ys zs) \<le> 0 \<Longrightarrow> fst (compare_positions xs zs) \<le> 0"
    for xs ys zs
  proof (induction xs zs arbitrary: ys rule: compare_positions.induct)
    case (3 x xs)
    then show ?case by (cases ys) auto
  next
    case (4 x xs z zs)
    then show ?case by (cases ys) (auto split: if_splits)
  qed simp_all
  have "fst (compare_positions xs xs) = 0" for xs by (simp add: compare_positions_zero)
  then show ?thesis unfolding three_way_def using flip trans by blast
qed

lemma three_way_paths: "three_way (\<lambda>p q. fst (compare_paths p q))"
proof -
  have "(\<lambda>p q. fst (compare_paths p q)) = then_by (\<lambda>i j. i - j) (\<lambda>xs ys. fst (compare_positions xs ys))"
    by (intro ext) (simp add: compare_paths_def then_by_def Let_def)
  then show ?thesis using three_way_then_by[OF three_way_diff[of "\<lambda>i. i"] three_way_positions] by simp
qed

lemma compare_paths_zero: "fst (compare_paths p q) = 0 \<longleftrightarrow> p = q"
  by (auto simp: compare_paths_def compare_positions_zero prod_eq_iff)

lemma path_parent:
  assumes "tables_ok db depth" "linked db x" "depth x \<noteq> 0"
  shows "path db depth x = (fst (path db depth (parent db x)), snd (path db depth (parent db x)) @ [position db x])"
proof -
  have "parent db x \<noteq> 0" using linked_parent(4)[OF assms(1,2)] assms(3) by simp
  then have "depth x = Suc (depth (parent db x))" using linked_parent(5)[OF assms(1,2)] by simp
  then show ?thesis by (simp add: path_def funpow_swap1)
qed

lemma path_up:
  assumes "tables_ok db depth" "linked db x" "i < depth x"
  shows "\<exists>rest. path db depth x =
    (fst (path db depth (up db (Suc i) x)), snd (path db depth (up db (Suc i) x)) @ position db (up db i x) # rest)"
  using assms(3)
proof (induction i)
  case 0
  then show ?case using path_parent[OF assms(1,2)] by simp
next
  case (Suc i)
  then obtain rest where rest: "path db depth x =
      (fst (path db depth (up db (Suc i) x)), snd (path db depth (up db (Suc i) x)) @ position db (up db i x) # rest)"
    by auto
  have "linked db (up db (Suc i) x)" "depth (up db (Suc i) x) \<noteq> 0"
    using up_linked[OF assms(1,2), of "Suc i"] Suc.prems by simp_all
  from path_parent[OF assms(1) this] rest show ?case by simp
qed

lemma path_root:
  assumes "tables_ok db depth" "linked db x"
  shows "fst (path db depth x) = tree_ordinal (row db (up db (depth x) x))"
  by (simp add: path_def)

lemma path_inject:
  assumes "tables_ok db depth" "linked db x" "linked db y" "path db depth x = path db depth y"
  shows "x = y"
  using assms(2-4)
proof (induction "depth x" arbitrary: x y)
  case 0
  then have "depth y = 0" by (cases "depth y") (simp_all add: path_def)
  with 0 have "tree_ordinal (row db x) = tree_ordinal (row db y)" "parent db x = 0" "parent db y = 0"
    using linked_parent(4)[OF assms(1)] by (simp_all add: path_def)
  then show ?case using assms(1) 0(2,3) unfolding tables_ok_def by metis
next
  case (Suc n)
  have y: "depth y \<noteq> 0" using Suc(2,5) by (cases "depth y") (simp_all add: path_def flip: Suc(2))
  have x: "depth x \<noteq> 0" using Suc(2) by simp
  have px: "parent db x \<noteq> 0" "parent db y \<noteq> 0" using linked_parent(4)[OF assms(1)] Suc(3,4) x y by simp_all
  then have up: "linked db (parent db x)" "depth x = Suc (depth (parent db x))" "linked db (parent db y)"
    using linked_parent(5)[OF assms(1)] Suc(3,4) by simp_all
  have "path db depth (parent db x) = path db depth (parent db y)" and pos: "position db x = position db y"
    using path_parent[OF assms(1) Suc(3) x] path_parent[OF assms(1) Suc(4) y] Suc(5) by (simp_all add: prod_eq_iff)
  then have "parent db x = parent db y" using Suc(1)[of "parent db x" "parent db y"] Suc(2) up by simp
  then show ?case using assms(1) Suc(3,4) px(1) pos unfolding tables_ok_def by metis
qed

section \<open>The climb\<close>

lemma right_is_ancestor:
  assumes "tables_ok db depth" "linked db l" "i < depth l" "up db (Suc i) l = r"
  shows "compare_paths (path db depth l) (path db depth r) = (1, RIGHT_IS_ANCESTOR)"
proof -
  obtain q rest where "path db depth l = (fst (path db depth r), snd (path db depth r) @ q # rest)"
    using path_up[OF assms(1-3), unfolded assms(4)] by blast
  then show ?thesis using compare_positions_prefix[of "snd (path db depth r)" "q # rest" "[]"] by (simp add: compare_paths_def)
qed

lemma left_is_ancestor:
  assumes "tables_ok db depth" "linked db r" "i < depth r" "up db (Suc i) r = l"
  shows "compare_paths (path db depth l) (path db depth r) = (-1, LEFT_IS_ANCESTOR)"
proof -
  obtain q rest where "path db depth r = (fst (path db depth l), snd (path db depth l) @ q # rest)"
    using path_up[OF assms(1-3), unfolded assms(4)] by blast
  then show ?thesis using compare_positions_prefix[of "snd (path db depth l)" "[]" "q # rest"] by (simp add: compare_paths_def)
qed

lemma siblings_meet:
  assumes "tables_ok db depth" "linked db l" "linked db r" "i < depth l" "j < depth r"
    and "up db (Suc i) l = up db (Suc j) r" "up db i l \<noteq> up db j r"
  shows "compare_siblings db (up db i l) (up db j r) = Inr (compare_paths (path db depth l) (path db depth r))"
proof -
  let ?x = "up db i l" let ?y = "up db j r"
  have x: "linked db ?x" "depth ?x \<noteq> 0" and y: "linked db ?y"
    using up_linked[OF assms(1,2), of i] up_linked[OF assms(1,3), of j] assms(4,5) by simp_all
  then have "parent db ?x \<noteq> 0" "parent db ?x = parent db ?y" using linked_parent(4)[OF assms(1) x(1)] assms(6) by simp_all
  then have "position db ?x \<noteq> position db ?y" using assms(1,7) x(1) y unfolding tables_ok_def by metis
  then have "compare_siblings db ?x ?y = Inr (compare_positions (position db ?x # p) (position db ?y # q))" for p q
    using linked_parent(2)[OF assms(1)] x(1) y by (auto simp: compare_siblings_def position_def)
  with path_up[OF assms(1,2,4)] path_up[OF assms(1,3,5)] assms(6) show ?thesis
    by (auto simp del: compare_positions.simps funpow.simps simp: compare_paths_def compare_positions_prefix)
qed

lemma roots_differ:
  assumes "tables_ok db depth" "linked db l" "linked db r" "up db (depth l) l \<noteq> up db (depth r) r"
  shows "compare_roots db (up db (depth l) l) (up db (depth r) r) =
    Inr (case compare_paths (path db depth l) (path db depth r) of (d, t) \<Rightarrow> Returns d t)"
proof -
  let ?x = "up db (depth l) l" let ?y = "up db (depth r) r"
  have x: "linked db ?x" "depth ?x = 0" and y: "linked db ?y" "depth ?y = 0"
    using up_linked[OF assms(1,2), of "depth l"] up_linked[OF assms(1,3), of "depth r"] by simp_all
  then have "parent db ?x = 0" "parent db ?y = 0" using linked_parent(4)[OF assms(1)] by simp_all
  then have "tree_ordinal (row db ?x) \<noteq> tree_ordinal (row db ?y)"
    using assms(1,4) x(1) y(1) unfolding tables_ok_def by metis
  then show ?thesis using linked_parent(2)[OF assms(1)] x(1) y(1)
    by (simp add: compare_roots_def compare_paths_def path_root[OF assms(1)] assms(2,3))
qed

text \<open>After \<open>a\<close> steps on the left and \<open>b\<close> on the right no link has been seen on both sides, and the map
  holds, for each parent passed, the link it was reached from.\<close>

definition climbing :: "tree_tables \<Rightarrow> (nat \<Rightarrow> nat) \<Rightarrow> nat \<Rightarrow> nat \<Rightarrow> nat \<Rightarrow> nat \<Rightarrow> mutuals \<Rightarrow> bool" where
  "climbing db depth l r a b cm \<longleftrightarrow> a \<le> depth l \<and> b \<le> depth r
     \<and> (\<forall>i\<le>a. \<forall>j\<le>b. up db i l \<noteq> up db j r)
     \<and> (\<forall>i<a. fst (cm (up db (Suc i) l)) = up db i l) \<and> (\<forall>j<b. snd (cm (up db (Suc j) r)) = up db j r)
     \<and> (\<forall>p. fst (cm p) \<noteq> 0 \<longrightarrow> (\<exists>i<a. p = up db (Suc i) l)) \<and> (\<forall>p. snd (cm p) \<noteq> 0 \<longrightarrow> (\<exists>j<b. p = up db (Suc j) r))"

lemma climbing_swap: "climbing db depth r l b a (\<lambda>p. (snd (cm p), fst (cm p))) \<longleftrightarrow> climbing db depth l r a b cm"
proof -
  have apart: "(\<forall>i\<le>b. \<forall>j\<le>a. up db i r \<noteq> up db j l) = (\<forall>i\<le>a. \<forall>j\<le>b. up db i l \<noteq> up db j r)" by metis
  show ?thesis unfolding climbing_def apart fst_conv snd_conv by blast
qed

lemma climbing_start: "l \<noteq> r \<Longrightarrow> climbing db depth l r 0 0 (\<lambda>p. (0, 0))"
  by (simp add: climbing_def)

text \<open>The climb on one side goes on, or the answer is known.\<close>

definition answered :: "tree_tables \<Rightarrow> (nat \<Rightarrow> nat) \<Rightarrow> nat \<Rightarrow> nat \<Rightarrow> climb \<Rightarrow> bool" where
  "answered db depth l r c \<longleftrightarrow>
     (case c of Returns d t \<Rightarrow> (d, t) = compare_paths (path db depth l) (path db depth r)
      | Siblings x y \<Rightarrow> compare_siblings db x y = Inr (compare_paths (path db depth l) (path db depth r))
      | Climbs _ _ _ \<Rightarrow> False)"

lemma climbing_step:
  assumes "tables_ok db depth" "linked db l" "linked db r" "climbing db depth l r a b cm" "a < depth l"
    and "up db (Suc a) l \<noteq> r" "snd (cm (up db (Suc a) l)) = 0"
  shows "climbing db depth l r (Suc a) b (cm(up db (Suc a) l := (up db a l, snd (cm (up db (Suc a) l)))))"
proof -
  note inv = assms(4)[unfolded climbing_def]
  let ?p = "up db (Suc a) l"
  have apart: "?p \<noteq> up db j r" if "j \<le> b" for j
  proof (cases j)
    case 0
    then show ?thesis using assms(6) by simp
  next
    case (Suc i)
    then have "snd (cm (up db j r)) = up db i r" "linked db (up db i r)"
      using inv that up_linked[OF assms(1,3), of i] by auto
    then show ?thesis using assms(7) linked_parent(1)[OF assms(1)] by metis
  qed
  have new: "?p \<noteq> up db (Suc i) l" if "i < a" for i
    using up_inject[OF assms(1,2), of "Suc a" "Suc i"] that assms(5) by auto
  have "Suc a \<le> depth l" "b \<le> depth r" using inv assms(5) by simp_all
  moreover have "\<forall>i\<le>Suc a. \<forall>j\<le>b. up db i l \<noteq> up db j r" using inv apart by (auto simp: le_Suc_eq simp del: funpow.simps)
  moreover have "\<forall>i<Suc a. fst ((cm(?p := (up db a l, snd (cm ?p)))) (up db (Suc i) l)) = up db i l"
    using inv new[symmetric] by (auto simp: less_Suc_eq simp del: funpow.simps)
  moreover have "\<forall>j<b. snd ((cm(?p := (up db a l, snd (cm ?p)))) (up db (Suc j) r)) = up db j r"
  proof (intro allI impI)
    fix j assume "j < b"
    then have "snd (cm (up db (Suc j) r)) = up db j r" using inv by blast
    then show "snd ((cm(?p := (up db a l, snd (cm ?p)))) (up db (Suc j) r)) = up db j r"
      by (cases "up db (Suc j) r = ?p") (simp_all del: funpow.simps)
  qed
  moreover have "\<forall>p. fst ((cm(?p := (up db a l, snd (cm ?p)))) p) \<noteq> 0 \<longrightarrow> (\<exists>i<Suc a. p = up db (Suc i) l)"
  proof (intro allI impI)
    fix p assume "fst ((cm(?p := (up db a l, snd (cm ?p)))) p) \<noteq> 0"
    then have "p = ?p \<or> fst (cm p) \<noteq> 0" by (cases "p = ?p") (simp_all del: funpow.simps)
    then show "\<exists>i<Suc a. p = up db (Suc i) l" using inv less_SucI[of _ a] by blast
  qed
  moreover have "\<forall>p. snd ((cm(?p := (up db a l, snd (cm ?p)))) p) \<noteq> 0 \<longrightarrow> (\<exists>j<b. p = up db (Suc j) r)"
  proof (intro allI impI)
    fix p assume "snd ((cm(?p := (up db a l, snd (cm ?p)))) p) \<noteq> 0"
    then have "snd (cm p) \<noteq> 0" by (cases "p = ?p") (simp_all del: funpow.simps)
    then show "\<exists>j<b. p = up db (Suc j) r" using inv by blast
  qed
  ultimately show ?thesis unfolding climbing_def by blast
qed

lemma climb_left_ok:
  assumes "tables_ok db depth" "linked db l" "linked db r" "climbing db depth l r a b cm"
  shows "answered db depth l r (climb_left r (parent db (up db a l)) (up db a l) (up db b r) cm)
    \<or> (\<exists>cm'. climb_left r (parent db (up db a l)) (up db a l) (up db b r) cm = Climbs (up db (min (Suc a) (depth l)) l) (up db b r) cm'
         \<and> climbing db depth l r (min (Suc a) (depth l)) b cm')"
proof -
  note inv = assms(4)[unfolded climbing_def]
  let ?p = "up db (Suc a) l"
  have here: "linked db (up db a l)" "depth (up db a l) = depth l - a" using up_linked[OF assms(1,2)] inv by simp_all
  have zero: "?p = 0 \<longleftrightarrow> a = depth l" using linked_parent(4)[OF assms(1) here(1)] here(2) inv by auto
  consider "?p = 0" | "?p \<noteq> 0" "?p = r" | "?p \<noteq> 0" "?p \<noteq> r" "snd (cm ?p) \<noteq> 0" | "?p \<noteq> 0" "?p \<noteq> r" "snd (cm ?p) = 0" by blast
  then show ?thesis
  proof cases
    case 1
    then show ?thesis using zero assms(4) by (auto simp: climb_left_def)
  next
    case 2
    then have "a < depth l" using zero inv by auto
    from right_is_ancestor[OF assms(1,2) this 2(2)] 2 show ?thesis by (simp add: climb_left_def answered_def)
  next
    case 3
    then obtain j where j: "j < b" "?p = up db (Suc j) r" using inv by blast
    then have "snd (cm ?p) = up db j r" using inv by metis
    moreover have "a < depth l" "j < depth r" "up db a l \<noteq> up db j r" using zero inv 3 j(1) by auto
    ultimately show ?thesis using siblings_meet[OF assms(1-3) _ _ j(2)] 3 by (simp add: climb_left_def answered_def)
  next
    case 4
    then have "a < depth l" using zero inv by auto
    with climbing_step[OF assms(1-4) this 4(2,3)] 4 show ?thesis by (auto simp: climb_left_def)
  qed
qed

lemma climb_right_ok:
  assumes "tables_ok db depth" "linked db l" "linked db r" "climbing db depth l r a b cm"
  shows "answered db depth l r (climb_right l (parent db (up db b r)) (up db a l) (up db b r) cm)
    \<or> (\<exists>cm'. climb_right l (parent db (up db b r)) (up db a l) (up db b r) cm = Climbs (up db a l) (up db (min (Suc b) (depth r)) r) cm'
         \<and> climbing db depth l r a (min (Suc b) (depth r)) cm')"
proof -
  note inv = assms(4)[unfolded climbing_def]
  let ?p = "up db (Suc b) r"
  have here: "linked db (up db b r)" "depth (up db b r) = depth r - b" using up_linked[OF assms(1,3)] inv by simp_all
  have zero: "?p = 0 \<longleftrightarrow> b = depth r" using linked_parent(4)[OF assms(1) here(1)] here(2) inv by auto
  consider "?p = 0" | "?p \<noteq> 0" "?p = l" | "?p \<noteq> 0" "?p \<noteq> l" "fst (cm ?p) \<noteq> 0" | "?p \<noteq> 0" "?p \<noteq> l" "fst (cm ?p) = 0" by blast
  then show ?thesis
  proof cases
    case 1
    then show ?thesis using zero assms(4) by (auto simp: climb_right_def)
  next
    case 2
    then have "b < depth r" using zero inv by auto
    from left_is_ancestor[OF assms(1,3) this 2(2)] 2 show ?thesis by (simp add: climb_right_def answered_def)
  next
    case 3
    then obtain i where i: "i < a" "?p = up db (Suc i) l" using inv by blast
    then have "fst (cm ?p) = up db i l" using inv by metis
    moreover have "b < depth r" "i < depth l" "up db i l \<noteq> up db b r" using zero inv 3 i(1) by auto
    ultimately show ?thesis using siblings_meet[OF assms(1-3) _ _ i(2)[symmetric]] 3 by (simp add: climb_right_def answered_def)
  next
    case 4
    then have b: "b < depth r" using zero inv by auto
    have "climbing db depth r l b a (\<lambda>p. (snd (cm p), fst (cm p)))" using assms(4) by (simp add: climbing_swap)
    from climbing_step[OF assms(1,3,2) this b 4(2)] 4(3)
    have "climbing db depth r l (Suc b) a ((\<lambda>p. (snd (cm p), fst (cm p)))(?p := (up db b r, fst (cm ?p))))"
      by (simp del: funpow.simps)
    moreover have "(\<lambda>p. (snd (cm p), fst (cm p)))(?p := (up db b r, fst (cm ?p)))
        = (\<lambda>p. (snd ((cm(?p := (fst (cm ?p), up db b r))) p), fst ((cm(?p := (fst (cm ?p), up db b r))) p)))"
      by (intro ext) (simp del: funpow.simps)
    ultimately have "climbing db depth l r a (Suc b) (cm(?p := (fst (cm ?p), up db b r)))"
      by (simp only: climbing_swap)
    with 4 b show ?thesis by (auto simp: climb_right_def)
  qed
qed

text \<open>A round answers, or goes on with one step more on each side that is not at its root.\<close>

lemma climb_round_ok:
  assumes "tables_ok db depth" "linked db l" "linked db r" "climbing db depth l r a b cm"
  shows "\<exists>c. climb_round db l r (up db a l) (up db b r) cm = Inr c \<and>
    (answered db depth l r c \<or> (a < depth l \<or> b < depth r) \<and>
      (\<exists>cm'. c = Climbs (up db (min (Suc a) (depth l)) l) (up db (min (Suc b) (depth r)) r) cm'
        \<and> climbing db depth l r (min (Suc a) (depth l)) (min (Suc b) (depth r)) cm'))"
proof -
  let ?lp = "parent db (up db a l)" let ?rp = "parent db (up db b r)"
  let ?a = "min (Suc a) (depth l)" let ?b = "min (Suc b) (depth r)"
  note inv = assms(4)[unfolded climbing_def]
  have l: "linked db (up db a l)" "depth (up db a l) = depth l - a" using up_linked[OF assms(1,2)] inv by simp_all
  have r: "linked db (up db b r)" "depth (up db b r) = depth r - b" using up_linked[OF assms(1,3)] inv by simp_all
  note steps = linked_parent(3)[OF assms(1) l(1)] linked_parent(3)[OF assms(1) r(1)]
  show ?thesis
  proof (cases "?lp = 0 \<and> ?rp = 0")
    case True
    then have a: "a = depth l" "b = depth r" using linked_parent(4)[OF assms(1)] l r inv by simp_all
    have "up db (depth l) l \<noteq> up db (depth r) r" using inv a by simp
    from roots_differ[OF assms(1-3) this] True steps a show ?thesis
      by (auto simp: climb_round_def answered_def split: prod.splits)
  next
    case False
    then have more: "a < depth l \<or> b < depth r" using linked_parent(4)[OF assms(1)] l r by auto
    consider c where "climb_left r ?lp (up db a l) (up db b r) cm = c" "answered db depth l r c"
      | cm' where "climb_left r ?lp (up db a l) (up db b r) cm = Climbs (up db ?a l) (up db b r) cm'" "climbing db depth l r ?a b cm'"
      using climb_left_ok[OF assms] by blast
    then show ?thesis
    proof cases
      case 1
      then show ?thesis using steps False by (cases c) (auto simp: climb_round_def answered_def)
    next
      case 2
      consider c where "climb_right l ?rp (up db ?a l) (up db b r) cm' = c" "answered db depth l r c"
        | cm'' where "climb_right l ?rp (up db ?a l) (up db b r) cm' = Climbs (up db ?a l) (up db ?b r) cm''" "climbing db depth l r ?a ?b cm''"
        using climb_right_ok[OF assms(1-3) 2(2)] by blast
      then show ?thesis
      proof cases
        case (1 c)
        then show ?thesis using steps False 2 by (cases c) (auto simp: climb_round_def answered_def)
      next
        case c: (2 cm'')
        then have "up db ?a l \<noteq> up db ?b r" unfolding climbing_def by blast
        then show ?thesis using steps False 2 c more by (auto simp: climb_round_def)
      qed
    qed
  qed
qed

lemma climb_loop_ok:
  assumes "tables_ok db depth" "linked db l" "linked db r" "climbing db depth l r a b cm"
  shows "climb_loop db l r (up db a l) (up db b r) cm = Some (Inr (compare_paths (path db depth l) (path db depth r)))"
  using assms(4)
proof (induction "(depth l - a) + (depth r - b)" arbitrary: a b cm rule: less_induct)
  case less
  from climb_round_ok[OF assms(1-3) less.prems] obtain c where
    c: "climb_round db l r (up db a l) (up db b r) cm = Inr c" and
    next_round: "answered db depth l r c \<or> (a < depth l \<or> b < depth r) \<and>
      (\<exists>cm'. c = Climbs (up db (min (Suc a) (depth l)) l) (up db (min (Suc b) (depth r)) r) cm'
        \<and> climbing db depth l r (min (Suc a) (depth l)) (min (Suc b) (depth r)) cm')" by blast
  show ?case
  proof (cases "answered db depth l r c")
    case True
    then show ?thesis using c by (subst climb_loop.simps) (cases c; auto simp: answered_def)
  next
    case False
    then obtain cm' where cm': "c = Climbs (up db (min (Suc a) (depth l)) l) (up db (min (Suc b) (depth r)) r) cm'"
      "climbing db depth l r (min (Suc a) (depth l)) (min (Suc b) (depth r)) cm'" and more: "a < depth l \<or> b < depth r"
      using next_round by blast
    have "(depth l - min (Suc a) (depth l)) + (depth r - min (Suc b) (depth r)) < (depth l - a) + (depth r - b)"
      using more by auto
    from less.hyps[OF this cm'(2)] c cm'(1) show ?thesis by (subst climb_loop.simps) simp
  qed
qed

section \<open>The depth-first order\<close>

text \<open>C7: in a database of trees the comparison of two links returns, no assertion of it fails, and both the
  difference and the kind of relation are those of the first difference of the paths of the links, from the
  tree they are in down through the items and the places in the containers.\<close>

theorem CompareHierarchical_compares_paths:
  assumes "tables_ok db depth" "linked db l" "linked db r"
  shows "CompareHierarchical db l r = Some (Inr (compare_paths (path db depth l) (path db depth r)))"
proof (cases "l = r")
  case True
  then show ?thesis using compare_positions_prefix[of _ "[]" "[]"] by (simp add: CompareHierarchical_def compare_paths_def)
next
  case False
  from climb_loop_ok[OF assms climbing_start[OF this]] False show ?thesis by (simp add: CompareHierarchical_def)
qed

lemma Compare3Way_compares_paths:
  assumes "tables_ok db depth" "linked db l" "linked db r"
  shows "DepthFirstRelation_Compare3Way db l r = Some (Inr (fst (compare_paths (path db depth l) (path db depth r))))"
proof (cases "l = r")
  case True
  then show ?thesis using compare_positions_prefix[of _ "[]" "[]"]
    by (simp add: DepthFirstRelation_Compare3Way_def CompareHierarchical_def compare_paths_def)
next
  case False
  from climb_loop_ok[OF assms climbing_start[OF this]] False
  show ?thesis by (simp add: DepthFirstRelation_Compare3Way_def CompareHierarchical_def)
qed

lemma less_compares_paths:
  assumes "tables_ok db depth" "linked db l" "linked db r"
  shows "DepthFirstRelation_less db l r = Some (Inr (fst (compare_paths (path db depth l) (path db depth r)) < 0))"
  by (simp add: DepthFirstRelation_less_def Compare3Way_compares_paths[OF assms])

text \<open>C15: the depth-first relation is a total order of the links of a database of trees: the comparison is
  antisymmetric and transitive in sign, is 0 only for a link and itself, and the less-than operator agrees
  with it. Both return for all links.\<close>

theorem DepthFirst_total_order:
  assumes "tables_ok db depth"
  shows "\<exists>c. three_way c \<and> (\<forall>l r. linked db l \<longrightarrow> linked db r \<longrightarrow>
    DepthFirstRelation_Compare3Way db l r = Some (Inr (c l r))
    \<and> DepthFirstRelation_less db l r = Some (Inr (c l r < 0)) \<and> (c l r = 0 \<longleftrightarrow> l = r))"
proof (intro exI conjI allI impI)
  let ?c = "\<lambda>l r. fst (compare_paths (path db depth l) (path db depth r))"
  show "three_way ?c" by (rule three_way_key[OF three_way_paths])
  fix l r assume lr: "linked db l" "linked db r"
  show "DepthFirstRelation_Compare3Way db l r = Some (Inr (?c l r))" by (rule Compare3Way_compares_paths[OF assms lr])
  show "DepthFirstRelation_less db l r = Some (Inr (?c l r < 0))" by (rule less_compares_paths[OF assms lr])
  show "?c l r = 0 \<longleftrightarrow> l = r" using path_inject[OF assms lr] by (auto simp: compare_paths_zero)
qed

text \<open>What is between a path and a longer one is longer than the first, too.\<close>

lemma between_positions:
  "fst (compare_positions p q) \<le> 0 \<Longrightarrow> fst (compare_positions q (p @ rest)) \<le> 0 \<Longrightarrow> \<exists>s. q = p @ s"
proof (induction p arbitrary: q)
  case (Cons x p)
  then obtain y q' where q: "q = y # q'" by (cases q) auto
  then have "y = x" using Cons.prems by (auto simp: prod_eq_iff split: if_splits)
  then show ?case using Cons q by auto
qed simp

lemma path_of_ancestor:
  assumes "tables_ok db depth" "linked db x" "i \<le> depth x"
  shows "\<exists>rest. path db depth x = (fst (path db depth (up db i x)), snd (path db depth (up db i x)) @ rest) \<and> length rest = i"
proof (cases i)
  case (Suc j)
  then obtain rest where rest: "path db depth x = (fst (path db depth (up db i x)), snd (path db depth (up db i x)) @ rest)"
    using path_up[OF assms(1,2), of j] assms(3) by auto
  have len: "length (positions db n y) = n" for n y by (induction n arbitrary: y) simp_all
  have "length (snd (path db depth x)) = depth x" "length (snd (path db depth (up db i x))) = depth x - i"
    using up_linked[OF assms] by (simp_all add: path_def len)
  then have "length rest = i" using rest assms(3) by (metis diff_add_inverse2 diff_diff_cancel length_append add.commute snd_conv)
  with rest show ?thesis by blast
qed simp

text \<open>C14: the links under a link are an interval that it begins: what is not before a link and not after one of
  its descendants is below it, and a link is before all its proper descendants.\<close>

theorem subtree_is_interval:
  assumes "tables_ok db depth" "linked db a" "linked db x" "linked db y" "i \<le> depth y" "(parent db ^^ i) y = a"
  shows "(DepthFirstRelation_less db x a = Some (Inr False) \<and> DepthFirstRelation_less db y x = Some (Inr False)
      \<longrightarrow> (\<exists>j\<le>depth x. (parent db ^^ j) x = a))
    \<and> (i \<noteq> 0 \<longrightarrow> DepthFirstRelation_less db a y = Some (Inr True))"
proof -
  let ?c = "\<lambda>l r. fst (compare_paths (path db depth l) (path db depth r))"
  obtain rest where y: "path db depth y = (fst (path db depth a), snd (path db depth a) @ rest)" "length rest = i"
    using path_of_ancestor[OF assms(1,4,5)] assms(6) by blast
  have below: "\<exists>j\<le>depth x. up db j x = a" if le: "\<not> ?c x a < 0" "\<not> ?c y x < 0"
  proof -
    have ax: "?c a x \<le> 0" and xy: "?c x y \<le> 0" using le three_wayD(2)[OF three_way_paths] by (metis not_less)+
    then have tree: "fst (path db depth x) = fst (path db depth a)" using y(1) by (auto simp: compare_paths_def split: if_splits)
    with ax xy y(1) have "fst (compare_positions (snd (path db depth a)) (snd (path db depth x))) \<le> 0"
      "fst (compare_positions (snd (path db depth x)) (snd (path db depth a) @ rest)) \<le> 0"
      by (simp_all add: compare_paths_def)
    then obtain s where s: "snd (path db depth x) = snd (path db depth a) @ s" using between_positions by blast
    have len: "length (positions db n z) = n" for n z by (induction n arbitrary: z) simp_all
    have "length (snd (path db depth x)) = depth x" by (simp add: path_def len)
    then have j: "length s \<le> depth x" using s by simp
    then obtain s' where s': "path db depth x = (fst (path db depth (up db (length s) x)), snd (path db depth (up db (length s) x)) @ s')"
      "length s' = length s" using path_of_ancestor[OF assms(1,3)] by blast
    then have "path db depth (up db (length s) x) = path db depth a" using s tree by (simp add: prod_eq_iff)
    then show ?thesis using path_inject[OF assms(1)] up_linked[OF assms(1,3) j] assms(2) j by blast
  qed
  have "?c a y < 0" if "i \<noteq> 0"
  proof -
    have "rest \<noteq> []" using that y(2) by auto
    then obtain q s where "rest = q # s" by (cases rest) auto
    then show ?thesis using y(1) compare_positions_prefix[of "snd (path db depth a)" "[]" "q # s"] by (simp add: compare_paths_def)
  qed
  with below show ?thesis
    by (simp add: less_compares_paths[OF assms(1,3,2)] less_compares_paths[OF assms(1,4,3)] less_compares_paths[OF assms(1,2,4)])
qed

section \<open>An example\<close>

text \<open>Two trees: link 1 is the root of the first, links 2 and 3 are in a container of its node, and link 4 is
  below link 3; link 5 is the root of the second.\<close>

definition example_tables :: tree_tables where
  "example_tables = \<lparr>
     link_rows = [1 \<mapsto> \<lparr>parent_node = 0, item_ordinal = 0, container_ordinal = 0, tree_ordinal = 0\<rparr>,
       2 \<mapsto> \<lparr>parent_node = 10, item_ordinal = 1, container_ordinal = 0, tree_ordinal = 0\<rparr>,
       3 \<mapsto> \<lparr>parent_node = 10, item_ordinal = 1, container_ordinal = 1, tree_ordinal = 0\<rparr>,
       4 \<mapsto> \<lparr>parent_node = 13, item_ordinal = 0, container_ordinal = 0, tree_ordinal = 0\<rparr>,
       5 \<mapsto> \<lparr>parent_node = 0, item_ordinal = 0, container_ordinal = 0, tree_ordinal = 1\<rparr>],
     node_rows = [10 \<mapsto> \<lparr>incoming_xlinks = [1]\<rparr>, 13 \<mapsto> \<lparr>incoming_xlinks = [3]\<rparr>],
     child_of_link = (\<lambda>x. x + 9)\<rparr>"

definition example_depth :: "nat \<Rightarrow> nat" where
  "example_depth x = (if x = 1 \<or> x = 5 then 0 else if x = 4 then 2 else 1)"

lemma example_parent:
  "parent example_tables 1 = 0" "parent example_tables 2 = 1" "parent example_tables 3 = 1"
  "parent example_tables 4 = 3" "parent example_tables 5 = 0"
  by (simp_all add: parent_def TryGetParentXLink_def GetRow_def GetNodeRow_def SoloElementOf_def example_tables_def Let_def
    del: One_nat_def)

lemma example_linked: "linked example_tables x \<longleftrightarrow> x = 1 \<or> x = 2 \<or> x = 3 \<or> x = 4 \<or> x = 5"
  by (auto simp: example_tables_def)

lemma example_links:
  "linked example_tables 1" "linked example_tables 2" "linked example_tables 4" "linked example_tables 5"
  by (simp_all add: example_tables_def)

lemma example_tables_ok: "tables_ok example_tables example_depth"
  unfolding tables_ok_def
proof (intro conjI allI impI)
  show "link_rows example_tables 0 = None" by (simp add: example_tables_def)
  fix x r assume "link_rows example_tables x = Some r"
  then have "x = 1 \<or> x = 2 \<or> x = 3 \<or> x = 4 \<or> x = 5" "link_rows example_tables x = Some r" using example_linked[of x] by auto
  then show "child_of_link example_tables x \<noteq> 0"
    "if parent_node r = 0 then example_depth x = 0
     else \<exists>node p. node_rows example_tables (parent_node r) = Some node \<and> incoming_xlinks node = [p]
       \<and> link_rows example_tables p \<noteq> None \<and> example_depth x = Suc (example_depth p)"
    by (auto simp: example_tables_def example_depth_def)
next
  fix x y :: nat
  assume "linked example_tables x" "linked example_tables y" and "x \<noteq> y" "parent example_tables x = parent example_tables y"
  then have "x = 1 \<and> y = 5 \<or> x = 5 \<and> y = 1 \<or> x = 2 \<and> y = 3 \<or> x = 3 \<and> y = 2"
    unfolding example_linked using example_parent by auto
  then show "if parent example_tables x = 0 then tree_ordinal (row example_tables x) \<noteq> tree_ordinal (row example_tables y)
    else position example_tables x \<noteq> position example_tables y"
    using example_parent by (auto simp: row_def position_def example_tables_def)
qed

lemma CompareHierarchical_compares_paths_witness:
  "CompareHierarchical example_tables 4 2 =
    Some (Inr (compare_paths (path example_tables example_depth 4) (path example_tables example_depth 2)))
   \<and> compare_paths (path example_tables example_depth 4) (path example_tables example_depth 2) = (1, CONTAINER_SIBLINGS)"
proof
  show "CompareHierarchical example_tables 4 2 =
      Some (Inr (compare_paths (path example_tables example_depth 4) (path example_tables example_depth 2)))"
    by (rule CompareHierarchical_compares_paths[OF example_tables_ok example_links(3,2)])
  have "example_depth 4 = Suc (Suc 0)" "example_depth 2 = Suc 0" by (simp_all add: example_depth_def)
  then show "compare_paths (path example_tables example_depth 4) (path example_tables example_depth 2) = (1, CONTAINER_SIBLINGS)"
    using example_parent by (simp add: compare_paths_def path_def position_def row_def example_tables_def)
qed

lemma DepthFirst_total_order_witness: "\<exists>c. three_way c
   \<and> DepthFirstRelation_Compare3Way example_tables 1 5 = Some (Inr (c 1 5)) \<and> c 1 (5 :: nat) \<noteq> 0"
proof -
  obtain c where "three_way c" "\<forall>l r. linked example_tables l \<longrightarrow> linked example_tables r \<longrightarrow>
    DepthFirstRelation_Compare3Way example_tables l r = Some (Inr (c l r))
    \<and> DepthFirstRelation_less example_tables l r = Some (Inr (c l r < 0)) \<and> (c l r = 0 \<longleftrightarrow> l = r)"
    using DepthFirst_total_order[OF example_tables_ok] by blast
  moreover have "(1 :: nat) \<noteq> 5" by simp
  ultimately show ?thesis using example_links(1,4) by blast
qed

lemma subtree_is_interval_witness: "DepthFirstRelation_less example_tables 1 4 = Some (Inr True)"
proof -
  have up: "(parent example_tables ^^ 2) 4 = 1" using example_parent by (simp add: numeral_2_eq_2)
  have depth: "2 \<le> example_depth 4" by (simp add: example_depth_def)
  have "2 \<noteq> (0 :: nat)" by simp
  from subtree_is_interval[OF example_tables_ok example_links(1,1,3) depth up, THEN conjunct2, THEN mp, OF this]
  show ?thesis .
qed

end
