(* ===== verification/SimpleCompare.thy ===== *)
theory SimpleCompare
  imports "HOL-Library.Multiset" Csp ExpressionOrder
begin

text \<open>
  The comparison of program trees (\<^verbatim>\<open>helpers/simple_compare.cpp\<close>, with \<^verbatim>\<open>Orderable::OrderCompare3Way\<close> for one node): nodes
  are compared by type and contents, then by their items, recursively. Sequences are compared in order,
  collections as multisets that are sorted by the comparison itself.

  It is proved that no assertion fails and the comparison is a weak order; that without null pointers it is 0 for
  the same trees up to the order of collections only; and that two null pointers hide the items after them.

  A node is a value with its address. Its dynamic type is its rank among the \<^verbatim>\<open>std::type_index\<close> values, and its
  contents is what the \<^verbatim>\<open>OrderCompare3WayCovariant\<close> of its type compares. Sizes are integers, as the code casts them
  to \<^verbatim>\<open>int\<close>. A \<^verbatim>\<open>multiset\<close> is a list sorted by its comparison object, an element going after its equivalents.
\<close>

section \<open>Nodes\<close>

datatype OrderProperty = TOTAL | REPEATABLE

text \<open>A pointer to a node is an option. Items are what \<^verbatim>\<open>Itemise\<close> returns.\<close>

datatype node = Node (address: nat) (dynamic_type: nat) (contents: nat) (Itemise: "item list")
and item = Sequence "node option list" | Collection "node option list" | Singular "node option"

primrec pointers :: "item \<Rightarrow> node option list" where
  "pointers (Sequence ps) = ps"
| "pointers (Collection ps) = ps"
| "pointers (Singular p) = [p]"

definition nodes_of :: "item list \<Rightarrow> node set" where
  "nodes_of items = {n. \<exists>i \<in> set items. Some n \<in> set (pointers i)}"

lemma nodes_of_simps [simp]:
  "nodes_of [] = {}" "nodes_of (i # is') = {n. Some n \<in> set (pointers i)} \<union> nodes_of is'"
  by (auto simp: nodes_of_def)

lemma size_nodes_of:
  assumes "n \<in> nodes_of (Itemise x)" shows "size n < size x"
proof -
  obtain i where i: "i \<in> set (Itemise x)" "Some n \<in> set (pointers i)" using assms by (auto simp: nodes_of_def)
  have "size_option size (Some n) \<le> size i"
    using size_list_estimation'[OF i(2) order.refl, of "size_option size"] i(2) by (cases i) auto
  moreover have "size i \<le> size_list size (Itemise x)" by (rule size_list_estimation'[OF i(1) order.refl])
  ultimately show ?thesis by (cases x) simp
qed

section \<open>Comparison\<close>

text \<open>The comparison of contents is a parameter.\<close>

type_synonym content_compare = "OrderProperty \<Rightarrow> nat \<Rightarrow> nat \<Rightarrow> int"

definition Node_OrderCompare3Way :: "content_compare \<Rightarrow> node \<Rightarrow> node \<Rightarrow> OrderProperty \<Rightarrow> int" where
  "Node_OrderCompare3Way C l r order_property =
     (if dynamic_type l \<noteq> dynamic_type r then (if dynamic_type l > dynamic_type r then 1 else -1)
      else let id = C order_property (contents l) (contents r) in if id \<noteq> 0 then id else 0)"

type_synonym node_compare3 = "node \<Rightarrow> node \<Rightarrow> int result"

text \<open>\<^verbatim>\<open>if( Diff d = c ) return d;\<close> before the rest.\<close>

definition unless_zero :: "int result \<Rightarrow> int result \<Rightarrow> int result" where
  "unless_zero c rest = bindE c (\<lambda>d. if d \<noteq> 0 then Inr d else rest)"

definition pointer_difference :: "node option \<Rightarrow> node option \<Rightarrow> int" where
  "pointer_difference l r = of_bool (l \<noteq> None) - of_bool (r \<noteq> None)"

definition compare_pointers :: "node_compare3 \<Rightarrow> node option \<Rightarrow> node option \<Rightarrow> int result" where
  "compare_pointers cmp l r =
     (case (l, r) of (Some l, Some r) \<Rightarrow> cmp l r | _ \<Rightarrow> Inr (pointer_difference l r))"

fun compare_elements :: "node_compare3 \<Rightarrow> node option list \<Rightarrow> node option list \<Rightarrow> int result" where
  "compare_elements cmp [] rs = Inr 0"
| "compare_elements cmp (l # ls) [] = Inl Undefined"
| "compare_elements cmp (l # ls) (r # rs) =
     (case (l, r) of (Some x, Some y) \<Rightarrow> unless_zero (cmp x y) (compare_elements cmp ls rs) | _ \<Rightarrow> Inl NullDeref)"

definition compare_sequences :: "node_compare3 \<Rightarrow> node option list \<Rightarrow> node option list \<Rightarrow> int result" where
  "compare_sequences cmp l r =
     (let sd = int (length l) - int (length r) in if sd \<noteq> 0 then Inr sd else compare_elements cmp l r)"

fun multiset_insert :: "('a \<Rightarrow> 'a \<Rightarrow> bool result) \<Rightarrow> 'a \<Rightarrow> 'a list \<Rightarrow> 'a list result" where
  "multiset_insert lt x [] = Inr [x]"
| "multiset_insert lt x (y # ys) =
     bindE (lt x y) (\<lambda>b. if b then Inr (x # y # ys) else bindE (multiset_insert lt x ys) (\<lambda>r. Inr (y # r)))"

text \<open>The object as a less-than on pointers.\<close>

definition pointer_less :: "node_compare3 \<Rightarrow> node option \<Rightarrow> node option \<Rightarrow> bool result" where
  "pointer_less cmp l r = bindE (compare_pointers cmp l r) (\<lambda>d. Inr (d < 0))"

definition GetTreePtrOrdering :: "node_compare3 \<Rightarrow> node option list \<Rightarrow> node option list result" where
  "GetTreePtrOrdering cmp c = foldE (multiset_insert (pointer_less cmp)) c []"

fun lexicographical_compareE :: "('a \<Rightarrow> 'a \<Rightarrow> bool result) \<Rightarrow> 'a list \<Rightarrow> 'a list \<Rightarrow> bool result" where
  "lexicographical_compareE lt xs [] = Inr False"
| "lexicographical_compareE lt [] (y # ys) = Inr True"
| "lexicographical_compareE lt (x # xs) (y # ys) =
     bindE (lt x y) (\<lambda>b. if b then Inr True else
     bindE (lt y x) (\<lambda>b. if b then Inr False else lexicographical_compareE lt xs ys))"

definition LexicographicalCompareE :: "('a \<Rightarrow> 'a \<Rightarrow> bool result) \<Rightarrow> 'a list \<Rightarrow> 'a list \<Rightarrow> int result" where
  "LexicographicalCompareE lt c0 c1 =
     bindE (lexicographical_compareE lt c0 c1) (\<lambda>less_01.
     bindE (lexicographical_compareE lt c1 c0) (\<lambda>less_10. Inr (of_bool less_01 - of_bool less_10)))"

definition compare_collections :: "node_compare3 \<Rightarrow> node option list \<Rightarrow> node option list \<Rightarrow> int result" where
  "compare_collections cmp l r =
     (let sd = int (length l) - int (length r) in
      if sd \<noteq> 0 then Inr sd
      else bindE (GetTreePtrOrdering cmp l) (\<lambda>l_ordering. bindE (GetTreePtrOrdering cmp r) (\<lambda>r_ordering.
        LexicographicalCompareE (pointer_less cmp) l_ordering r_ordering)))"

text \<open>The loop over the items. Where the items of the right node are of another kind an assertion fails. Two
  singular pointers of which one is null end it.\<close>

fun compare_items :: "node_compare3 \<Rightarrow> item list \<Rightarrow> item list \<Rightarrow> int result" where
  "compare_items cmp [] rs = Inr 0"
| "compare_items cmp (l # ls) [] = Inl Undefined"
| "compare_items cmp (Sequence l # ls) (r # rs) =
     (case r of Sequence r \<Rightarrow> unless_zero (compare_sequences cmp l r) (compare_items cmp ls rs) | _ \<Rightarrow> Inl AssertFail)"
| "compare_items cmp (Collection l # ls) (r # rs) =
     (case r of Collection r \<Rightarrow> unless_zero (compare_collections cmp l r) (compare_items cmp ls rs) | _ \<Rightarrow> Inl AssertFail)"
| "compare_items cmp (Singular l # ls) (r # rs) =
     (case r of
        Singular r \<Rightarrow>
          (case (l, r) of
             (Some x, Some y) \<Rightarrow> unless_zero (cmp x y) (compare_items cmp ls rs)
           | _ \<Rightarrow> Inr (of_bool (r = None) - of_bool (l = None)))
      | _ \<Rightarrow> Inl AssertFail)"

text \<open>The operations call the comparison on nodes below the items only.\<close>

definition agree3 :: "node set \<Rightarrow> node_compare3 \<Rightarrow> node_compare3 \<Rightarrow> bool" where
  "agree3 A c c' \<longleftrightarrow> (\<forall>a \<in> A. \<forall>b \<in> A. c a b = c' a b)"

lemma agree3_mono: "agree3 A c c' \<Longrightarrow> B \<subseteq> A \<Longrightarrow> agree3 B c c'"
  by (auto simp: agree3_def)

lemma compare_elements_agree:
  "agree3 {n. Some n \<in> set ls \<union> set rs} c c' \<Longrightarrow> compare_elements c ls rs = compare_elements c' ls rs"
proof (induction c ls rs rule: compare_elements.induct)
  case (3 c l ls r rs)
  have "agree3 {n. Some n \<in> set ls \<union> set rs} c c'" by (rule agree3_mono[OF 3(2)]) auto
  with 3 show ?case by (auto simp: agree3_def unless_zero_def split: option.splits)
qed simp_all

lemma pointer_less_agree:
  "agree3 A c c' \<Longrightarrow> {n. Some n \<in> {l, r}} \<subseteq> A \<Longrightarrow> pointer_less c l r = pointer_less c' l r"
  by (cases l; cases r) (simp_all add: pointer_less_def compare_pointers_def agree3_def subset_iff)

lemma multiset_insert_agree:
  assumes "agree3 A c c'"
  shows "{n. Some n \<in> insert x (set ys)} \<subseteq> A \<Longrightarrow>
    multiset_insert (pointer_less c) x ys = multiset_insert (pointer_less c') x ys"
proof (induction ys)
  case (Cons y ys)
  have "pointer_less c x y = pointer_less c' x y" by (rule pointer_less_agree[OF assms]) (use Cons.prems in auto)
  moreover have "{n. Some n \<in> insert x (set ys)} \<subseteq> A" using Cons.prems by auto
  ultimately show ?case using Cons.IH by (simp cong: if_cong)
qed simp

lemma multiset_insert_set: "multiset_insert lt x ys = Inr zs \<Longrightarrow> set zs = insert x (set ys)"
  by (induction ys arbitrary: zs) (auto split: if_splits)

lemma foldE_insert_agree:
  assumes "agree3 A c c'"
  shows "{n. Some n \<in> set xs \<union> set s} \<subseteq> A \<Longrightarrow>
    foldE (multiset_insert (pointer_less c)) xs s = foldE (multiset_insert (pointer_less c')) xs s"
proof (induction xs arbitrary: s)
  case (Cons x xs)
  have "multiset_insert (pointer_less c) x s = multiset_insert (pointer_less c') x s"
    by (rule multiset_insert_agree[OF assms]) (use Cons.prems in auto)
  moreover have "foldE (multiset_insert (pointer_less c)) xs s' = foldE (multiset_insert (pointer_less c')) xs s'"
    if "multiset_insert (pointer_less c') x s = Inr s'" for s'
    by (rule Cons.IH) (use Cons.prems multiset_insert_set[OF that] in auto)
  ultimately show ?case by (cases "multiset_insert (pointer_less c') x s") simp_all
qed simp

lemma foldE_insert_set: "foldE (multiset_insert lt) xs s = Inr zs \<Longrightarrow> set zs = set xs \<union> set s"
  by (induction xs arbitrary: s) (auto dest: multiset_insert_set)

lemma lexicographical_compareE_agree:
  assumes "agree3 A c c'"
  shows "{n. Some n \<in> set xs \<union> set ys} \<subseteq> A \<Longrightarrow>
    lexicographical_compareE (pointer_less c) xs ys = lexicographical_compareE (pointer_less c') xs ys"
proof (induction xs ys rule: merge_induct)
  case (left_empty ys)
  then show ?case by (cases ys) simp_all
next
  case (step x xs y ys)
  have "pointer_less c x y = pointer_less c' x y" "pointer_less c y x = pointer_less c' y x"
    by (rule pointer_less_agree[OF assms]; use step.prems in auto)+
  moreover have "{n. Some n \<in> set xs \<union> set ys} \<subseteq> A" using step.prems by auto
  ultimately show ?case using step.IH(3) by (simp cong: if_cong)
qed simp

lemma compare_collections_agree:
  assumes "agree3 {n. Some n \<in> set l \<union> set r} c c'"
  shows "compare_collections c l r = compare_collections c' l r"
proof -
  have ord: "GetTreePtrOrdering c l = GetTreePtrOrdering c' l" "GetTreePtrOrdering c r = GetTreePtrOrdering c' r"
    unfolding GetTreePtrOrdering_def by (rule foldE_insert_agree[OF assms]; auto)+
  have "LexicographicalCompareE (pointer_less c) lo ro = LexicographicalCompareE (pointer_less c') lo ro"
    if "GetTreePtrOrdering c' l = Inr lo" "GetTreePtrOrdering c' r = Inr ro" for lo ro
    using foldE_insert_set[OF that(1)[unfolded GetTreePtrOrdering_def]] foldE_insert_set[OF that(2)[unfolded GetTreePtrOrdering_def]]
      lexicographical_compareE_agree[OF assms, of lo ro] lexicographical_compareE_agree[OF assms, of ro lo]
    by (simp add: LexicographicalCompareE_def Un_commute)
  with ord show ?thesis
    by (cases "GetTreePtrOrdering c' l"; cases "GetTreePtrOrdering c' r") (simp_all add: compare_collections_def Let_def)
qed

lemma compare_items_agree:
  "agree3 (nodes_of ls \<union> nodes_of rs) c c' \<Longrightarrow> compare_items c ls rs = compare_items c' ls rs"
proof (induction c ls rs rule: compare_items.induct)
  case (3 c l ls r rs)
  have rest: "compare_items c ls rs = compare_items c' ls rs" if "r = Sequence r'" for r'
    by (rule 3(1)[OF that]) (rule agree3_mono[OF 3(2)], auto)
  have "compare_elements c l r' = compare_elements c' l r'" if "r = Sequence r'" for r'
    by (rule compare_elements_agree) (rule agree3_mono[OF 3(2)], use that in auto)
  with rest show ?case by (cases r) (simp_all add: compare_sequences_def Let_def)
next
  case (4 c l ls r rs)
  have rest: "compare_items c ls rs = compare_items c' ls rs" if "r = Collection r'" for r'
    by (rule 4(1)[OF that]) (rule agree3_mono[OF 4(2)], auto)
  have "compare_collections c l r' = compare_collections c' l r'" if "r = Collection r'" for r'
    by (rule compare_collections_agree) (rule agree3_mono[OF 4(2)], use that in auto)
  with rest show ?case by (cases r) simp_all
next
  case (5 c l ls r rs)
  have rest: "compare_items c ls rs = compare_items c' ls rs" if "r = Singular (Some y)" "l = Some x" for x y
    by (rule 5(1)[OF that(1) _ that(2) refl]) (simp, rule agree3_mono[OF 5(2)], auto)
  have "c x y = c' x y" if "r = Singular (Some y)" "l = Some x" for x y
    using 5(2) that by (auto simp: agree3_def)
  with rest show ?case by (cases r) (auto simp: unless_zero_def split: option.splits)
qed simp_all

lemma compare_items_cong [fundef_cong]:
  "ls = ls' \<Longrightarrow> rs = rs' \<Longrightarrow>
    (\<And>a b. a \<in> nodes_of ls' \<union> nodes_of rs' \<Longrightarrow> b \<in> nodes_of ls' \<union> nodes_of rs' \<Longrightarrow> cmp a b = cmp' a b)
    \<Longrightarrow> compare_items cmp ls rs = compare_items cmp' ls' rs'"
  using compare_items_agree[of ls' rs' cmp cmp'] by (simp add: agree3_def)

function SimpleCompare_Compare3Way :: "content_compare \<Rightarrow> OrderProperty \<Rightarrow> node \<Rightarrow> node \<Rightarrow> int result" where
  "SimpleCompare_Compare3Way C order_property l r =
     (if address l = address r then Inr 0
      else let cd = Node_OrderCompare3Way C l r order_property in if cd \<noteq> 0 then Inr cd
      else let sd = int (length (Itemise l)) - int (length (Itemise r)) in if sd \<noteq> 0 then Inr sd
      else compare_items (\<lambda>a b. SimpleCompare_Compare3Way C order_property a b) (Itemise l) (Itemise r))"
  by pat_completeness auto

termination SimpleCompare_Compare3Way
  by (relation "measure (\<lambda>(C, order_property, l, r). max (size l) (size r))") (auto dest!: size_nodes_of)

declare SimpleCompare_Compare3Way.simps [simp del]

definition SimpleCompare_less :: "content_compare \<Rightarrow> OrderProperty \<Rightarrow> node option \<Rightarrow> node option \<Rightarrow> bool result" where
  "SimpleCompare_less C order_property = pointer_less (SimpleCompare_Compare3Way C order_property)"

section \<open>The comparison without failures\<close>

definition pointer_compare :: "(node \<Rightarrow> node \<Rightarrow> int) \<Rightarrow> node option \<Rightarrow> node option \<Rightarrow> int" where
  "pointer_compare c l r = (case (l, r) of (Some l, Some r) \<Rightarrow> c l r | _ \<Rightarrow> pointer_difference l r)"

abbreviation pointer_lt :: "(node \<Rightarrow> node \<Rightarrow> int) \<Rightarrow> node option \<Rightarrow> node option \<Rightarrow> bool" where
  "pointer_lt c l r \<equiv> pointer_compare c l r < 0"

fun insert_upper :: "('a \<Rightarrow> 'a \<Rightarrow> bool) \<Rightarrow> 'a \<Rightarrow> 'a list \<Rightarrow> 'a list" where
  "insert_upper lt x [] = [x]"
| "insert_upper lt x (y # ys) = (if lt x y then x # y # ys else y # insert_upper lt x ys)"

definition sort_upper :: "('a \<Rightarrow> 'a \<Rightarrow> bool) \<Rightarrow> 'a list \<Rightarrow> 'a list" where
  "sort_upper lt xs = fold (insert_upper lt) xs []"

fun lex3 :: "('a \<Rightarrow> 'a \<Rightarrow> int) \<Rightarrow> 'a list \<Rightarrow> 'a list \<Rightarrow> int" where
  "lex3 c [] [] = 0"
| "lex3 c [] (y # ys) = -1"
| "lex3 c (x # xs) [] = 1"
| "lex3 c (x # xs) (y # ys) = (if c x y \<noteq> 0 then c x y else lex3 c xs ys)"

text \<open>Lists by their lengths, and then by a key.\<close>

definition by_length :: "('b \<Rightarrow> 'b \<Rightarrow> int) \<Rightarrow> ('a list \<Rightarrow> 'b) \<Rightarrow> 'a list \<Rightarrow> 'a list \<Rightarrow> int" where
  "by_length c key l r = (if length l \<noteq> length r then int (length l) - int (length r) else c (key l) (key r))"

primrec item_kind :: "item \<Rightarrow> nat" where
  "item_kind (Sequence ps) = 0"
| "item_kind (Collection ps) = 1"
| "item_kind (Singular p) = 2"

definition item_compare :: "(node \<Rightarrow> node \<Rightarrow> int) \<Rightarrow> item \<Rightarrow> item \<Rightarrow> int" where
  "item_compare c i j =
     (if item_kind i \<noteq> item_kind j then int (item_kind i) - int (item_kind j)
      else case i of
        Sequence l \<Rightarrow> by_length (lex3 (pointer_compare c)) (\<lambda>l. l) l (pointers j)
      | Collection l \<Rightarrow> by_length (LexicographicalCompare (pointer_lt c)) (sort_upper (pointer_lt c)) l (pointers j)
      | Singular l \<Rightarrow> pointer_compare c l (hd (pointers j)))"

text \<open>Items up to the first null pointer.\<close>

primrec up_to_null :: "item list \<Rightarrow> item list" where
  "up_to_null [] = []"
| "up_to_null (i # is') = i # (if i = Singular None then [] else up_to_null is')"

definition node_compare_by :: "content_compare \<Rightarrow> OrderProperty \<Rightarrow> (node \<Rightarrow> node \<Rightarrow> int) \<Rightarrow> node \<Rightarrow> node \<Rightarrow> int" where
  "node_compare_by C p c l r =
     (let cd = Node_OrderCompare3Way C l r p in
      if cd \<noteq> 0 then cd else by_length (lex3 (item_compare c)) up_to_null (Itemise l) (Itemise r))"

primrec tree_compare :: "content_compare \<Rightarrow> OrderProperty \<Rightarrow> nat \<Rightarrow> node \<Rightarrow> node \<Rightarrow> int" where
  "tree_compare C p 0 l r = 0"
| "tree_compare C p (Suc n) l r = node_compare_by C p (tree_compare C p n) l r"

lemma compare_pointers_pure [simp]: "compare_pointers (\<lambda>a b. Inr (c a b)) l r = Inr (pointer_compare c l r)"
  by (simp add: compare_pointers_def pointer_compare_def split: option.splits)

lemma pointer_less_pure: "pointer_less (\<lambda>a b. Inr (c a b)) = (\<lambda>l r. Inr (pointer_lt c l r))"
  by (intro ext) (simp add: pointer_less_def)

lemma multiset_insert_pure: "multiset_insert (\<lambda>a b. Inr (lt a b)) x ys = Inr (insert_upper lt x ys)"
  by (induction ys) simp_all

lemma ordering_pure: "GetTreePtrOrdering (\<lambda>a b. Inr (c a b)) xs = Inr (sort_upper (pointer_lt c) xs)"
proof -
  have "foldE (multiset_insert (\<lambda>l r. Inr (pointer_lt c l r))) xs s = Inr (fold (insert_upper (pointer_lt c)) xs s)" for s
    by (induction xs arbitrary: s) (simp_all add: multiset_insert_pure)
  then show ?thesis by (simp add: GetTreePtrOrdering_def pointer_less_pure sort_upper_def)
qed

lemma lexicographical_compare_pure:
  "lexicographical_compareE (\<lambda>a b. Inr (lt a b)) xs ys = Inr (lexicographical_compare lt xs ys)"
proof (induction xs ys rule: merge_induct)
  case (left_empty ys)
  then show ?case by (cases ys) simp_all
qed simp_all

lemma compare_collections_pure:
  "compare_collections (\<lambda>a b. Inr (c a b)) l r
    = Inr (by_length (LexicographicalCompare (pointer_lt c)) (sort_upper (pointer_lt c)) l r)"
  by (simp add: compare_collections_def ordering_pure by_length_def Let_def pointer_less_pure LexicographicalCompareE_def
      lexicographical_compare_pure LexicographicalCompare_def)

lemma compare_sequences_pure:
  assumes "None \<notin> set l" "None \<notin> set r"
  shows "compare_sequences (\<lambda>a b. Inr (c a b)) l r = Inr (by_length (lex3 (pointer_compare c)) (\<lambda>l. l) l r)"
proof -
  have "compare_elements (\<lambda>a b. Inr (c a b)) l r = Inr (lex3 (pointer_compare c) l r)" if "length l = length r"
    using that assms
  proof (induction rule: list_induct2)
    case (Cons x xs y ys)
    then show ?case by (cases x; cases y) (simp_all add: unless_zero_def pointer_compare_def)
  qed simp
  then show ?thesis by (simp add: compare_sequences_def by_length_def Let_def)
qed

text \<open>Program trees have no null pointer in a sequence.\<close>

definition sequences_full :: "item list \<Rightarrow> bool" where
  "sequences_full items \<longleftrightarrow> (\<forall>ps. Sequence ps \<in> set items \<longrightarrow> None \<notin> set ps)"

lemma compare_items_pure:
  "map item_kind ls = map item_kind rs \<Longrightarrow> sequences_full ls \<Longrightarrow> sequences_full rs \<Longrightarrow>
    compare_items (\<lambda>a b. Inr (c a b)) ls rs = Inr (lex3 (item_compare c) (up_to_null ls) (up_to_null rs))"
proof (induction ls arbitrary: rs)
  case (Cons i ls)
  then obtain j rs' where rs: "rs = j # rs'" and kind: "item_kind i = item_kind j" "map item_kind ls = map item_kind rs'" by auto
  have full: "sequences_full ls" "sequences_full rs'" using Cons.prems(2,3) rs by (simp_all add: sequences_full_def)
  note IH = Cons.IH[OF kind(2) full]
  show ?case
  proof (cases i)
    case (Sequence l)
    then obtain r where j: "j = Sequence r" using kind(1) by (cases j) simp_all
    then have "None \<notin> set l" "None \<notin> set r" using Cons.prems(2,3) Sequence rs by (auto simp: sequences_full_def)
    from compare_sequences_pure[OF this] IH show ?thesis by (simp add: Sequence j rs unless_zero_def item_compare_def)
  next
    case (Collection l)
    then obtain r where j: "j = Collection r" using kind(1) by (cases j) simp_all
    with IH show ?thesis by (simp add: Collection rs unless_zero_def item_compare_def compare_collections_pure)
  next
    case (Singular l)
    then obtain r where j: "j = Singular r" using kind(1) by (cases j) simp_all
    with IH show ?thesis
      by (cases l; cases r) (simp_all add: Singular rs unless_zero_def item_compare_def pointer_compare_def pointer_difference_def)
  qed
qed simp

section \<open>A weak order\<close>

lemma three_way_lex3:
  assumes "three_way c" shows "three_way (lex3 c)"
proof (rule three_wayI)
  note d = three_wayD[OF assms]
  show "lex3 c xs xs = 0" for xs by (induction xs) (simp_all add: d(1))
  show "lex3 c xs ys < 0 \<longleftrightarrow> lex3 c ys xs > 0" for xs ys
  proof (induction xs ys rule: merge_induct)
    case (left_empty ys)
    then show ?case by (cases ys) simp_all
  next
    case (step x xs y ys)
    show ?case
    proof (cases "c x y = 0")
      case True
      then show ?thesis using d(3)[of x y] step(3) by simp
    next
      case False
      then show ?thesis using d(3)[of x y] d(2)[of x y] by simp
    qed
  qed simp
  show "lex3 c xs ys \<le> 0 \<Longrightarrow> lex3 c ys zs \<le> 0 \<Longrightarrow> lex3 c xs zs \<le> 0" for xs ys zs
  proof (induction xs arbitrary: ys zs)
    case Nil
    then show ?case by (cases zs) simp_all
  next
    case (Cons x xs)
    then obtain y ys' where ys: "ys = y # ys'" by (cases ys) simp_all
    then obtain z zs' where zs: "zs = z # zs'" using Cons.prems(2) by (cases zs) simp_all
    have le: "c x y \<le> 0" "c y z \<le> 0" using Cons.prems ys zs by (auto split: if_splits)
    show ?case
    proof (cases "c x y = 0 \<and> c y z = 0")
      case True
      then have "c x z = 0" using three_way_zero_trans[OF assms] by blast
      with True Cons.IH[of ys' zs'] Cons.prems ys zs show ?thesis by simp
    next
      case False
      then have "c x z < 0" using le d(5)[of x y z] d(6)[of x y z] by linarith
      then show ?thesis using zs by simp
    qed
  qed
qed

lemma three_way_pointer:
  assumes "three_way c" shows "three_way (pointer_compare c)"
proof (rule three_wayI)
  note d = three_wayD[OF assms]
  show "pointer_compare c l l = 0" for l by (cases l) (simp_all add: pointer_compare_def pointer_difference_def d(1))
  show "pointer_compare c l r < 0 \<longleftrightarrow> pointer_compare c r l > 0" for l r
    by (cases l; cases r) (simp_all add: pointer_compare_def pointer_difference_def d(2))
  fix l m r assume "pointer_compare c l m \<le> 0" "pointer_compare c m r \<le> 0"
  then show "pointer_compare c l r \<le> 0"
    using d(4)[of "the l" "the m" "the r"]
    by (cases l; cases m; cases r) (simp_all add: pointer_compare_def pointer_difference_def)
qed

lemma three_way_by_length:
  assumes "three_way c" shows "three_way (by_length c key)"
proof -
  have "by_length c key = (\<lambda>l r. then_by (\<lambda>i j. i - j) c (int (length l), key l) (int (length r), key r))"
    by (intro ext) (simp add: by_length_def then_by_def Let_def)
  then show ?thesis
    using three_way_key[OF three_way_then_by[OF three_way_diff[of "\<lambda>i. i"] assms], of "\<lambda>l. (int (length l), key l)"] by simp
qed

lemma three_way_Lexicographical:
  assumes "strict_weak_order lt" shows "three_way (LexicographicalCompare lt)"
proof -
  note swo = strict_weak_order.lexicographic[OF assms]
  note asym = strict_weak_order.asym[OF swo]
  have c: "LexicographicalCompare lt x y \<le> 0 \<longleftrightarrow> \<not> lexicographical_compare lt x y" for x y
    using asym[of x y] by (auto simp: LexicographicalCompare_def Let_def)
  show ?thesis
  proof (rule three_wayI)
    show "LexicographicalCompare lt x x = 0" for x by (simp add: LexicographicalCompare_def)
    show "LexicographicalCompare lt x y < 0 \<longleftrightarrow> LexicographicalCompare lt y x > 0" for x y
      by (auto simp: LexicographicalCompare_def Let_def)
    show "LexicographicalCompare lt x y \<le> 0 \<Longrightarrow> LexicographicalCompare lt y z \<le> 0 \<Longrightarrow> LexicographicalCompare lt x z \<le> 0" for x y z
      unfolding c by (rule strict_weak_order.neg_trans[OF swo])
  qed
qed

lemma three_way_item:
  assumes "three_way c" shows "three_way (item_compare c)"
proof -
  define P S K where "P = pointer_compare c" and "S = by_length (lex3 (pointer_compare c)) (\<lambda>l. l)"
    and "K = by_length (LexicographicalCompare (pointer_lt c)) (sort_upper (pointer_lt c))"
  have P: "three_way P" unfolding P_def by (rule three_way_pointer[OF assms])
  have S: "three_way S" unfolding S_def by (rule three_way_by_length[OF three_way_lex3[OF three_way_pointer[OF assms]]])
  have K: "three_way K"
    unfolding K_def by (rule three_way_by_length[OF three_way_Lexicographical[OF three_way_order[OF three_way_pointer[OF assms]]]])
  note d = three_wayD[OF P] and e = three_wayD[OF S] and f = three_wayD[OF K]
  have item: "item_compare c i j =
     (if item_kind i \<noteq> item_kind j then int (item_kind i) - int (item_kind j)
      else case i of Sequence l \<Rightarrow> S l (pointers j) | Collection l \<Rightarrow> K l (pointers j) | Singular l \<Rightarrow> P l (hd (pointers j)))" for i j
    unfolding P_def S_def K_def by (rule item_compare_def)
  show ?thesis
  proof (rule three_wayI)
    show "item_compare c i i = 0" for i by (cases i) (simp_all add: item d(1) e(1) f(1))
    show "item_compare c i j < 0 \<longleftrightarrow> item_compare c j i > 0" for i j
      by (cases i; cases j) (simp_all add: item d(2) e(2) f(2))
    fix i j k assume "item_compare c i j \<le> 0" "item_compare c j k \<le> 0"
    then show "item_compare c i k \<le> 0"
      using d(4)[of "hd (pointers i)" "hd (pointers j)" "hd (pointers k)"] e(4)[of "pointers i" "pointers j" "pointers k"]
        f(4)[of "pointers i" "pointers j" "pointers k"]
      by (cases i; cases j; cases k) (simp_all add: item)
  qed
qed

lemma three_way_local:
  assumes "three_way (C p)" shows "three_way (\<lambda>l r. Node_OrderCompare3Way C l r p)"
proof -
  have "Node_OrderCompare3Way C l r p = then_by (\<lambda>x y. if x = y then 0 else if x < y then -1 else 1) (C p)
      (dynamic_type l, contents l) (dynamic_type r, contents r)" for l r
    by (simp add: Node_OrderCompare3Way_def then_by_def Let_def)
  then show ?thesis
    using three_way_key[OF three_way_then_by[OF three_way_by assms], of "\<lambda>n. (dynamic_type n, contents n)"] by simp
qed

lemma three_way_node:
  assumes "three_way (C p)" "three_way c" shows "three_way (node_compare_by C p c)"
proof -
  have "node_compare_by C p c = (\<lambda>l r. then_by (\<lambda>l r. Node_OrderCompare3Way C l r p)
      (by_length (lex3 (item_compare c)) up_to_null) (l, Itemise l) (r, Itemise r))"
    by (intro ext) (simp add: node_compare_by_def then_by_def Let_def)
  then show ?thesis
    using three_way_key[OF three_way_then_by[OF three_way_local[of C p, OF assms(1)]
        three_way_by_length[OF three_way_lex3[OF three_way_item[OF assms(2)]], of up_to_null]], of "\<lambda>n. (n, Itemise n)"] by simp
qed

lemma three_way_tree: "three_way (C p) \<Longrightarrow> three_way (tree_compare C p n)"
proof (induction n)
  case 0
  show ?case by (rule three_wayI) simp_all
next
  case (Suc n)
  then have "three_way (node_compare_by C p (tree_compare C p n))" by (intro three_way_node)
  then show ?case by (simp add: three_way_def)
qed

text \<open>The nodes of a program: with a node all below it, one node for each address, items of the kinds that the type
  has, and no null pointers in sequences.\<close>

definition program_nodes :: "node set \<Rightarrow> bool" where
  "program_nodes S \<longleftrightarrow> (\<forall>x \<in> S. nodes_of (Itemise x) \<subseteq> S \<and> sequences_full (Itemise x))
     \<and> (\<forall>x \<in> S. \<forall>y \<in> S. address x = address y \<longrightarrow> x = y)
     \<and> (\<forall>x \<in> S. \<forall>y \<in> S. dynamic_type x = dynamic_type y \<longrightarrow> map item_kind (Itemise x) = map item_kind (Itemise y))"

lemma local_zero_type: "Node_OrderCompare3Way C l r p = 0 \<Longrightarrow> dynamic_type l = dynamic_type r"
  by (auto simp: Node_OrderCompare3Way_def split: if_splits)

lemma Compare3Way_tree:
  assumes "program_nodes S" "three_way (C p)"
  shows "l \<in> S \<Longrightarrow> r \<in> S \<Longrightarrow> size l < n \<Longrightarrow> size r < n \<Longrightarrow>
    SimpleCompare_Compare3Way C p l r = Inr (tree_compare C p n l r)"
proof (induction n arbitrary: l r)
  case (Suc n)
  show ?case
  proof (cases "l = r")
    case True
    then show ?thesis using three_wayD(1)[OF three_way_tree[of C p "Suc n", OF assms(2)]]
      by (simp add: SimpleCompare_Compare3Way.simps[of C p r r])
  next
    case False
    then have addr: "address l \<noteq> address r" using assms(1) Suc.prems unfolding program_nodes_def by blast
    have "agree3 (nodes_of (Itemise l) \<union> nodes_of (Itemise r)) (SimpleCompare_Compare3Way C p) (\<lambda>a b. Inr (tree_compare C p n a b))"
      unfolding agree3_def
    proof (intro ballI)
      fix a b assume ab: "a \<in> nodes_of (Itemise l) \<union> nodes_of (Itemise r)" "b \<in> nodes_of (Itemise l) \<union> nodes_of (Itemise r)"
      then have "a \<in> S" "b \<in> S" using assms(1) Suc.prems(1,2) unfolding program_nodes_def by blast+
      moreover have "size a < n" "size b < n" using ab size_nodes_of[of _ l] size_nodes_of[of _ r] Suc.prems(3,4) by fastforce+
      ultimately show "SimpleCompare_Compare3Way C p a b = Inr (tree_compare C p n a b)" by (rule Suc.IH)
    qed
    note items = compare_items_agree[OF this]
    have "compare_items (\<lambda>a b. Inr (tree_compare C p n a b)) (Itemise l) (Itemise r)
        = Inr (lex3 (item_compare (tree_compare C p n)) (up_to_null (Itemise l)) (up_to_null (Itemise r)))"
      if "Node_OrderCompare3Way C l r p = 0"
      using compare_items_pure[of "Itemise l" "Itemise r"] assms(1) Suc.prems(1,2) local_zero_type[OF that]
      unfolding program_nodes_def by blast
    with items addr show ?thesis
      by (simp add: SimpleCompare_Compare3Way.simps[of C p l r] node_compare_by_def by_length_def Let_def)
  qed
qed simp

text \<open>C16: on the pointers to the nodes of a program, null included, the comparison is a weak order and no assertion
  of it fails; the less-than operator agrees with it.\<close>

theorem SimpleCompare_weak_order:
  assumes "finite S" "program_nodes S" "three_way (C p)"
  shows "\<exists>c. three_way c \<and> (\<forall>l \<in> insert None (Some ` S). \<forall>r \<in> insert None (Some ` S).
    compare_pointers (SimpleCompare_Compare3Way C p) l r = Inr (c l r) \<and> SimpleCompare_less C p l r = Inr (c l r < 0))"
proof -
  obtain n where n: "\<forall>x \<in> S. size x < n" using finite_nat_set_iff_bounded[of "size ` S"] assms(1) by auto
  let ?c = "pointer_compare (tree_compare C p n)"
  have eq: "compare_pointers (SimpleCompare_Compare3Way C p) l r = Inr (?c l r)"
    if "l \<in> insert None (Some ` S)" "r \<in> insert None (Some ` S)" for l r
    using that Compare3Way_tree[of S C p _ _ n, OF assms(2,3)] n
    by (auto simp: compare_pointers_def pointer_compare_def split: option.splits)
  show ?thesis
    using three_way_pointer[OF three_way_tree[of C p n, OF assms(3)]] eq
    by (intro exI[of _ ?c]) (simp add: SimpleCompare_less_def pointer_less_def)
qed

section \<open>What compares equal\<close>

text \<open>The same tree up to the order of collections. A collection matches when some arrangement of the other one does.\<close>

fun same_item :: "(node \<Rightarrow> node \<Rightarrow> bool) \<Rightarrow> item \<Rightarrow> item \<Rightarrow> bool" where
  "same_item R (Sequence l) (Sequence r) = list_all2 (rel_option R) l r"
| "same_item R (Collection l) (Collection r) = (\<exists>r'. mset r' = mset r \<and> list_all2 (rel_option R) l r')"
| "same_item R (Singular l) (Singular r) = rel_option R l r"
| "same_item R _ _ = False"

lemma same_item_mono [mono]:
  assumes "\<And>x y. R x y \<longrightarrow> R' x y" shows "same_item R i j \<longrightarrow> same_item R' i j"
proof -
  have opt: "rel_option R x y \<Longrightarrow> rel_option R' x y" for x y using assms by (auto elim: option.rel_mono_strong)
  then have list: "list_all2 (rel_option R) l r \<Longrightarrow> list_all2 (rel_option R') l r" for l r by (auto elim: list_all2_mono)
  show ?thesis
  proof (cases i; cases j)
    fix l r assume "i = Collection l" "j = Collection r"
    then show ?thesis using list by auto
  qed (use opt list in auto)
qed

inductive same_tree :: "node \<Rightarrow> node \<Rightarrow> bool" where
  "dynamic_type l = dynamic_type r \<Longrightarrow> contents l = contents r \<Longrightarrow> list_all2 (same_item same_tree) (Itemise l) (Itemise r)
    \<Longrightarrow> same_tree l r"

inductive_simps same_tree_iff: "same_tree l r"

lemma lex3_zero: "lex3 c xs ys = 0 \<longleftrightarrow> list_all2 (\<lambda>x y. c x y = 0) xs ys"
  by (induction c xs ys rule: lex3.induct) auto

lemma insert_upper_mset [simp]: "mset (insert_upper lt x ys) = add_mset x (mset ys)"
  by (induction ys) auto

lemma sort_upper_mset [simp]: "mset (sort_upper lt xs) = mset xs"
proof -
  have "mset (fold (insert_upper lt) xs s) = mset xs + mset s" for s by (induction xs arbitrary: s) simp_all
  then show ?thesis by (simp add: sort_upper_def)
qed

lemma insert_upper_sorted:
  assumes "strict_weak_order lt"
  shows "sorted_wrt (\<lambda>x y. \<not> lt y x) ys \<Longrightarrow> sorted_wrt (\<lambda>x y. \<not> lt y x) (insert_upper lt x ys)"
proof (induction ys)
  case (Cons y ys)
  have set_ins: "set (insert_upper lt x zs) = insert x (set zs)" for zs by (induction zs) auto
  show ?case
  proof (cases "lt x y")
    case True
    have "\<not> lt z x" if "z \<in> set ys" for z
    proof
      assume "lt z x"
      then have "lt z y" using True strict_weak_order.trans[OF assms] by blast
      with Cons.prems that show False by simp
    qed
    with True Cons.prems strict_weak_order.asym[OF assms True] show ?thesis by auto
  next
    case False
    with Cons show ?thesis by (auto simp: set_ins)
  qed
qed simp

lemma sort_upper_sorted: "strict_weak_order lt \<Longrightarrow> sorted_wrt (\<lambda>x y. \<not> lt y x) (sort_upper lt xs)"
proof -
  assume swo: "strict_weak_order lt"
  have "sorted_wrt (\<lambda>x y. \<not> lt y x) (fold (insert_upper lt) xs s)" if "sorted_wrt (\<lambda>x y. \<not> lt y x) s" for s
    using that by (induction xs arbitrary: s) (simp_all add: insert_upper_sorted[OF swo])
  then show ?thesis by (simp add: sort_upper_def)
qed

text \<open>Sorted lists with the same classes of equivalent elements have them in the same order.\<close>

definition equal_class :: "('a \<Rightarrow> 'a \<Rightarrow> int) \<Rightarrow> 'a \<Rightarrow> 'a set" where
  "equal_class c x = {y. c x y = 0}"

lemma equal_class_iff:
  assumes "three_way c" shows "equal_class c x = equal_class c y \<longleftrightarrow> c x y = 0"
proof
  note d = three_wayD[OF assms]
  show "c x y = 0" if "equal_class c x = equal_class c y"
  proof -
    have "y \<in> equal_class c y" by (simp add: equal_class_def d(1))
    then show ?thesis using that by (auto simp: equal_class_def)
  qed
  show "equal_class c x = equal_class c y" if "c x y = 0"
    using three_way_zero_trans[OF assms, of x y] three_way_zero_trans[OF assms, of y x] that d(3)[of x y]
    by (auto simp: equal_class_def)
qed

lemma sorted_classes:
  assumes "three_way c"
  shows "sorted_wrt (\<lambda>x y. \<not> c y x < 0) xs \<Longrightarrow> sorted_wrt (\<lambda>x y. \<not> c y x < 0) ys \<Longrightarrow>
    image_mset (equal_class c) (mset xs) = image_mset (equal_class c) (mset ys) \<Longrightarrow>
    map (equal_class c) xs = map (equal_class c) ys"
proof (induction xs arbitrary: ys)
  case (Cons x xs)
  note d = three_wayD[OF assms]
  obtain y ys' where ys: "ys = y # ys'" using Cons.prems(3) by (cases ys) auto
  have first: "c u v \<le> 0" if sorted: "sorted_wrt (\<lambda>x y. \<not> c y x < 0) (u # us)"
    and equal: "equal_class c v \<in> equal_class c ` set (u # us)" for u us v
  proof -
    obtain w where w: "w \<in> set (u # us)" "equal_class c v = equal_class c w" using equal by blast
    then have "c v w = 0" by (simp add: equal_class_iff[OF assms])
    have "c u w \<le> 0" using w(1) sorted d(1)[of u] d(2)[of w u] by auto
    with \<open>c v w = 0\<close> show ?thesis using d(4)[of u w v] d(3)[of v w] by simp
  qed
  have "set (map (equal_class c) (x # xs)) = set (map (equal_class c) (y # ys'))"
    using Cons.prems(3) ys by (metis mset_map mset_eq_setD)
  then have "equal_class c y \<in> equal_class c ` set (x # xs)" "equal_class c x \<in> equal_class c ` set (y # ys')" by auto
  then have "c x y \<le> 0" "c y x \<le> 0" using first Cons.prems(1,2) ys by blast+
  then have "c x y = 0" using d(2)[of x y] d(2)[of y x] by linarith
  then have eq: "equal_class c x = equal_class c y" by (simp add: equal_class_iff[OF assms])
  with Cons.prems(3) ys have "image_mset (equal_class c) (mset xs) = image_mset (equal_class c) (mset ys')" by simp
  with Cons.IH[of ys'] Cons.prems(1,2) ys eq show ?case by simp
qed simp

lemma map_classes:
  assumes "three_way c" shows "map (equal_class c) xs = map (equal_class c) ys \<longleftrightarrow> list_all2 (\<lambda>x y. c x y = 0) xs ys"
  by (induction xs ys rule: list_induct2') (simp_all add: equal_class_iff[OF assms])

lemma sorted_match:
  assumes "three_way c"
  shows "list_all2 (\<lambda>x y. c x y = 0) (sort_upper (\<lambda>x y. c x y < 0) l) (sort_upper (\<lambda>x y. c x y < 0) r)
    \<longleftrightarrow> (\<exists>r'. mset r' = mset r \<and> list_all2 (\<lambda>x y. c x y = 0) l r')" (is "?sorted \<longleftrightarrow> ?some")
proof
  let ?l = "sort_upper (\<lambda>x y. c x y < 0) l" let ?r = "sort_upper (\<lambda>x y. c x y < 0) r"
  show "?sorted \<Longrightarrow> ?some"
    using list_all2_reorder_left_invariance[of "\<lambda>x y. c x y = 0" ?l ?r l] by auto
  assume ?some
  then obtain r' where r': "mset r' = mset r" "list_all2 (\<lambda>x y. c x y = 0) l r'" by blast
  then have "mset (map (equal_class c) l) = mset (map (equal_class c) r')" by (simp only: map_classes[OF assms, symmetric])
  then have "image_mset (equal_class c) (mset ?l) = image_mset (equal_class c) (mset ?r)" using r'(1) by simp
  from sorted_classes[OF assms sort_upper_sorted sort_upper_sorted this] three_way_order[OF assms]
  show ?sorted by (simp add: map_classes[OF assms])
qed

lemma pointer_compare_zero:
  assumes "\<And>a b. p = Some a \<Longrightarrow> q = Some b \<Longrightarrow> c a b = 0 \<longleftrightarrow> R a b"
  shows "pointer_compare c p q = 0 \<longleftrightarrow> rel_option R p q"
  using assms by (cases p; cases q) (simp_all add: pointer_compare_def pointer_difference_def)

lemma list_all2_same:
  assumes "\<And>x y. x \<in> set xs \<Longrightarrow> y \<in> set ys \<Longrightarrow> P x y \<longleftrightarrow> Q x y"
  shows "list_all2 P xs ys \<longleftrightarrow> list_all2 Q xs ys"
  using assms by (auto simp: list_all2_conv_all_nth)

lemma item_compare_zero:
  assumes "three_way c" "\<And>a b. Some a \<in> set (pointers i) \<Longrightarrow> Some b \<in> set (pointers j) \<Longrightarrow> c a b = 0 \<longleftrightarrow> R a b"
  shows "item_compare c i j = 0 \<longleftrightarrow> same_item R i j"
proof (cases "item_kind i = item_kind j")
  case False
  then show ?thesis by (cases i; cases j) (simp_all add: item_compare_def)
next
  case True
  note ptr = three_way_pointer[OF assms(1)]
  have zero: "pointer_compare c p q = 0 \<longleftrightarrow> rel_option R p q" if "p \<in> set (pointers i)" "q \<in> set (pointers j)" for p q
    using that assms(2) by (intro pointer_compare_zero) blast
  show ?thesis
  proof (cases i)
    case (Sequence l)
    then obtain r where j: "j = Sequence r" using True by (cases j) simp_all
    have "list_all2 (\<lambda>p q. pointer_compare c p q = 0) l r \<longleftrightarrow> list_all2 (rel_option R) l r"
      using zero Sequence j by (intro list_all2_same) simp
    then show ?thesis using Sequence j list_all2_lengthD[of "rel_option R" l r]
      by (auto simp: item_compare_def by_length_def lex3_zero)
  next
    case (Collection l)
    then obtain r where j: "j = Collection r" using True by (cases j) simp_all
    have same: "list_all2 (\<lambda>p q. pointer_compare c p q = 0) l r' \<longleftrightarrow> list_all2 (rel_option R) l r'" if "mset r' = mset r" for r'
      using zero Collection j mset_eq_setD[OF that] by (intro list_all2_same) simp
    have eq: "equivalent (pointer_lt c) = (\<lambda>p q. pointer_compare c p q = 0)"
      by (intro ext) (rule three_way_equivalent[OF ptr])
    have "LexicographicalCompare (pointer_lt c) (sort_upper (pointer_lt c) l) (sort_upper (pointer_lt c) r) = 0
        \<longleftrightarrow> (\<exists>r'. mset r' = mset r \<and> list_all2 (\<lambda>p q. pointer_compare c p q = 0) l r')"
      by (simp only: strict_weak_order.LexicographicalCompare_zero[OF three_way_order[OF ptr]] eq sorted_match[OF ptr])
    also have "\<dots> \<longleftrightarrow> same_item R i j" using same Collection j by auto
    finally have z: "LexicographicalCompare (pointer_lt c) (sort_upper (pointer_lt c) l) (sort_upper (pointer_lt c) r) = 0
        \<longleftrightarrow> same_item R i j" .
    have "length l = length r" if same: "same_item R i j"
    proof -
      obtain r' where "mset r' = mset r" "list_all2 (rel_option R) l r'" using same Collection j by auto
      then show ?thesis using list_all2_lengthD mset_eq_length by metis
    qed
    with z show ?thesis using Collection j by (auto simp: item_compare_def by_length_def)
  next
    case (Singular l)
    then obtain r where j: "j = Singular r" using True by (cases j) simp_all
    then show ?thesis using zero Singular by (simp add: item_compare_def)
  qed
qed

text \<open>No null pointers in the nodes.\<close>

definition complete_nodes :: "node set \<Rightarrow> bool" where
  "complete_nodes S \<longleftrightarrow> (\<forall>x \<in> S. \<forall>i \<in> set (Itemise x). None \<notin> set (pointers i))"

lemma cut_complete: "\<forall>i \<in> set items. None \<notin> set (pointers i) \<Longrightarrow> up_to_null items = items"
  by (induction items) auto

lemma tree_compare_zero:
  assumes "program_nodes S" "complete_nodes S" "three_way (C p)" "\<And>x y. C p x y = 0 \<longleftrightarrow> x = y"
  shows "l \<in> S \<Longrightarrow> r \<in> S \<Longrightarrow> size l < n \<Longrightarrow> size r < n \<Longrightarrow> tree_compare C p n l r = 0 \<longleftrightarrow> same_tree l r"
proof (induction n arbitrary: l r)
  case (Suc n)
  have up_to_null: "up_to_null (Itemise l) = Itemise l" "up_to_null (Itemise r) = Itemise r"
    using assms(2) Suc.prems(1,2) by (auto simp: complete_nodes_def intro!: cut_complete)
  have here: "Node_OrderCompare3Way C l r p = 0 \<longleftrightarrow> dynamic_type l = dynamic_type r \<and> contents l = contents r"
    using assms(4) by (auto simp: Node_OrderCompare3Way_def Let_def)
  have "item_compare (tree_compare C p n) i j = 0 \<longleftrightarrow> same_item same_tree i j"
    if ij: "i \<in> set (Itemise l)" "j \<in> set (Itemise r)" for i j
  proof (rule item_compare_zero[OF three_way_tree[of C p n, OF assms(3)]])
    fix a b assume "Some a \<in> set (pointers i)" "Some b \<in> set (pointers j)"
    then have a: "a \<in> nodes_of (Itemise l)" and b: "b \<in> nodes_of (Itemise r)" using ij by (auto simp: nodes_of_def)
    then have "a \<in> S" "b \<in> S" using assms(1) Suc.prems(1,2) unfolding program_nodes_def by blast+
    moreover have "size a < n" "size b < n" using size_nodes_of[OF a] size_nodes_of[OF b] Suc.prems(3,4) by simp_all
    ultimately show "tree_compare C p n a b = 0 \<longleftrightarrow> same_tree a b" by (rule Suc.IH)
  qed
  then have "list_all2 (\<lambda>i j. item_compare (tree_compare C p n) i j = 0) (Itemise l) (Itemise r)
      \<longleftrightarrow> list_all2 (same_item same_tree) (Itemise l) (Itemise r)"
    by (rule list_all2_same)
  then show ?case
    using here up_to_null list_all2_lengthD[of "same_item same_tree" "Itemise l" "Itemise r"]
    by (auto simp: node_compare_by_def by_length_def lex3_zero same_tree_iff[of l r] Let_def)
qed simp

text \<open>C8: between nodes of a program without null pointers, whose contents compare equal only when they are equal,
  the comparison is 0 exactly when the trees are the same up to the order of their collections.\<close>

theorem SimpleCompare_match:
  assumes "program_nodes S" "complete_nodes S" "three_way (C p)" "\<And>x y. C p x y = 0 \<longleftrightarrow> x = y" "l \<in> S" "r \<in> S"
  shows "SimpleCompare_Compare3Way C p l r = Inr 0 \<longleftrightarrow> same_tree l r"
proof -
  let ?n = "Suc (size l + size r)"
  have "SimpleCompare_Compare3Way C p l r = Inr (tree_compare C p ?n l r)"
    using Compare3Way_tree[of S C p l r ?n, OF assms(1,3)] assms(5,6) by simp
  moreover have "tree_compare C p ?n l r = 0 \<longleftrightarrow> same_tree l r"
    using tree_compare_zero[of S C p l r ?n, OF assms(1-4)] assms(5,6) by simp
  ultimately show ?thesis by simp
qed

lemma compare_items_prefix:
  "length is' = length js \<Longrightarrow> compare_items c is' js = Inr 0 \<Longrightarrow>
    compare_items c (is' @ Singular None # ls) (js @ Singular None # rs) = Inr 0"
proof (induction is' js rule: list_induct2)
  case (Cons i is' j js)
  show ?case
  proof (cases i)
    case (Sequence l)
    then show ?thesis using Cons by (cases j) (auto simp: unless_zero_def split: if_splits)
  next
    case (Collection l)
    then show ?thesis using Cons by (cases j) (auto simp: unless_zero_def split: if_splits)
  next
    case (Singular l)
    then show ?thesis using Cons by (cases j) (auto simp: unless_zero_def split: if_splits option.splits)
  qed
qed simp

text \<open>C31: a null pointer on both sides ends the comparison as a match: whatever items come after it, the nodes compare
  equal when their types and contents do and the items before it do.\<close>

theorem SimpleCompare_null_hides_rest:
  assumes "dynamic_type l = dynamic_type r" "C p (contents l) (contents r) = 0"
    and "Itemise l = is' @ Singular None # ls" "Itemise r = js @ Singular None # rs"
    and "length is' = length js" "length ls = length rs"
    and "compare_items (SimpleCompare_Compare3Way C p) is' js = Inr 0"
  shows "SimpleCompare_Compare3Way C p l r = Inr 0"
  using assms compare_items_prefix[OF assms(5,7), of ls rs]
  by (simp add: SimpleCompare_Compare3Way.simps[of C p l r] Node_OrderCompare3Way_def Let_def)

section \<open>Examples\<close>

definition example_contents :: content_compare where
  "example_contents p x y = int x - int y"

definition example_leaf_node :: "nat \<Rightarrow> nat \<Rightarrow> node" where
  "example_leaf_node a x = Node a 1 x []"

definition example_collection :: "nat \<Rightarrow> node option list \<Rightarrow> node" where
  "example_collection a ps = Node a 2 0 [Collection ps]"

definition example_program :: "node set" where
  "example_program = {example_leaf_node 1 5, example_leaf_node 2 7, example_leaf_node 3 5, example_leaf_node 4 7,
     example_collection 5 [Some (example_leaf_node 1 5), Some (example_leaf_node 2 7)],
     example_collection 6 [Some (example_leaf_node 4 7), Some (example_leaf_node 3 5)]}"

lemma example_nodes_ok: "program_nodes example_program" "complete_nodes example_program" "finite example_program"
  unfolding program_nodes_def complete_nodes_def sequences_full_def example_program_def example_leaf_node_def example_collection_def
  by auto

lemma example_contents_laws: "three_way (example_contents p)" "example_contents p x y = 0 \<longleftrightarrow> x = y"
  by (simp_all add: three_way_def example_contents_def)

lemma SimpleCompare_weak_order_witness:
  "\<exists>c. three_way c \<and> SimpleCompare_less example_contents TOTAL None (Some (example_leaf_node 1 5)) = Inr (c None (Some (example_leaf_node 1 5)) < 0)"
  using SimpleCompare_weak_order[of example_program example_contents TOTAL, OF example_nodes_ok(3,1) example_contents_laws(1)]
  by (auto simp: example_program_def)

lemma SimpleCompare_match_witness:
  "SimpleCompare_Compare3Way example_contents TOTAL
     (example_collection 5 [Some (example_leaf_node 1 5), Some (example_leaf_node 2 7)])
     (example_collection 6 [Some (example_leaf_node 4 7), Some (example_leaf_node 3 5)]) = Inr 0"
proof -
  let ?l = "example_collection 5 [Some (example_leaf_node 1 5), Some (example_leaf_node 2 7)]"
  let ?r = "example_collection 6 [Some (example_leaf_node 4 7), Some (example_leaf_node 3 5)]"
  have leaves: "same_tree (example_leaf_node 1 5) (example_leaf_node 3 5)" "same_tree (example_leaf_node 2 7) (example_leaf_node 4 7)"
    by (rule same_tree.intros; simp add: example_leaf_node_def)+
  have "same_item same_tree (Collection [Some (example_leaf_node 1 5), Some (example_leaf_node 2 7)])
      (Collection [Some (example_leaf_node 4 7), Some (example_leaf_node 3 5)])"
    using leaves by (auto intro!: exI[of _ "[Some (example_leaf_node 3 5), Some (example_leaf_node 4 7)]"])
  then have "same_tree ?l ?r" by (intro same_tree.intros) (simp_all add: example_collection_def)
  moreover have "?l \<in> example_program" "?r \<in> example_program" by (simp_all add: example_program_def)
  ultimately show ?thesis
    using SimpleCompare_match[of example_program example_contents TOTAL ?l ?r, OF example_nodes_ok(1,2) example_contents_laws]
    by blast
qed

lemma SimpleCompare_null_hides_rest_witness:
  "SimpleCompare_Compare3Way example_contents TOTAL
     (Node 1 3 0 [Singular None, Singular (Some (example_leaf_node 2 5))]) (Node 3 3 0 [Singular None, Singular (Some (example_leaf_node 4 7))])
     = Inr 0
   \<and> SimpleCompare_Compare3Way example_contents TOTAL (example_leaf_node 2 5) (example_leaf_node 4 7) \<noteq> Inr 0"
proof
  show "SimpleCompare_Compare3Way example_contents TOTAL
      (Node 1 3 0 [Singular None, Singular (Some (example_leaf_node 2 5))]) (Node 3 3 0 [Singular None, Singular (Some (example_leaf_node 4 7))])
      = Inr 0"
    by (rule SimpleCompare_null_hides_rest[of _ _ _ _ "[]" "[Singular (Some (example_leaf_node 2 5))]" "[]"
          "[Singular (Some (example_leaf_node 4 7))]"]) (simp_all add: example_contents_def)
  show "SimpleCompare_Compare3Way example_contents TOTAL (example_leaf_node 2 5) (example_leaf_node 4 7) \<noteq> Inr 0"
    unfolding example_leaf_node_def
    by (subst SimpleCompare_Compare3Way.simps) (simp add: Node_OrderCompare3Way_def example_contents_def)
qed

end
