(* ===== verification/Spec2Isabelle.thy ===== *)
theory Spec2Isabelle
  imports TruthTable Solver_Test Rewriters SymbolicConstraint Relations DepthFirst SimpleCompare
begin

text \<open>
  A verification library for the search-and-replace engine of inferno-cpp2v: its symbolic expressions,
  its truth table solver and its constraint solvers, with the containers and loops they are written with.
  All paths are under \<^verbatim>\<open>src/\<close> of the repository's own \<^verbatim>\<open>src\<close> directory.

  The parts and how they interact. The engine turns a pattern into boolean expressions over variables whose
  values are links of a tree (\<^verbatim>\<open>vn/sym\<close>). Each conjunct becomes a constraint
  (\<^verbatim>\<open>vn/csp/symbolic_constraint.cpp\<close>). When it is made, the constraint has the truth table solver
  (\<^verbatim>\<open>vn/sym/sym_solver.cpp\<close>) solve its expression for each variable and each set of given variables,
  and keeps the solutions as expressions. A solver (\<^verbatim>\<open>vn/csp/reference_solver.cpp\<close>,
  \<^verbatim>\<open>backjumping_solver.cpp\<close>) then searches for assignments: a value selector takes the candidates for
  a variable from what the constraints suggest, which is what their solution expressions evaluate to, and
  the constraints are checked once all their variables are assigned. The candidates that a category predicate
  allows are a range of an ordering that the database keeps (\<^verbatim>\<open>vn/db/cat_relation.cpp\<close>), by the ordinals that the
  lacing (\<^verbatim>\<open>vn/db/lacing.cpp\<close>) gives to categories; ties in it, and the ordering of links, are decided by serial
  numbers (\<^verbatim>\<open>common/serial.cpp\<close>). Depth-first predicates use the order of links in the tree
  (\<^verbatim>\<open>vn/db/df_relation.cpp\<close>), and equality of subtrees the comparison of \<^verbatim>\<open>helpers/simple_compare.cpp\<close>.

  Theories, in the order of the code's layers.

  \<^item> \<open>Prelude\<close>: the error layer. A failed \<^verbatim>\<open>ASSERT\<close>, an exception of the standard library and undefined
    behaviour are error values, as is a null dereference; a fallible operation returns \<open>error + 'a\<close>; \<open>bindE\<close>, \<open>mapE\<close>, \<open>foldE\<close> and
    \<open>guardE\<close> thread the errors through sequences of statements, loops and assertions.
  \<^item> \<open>Containers\<close>, \<open>KeyedMaps\<close>: the set and map helpers of \<^verbatim>\<open>common/common.hpp\<close> and \<^verbatim>\<open>orderable\<close>. A
    \<^verbatim>\<open>std::set\<close> is a list sorted by its comparison object, a \<^verbatim>\<open>std::map\<close> a list of entries sorted by key.
    The locale \<open>strict_weak_order\<close> holds what the comparison must satisfy, and is interpreted for the
    built-in order, for keys of entries, for lexicographic comparison and for the ordering of expressions.
  \<^item> \<open>LambdaLoops\<close>: the loop combinators of \<^verbatim>\<open>common/lambda_loops.hpp\<close>, with a break as a flow value.
  \<^item> \<open>TruthTable\<close>: \<^verbatim>\<open>vn/sym/truth_table.cpp\<close>, a vector of cells indexed by bit vectors: cells, slices,
    extension, folding and the search for the best Karnaugh slice.
  \<^item> \<open>Result\<close>: \<^verbatim>\<open>vn/sym/result.cpp\<close>, what a symbol expression evaluates to: one link, none, a set or its
    complement, or a range of an ordering, and how ranges are expanded.
  \<^item> \<open>Expressions\<close>, \<open>Evaluation\<close>, \<open>ExpressionOrder\<close>: the classes of \<^verbatim>\<open>vn/sym\<close> as one datatype, their
    operands and required variables, their \<^verbatim>\<open>Evaluate\<close> methods, and the ordering by which expressions
    are kept in sets and maps (\<^verbatim>\<open>expression.cpp\<close>, \<^verbatim>\<open>common/orderable.cpp\<close>).
  \<^item> \<open>Predicates\<close>, \<open>Derivation\<close>: relationships, transitivity and solution methods of
    \<^verbatim>\<open>vn/sym/predicate_operators.cpp\<close> and \<^verbatim>\<open>symbol_operators.cpp\<close>, and what the solver derives from a pair
    of predicates.
  \<^item> \<open>PredicateTables\<close>: \<^verbatim>\<open>vn/sym/expression_analysis.cpp\<close> and \<^verbatim>\<open>truth_table_with_predicates.cpp\<close>.
  \<^item> \<open>SymSolver\<close> (definitions), \<open>PreSolving\<close>, \<open>Solving\<close>, \<open>Solutions\<close> (proofs): \<^verbatim>\<open>vn/sym/sym_solver.cpp\<close>.
  \<^item> \<open>Rewriters\<close>: \<^verbatim>\<open>vn/sym/rewriters.cpp\<close>, the tidied connectives and the clutch (\<^verbatim>\<open>clutch.cpp\<close>).
  \<^item> \<open>Csp\<close>, \<open>ReferenceSolver\<close>, \<open>Backjumping\<close>, \<open>Solver_Test\<close>: the constraint interface as a record of functions,
    the value selector, the two solvers as explicit state passing over their member variables, and the
    harness that checks one against the other. The locale \<open>solver_methods\<close> holds what the shared loop needs of
    the two virtual methods; both solvers interpret it.
  \<^item> \<open>SymbolicConstraint\<close>: the constraint that links the two halves.
  \<^item> \<open>Lacing\<close>: the ordering of categories. The passes of its sort are a partial function, the decision tree is
    built with fuel, the cache of category tests is threaded through. What the tests of nodes satisfy is \<open>node_laws\<close>.
  \<^item> \<open>Identity\<close>: serial numbers of nodes, numbers of tree pointers, and the comparisons of tree pointers and links
    that use them, over the states that construction, destruction and assignment reach (\<open>reach\<close>).
  \<^item> \<open>Relations\<close>: the category and simple comparison relations with their bounds, and the composition of lacing,
    relation and range expansion.
  \<^item> \<open>DepthFirst\<close>: the depth-first relation on the rows of the link and node tables. The reference is the comparison of
    the paths of two links from the root.
  \<^item> \<open>SimpleCompare\<close>: the comparison of program trees, with collections as sorted multisets. Its results are what
    \<open>node_laws\<close> asks of the comparison of nodes in \<open>Lacing\<close>.

  What the lemmas show. The helpers compute what they are named after. Slices of truth tables can be read
  back, folding takes the maximum, and the Karnaugh search is optimal. Evaluation is truth functional and
  depends on the required variables only; the ordering of expressions is a strict weak order. Derived
  relationships and predicates hold; pre-solving leaves a table that decides the expression; the Karnaugh
  map of a table is equivalent to it; a solution contains every value that satisfies the expression and,
  when no predicate had to be left out, only these; so what a constraint suggests loses no solution. The
  backtracking solver returns and finds exactly the solutions, and jumping back finds the same. Building a
  lacing ends, its ranges decide the categories of the nodes that a category represents, and expanding them
  yields the links to exactly the nodes of a category; nodes that inherit from two categories at once are
  shown to be missed. Serial numbers order live nodes and links totally, up to \<open>2 ^ 31\<close> constructions; the satellite
  numbers of a null tree pointer are shown to dangle. Climbing from two links gives the first difference of their
  paths, so the relation is a total order in which subtrees are intervals. The comparison of trees is a weak order
  and, without null pointers, finds the same trees up to the order of collections.

  Bounds and fuel. Integers are at their width where it matters: \<^verbatim>\<open>size_t\<close> differences are taken on 64-bit
  words, and sizes are bounded by \<open>2 ^ 62\<close> or \<open>2 ^ 63\<close> in the hypotheses. The solver's loop is a partial
  function whose result is proved to be there. The Karnaugh loop has fuel; one more than the number of
  cells of the table is enough, since every round removes a cell. The fuel of the decision tree is the number
  of ordinals, since every decision splits them. \<open>function\<close>s have termination proofs.

  Parameters. Code outside the model is an argument with named hypotheses: the ordering of addresses
  (\<open>address\<close>, \<open>slice_address\<close>: objects that live have different addresses, \<open>inj\<close>), the comparison of nodes
  and of depth-first positions (\<open>three_way\<close>), the archetypes of patterns and the ranges of categories.

  Not modelled, with the reasons in the manifest: the agents that make the expressions, the tree database,
  the engine around the solvers, the C++ front end and back ends, rendering and tracing. Reports of a solver
  are a list in its state instead of calls to a function. Copies of shared pointers are values, which is
  faithful since the modelled code does not change an object after sharing it, except by
  \<^verbatim>\<open>SetForceExpression\<close>, which is a function from expressions in the evaluation kit.
\<close>

end
